(* ===== verification/Sqlite_Prelude.thy ===== *)
theory Sqlite_Prelude
  imports Main "HOL-Library.Word"
begin

text \<open>
  Shared vocabulary of the development.

  The machine integers of SQLite (\<^verbatim>\<open>u8\<close>, \<^verbatim>\<open>u16\<close>, \<^verbatim>\<open>u32\<close>, \<^verbatim>\<open>u64\<close> of sqliteInt.h) are words of
  their width; \<^verbatim>\<open>i64\<close> and \<^verbatim>\<open>int\<close> values are \<open>int\<close> with the range written out where the code
  depends on it.  A pointer into a byte buffer is the memory seen from that pointer, a
  function from offsets to bytes: a write past a buffer is then visible as a change at an
  offset that a frame lemma says is kept.  A zero-terminated string is the list of its bytes
  before the terminator, and reading at the end gives the terminator.

  Allocations may fail.  The outcome of the allocations a call makes is an explicit input, a
  list with one truth value per allocation still to come (\<open>True\<close>: it succeeds); after the
  end of the list every allocation succeeds.
\<close>

unbundle bit_operations_syntax

type_synonym u8 = "8 word"
type_synonym u16 = "16 word"
type_synonym u32 = "32 word"
type_synonym u64 = "64 word"

type_synonym mem = "nat \<Rightarrow> u8"
type_synonym cstring = "u8 list"
type_synonym mallocs = "bool list"

named_theorems word_bits \<open>bit-level descriptions of the word operations of the model\<close>
named_theorems frame \<open>what an operation leaves unchanged\<close>
named_theorems inv_intro \<open>preservation of the components' invariants\<close>

subsection \<open>Result codes\<close>

datatype rc = SQLITE_OK | SQLITE_NOMEM | SQLITE_CORRUPT | SQLITE_IOERR | SQLITE_IOERR_SHORT_READ
  | SQLITE_IOERR_NOMEM | SQLITE_FULL | SQLITE_BUSY | SQLITE_CANTOPEN | SQLITE_PROTOCOL

subsection \<open>Allocation outcomes\<close>

definition malloc_ok :: "mallocs \<Rightarrow> bool" where
  "malloc_ok ms = (case ms of [] \<Rightarrow> True | b # _ \<Rightarrow> b)"

definition malloc_rest :: "mallocs \<Rightarrow> mallocs" where
  "malloc_rest ms = (case ms of [] \<Rightarrow> [] | _ # bs \<Rightarrow> bs)"

lemma malloc_simps [simp]:
  "malloc_ok []" "malloc_rest [] = []"
  "malloc_ok (b # bs) = b" "malloc_rest (b # bs) = bs"
  by (simp_all add: malloc_ok_def malloc_rest_def)

subsection \<open>Byte memory\<close>

definition ptr :: "mem \<Rightarrow> nat \<Rightarrow> mem" where
  "ptr p k = (\<lambda>i. p (k + i))"

definition blit :: "mem \<Rightarrow> nat \<Rightarrow> mem \<Rightarrow> mem" where
  "blit p k q = (\<lambda>i. if i < k then p i else q (i - k))"

definition memcpy :: "mem \<Rightarrow> nat \<Rightarrow> u8 list \<Rightarrow> mem" where
  "memcpy p k xs = (\<lambda>i. if k \<le> i \<and> i < k + length xs then xs ! (i - k) else p i)"

lemma ptr_0 [simp]: "ptr p 0 = p"
  by (simp add: ptr_def)

lemma ptr_ptr [simp]: "ptr (ptr p a) b = ptr p (a + b)"
  by (simp add: ptr_def add.assoc)

lemma ptr_apply: "ptr p k i = p (k + i)"
  by (simp add: ptr_def)

lemma ptr_blit [simp]: "ptr (blit p k q) k = q"
  by (simp add: ptr_def blit_def)

lemma blit_before [frame]: "i < k \<Longrightarrow> blit p k q i = p i"
  by (simp add: blit_def)

lemma blit_after [frame]: "k \<le> i \<Longrightarrow> blit p k q i = q (i - k)"
  by (simp add: blit_def)

lemma memcpy_outside [frame]: "i < k \<or> k + length xs \<le> i \<Longrightarrow> memcpy p k xs i = p i"
  by (auto simp: memcpy_def)

lemma memcpy_inside: "i < length xs \<Longrightarrow> memcpy p k xs (k + i) = xs ! i"
  by (simp add: memcpy_def)

subsection \<open>Words\<close>

lemma unat_ucast_up:
  "LENGTH('b) \<le> LENGTH('a) \<Longrightarrow> unat (ucast (x :: 'b::len word) :: 'a::len word) = unat x"
proof -
  assume le: "LENGTH('b) \<le> LENGTH('a)"
  have "unat x < 2 ^ LENGTH('b)" by (rule unsigned_less)
  also have "\<dots> \<le> 2 ^ LENGTH('a)" using le by simp
  finally show ?thesis by (simp add: unsigned_ucast_eq take_bit_nat_eq_self)
qed

lemma unat_u8_less [simp]: "unat (x :: u8) < 256"
  using unsigned_less [of x] by simp

lemma unat_u32_less [simp]: "unat (x :: u32) < 4294967296"
  using unsigned_less [of x] by simp

lemma push_drop_mask: "push_bit n (drop_bit n w) OR (w AND mask n) = (w :: 'a::len word)"
  by (rule bit_word_eqI) (auto simp: bit_simps)

lemma bit_word_eq_upt:
  "list_all (\<lambda>n. bit v n = bit w n) [0..<LENGTH('a)] \<Longrightarrow> v = (w :: 'a::len word)"
  by (rule bit_word_eqI) (auto simp: list_all_iff)

lemma upt_8: "[0..<8] = [0, 1, 2, 3, 4, 5, 6, 7]"
  by (simp add: upt_rec)

lemma upt_16: "[0..<16] = [0, 1, 2, 3, 4, 5, 6, 7, 8, 9, 10, 11, 12, 13, 14, 15]"
  by (simp add: upt_rec)

lemma upt_32: "[0..<32] =
    [0, 1, 2, 3, 4, 5, 6, 7, 8, 9, 10, 11, 12, 13, 14, 15, 16, 17, 18, 19, 20, 21,
     22, 23, 24, 25, 26, 27, 28, 29, 30, 31]"
  by (simp add: upt_rec)

lemma upt_64: "[0..<64] =
    [0, 1, 2, 3, 4, 5, 6, 7, 8, 9, 10, 11, 12, 13, 14, 15, 16, 17, 18, 19, 20, 21,
     22, 23, 24, 25, 26, 27, 28, 29, 30, 31, 32, 33, 34, 35, 36, 37, 38, 39, 40, 41,
     42, 43, 44, 45, 46, 47, 48, 49, 50, 51, 52, 53, 54, 55, 56, 57, 58, 59, 60, 61,
     62, 63]"
  by (simp add: upt_rec)

lemma bit_beyond [simp]: "LENGTH('a) \<le> n \<Longrightarrow> \<not> bit (x :: 'a::len word) n"
  using bit_imp_le_length [of x n] by auto

lemma drop_bit_zero_iff: "drop_bit n v = (0 :: 'a::len word) \<longleftrightarrow> unat v < 2 ^ n"
proof -
  have "drop_bit n v = 0 \<longleftrightarrow> unat (drop_bit n v) = 0"
    by (simp add: unsigned_eq_0_iff)
  also have "\<dots> \<longleftrightarrow> unat v div 2 ^ n = 0"
    by (simp add: unat_drop_bit_eq drop_bit_eq_div [where 'a = nat])
  finally show ?thesis by (simp add: div_eq_0_iff)
qed

lemma mask7_numeral: "(0x7f :: 'a::len word) = mask 7"
  by (simp add: mask_eq_exp_minus_1)

lemma unat_and_mask: "unat (x AND mask n) = unat x mod 2 ^ n"
proof -
  have "unat (x AND mask n) = unat (take_bit n x)" by (simp add: take_bit_eq_mask)
  also have "\<dots> = take_bit n (unat x)" by (simp only: unsigned_take_bit_eq)
  finally show ?thesis by (simp add: take_bit_eq_mod)
qed

lemma unat_drop_bit_div: "unat (drop_bit n x) = unat x div 2 ^ n"
  by (simp add: unat_drop_bit_eq drop_bit_eq_div [where 'a = nat])

subsection \<open>Simulation\<close>

text \<open>
  The interface by which a component refines its specification: every operation that the
  specification allows keeps the concrete and the abstract state related.  Sequences of
  operations then do as well.
\<close>

fun allowed_run :: "('op \<Rightarrow> 'a \<Rightarrow> bool) \<Rightarrow> ('op \<Rightarrow> 'a \<Rightarrow> 'a) \<Rightarrow> 'op list \<Rightarrow> 'a \<Rightarrow> bool" where
  "allowed_run ok spec [] a = True"
| "allowed_run ok spec (op # ops) a = (ok op a \<and> allowed_run ok spec ops (spec op a))"

locale simulation =
  fixes exec :: "'op \<Rightarrow> 's \<Rightarrow> 's" and spec :: "'op \<Rightarrow> 'a \<Rightarrow> 'a"
    and ok :: "'op \<Rightarrow> 'a \<Rightarrow> bool" and repr :: "'s \<Rightarrow> 'a \<Rightarrow> bool"
  assumes sim: "repr s a \<Longrightarrow> ok op a \<Longrightarrow> repr (exec op s) (spec op a)"
begin

lemma run: "repr s a \<Longrightarrow> allowed_run ok spec ops a \<Longrightarrow> repr (fold exec ops s) (fold spec ops a)"
  by (induction ops arbitrary: s a) (simp_all add: sim)

lemma run_keeps:
  assumes "\<And>op a. ok op a \<Longrightarrow> P a \<Longrightarrow> P (spec op a)"
  shows "allowed_run ok spec ops a \<Longrightarrow> P a \<Longrightarrow> P (fold spec ops a)"
  by (induction ops arbitrary: a) (simp_all add: assms)

end

end
