(* ===== verification/Byte_Codec.thy ===== *)
theory Byte_Codec
  imports Sqlite_Prelude
begin

text \<open>
  The interface of the integer encodings SQLite lays out in pages, records, journals and
  WAL frames.  A codec reads a value at a pointer, returning how many bytes it used, and
  writes a value at a pointer, returning how many bytes it wrote.  The laws are the ones the
  page, record and log code relies on: what was written is read back, a write touches only
  the bytes it reports, and a read looks only at the bytes it reports.
\<close>

definition put_at :: "(mem \<Rightarrow> 'a \<Rightarrow> mem \<times> nat) \<Rightarrow> nat \<Rightarrow> 'a \<Rightarrow> mem \<Rightarrow> mem" where
  "put_at put k v p = blit p k (fst (put (ptr p k) v))"

text \<open>Consecutive fields of one encoding: written from offset \<open>k\<close> on, and read back.\<close>

fun put_seq :: "(mem \<Rightarrow> 'a \<Rightarrow> mem \<times> nat) \<Rightarrow> nat \<Rightarrow> 'a list \<Rightarrow> mem \<Rightarrow> mem \<times> nat" where
  "put_seq put k [] p = (p, k)"
| "put_seq put k (v # vs) p =
     put_seq put (k + snd (put (ptr p k) v)) vs (put_at put k v p)"

fun get_seq :: "(mem \<Rightarrow> nat \<times> 'a) \<Rightarrow> nat \<Rightarrow> nat \<Rightarrow> mem \<Rightarrow> 'a list \<times> nat" where
  "get_seq get k 0 p = ([], k)"
| "get_seq get k (Suc m) p =
     (case get (ptr p k) of (n, v) \<Rightarrow>
        case get_seq get (k + n) m p of (vs, k') \<Rightarrow> (v # vs, k'))"

locale byte_codec =
  fixes get :: "mem \<Rightarrow> nat \<times> 'a"
    and put :: "mem \<Rightarrow> 'a \<Rightarrow> mem \<times> nat"
    and ok :: "'a \<Rightarrow> bool"
  assumes get_put: "ok v \<Longrightarrow> get (fst (put p v)) = (snd (put p v), v)"
    and put_frame: "snd (put p v) \<le> i \<Longrightarrow> fst (put p v) i = p i"
    and get_local: "get p = (n, v) \<Longrightarrow> (\<And>i. i < n \<Longrightarrow> q i = p i) \<Longrightarrow> get q = (n, v)"
begin

lemma put_at_frame: "i < k \<or> k + snd (put (ptr p k) v) \<le> i \<Longrightarrow> put_at put k v p i = p i"
  by (auto simp: put_at_def blit_def put_frame ptr_apply)

lemma get_put_at: "ok v \<Longrightarrow> get (ptr (put_at put k v p) k) = (snd (put (ptr p k) v), v)"
  by (simp add: put_at_def get_put)

lemma get_put_other:
  assumes "get (ptr p j) = (n, w)" and "j + n \<le> k \<or> k + snd (put (ptr p k) v) \<le> j"
  shows "get (ptr (put_at put k v p) j) = (n, w)"
proof (rule get_local [OF assms(1)])
  fix i assume "i < n"
  with assms(2) show "ptr (put_at put k v p) j i = ptr p j i"
    by (auto simp: ptr_apply intro!: put_at_frame)
qed

lemma put_seq_mono: "k \<le> snd (put_seq put k vs p)"
  by (induction put k vs p rule: put_seq.induct) auto

lemma put_seq_before: "i < k \<Longrightarrow> fst (put_seq put k vs p) i = p i"
proof (induction vs arbitrary: k p)
  case (Cons v vs)
  then have "fst (put_seq put (k + snd (put (ptr p k) v)) vs (put_at put k v p)) i
    = put_at put k v p i" by simp
  with Cons.prems show ?case by (simp add: put_at_frame)
qed simp

lemma put_seq_after: "snd (put_seq put k vs p) \<le> i \<Longrightarrow> fst (put_seq put k vs p) i = p i"
proof (induction vs arbitrary: k p)
  case (Cons v vs)
  let ?k = "k + snd (put (ptr p k) v)"
  from Cons.prems have "?k \<le> i"
    using put_seq_mono [of ?k vs "put_at put k v p"] by simp
  with Cons show ?case by (simp add: put_at_frame)
qed simp

theorem get_put_seq:
  "list_all ok vs \<Longrightarrow>
   get_seq get k (length vs) (fst (put_seq put k vs p)) = (vs, snd (put_seq put k vs p))"
proof (induction vs arbitrary: k p)
  case (Cons v vs)
  let ?n = "snd (put (ptr p k) v)" and ?q = "put_at put k v p"
  let ?r = "fst (put_seq put (k + ?n) vs ?q)"
  have "get (ptr ?q k) = (?n, v)"
    using Cons.prems by (simp add: get_put_at)
  then have "get (ptr ?r k) = (?n, v)"
    by (rule get_local) (simp add: ptr_apply put_seq_before)
  moreover have "get_seq get (k + ?n) (length vs) ?r = (vs, snd (put_seq put (k + ?n) vs ?q))"
    using Cons by simp
  ultimately show ?case by simp
qed simp

lemma get_seq_local:
  "get_seq get k m p = (vs, k') \<Longrightarrow> (\<And>i. k \<le> i \<Longrightarrow> i < k' \<Longrightarrow> q i = p i) \<Longrightarrow>
   k \<le> k' \<and> get_seq get k m q = (vs, k')"
proof (induction m arbitrary: k vs)
  case (Suc m)
  obtain n v ws where g: "get (ptr p k) = (n, v)" and s: "get_seq get (k + n) m p = (ws, k')"
    and vs: "vs = v # ws"
    using Suc.prems(1) by (auto split: prod.splits)
  have le: "k + n \<le> k'"
    using Suc.IH [OF s] Suc.prems(2) by simp
  have "get (ptr q k) = (n, v)"
    using g by (rule get_local) (use le Suc.prems(2) in \<open>simp add: ptr_apply\<close>)
  moreover have "get_seq get (k + n) m q = (ws, k')"
    using Suc.IH [OF s] Suc.prems(2) by simp
  ultimately show ?case using le vs by simp
qed simp

end

end
