(* ===== verification/Varint.thy ===== *)
theory Varint
  imports Byte_Codec
begin

text \<open>
  The variable-length and fixed-length big-endian integers of util.c: \<open>sqlite3PutVarint\<close>,
  \<open>sqlite3GetVarint\<close>, \<open>sqlite3GetVarint32\<close>, \<open>sqlite3VarintLen\<close>, \<open>sqlite3Get4byte\<close>,
  \<open>sqlite3Put4byte\<close> and the two-byte macros of btreeInt.h.  The decoder is the unrolled one
  of the source, working on three 32-bit accumulators; it is proved equal to the format
  description in the comment of util.c (\<open>varint_ref\<close>: seven bits per byte with a continuation
  bit, eight bits in the ninth byte), and the encoder is proved to be its inverse.  All
  three pairs are instances of the codec interface.
\<close>

subsection \<open>Varints: the code\<close>

abbreviation SLOT_2_0 :: u32 where "SLOT_2_0 \<equiv> 0x001fc07f"
abbreviation SLOT_4_2_0 :: u32 where "SLOT_4_2_0 \<equiv> 0xf01fc07f"

text \<open>The loop \<^verbatim>\<open>for(i=7; i>=0; i--)\<close> of the nine-byte case.\<close>

fun putVarint64_loop9 :: "nat \<Rightarrow> mem \<Rightarrow> u64 \<Rightarrow> mem" where
  "putVarint64_loop9 0 p v = p"
| "putVarint64_loop9 (Suc i) p v =
     putVarint64_loop9 i (p(i := ucast ((v AND 0x7f) OR 0x80))) (drop_bit 7 v)"

lemma unat_drop_bit_less:
  "drop_bit 7 v \<noteq> (0 :: u64) \<Longrightarrow> unat (drop_bit 7 v) < unat v"
proof -
  assume ne: "drop_bit 7 v \<noteq> 0"
  have "unat (drop_bit 7 v) = unat v div 128"
    by (simp add: unat_drop_bit_eq drop_bit_eq_div [where 'a = nat])
  moreover have "0 < unat v"
    using ne by (auto simp: unat_gt_0)
  ultimately show ?thesis by simp
qed

text \<open>The \<^verbatim>\<open>do ... while( v!=0 )\<close> loop that fills \<^verbatim>\<open>buf[]\<close>, lowest seven bits first.\<close>

function putVarint64_buf :: "u64 \<Rightarrow> u8 list" where
  "putVarint64_buf v =
     (let b = ucast ((v AND 0x7f) OR 0x80); v' = drop_bit 7 v
      in if v' \<noteq> 0 then b # putVarint64_buf v' else [b])"
  by pat_completeness auto
termination
  by (relation "measure unat") (auto simp: unat_drop_bit_less)

declare putVarint64_buf.simps [simp del]

definition putVarint64 :: "mem \<Rightarrow> u64 \<Rightarrow> mem \<times> nat" where
  "putVarint64 p v =
     (if v AND 0xff00000000000000 \<noteq> 0 then
        (putVarint64_loop9 8 (p(8 := ucast v)) (drop_bit 8 v), 9)
      else
        let buf = putVarint64_buf v; n = length buf;
            buf = buf[0 := (buf ! 0) AND 0x7f]
        in (memcpy p 0 (rev buf), n))"

definition sqlite3PutVarint :: "mem \<Rightarrow> u64 \<Rightarrow> mem \<times> nat" where
  "sqlite3PutVarint p v =
     (if v \<le> 0x7f then (p(0 := ucast (v AND 0x7f)), 1)
      else if v \<le> 0x3fff then
        (p(0 := ucast ((drop_bit 7 v AND 0x7f) OR 0x80), 1 := ucast (v AND 0x7f)), 2)
      else putVarint64 p v)"

definition sqlite3GetVarint :: "mem \<Rightarrow> nat \<times> u64" where
  "sqlite3GetVarint p =
   (if 0 \<le> sint (p 0) then (1, ucast (p 0))
    else if 0 \<le> sint (p 1) then
      (2, ucast (push_bit 7 (ucast (p 0 AND 0x7f) :: u32) OR ucast (p 1)))
    else
    let a = push_bit 14 (ucast (p 0) :: u32); b = ucast (p 1) :: u32;
        a = a OR ucast (p 2) in
    if a AND 0x80 = 0 then
      let a = a AND SLOT_2_0; b = b AND 0x7f; b = push_bit 7 b; a = a OR b
      in (3, ucast a)
    else
    let a = a AND SLOT_2_0; b = push_bit 14 b; b = b OR ucast (p 3) in
    if b AND 0x80 = 0 then
      let b = b AND SLOT_2_0; a = push_bit 7 a; a = a OR b
      in (4, ucast a)
    else
    let b = b AND SLOT_2_0; s = a; a = push_bit 14 a; a = a OR ucast (p 4) in
    if a AND 0x80 = 0 then
      let b = push_bit 7 b; a = a OR b; s = drop_bit 18 s
      in (5, push_bit 32 (ucast s) OR ucast a)
    else
    let s = push_bit 7 s; s = s OR b; b = push_bit 14 b; b = b OR ucast (p 5) in
    if b AND 0x80 = 0 then
      let a = a AND SLOT_2_0; a = push_bit 7 a; a = a OR b; s = drop_bit 18 s
      in (6, push_bit 32 (ucast s) OR ucast a)
    else
    let a = push_bit 14 a; a = a OR ucast (p 6) in
    if a AND 0x80 = 0 then
      let a = a AND SLOT_4_2_0; b = b AND SLOT_2_0; b = push_bit 7 b; a = a OR b;
          s = drop_bit 11 s
      in (7, push_bit 32 (ucast s) OR ucast a)
    else
    let a = a AND SLOT_2_0; b = push_bit 14 b; b = b OR ucast (p 7) in
    if b AND 0x80 = 0 then
      let b = b AND SLOT_4_2_0; a = push_bit 7 a; a = a OR b; s = drop_bit 4 s
      in (8, push_bit 32 (ucast s) OR ucast a)
    else
    let a = push_bit 15 a; a = a OR ucast (p 8);
        b = b AND SLOT_2_0; b = push_bit 8 b; a = a OR b;
        s = push_bit 4 s; b = ucast (p 4); b = b AND 0x7f; b = drop_bit 3 b; s = s OR b
    in (9, push_bit 32 (ucast s) OR ucast a))"

text \<open>
  The caller has handled the single-byte case (the \<^verbatim>\<open>getVarint32\<close> macro), as the assertion
  at the head of the function says.
\<close>

definition sqlite3GetVarint32 :: "mem \<Rightarrow> nat \<times> u32" where
  "sqlite3GetVarint32 p =
     (if p 1 AND 0x80 = 0 then
        (2, push_bit 7 (ucast (p 0 AND 0x7f)) OR ucast (p 1))
      else if p 2 AND 0x80 = 0 then
        (3, push_bit 14 (ucast (p 0 AND 0x7f)) OR push_bit 7 (ucast (p 1 AND 0x7f)) OR ucast (p 2))
      else case sqlite3GetVarint p of (n, v64) \<Rightarrow>
        if v64 AND 0xffffffff \<noteq> v64 then (n, 0xffffffff) else (n, ucast v64))"

definition getVarint32 :: "mem \<Rightarrow> nat \<times> u32" where
  "getVarint32 p = (if p 0 < 0x80 then (1, ucast (p 0)) else sqlite3GetVarint32 p)"

text \<open>The loop \<^verbatim>\<open>for(i=1; (v >>= 7)!=0; i++)\<close>, returning the final \<^verbatim>\<open>i\<close>.\<close>

function sqlite3VarintLen_loop :: "nat \<Rightarrow> u64 \<Rightarrow> nat" where
  "sqlite3VarintLen_loop i v =
     (let v' = drop_bit 7 v in if v' \<noteq> 0 then sqlite3VarintLen_loop (i + 1) v' else i)"
  by pat_completeness auto
termination
  by (relation "measure (\<lambda>(i, v). unat v)") (auto simp: unat_drop_bit_less)

declare sqlite3VarintLen_loop.simps [simp del]

definition sqlite3VarintLen :: "u64 \<Rightarrow> nat" where
  "sqlite3VarintLen v = sqlite3VarintLen_loop 1 v"

subsection \<open>Fixed-width big-endian integers\<close>

definition get2byte :: "mem \<Rightarrow> u16" where
  "get2byte p = push_bit 8 (ucast (p 0)) OR ucast (p 1)"

definition put2byte :: "mem \<Rightarrow> u16 \<Rightarrow> mem" where
  "put2byte p v = p(0 := ucast (drop_bit 8 v), 1 := ucast v)"

definition sqlite3Get4byte :: "mem \<Rightarrow> u32" where
  "sqlite3Get4byte p =
     push_bit 24 (ucast (p 0)) OR push_bit 16 (ucast (p 1)) OR push_bit 8 (ucast (p 2)) OR ucast (p 3)"

definition sqlite3Put4byte :: "mem \<Rightarrow> u32 \<Rightarrow> mem" where
  "sqlite3Put4byte p v =
     p(0 := ucast (drop_bit 24 v), 1 := ucast (drop_bit 16 v), 2 := ucast (drop_bit 8 v),
       3 := ucast v)"

subsection \<open>The format, and the decoder against it\<close>

text \<open>
  The comment of util.c: bytes with the high bit set carry seven bits and continue, the first
  byte without it ends the number, and a ninth byte carries eight bits and ends it.
\<close>

function varint_ref :: "mem \<Rightarrow> nat \<Rightarrow> u64 \<Rightarrow> nat \<times> u64" where
  "varint_ref p i acc =
    (if i \<ge> 8 then (9, push_bit 8 acc OR ucast (p i))
     else let acc' = push_bit 7 acc OR (ucast (p i) AND 0x7f) in
       if bit (p i) 7 then varint_ref p (i + 1) acc' else (i + 1, acc'))"
  by pat_completeness auto
termination by (relation "measure (\<lambda>(p, i, acc). 8 - i)") auto

declare varint_ref.simps [simp del]

lemma sint_u8_nonneg: "0 \<le> sint (x :: u8) \<longleftrightarrow> \<not> bit x 7"
  using bit_last_iff [of x] by auto

lemma and_0x80_u32: "(a AND 0x80 = (0::u32)) \<longleftrightarrow> \<not> bit a 7"
  using and_exp_eq_0_iff_not_bit [of a 7] by simp

lemma and_0x80_u8: "(a AND 0x80 = (0::u8)) \<longleftrightarrow> \<not> bit a 7"
  using and_exp_eq_0_iff_not_bit [of a 7] by simp

lemma slot_2_0_bits: "SLOT_2_0 = push_bit 14 (mask 7) OR mask 7"
  by (simp add: mask_eq_exp_minus_1)

lemma slot_4_2_0_bits: "SLOT_4_2_0 = push_bit 28 (mask 4) OR push_bit 14 (mask 7) OR mask 7"
  by (simp add: mask_eq_exp_minus_1)

lemmas varint_bits = slot_2_0_bits slot_4_2_0_bits mask7_numeral bit_simps upt_64 disj_ac

lemma first_failure:
  obtains "\<not> P 0" | "P 0" "\<not> P 1" | "P 0" "P 1" "\<not> P 2"
  | "P 0" "P 1" "P 2" "\<not> P 3" | "P 0" "P 1" "P 2" "P 3" "\<not> P 4"
  | "P 0" "P 1" "P 2" "P 3" "P 4" "\<not> P 5"
  | "P 0" "P 1" "P 2" "P 3" "P 4" "P 5" "\<not> P 6"
  | "P 0" "P 1" "P 2" "P 3" "P 4" "P 5" "P 6" "\<not> P 7"
  | "P 0" "P 1" "P 2" "P 3" "P 4" "P 5" "P 6" "P (7::nat)"
  by blast

lemma GetVarint_eq_ref: "sqlite3GetVarint p = varint_ref p 0 0"
proof (rule first_failure [of "\<lambda>i. bit (p i) 7"])
qed (simp add: sqlite3GetVarint_def sint_u8_nonneg and_0x80_u32 Let_def bit_simps
    varint_ref.simps [of p] del: One_nat_def,
  (rule bit_word_eq_upt, simp add: varint_bits)?)+

subsection \<open>What the encoder writes\<close>

lemma putVarint64_buf_ne [simp]: "putVarint64_buf v \<noteq> []"
  by (subst putVarint64_buf.simps) (simp add: Let_def)

lemma putVarint64_buf_nth:
  "k < length (putVarint64_buf v) \<Longrightarrow>
   putVarint64_buf v ! k = ucast ((drop_bit (7 * k) v AND 0x7f) OR 0x80)"
proof (induction v arbitrary: k rule: putVarint64_buf.induct)
  case (1 v)
  show ?case
  proof (cases k)
    case 0
    then show ?thesis by (subst putVarint64_buf.simps) (simp add: Let_def)
  next
    case (Suc j)
    with "1.prems" have ne: "drop_bit 7 v \<noteq> 0" and j: "j < length (putVarint64_buf (drop_bit 7 v))"
      by (auto simp: putVarint64_buf.simps [of v] Let_def split: if_splits)
    with "1.IH" [of _ "drop_bit 7 v" j] show ?thesis
      by (simp add: putVarint64_buf.simps [of v] Let_def Suc add.commute)
  qed
qed

lemma putVarint64_buf_len:
  "drop_bit (7 * length (putVarint64_buf v)) v = 0 \<and>
   (1 < length (putVarint64_buf v) \<longrightarrow> drop_bit (7 * (length (putVarint64_buf v) - 1)) v \<noteq> 0)"
proof (induction v rule: putVarint64_buf.induct)
  case (1 v)
  show ?case
  proof (cases "drop_bit 7 v = 0")
    case True
    then show ?thesis by (simp add: putVarint64_buf.simps [of v] Let_def)
  next
    case False
    let ?w = "drop_bit 7 v"
    let ?n = "length (putVarint64_buf ?w)"
    have n: "length (putVarint64_buf v) = Suc ?n" "0 < ?n"
      using False by (simp_all add: putVarint64_buf.simps [of v] Let_def)
    have IH: "drop_bit (7 * ?n) ?w = 0" "1 < ?n \<longrightarrow> drop_bit (7 * (?n - 1)) ?w \<noteq> 0"
      using "1.IH" False by auto
    have "drop_bit (7 * ?n) v \<noteq> 0"
    proof (cases "?n = 1")
      case True
      with False show ?thesis by simp
    next
      case ne: False
      with n(2) have "1 < ?n" by linarith
      with IH(2) have "drop_bit (7 * (?n - 1) + 7) v \<noteq> 0" by simp
      moreover have "7 * (?n - 1) + 7 = 7 * ?n" using n by (cases ?n) auto
      ultimately show ?thesis by simp
    qed
    with IH(1) n show ?thesis by (simp add: add.commute)
  qed
qed


abbreviation cont_byte :: "u64 \<Rightarrow> u8" where
  "cont_byte w \<equiv> ucast ((w AND 0x7f) OR 0x80)"

lemma cont_byte_bits:
  "bit (cont_byte w) 7"
  "ucast (cont_byte w) AND 0x7f = (w AND 0x7f)"
  by (simp_all add: bit_simps, rule bit_word_eq_upt, simp add: upt_64 bit_simps)

lemma last_byte_bits:
  "\<not> bit (ucast (w AND 0x7f :: u64) :: u8) 7"
  "ucast (ucast (w AND 0x7f :: u64) :: u8) AND 0x7f = (w AND 0x7f)"
  by (simp_all add: bit_simps, rule bit_word_eq_upt, simp add: upt_64 bit_simps)

lemma push7_drop7: "push_bit 7 (drop_bit 7 w) OR (w AND 0x7f) = (w :: u64)"
  using push_drop_mask [of 7 w] by (simp add: mask7_numeral)

lemma cont_byte_low7: "cont_byte w AND 0x7f = ucast (w AND 0x7f)"
  by (rule bit_word_eq_upt) (simp add: upt_8 bit_simps)

text \<open>Reading continuation bytes shifts the accumulator along the value being encoded.\<close>

lemma varint_ref_cont:
  assumes "\<And>j. i \<le> j \<Longrightarrow> j < m \<Longrightarrow> q j = cont_byte (drop_bit (7 * (m - 1 - j)) w)"
    and "i \<le> m" and "m \<le> 8"
  shows "varint_ref q i (drop_bit (7 * (m - i)) w) = varint_ref q m w"
  using assms(2,1)
proof (induction i rule: inc_induct)
  case base
  then show ?case by simp
next
  case (step i)
  let ?w = "drop_bit (7 * (m - Suc i)) w"
  have shift: "drop_bit (7 * (m - i)) w = drop_bit 7 ?w"
    using step.hyps by (simp add: Suc_diff_Suc [symmetric] algebra_simps)
  have q: "q i = cont_byte ?w"
    using step.prems [of i] step.hyps by simp
  have "push_bit 7 (drop_bit 7 ?w) OR (?w AND 0x7f) = ?w"
    by (rule push7_drop7)
  then have "varint_ref q i (drop_bit 7 ?w) = varint_ref q (Suc i) ?w"
    using step.hyps assms(3)
    by (simp add: varint_ref.simps [of q i] q Let_def cont_byte_bits)
  then show ?case
    using step.IH step.prems shift by simp
qed

lemma varint_ref_last:
  assumes "q i = ucast (v AND 0x7f)" and "i < 8"
  shows "varint_ref q i (drop_bit 7 v) = (Suc i, v)"
  using assms by (subst varint_ref.simps) (simp add: last_byte_bits Let_def push7_drop7)

lemma putVarint64_loop9_nth:
  "putVarint64_loop9 k p v j =
     (if j < k then cont_byte (drop_bit (7 * (k - 1 - j)) v) else p j)"
proof (induction k arbitrary: p v)
  case (Suc k)
  have "7 * (k - Suc j) + 7 = 7 * (k - j)" if "j < k"
    using that by simp
  then show ?case
    by (simp add: Suc less_Suc_eq)
qed simp

lemma high_byte_zero_iff: "v AND 0xff00000000000000 = 0 \<longleftrightarrow> drop_bit 56 v = (0 :: u64)"
proof -
  have "v AND 0xff00000000000000 = push_bit 56 (drop_bit 56 v)"
    by (rule bit_word_eq_upt) (simp add: upt_64 bit_simps)
  moreover have "drop_bit 56 (push_bit 56 (drop_bit 56 v)) = drop_bit 56 v"
    by (rule bit_word_eq_upt) (simp add: upt_64 bit_simps)
  ultimately show ?thesis by (metis drop_bit_of_0 push_bit_of_0)
qed

lemma PutVarint_len_le8:
  assumes "drop_bit 56 v = (0 :: u64)"
  shows "length (putVarint64_buf v) \<le> 8"
proof (rule ccontr)
  assume "\<not> ?thesis"
  then have gt: "8 < length (putVarint64_buf v)" by simp
  then have "drop_bit (7 * (length (putVarint64_buf v) - 1)) v \<noteq> 0"
    using putVarint64_buf_len [of v] by simp
  moreover have "drop_bit (7 * (length (putVarint64_buf v) - 1)) v = 0"
  proof -
    have "drop_bit (7 * (length (putVarint64_buf v) - 1)) v
        = drop_bit (7 * (length (putVarint64_buf v) - 1) - 56) (drop_bit 56 v)"
      using gt by simp
    with assms show ?thesis by simp
  qed
  ultimately show False by simp
qed

lemma putVarint64_9:
  assumes "drop_bit 56 v \<noteq> (0 :: u64)"
  shows "varint_ref (fst (putVarint64 p v)) 0 0 = (9, v)" and "snd (putVarint64 p v) = 9"
proof -
  let ?q = "fst (putVarint64 p v)"
  have eq: "putVarint64 p v = (putVarint64_loop9 8 (p(8 := ucast v)) (drop_bit 8 v), 9)"
    using assms by (simp add: putVarint64_def high_byte_zero_iff)
  have "drop_bit 64 v = 0" by (rule bit_word_eqI) (simp add: bit_simps)
  moreover have "varint_ref ?q 0 (drop_bit (7 * (8 - 0)) (drop_bit 8 v))
      = varint_ref ?q 8 (drop_bit 8 v)"
    by (rule varint_ref_cont) (simp_all add: eq putVarint64_loop9_nth)
  moreover have "varint_ref ?q 8 (drop_bit 8 v) = (9, v)"
  proof -
    have "push_bit 8 (drop_bit 8 v) OR ucast (ucast v :: u8) = v"
      by (rule bit_word_eq_upt) (simp add: upt_64 bit_simps)
    then show ?thesis
      by (subst varint_ref.simps) (simp add: eq putVarint64_loop9_nth)
  qed
  ultimately show "varint_ref ?q 0 0 = (9, v)" by simp
  show "snd (putVarint64 p v) = 9" by (simp add: eq)
qed

lemma putVarint64_short:
  assumes "drop_bit 56 v = (0 :: u64)"
  defines "n \<equiv> length (putVarint64_buf v)"
  shows "varint_ref (fst (putVarint64 p v)) 0 0 = (n, v)" and "snd (putVarint64 p v) = n"
proof -
  let ?q = "fst (putVarint64 p v)" and ?b = "putVarint64_buf v"
  have n: "0 < n" "n \<le> 8"
    using PutVarint_len_le8 [OF assms(1)] by (simp_all add: n_def)
  have eq: "putVarint64 p v = (memcpy p 0 (rev (?b[0 := ?b ! 0 AND 0x7f])), n)"
    using assms(1) by (simp add: putVarint64_def high_byte_zero_iff Let_def n_def)
  have cont: "?q j = cont_byte (drop_bit (7 * (n - 1 - 1 - j)) (drop_bit 7 v))"
    if "j < n - 1" for j
  proof -
    have "j < length ?b" using that by (simp add: n_def)
    with that have "?q j = ?b ! (n - 1 - j)"
      by (simp add: eq memcpy_def rev_nth n_def nth_list_update)
    moreover have "7 * (n - 1 - j) = 7 * (n - 1 - 1 - j) + 7"
      using that by (simp add: algebra_simps)
    ultimately show ?thesis
      using that by (simp add: putVarint64_buf_nth n_def)
  qed
  have last: "?q (n - 1) = ucast (v AND 0x7f)"
    using n by (simp add: eq memcpy_def rev_nth n_def putVarint64_buf_nth cont_byte_low7)
  have "drop_bit (7 * (n - 1)) (drop_bit 7 v) = 0"
  proof -
    have "7 * (n - 1) + 7 = 7 * n" using n by (cases n) auto
    then show ?thesis using putVarint64_buf_len [of v] by (simp add: n_def)
  qed
  then have "varint_ref ?q 0 0 = varint_ref ?q (n - 1) (drop_bit 7 v)"
    using varint_ref_cont [of 0 "n - 1" ?q "drop_bit 7 v"] cont n by simp
  also have "\<dots> = (n, v)"
    using varint_ref_last [of ?q "n - 1" v] last n by simp
  finally show "varint_ref ?q 0 0 = (n, v)" .
  show "snd (putVarint64 p v) = n" by (simp add: eq)
qed

subsection \<open>Round trip, lengths and the codec interface\<close>

lemma le_0x7f_iff: "v \<le> (0x7f :: u64) \<longleftrightarrow> drop_bit 7 v = 0"
  by (auto simp: word_le_nat_alt drop_bit_zero_iff)

lemma le_0x3fff_iff: "v \<le> (0x3fff :: u64) \<longleftrightarrow> drop_bit 14 v = 0"
  by (auto simp: word_le_nat_alt drop_bit_zero_iff)

lemma less_2_63_iff: "v < (0x8000000000000000 :: u64) \<longleftrightarrow> drop_bit 63 v = 0"
  by (auto simp: word_less_nat_alt drop_bit_zero_iff)

lemma buf_length_1_iff: "length (putVarint64_buf v) = 1 \<longleftrightarrow> drop_bit 7 v = 0"
  by (auto simp: putVarint64_buf.simps [of v] Let_def)

lemma buf_length_2_iff:
  "drop_bit 7 v \<noteq> 0 \<Longrightarrow> length (putVarint64_buf v) = 2 \<longleftrightarrow> drop_bit 14 v = 0"
  using buf_length_1_iff [of "drop_bit 7 v"] by (auto simp: putVarint64_buf.simps [of v] Let_def)

lemma PutVarint_ref:
  "varint_ref (fst (sqlite3PutVarint p v)) 0 0 = (snd (sqlite3PutVarint p v), v)"
proof -
  consider "drop_bit 7 v = 0" | "drop_bit 7 v \<noteq> 0" "drop_bit 14 v = 0"
    | "drop_bit 7 v \<noteq> 0" "drop_bit 14 v \<noteq> 0" by blast
  then show ?thesis
  proof cases
    case 1
    then show ?thesis
      using push7_drop7 [of v] last_byte_bits [of v]
      by (simp add: sqlite3PutVarint_def le_0x7f_iff varint_ref.simps [of _ 0] Let_def)
  next
    case 2
    let ?q = "p(0 := cont_byte (drop_bit 7 v), 1 := ucast (v AND 0x7f))"
    have "varint_ref ?q 0 (drop_bit (7 * (1 - 0)) (drop_bit 7 v)) = varint_ref ?q 1 (drop_bit 7 v)"
      by (rule varint_ref_cont) auto
    also have "\<dots> = (2, v)"
      using varint_ref_last [of ?q 1 v] by simp
    finally show ?thesis
      using 2 by (simp add: sqlite3PutVarint_def le_0x7f_iff le_0x3fff_iff)
  next
    case 3
    then show ?thesis
      using putVarint64_9 [of v p] putVarint64_short [of v p]
      by (cases "drop_bit 56 v = 0") (simp_all add: sqlite3PutVarint_def le_0x7f_iff le_0x3fff_iff)
  qed
qed

lemma PutVarint_len: "snd (sqlite3PutVarint p v) = min 9 (length (putVarint64_buf v))"
proof (cases "drop_bit 56 v = 0")
  case True
  have "snd (sqlite3PutVarint p v) = length (putVarint64_buf v)"
    using putVarint64_short(2) [OF True, of p] buf_length_1_iff [of v] buf_length_2_iff [of v]
    by (auto simp: sqlite3PutVarint_def le_0x7f_iff le_0x3fff_iff)
  with PutVarint_len_le8 [OF True] show ?thesis by simp
next
  case False
  have big: "drop_bit 7 v \<noteq> 0" "drop_bit 14 v \<noteq> 0"
    using False by (simp_all add: drop_bit_zero_iff)
  have "8 < length (putVarint64_buf v)"
  proof (rule ccontr)
    assume "\<not> ?thesis"
    then have "drop_bit 56 v
        = drop_bit (56 - 7 * length (putVarint64_buf v)) (drop_bit (7 * length (putVarint64_buf v)) v)"
      by simp
    with False putVarint64_buf_len [of v] show False by simp
  qed
  with big show ?thesis
    using putVarint64_9 [OF False, of p]
    by (simp add: sqlite3PutVarint_def le_0x7f_iff le_0x3fff_iff)
qed

lemma VarintLen_loop_buf:
  "sqlite3VarintLen_loop i v + 1 = i + length (putVarint64_buf v)"
proof (induction i v rule: sqlite3VarintLen_loop.induct)
  case (1 i v)
  then show ?case
    by (simp add: sqlite3VarintLen_loop.simps [of i v] putVarint64_buf.simps [of v] Let_def)
qed

lemma VarintLen_buf: "sqlite3VarintLen v = length (putVarint64_buf v)"
  using VarintLen_loop_buf [of 1 v] by (simp add: sqlite3VarintLen_def)

lemma buf_length_bounds: "1 \<le> length (putVarint64_buf v)" "length (putVarint64_buf v) \<le> 10"
proof -
  show "1 \<le> length (putVarint64_buf v)" by (simp add: Suc_leI)
  show "length (putVarint64_buf v) \<le> 10"
  proof (rule ccontr)
    assume "\<not> ?thesis"
    then have n: "10 < length (putVarint64_buf v)" by simp
    then have "drop_bit (7 * (length (putVarint64_buf v) - 1)) v \<noteq> 0"
      using putVarint64_buf_len [of v] by simp
    moreover have "drop_bit (7 * (length (putVarint64_buf v) - 1)) v = 0"
      by (rule bit_word_eqI) (use n in \<open>auto simp: bit_simps\<close>)
    ultimately show False by simp
  qed
qed

lemma buf_length_10_iff: "length (putVarint64_buf v) = 10 \<longleftrightarrow> drop_bit 63 v \<noteq> 0"
proof
  assume "length (putVarint64_buf v) = 10"
  then show "drop_bit 63 v \<noteq> 0" using putVarint64_buf_len [of v] by simp
next
  assume ne: "drop_bit 63 v \<noteq> 0"
  show "length (putVarint64_buf v) = 10"
  proof (rule ccontr)
    let ?n = "length (putVarint64_buf v)"
    assume "?n \<noteq> 10"
    with buf_length_bounds(2) [of v] have "7 * ?n \<le> 63" by simp
    then have "drop_bit 63 v = drop_bit (63 - 7 * ?n) (drop_bit (7 * ?n) v)" by simp
    with ne putVarint64_buf_len [of v] show False by simp
  qed
qed

lemma PutVarint_frame: "snd (sqlite3PutVarint p v) \<le> i \<Longrightarrow> fst (sqlite3PutVarint p v) i = p i"
  by (auto simp: sqlite3PutVarint_def putVarint64_def Let_def memcpy_outside
      putVarint64_loop9_nth split: if_splits)

lemma varint_ref_local:
  "varint_ref p i acc = (n, v) \<Longrightarrow> i \<le> 8 \<Longrightarrow> (\<And>j. j < n \<Longrightarrow> q j = p j) \<Longrightarrow>
   i < n \<and> varint_ref q i acc = (n, v)"
proof (induction p i acc rule: varint_ref.induct)
  case (1 p i acc)
  show ?case
  proof (cases "i \<ge> 8")
    case True
    then show ?thesis
      using "1.prems" varint_ref.simps [of p 8] varint_ref.simps [of q 8] by auto
  next
    case False
    let ?acc = "push_bit 7 acc OR (ucast (p i) AND 0x7f)"
    show ?thesis
    proof (cases "bit (p i) 7")
      case True
      then have "varint_ref p (i + 1) ?acc = (n, v)"
        using "1.prems"(1) False by (simp add: varint_ref.simps [of p i] Let_def)
      with "1.IH" [OF False refl True] "1.prems"(3) False
      have "i + 1 < n" "varint_ref q (i + 1) ?acc = (n, v)" by auto
      with True False "1.prems"(3) [of i] show ?thesis
        by (simp add: varint_ref.simps [of q i] Let_def)
    next
      case low: False
      then show ?thesis
        using "1.prems" False by (auto simp: varint_ref.simps [of _ i] Let_def)
    qed
  qed
qed

interpretation vc: byte_codec sqlite3GetVarint sqlite3PutVarint "\<lambda>_. True"
proof unfold_locales
  show "sqlite3GetVarint (fst (sqlite3PutVarint p v)) = (snd (sqlite3PutVarint p v), v)" for p v
    by (simp add: GetVarint_eq_ref PutVarint_ref)
next
  show "fst (sqlite3PutVarint p v) i = p i" if "snd (sqlite3PutVarint p v) \<le> i" for p v i
    using that by (rule PutVarint_frame)
next
  show "sqlite3GetVarint q = (n, v)"
    if "sqlite3GetVarint p = (n, v)" "\<And>i. i < n \<Longrightarrow> q i = p i" for p q n v
    using varint_ref_local [of p 0 0 n v q] that by (simp add: GetVarint_eq_ref)
qed

lemma put2byte_get2byte: "get2byte (put2byte p v) = v"
  unfolding get2byte_def put2byte_def
  by (rule bit_word_eq_upt) (simp add: upt_16 bit_simps)

lemma Put4byte_Get4byte: "sqlite3Get4byte (sqlite3Put4byte p v) = v"
  unfolding sqlite3Get4byte_def sqlite3Put4byte_def
  by (rule bit_word_eq_upt) (simp add: upt_32 bit_simps)

interpretation c2: byte_codec "\<lambda>p. (2, get2byte p)" "\<lambda>p v. (put2byte p v, 2)" "\<lambda>_. True"
  by unfold_locales (simp_all add: put2byte_get2byte, simp_all add: put2byte_def get2byte_def)

interpretation c4: byte_codec "\<lambda>p. (4, sqlite3Get4byte p)" "\<lambda>p v. (sqlite3Put4byte p v, 4)" "\<lambda>_. True"
  by unfold_locales (simp_all add: Put4byte_Get4byte, auto simp: sqlite3Put4byte_def sqlite3Get4byte_def)

subsection \<open>The 32-bit reader\<close>

lemma less_0x80_u8: "(x :: u8) < 0x80 \<longleftrightarrow> \<not> bit x 7"
proof -
  have "drop_bit 7 x = of_bool (bit x 7)"
    by (rule bit_word_eq_upt) (simp add: upt_8 bit_simps)
  then show ?thesis
    using drop_bit_zero_iff [of 7 x] by (auto simp: word_less_nat_alt)
qed

lemma and_u32_max: "(v AND 0xffffffff = (v::u64)) \<longleftrightarrow> v < 0x100000000"
proof -
  have "v AND 0xffffffff = take_bit 32 v"
    by (rule bit_word_eq_upt) (simp add: upt_64 bit_simps)
  then show ?thesis
    by (simp add: take_bit_eq_self_iff_drop_bit_eq_0 drop_bit_zero_iff word_less_nat_alt)
qed

lemma ucast_u32_less: "(ucast (w :: u32) :: u64) < 0x100000000"
  by (simp add: word_less_nat_alt unat_ucast_up)

lemma ucast_u32_u64 [simp]: "ucast (ucast (w :: u32) :: u64) = w"
  by (rule bit_word_eqI) (simp add: bit_simps)

lemma ucast_u8_u64 [simp]: "ucast (ucast (w :: u8) :: u64) = (ucast w :: u32)"
  by (rule bit_word_eqI) (auto simp: bit_simps)

lemma GetVarint_three:
  assumes "bit (p 0) 7" "bit (p 1) 7" "\<not> bit (p 2) 7"
  shows "sqlite3GetVarint p =
    (3, ucast (push_bit 14 (ucast (p 0 AND 0x7f)) OR push_bit 7 (ucast (p 1 AND 0x7f)) OR ucast (p 2) :: u32))"
proof -
  have "(push_bit 14 (ucast (p 0)) OR ucast (p 2)) AND SLOT_2_0 OR push_bit 7 (ucast (p 1) AND 0x7f)
    = (push_bit 14 (ucast (p 0 AND 0x7f)) OR push_bit 7 (ucast (p 1 AND 0x7f)) OR ucast (p 2) :: u32)"
    by (rule bit_word_eq_upt) (use assms in \<open>simp add: upt_32 slot_2_0_bits mask7_numeral bit_simps disj_ac\<close>)
  with assms show ?thesis
    by (simp add: sqlite3GetVarint_def sint_u8_nonneg and_0x80_u32 Let_def bit_simps)
qed

lemma getVarint32_eq:
  assumes "sqlite3GetVarint p = (n, v)"
  shows "getVarint32 p = (n, if v < 0x100000000 then ucast v else 0xffffffff)"
proof -
  consider "\<not> bit (p 0) 7" | "bit (p 0) 7" "\<not> bit (p 1) 7"
    | "bit (p 0) 7" "bit (p 1) 7" "\<not> bit (p 2) 7" | "bit (p 0) 7" "bit (p 1) 7" "bit (p 2) 7"
    by blast
  then show ?thesis
  proof cases
    case 1
    have "ucast (p 0) < (0x100000000 :: u64)"
      by (simp add: word_less_nat_alt unat_ucast_up order.strict_trans [OF unat_u8_less])
    with 1 assms show ?thesis
      by (auto simp: getVarint32_def less_0x80_u8 sqlite3GetVarint_def sint_u8_nonneg)
  next
    case 2
    with assms show ?thesis
      by (auto simp: getVarint32_def less_0x80_u8 sqlite3GetVarint_def sqlite3GetVarint32_def
          and_0x80_u8 sint_u8_nonneg ucast_u32_less)
  next
    case 3
    with assms GetVarint_three [OF 3] show ?thesis
      by (auto simp: getVarint32_def less_0x80_u8 sqlite3GetVarint32_def and_0x80_u8 ucast_u32_less)
  next
    case 4
    with assms show ?thesis
      by (simp add: getVarint32_def less_0x80_u8 sqlite3GetVarint32_def and_0x80_u8 and_u32_max)
  qed
qed
subsection \<open>Properties\<close>

text \<open>
  C14: what \<open>sqlite3PutVarint\<close> writes, \<open>sqlite3GetVarint\<close> reads back: the same 64-bit value
  from the same number of bytes, between one and nine; and the writer touches no byte past
  the ones it reports.
\<close>

theorem varint_roundtrip:
  "sqlite3GetVarint (fst (sqlite3PutVarint p v)) = (snd (sqlite3PutVarint p v), v) \<and>
   1 \<le> snd (sqlite3PutVarint p v) \<and> snd (sqlite3PutVarint p v) \<le> 9 \<and>
   ptr (fst (sqlite3PutVarint p v)) (snd (sqlite3PutVarint p v)) = ptr p (snd (sqlite3PutVarint p v))"
  using vc.get_put [of p v] buf_length_bounds [of v]
  by (auto simp: PutVarint_len PutVarint_frame ptr_def)

text \<open>
  C15: the unrolled decoder with its three 32-bit accumulators computes, on every memory, the
  value and length that the format description of util.c gives.
\<close>

theorem GetVarint_format: "sqlite3GetVarint p = varint_ref p 0 0"
  by (rule GetVarint_eq_ref)

text \<open>
  C0: \<open>sqlite3VarintLen\<close> is the number of bytes \<open>sqlite3PutVarint\<close> writes for values below
  \<^verbatim>\<open>2^63\<close>, but 10 for larger ones, for which only 9 bytes are written.
\<close>

theorem VarintLen_vs_PutVarint:
  "sqlite3VarintLen v =
     (if v < 0x8000000000000000 then snd (sqlite3PutVarint p v) else snd (sqlite3PutVarint p v) + 1)"
  using buf_length_10_iff [of v] buf_length_bounds [of v]
  by (auto simp: VarintLen_buf PutVarint_len less_2_63_iff min_def)

text \<open>
  C0: \<open>getVarint32\<close> uses as many bytes as the 64-bit reader and returns its value, clamped to
  0xffffffff when it does not fit in 32 bits.
\<close>

theorem getVarint32_clamps:
  "getVarint32 p = (fst (sqlite3GetVarint p),
     if snd (sqlite3GetVarint p) < 0x100000000 then ucast (snd (sqlite3GetVarint p)) else 0xffffffff)"
  by (rule getVarint32_eq) simp

end
