(* ===== verification/Linear_Probe.thy ===== *)
theory Linear_Probe
  imports Sqlite_Prelude
begin

text \<open>
  Open addressing with linear probing, as the bitmap of bitvec.c and the WAL index of wal.c
  use it: an array of slots, 0 for a free one, and a search that starts at the home slot of
  a value and moves on by one, wrapping around, until it meets what it looks for or a free
  slot.  The interface \<open>probe_table\<close> fixes the number of slots and the home slot of a stored
  value; its laws say that the home slot is a slot.  The lemmas say when a search ends, what
  it finds, and that storing into the free slot a search ends at keeps every other value
  reachable.
\<close>

text \<open>The search loop, with one unit of fuel per slot inspected.\<close>

fun probe :: "nat \<Rightarrow> nat \<Rightarrow> nat list \<Rightarrow> nat \<Rightarrow> (nat \<Rightarrow> bool) \<Rightarrow> nat option" where
  "probe 0 N a h stop = None"
| "probe (Suc f) N a h stop =
     (if a ! h = 0 \<or> stop (a ! h) then Some h else probe f N a ((h + 1) mod N) stop)"

definition dist :: "nat \<Rightarrow> nat \<Rightarrow> nat \<Rightarrow> nat" where
  "dist N h k = (k + N - h) mod N"

definition path_full :: "nat \<Rightarrow> nat list \<Rightarrow> nat \<Rightarrow> nat \<Rightarrow> bool" where
  "path_full N a h k \<longleftrightarrow> (\<forall>d < dist N h k. a ! ((h + d) mod N) \<noteq> 0)"

definition has_free :: "nat \<Rightarrow> nat list \<Rightarrow> bool" where
  "has_free N a \<longleftrightarrow> (\<exists>k < N. a ! k = 0)"

definition reachable_slots :: "nat \<Rightarrow> (nat \<Rightarrow> nat) \<Rightarrow> nat list \<Rightarrow> bool" where
  "reachable_slots N home a \<longleftrightarrow>
     length a = N \<and> (\<forall>k < N. a ! k \<noteq> 0 \<longrightarrow> path_full N a (home (a ! k)) k)"

lemma dist_less: "0 < N \<Longrightarrow> dist N h k < N"
  by (simp add: dist_def)

lemma add_dist: "h < N \<Longrightarrow> k < N \<Longrightarrow> (h + dist N h k) mod N = k"
  by (simp add: dist_def mod_simps)

lemma dist_add: "h < N \<Longrightarrow> d < N \<Longrightarrow> dist N h ((h + d) mod N) = d"
proof -
  assume h: "h < N" and d: "d < N"
  show ?thesis
  proof (cases "h + d < N")
    case True
    then show ?thesis using h d by (simp add: dist_def)
  next
    case False
    then have "(h + d) mod N = h + d - N"
      using h d by (simp add: mod_if)
    then show ?thesis using False h d by (simp add: dist_def)
  qed
qed

lemma probe_at:
  assumes "h < N"
    and "\<And>e. e < d \<Longrightarrow> a ! ((h + e) mod N) \<noteq> 0 \<and> \<not> stop (a ! ((h + e) mod N))"
    and "a ! ((h + d) mod N) = 0 \<or> stop (a ! ((h + d) mod N))" and "d < f"
  shows "probe f N a h stop = Some ((h + d) mod N)"
  using assms
proof (induction d arbitrary: f h)
  case 0
  then show ?case by (cases f) auto
next
  case (Suc d)
  obtain f' where f: "f = Suc f'" using Suc.prems(4) by (cases f) auto
  have mod: "((h + 1) mod N + e) mod N = (h + Suc e) mod N" for e
    by (simp add: mod_simps)
  have "probe f' N a ((h + 1) mod N) stop = Some (((h + 1) mod N + d) mod N)"
  proof (rule Suc.IH)
    show "(h + 1) mod N < N" using Suc.prems(1) by simp
    show "a ! (((h + 1) mod N + e) mod N) \<noteq> 0 \<and> \<not> stop (a ! (((h + 1) mod N + e) mod N))"
      if "e < d" for e
      using Suc.prems(2) [of "Suc e"] that unfolding mod by simp
    show "a ! (((h + 1) mod N + d) mod N) = 0 \<or> stop (a ! (((h + 1) mod N + d) mod N))"
      using Suc.prems(3) unfolding mod by simp
    show "d < f'" using Suc.prems(4) f by simp
  qed
  moreover have "a ! h \<noteq> 0 \<and> \<not> stop (a ! h)"
    using Suc.prems(1) Suc.prems(2) [of 0] by simp
  ultimately show ?case
    by (simp add: f mod_simps)
qed

lemma path_full_update:
  "path_full N a h j \<Longrightarrow> v \<noteq> 0 \<Longrightarrow> path_full N (a[k := v]) h j"
  by (auto simp: path_full_def nth_list_update)
    (metis list_update_beyond not_le nth_list_update)

locale probe_table =
  fixes N :: nat and home :: "nat \<Rightarrow> nat"
  assumes slots: "0 < N" and home_less: "home v < N"
begin

text \<open>A search ends whenever some slot is free.\<close>

lemma probe_ends:
  assumes "h < N" and "has_free N a"
  obtains k where "probe N N a h stop = Some k" and "k < N"
    and "a ! k = 0 \<or> stop (a ! k)"
    and "\<And>d. d < dist N h k \<Longrightarrow> a ! ((h + d) mod N) \<noteq> 0 \<and> \<not> stop (a ! ((h + d) mod N))"
proof -
  let ?hit = "\<lambda>d. a ! ((h + d) mod N) = 0 \<or> stop (a ! ((h + d) mod N))"
  from assms(2) obtain z where z: "z < N" "a ! z = 0" by (auto simp: has_free_def)
  have "?hit (dist N h z)" using z assms(1) by (simp add: add_dist)
  define d where "d = (LEAST d. ?hit d)"
  have hit: "?hit d" unfolding d_def by (rule LeastI) (fact \<open>?hit (dist N h z)\<close>)
  have least: "\<not> ?hit e" if "e < d" for e using that unfolding d_def by (rule not_less_Least)
  have "d \<le> dist N h z" unfolding d_def by (rule Least_le) (fact \<open>?hit (dist N h z)\<close>)
  then have d: "d < N" using dist_less [OF slots, of h z] by simp
  show thesis
  proof (rule that [of "(h + d) mod N"])
    show "probe N N a h stop = Some ((h + d) mod N)"
      by (rule probe_at [OF assms(1)]) (use least hit d in auto)
    show "(h + d) mod N < N" using slots by simp
    show "?hit d" by (rule hit)
    show "a ! ((h + e) mod N) \<noteq> 0 \<and> \<not> stop (a ! ((h + e) mod N))"
      if "e < dist N h ((h + d) mod N)" for e
      using that least [of e] by (simp add: dist_add [OF assms(1) d])
  qed
qed

text \<open>A search for a stored value finds it.\<close>

lemma probe_finds:
  assumes "reachable_slots N home a" and "has_free N a" and "v \<noteq> 0"
  obtains k where "probe N N a (home v) ((=) v) = Some k" and "k < N"
    and "a ! k = v \<longleftrightarrow> v \<in> set a" and "a ! k = 0 \<longleftrightarrow> v \<notin> set a"
    and "a ! k = 0 \<Longrightarrow> path_full N a (home v) k"
proof -
  have len: "length a = N" using assms(1) by (simp add: reachable_slots_def)
  obtain k where k: "probe N N a (home v) ((=) v) = Some k" "k < N" "a ! k = 0 \<or> v = a ! k"
    and path: "\<And>d. d < dist N (home v) k \<Longrightarrow>
      a ! ((home v + d) mod N) \<noteq> 0 \<and> \<not> v = a ! ((home v + d) mod N)"
    using probe_ends [OF home_less assms(2)] by metis
  have in_set: "a ! k = v" if "v \<in> set a"
  proof (rule ccontr)
    assume "a ! k \<noteq> v"
    then have z: "a ! k = 0" using k(3) by auto
    from that obtain j where j: "j < N" "a ! j = v" using len by (auto simp: in_set_conv_nth)
    have full: "path_full N a (home v) j"
      using assms(1,3) j by (auto simp: reachable_slots_def)
    show False
    proof (cases "dist N (home v) k < dist N (home v) j")
      case True
      then have "a ! ((home v + dist N (home v) k) mod N) \<noteq> 0"
        using full by (simp add: path_full_def)
      then show False using z k(2) home_less by (simp add: add_dist)
    next
      case False
      have "dist N (home v) j \<noteq> dist N (home v) k"
      proof
        assume "dist N (home v) j = dist N (home v) k"
        then have "j = k"
          using add_dist [OF home_less j(1), of v] add_dist [OF home_less k(2), of v] by metis
        with j(2) \<open>a ! k \<noteq> v\<close> show False by simp
      qed
      with False have "v \<noteq> a ! ((home v + dist N (home v) j) mod N)"
        using path by simp
      then show False using j home_less by (simp add: add_dist)
    qed
  qed
  show thesis
  proof (rule that [OF k(1,2)])
    show "a ! k = v \<longleftrightarrow> v \<in> set a" using in_set k(2) len by auto
    then show "a ! k = 0 \<longleftrightarrow> v \<notin> set a" using k(3) assms(3) by auto
    show "path_full N a (home v) k" using path by (simp add: path_full_def)
  qed
qed

text \<open>Storing a value into the free slot its search ends at keeps all slots reachable.\<close>

lemma store_reachable:
  assumes "reachable_slots N home a" and "path_full N a (home v) k" and "v \<noteq> 0"
  shows "reachable_slots N home (a[k := v])"
proof -
  have "path_full N (a[k := v]) (home (a[k := v] ! j)) j"
    if "j < N" "a[k := v] ! j \<noteq> 0" for j
    using that assms
    by (cases "j = k") (auto simp: reachable_slots_def intro!: path_full_update)
  with assms(1) show ?thesis by (simp add: reachable_slots_def)
qed

lemma empty_reachable: "reachable_slots N home (replicate N 0)"
  by (simp add: reachable_slots_def)

lemma empty_has_free: "has_free N (replicate N 0)"
  using slots by (auto simp: has_free_def)

end

text \<open>A table with fewer values than slots has a free slot.\<close>

lemma has_free_count:
  assumes "length a = N" and "length (filter (\<lambda>v. v \<noteq> 0) a) < N"
  shows "has_free N a"
proof (rule ccontr)
  assume "\<not> has_free N a"
  then have "\<forall>v \<in> set a. v \<noteq> 0"
    using assms(1) by (auto simp: has_free_def in_set_conv_nth)
  then have "filter (\<lambda>v. v \<noteq> 0) a = a" by simp
  with assms show False by simp
qed

lemma length_filter_update:
  assumes "k < length a" and "a ! k = 0" and "v \<noteq> (0 :: nat)"
  shows "length (filter (\<lambda>v. v \<noteq> 0) (a[k := v])) = Suc (length (filter (\<lambda>v. v \<noteq> 0) a))"
  using assms by (induction a arbitrary: k) (auto split: nat.splits simp: nth_Cons')

lemma set_update_free:
  assumes "k < length a" and "a ! k = (0 :: nat)"
  shows "set (a[k := v]) - {0} = insert v (set a) - {0}"
proof
  show "set (a[k := v]) - {0} \<subseteq> insert v (set a) - {0}"
    using set_update_subset_insert [of a k v] by blast
  show "insert v (set a) - {0} \<subseteq> set (a[k := v]) - {0}"
  proof
    fix x assume x: "x \<in> insert v (set a) - {0}"
    show "x \<in> set (a[k := v]) - {0}"
    proof (cases "x = v")
      case True
      with x assms(1) show ?thesis by (simp add: set_update_memI)
    next
      case False
      with x obtain j where "j < length a" "a ! j = x" "x \<noteq> 0" by (auto simp: in_set_conv_nth)
      moreover from this assms(2) have "j \<noteq> k" by auto
      ultimately have "j < length (a[k := v]) \<and> a[k := v] ! j = x" by simp
      then show ?thesis using \<open>x \<noteq> 0\<close> nth_mem by fastforce
    qed
  qed
qed

end
