(* ===== verification/Bitvec.thy ===== *)
theory Bitvec
  imports Linear_Probe
begin

text \<open>
  The bitmap of bitvec.c, which the pager and the b-tree layer use as a set of page numbers.
  A node is a flat bitmap when it covers few bits, a hash table with linear probing when it
  covers many bits of which few are set, and an array of sub-bitmaps once the hash table
  fills up.  Sizes are those of a 64-bit build (\<^verbatim>\<open>sizeof(Bitvec*)\<close> is 8).  The union of the
  source is a datatype whose constructor says which member is live.

  A result \<open>None\<close> stands for a call with no defined result: a probe that never ends or an
  index outside the sub-bitmap array.  The theorems show that well-formed bitmaps and
  in-range arguments never meet it.
\<close>

subsection \<open>The code\<close>

definition BITVEC_USIZE :: nat where "BITVEC_USIZE = ((512 - 3 * 4) div 8) * 8"
definition BITVEC_NELEM :: nat where "BITVEC_NELEM = BITVEC_USIZE div 1"
definition BITVEC_NBIT :: nat where "BITVEC_NBIT = BITVEC_NELEM * 8"
definition BITVEC_NINT :: nat where "BITVEC_NINT = BITVEC_USIZE div 4"
definition BITVEC_MXHASH :: nat where "BITVEC_MXHASH = BITVEC_NINT div 2"
definition BITVEC_NPTR :: nat where "BITVEC_NPTR = BITVEC_USIZE div 8"

definition BITVEC_HASH :: "nat \<Rightarrow> nat" where "BITVEC_HASH x = (x * 1) mod BITVEC_NINT"

lemma bitvec_consts [simp]:
  "BITVEC_NELEM = 496" "BITVEC_NBIT = 3968" "BITVEC_NINT = 124" "BITVEC_MXHASH = 62"
  "BITVEC_NPTR = 62" "BITVEC_HASH x = x mod 124"
  by (simp_all add: BITVEC_USIZE_def BITVEC_NELEM_def BITVEC_NBIT_def BITVEC_NINT_def
      BITVEC_MXHASH_def BITVEC_NPTR_def BITVEC_HASH_def)

datatype 'b bv_union = aBitmap "u8 list" | aHash "nat list" | apSub "'b option list"

datatype bitvec = Bitvec (iSize: nat) (nSet: nat) (iDivisor: nat) (u: "bitvec bv_union")

text \<open>\<open>sqlite3MallocZero\<close> leaves every member of the union zero.\<close>

definition sqlite3BitvecCreate :: "nat \<Rightarrow> mallocs \<Rightarrow> bitvec option \<times> mallocs" where
  "sqlite3BitvecCreate sz ms =
     (if malloc_ok ms
      then Some (Bitvec sz 0 0 (if sz \<le> BITVEC_NBIT then aBitmap (replicate BITVEC_NELEM 0)
                                else aHash (replicate BITVEC_NINT 0)))
      else None, malloc_rest ms)"

lemma bitvec_size_sub:
  assumes "k < length subs" and "subs ! k = Some q"
  shows "size q < Suc (Suc (size_list (size_option size) subs))"
proof -
  have "Some q \<in> set subs" using assms nth_mem by metis
  then have "size_option size (Some q) \<le> size_list (size_option size) subs"
    by (simp add: size_list_estimation')
  then show ?thesis by simp
qed

text \<open>The descent and the leaf test of \<open>sqlite3BitvecTestNotNull\<close>; \<open>i\<close> is already decremented.\<close>

function bitvecTestLoop :: "bitvec \<Rightarrow> nat \<Rightarrow> bool option" where
  "bitvecTestLoop (Bitvec sz ns dv un) i =
     (if dv \<noteq> 0 then
        (case un of apSub subs \<Rightarrow>
           (let bin = i div dv; j = i mod dv in
            if bin < length subs then
              (case subs ! bin of None \<Rightarrow> Some False | Some q \<Rightarrow> bitvecTestLoop q j)
            else None)
         | _ \<Rightarrow> None)
      else if sz \<le> BITVEC_NBIT then
        (case un of aBitmap b \<Rightarrow>
           if i div 8 < length b then Some (bit (b ! (i div 8)) (i mod 8)) else None
         | _ \<Rightarrow> None)
      else
        (case un of aHash a \<Rightarrow>
           map_option (\<lambda>h. a ! h = i + 1)
             (probe BITVEC_NINT BITVEC_NINT a (BITVEC_HASH i) ((=) (i + 1)))
         | _ \<Rightarrow> None))"
  by pat_completeness auto
termination
  by (relation "measure (\<lambda>(p, i). size p)") (auto simp: bitvec_size_sub)

text \<open>\<^verbatim>\<open>i--\<close> on a 32-bit value wraps.\<close>

definition sqlite3BitvecTestNotNull :: "bitvec \<Rightarrow> nat \<Rightarrow> bool option" where
  "sqlite3BitvecTestNotNull p i =
     (let i = (i + 2 ^ 32 - 1) mod 2 ^ 32
      in if i \<ge> iSize p then Some False else bitvecTestLoop p i)"

definition sqlite3BitvecTest :: "bitvec option \<Rightarrow> nat \<Rightarrow> bool option" where
  "sqlite3BitvecTest p i =
     (case p of None \<Rightarrow> Some False | Some p \<Rightarrow> sqlite3BitvecTestNotNull p i)"

text \<open>\<^verbatim>\<open>rc |= ...\<close>: the only codes combined are 0 and one error code.\<close>

definition rc_or :: "rc \<Rightarrow> rc \<Rightarrow> rc" where
  "rc_or a b = (if a = SQLITE_OK then b else a)"

definition bitvecDivisor :: "nat \<Rightarrow> nat" where
  "bitvecDivisor sz =
     (let d = sz div BITVEC_NPTR; d = (if sz mod BITVEC_NPTR \<noteq> 0 then d + 1 else d)
      in if d < BITVEC_NBIT then BITVEC_NBIT else d)"

text \<open>The loop over the values of the old hash table; \<open>set1\<close> is the recursive call.\<close>

fun bitvecSetAll ::
  "(bitvec \<Rightarrow> nat \<Rightarrow> mallocs \<Rightarrow> (bitvec \<times> rc \<times> mallocs) option) \<Rightarrow> nat list \<Rightarrow>
   bitvec \<times> rc \<times> mallocs \<Rightarrow> (bitvec \<times> rc \<times> mallocs) option" where
  "bitvecSetAll set1 [] st = Some st"
| "bitvecSetAll set1 (v # vs) (p, rc, ms) =
     (if v \<noteq> 0 then
        (case set1 p v ms of None \<Rightarrow> None
         | Some (p', rc', ms') \<Rightarrow> bitvecSetAll set1 vs (p', rc_or rc rc', ms'))
      else bitvecSetAll set1 vs (p, rc, ms))"

text \<open>From the label \<^verbatim>\<open>bitvec_set_rehash\<close> on: sub-divide, or store \<open>i\<close> in the free slot \<open>h\<close>.\<close>

definition bitvecRehash ::
  "(bitvec \<Rightarrow> nat \<Rightarrow> mallocs \<Rightarrow> (bitvec \<times> rc \<times> mallocs) option) \<Rightarrow>
   bitvec \<Rightarrow> nat list \<Rightarrow> nat \<Rightarrow> nat \<Rightarrow> mallocs \<Rightarrow> (bitvec \<times> rc \<times> mallocs) option" where
  "bitvecRehash set1 p a h i ms =
     (if nSet p \<ge> BITVEC_MXHASH then
        if malloc_ok ms then
          let p1 = Bitvec (iSize p) (nSet p) (bitvecDivisor (iSize p)) (apSub (replicate BITVEC_NPTR None))
          in (case set1 p1 i (malloc_rest ms) of None \<Rightarrow> None
              | Some st \<Rightarrow> bitvecSetAll set1 a st)
        else Some (p, SQLITE_NOMEM, malloc_rest ms)
      else Some (Bitvec (iSize p) (nSet p + 1) (iDivisor p) (aHash (a[h := i])), SQLITE_OK, ms))"

text \<open>
  The body of \<open>sqlite3BitvecSet\<close>.  Each pass of its \<^verbatim>\<open>while\<close> loop, and each recursive call,
  uses one unit of fuel.
\<close>

fun bitvecSet :: "nat \<Rightarrow> bitvec \<Rightarrow> nat \<Rightarrow> mallocs \<Rightarrow> (bitvec \<times> rc \<times> mallocs) option" where
  "bitvecSet 0 p i ms = None"
| "bitvecSet (Suc fuel) p i ms =
     (let i0 = i - 1 in
      if iSize p > BITVEC_NBIT \<and> iDivisor p \<noteq> 0 then
        (case u p of apSub subs \<Rightarrow>
           (let bin = i0 div iDivisor p; j = i0 mod iDivisor p in
            if bin < length subs then
              (case (case subs ! bin of Some q \<Rightarrow> (Some q, ms)
                     | None \<Rightarrow> sqlite3BitvecCreate (iDivisor p) ms) of
                 (None, ms') \<Rightarrow> Some (p, SQLITE_NOMEM, ms')
               | (Some q, ms') \<Rightarrow>
                   (case bitvecSet fuel q (j + 1) ms' of None \<Rightarrow> None
                    | Some (q', rc, ms'') \<Rightarrow>
                        Some (Bitvec (iSize p) (nSet p) (iDivisor p) (apSub (subs[bin := Some q'])),
                              rc, ms'')))
            else None)
         | _ \<Rightarrow> None)
      else if iSize p \<le> BITVEC_NBIT then
        (case u p of aBitmap b \<Rightarrow>
           if i0 div 8 < length b then
             Some (Bitvec (iSize p) (nSet p) (iDivisor p)
                     (aBitmap (b[i0 div 8 := b ! (i0 div 8) OR push_bit (i0 mod 8) 1])),
                   SQLITE_OK, ms)
           else None
         | _ \<Rightarrow> None)
      else
        (case u p of aHash a \<Rightarrow>
           (let h = BITVEC_HASH i0 in
            if a ! h = 0 then
              if nSet p < BITVEC_NINT - 1 then
                Some (Bitvec (iSize p) (nSet p + 1) (iDivisor p) (aHash (a[h := i])), SQLITE_OK, ms)
              else bitvecRehash (bitvecSet fuel) p a h i ms
            else
              (case probe BITVEC_NINT BITVEC_NINT a h ((=) i) of None \<Rightarrow> None
               | Some h' \<Rightarrow> if a ! h' = i then Some (p, SQLITE_OK, ms)
                            else bitvecRehash (bitvecSet fuel) p a h' i ms))
         | _ \<Rightarrow> None))"

definition sqlite3BitvecSet ::
  "bitvec option \<Rightarrow> nat \<Rightarrow> mallocs \<Rightarrow> (bitvec option \<times> rc \<times> mallocs) option" where
  "sqlite3BitvecSet p i ms =
     (case p of None \<Rightarrow> Some (None, SQLITE_OK, ms)
      | Some p \<Rightarrow> map_option (\<lambda>(p', rc, ms'). (Some p', rc, ms')) (bitvecSet 10 p i ms))"

text \<open>The loop of \<open>sqlite3BitvecClear\<close> that rebuilds the hash table without \<open>i\<close>.\<close>

fun bitvecReinsert :: "nat \<Rightarrow> nat list \<Rightarrow> nat \<times> nat list \<Rightarrow> (nat \<times> nat list) option" where
  "bitvecReinsert i [] (n, a) = Some (n, a)"
| "bitvecReinsert i (v # vs) (n, a) =
     (if v \<noteq> 0 \<and> v \<noteq> i then
        (case probe BITVEC_NINT BITVEC_NINT a (BITVEC_HASH (v - 1)) (\<lambda>_. False) of None \<Rightarrow> None
         | Some h \<Rightarrow> bitvecReinsert i vs (n + 1, a[h := v]))
      else bitvecReinsert i vs (n, a))"

function bitvecClearLoop :: "bitvec \<Rightarrow> nat \<Rightarrow> bitvec option" where
  "bitvecClearLoop (Bitvec sz ns dv un) i =
     (if dv \<noteq> 0 then
        (case un of apSub subs \<Rightarrow>
           (let bin = i div dv; j = i mod dv in
            if bin < length subs then
              (case subs ! bin of None \<Rightarrow> Some (Bitvec sz ns dv un)
               | Some q \<Rightarrow> map_option (\<lambda>q'. Bitvec sz ns dv (apSub (subs[bin := Some q'])))
                            (bitvecClearLoop q j))
            else None)
         | _ \<Rightarrow> None)
      else if sz \<le> BITVEC_NBIT then
        (case un of aBitmap b \<Rightarrow>
           if i div 8 < length b then
             Some (Bitvec sz ns dv (aBitmap (b[i div 8 := b ! (i div 8) AND NOT (push_bit (i mod 8) 1)])))
           else None
         | _ \<Rightarrow> None)
      else
        (case un of aHash a \<Rightarrow>
           map_option (\<lambda>(n, a'). Bitvec sz n dv (aHash a'))
             (bitvecReinsert (i + 1) a (0, replicate BITVEC_NINT 0))
         | _ \<Rightarrow> None))"
  by pat_completeness auto
termination
  by (relation "measure (\<lambda>(p, i). size p)") (auto simp: bitvec_size_sub)

definition sqlite3BitvecClear :: "bitvec option \<Rightarrow> nat \<Rightarrow> bitvec option option" where
  "sqlite3BitvecClear p i =
     (case p of None \<Rightarrow> Some None | Some p \<Rightarrow> map_option Some (bitvecClearLoop p (i - 1)))"

definition sqlite3BitvecSize :: "bitvec \<Rightarrow> nat" where
  "sqlite3BitvecSize p = iSize p"

declare bitvecTestLoop.simps [simp del] bitvecClearLoop.simps [simp del] bitvecSet.simps [simp del]

subsection \<open>The set a bitmap stands for, and well-formed bitmaps\<close>

text \<open>Membership, by the comment on \<^verbatim>\<open>struct Bitvec\<close>; \<open>i\<close> counts from 0.\<close>

function bv_mem :: "bitvec \<Rightarrow> nat \<Rightarrow> bool" where
  "bv_mem (Bitvec sz ns dv un) i =
     (i < sz \<and>
      (case un of
         aBitmap b \<Rightarrow> bit (b ! (i div 8)) (i mod 8)
       | aHash a \<Rightarrow> i + 1 \<in> set a
       | apSub subs \<Rightarrow>
           if i div dv < length subs then
             (case subs ! (i div dv) of None \<Rightarrow> False | Some q \<Rightarrow> bv_mem q (i mod dv))
           else False))"
  by pat_completeness auto
termination
  by (relation "measure (\<lambda>(p, i). size p)") (auto simp: bitvec_size_sub)

declare bv_mem.simps [simp del]

definition bv_elems :: "bitvec \<Rightarrow> nat set" where
  "bv_elems p = {i. 0 < i \<and> bv_mem p (i - 1)}"

definition bv_home :: "nat \<Rightarrow> nat" where
  "bv_home v = (v - 1) mod 124"

definition bv_hash_ok :: "nat \<Rightarrow> nat \<Rightarrow> nat list \<Rightarrow> bool" where
  "bv_hash_ok sz ns a \<longleftrightarrow>
     reachable_slots 124 bv_home a \<and> ns = length (filter (\<lambda>v. v \<noteq> 0) a) \<and> ns < 124 \<and>
     (\<forall>v \<in> set a. v \<le> sz)"

inductive bv_wf :: "bitvec \<Rightarrow> bool" where
  bitmap: "sz \<le> 3968 \<Longrightarrow> length b = 496 \<Longrightarrow> bv_wf (Bitvec sz ns 0 (aBitmap b))"
| hash: "3968 < sz \<Longrightarrow> bv_hash_ok sz ns a \<Longrightarrow> bv_wf (Bitvec sz ns 0 (aHash a))"
| sub: "3968 < sz \<Longrightarrow> length subs = 62 \<Longrightarrow>
    (\<And>q. Some q \<in> set subs \<Longrightarrow> bv_wf q \<and> iSize q = bitvecDivisor sz) \<Longrightarrow>
    bv_wf (Bitvec sz ns (bitvecDivisor sz) (apSub subs))"

inductive_cases bv_wfE: "bv_wf (Bitvec sz ns dv un)"

interpretation bvt: probe_table 124 bv_home
  by unfold_locales (simp_all add: bv_home_def)

lemma bitvecDivisor_bounds:
  "3968 \<le> bitvecDivisor sz" "0 < bitvecDivisor sz"
  "3968 < sz \<Longrightarrow> bitvecDivisor sz < sz"
  "i < sz \<Longrightarrow> i div bitvecDivisor sz < 62"
proof -
  show ge: "3968 \<le> bitvecDivisor sz" by (simp add: bitvecDivisor_def Let_def)
  then show pos: "0 < bitvecDivisor sz" by linarith
  show "3968 < sz \<Longrightarrow> bitvecDivisor sz < sz"
    by (auto simp: bitvecDivisor_def Let_def)
  assume "i < sz"
  moreover have "sz \<le> 62 * bitvecDivisor sz"
    using div_mult_mod_eq [of sz 62] mod_less_divisor [of 62 sz]
    unfolding bitvecDivisor_def Let_def bitvec_consts by (auto split: if_splits)
  ultimately have "i < 62 * bitvecDivisor sz" by linarith
  then show "i div bitvecDivisor sz < 62"
    by (simp add: less_mult_imp_div_less)
qed

lemma bitvecDivisor_mod: "i mod bitvecDivisor sz < bitvecDivisor sz"
  using bitvecDivisor_bounds(2) [of sz] by simp

subsection \<open>Testing a bit\<close>

lemma bv_hash_okD:
  assumes "bv_hash_ok sz ns a"
  shows "reachable_slots 124 bv_home a" "has_free 124 a" "length a = 124"
    "ns = length (filter (\<lambda>v. v \<noteq> 0) a)" "ns < 124" "\<And>v. v \<in> set a \<Longrightarrow> v \<le> sz"
  using assms has_free_count [of a 124]
  by (auto simp: bv_hash_ok_def reachable_slots_def)

lemma testLoop_correct: "bv_wf p \<Longrightarrow> i < iSize p \<Longrightarrow> bitvecTestLoop p i = Some (bv_mem p i)"
proof (induction p arbitrary: i rule: bv_wf.induct)
  case (bitmap sz b ns)
  then show ?case by (simp add: bitvecTestLoop.simps bv_mem.simps)
next
  case (hash sz ns a)
  obtain k where "probe 124 124 a (bv_home (i + 1)) ((=) (i + 1)) = Some k"
    and "a ! k = i + 1 \<longleftrightarrow> i + 1 \<in> set a"
    using bvt.probe_finds [OF bv_hash_okD(1,2) [OF hash(2)], of "i + 1"] by auto
  with hash show ?case by (simp add: bitvecTestLoop.simps bv_mem.simps bv_home_def)
next
  case (sub sz subs ns)
  let ?d = "bitvecDivisor sz"
  have i: "i < sz" "i div ?d < 62" using sub bitvecDivisor_bounds(4) [of i sz] by auto
  show ?case
  proof (cases "subs ! (i div ?d)")
    case None
    then show ?thesis
      using i sub(2) bitvecDivisor_bounds(2) [of sz]
      by (simp add: bitvecTestLoop.simps bv_mem.simps Let_def)
  next
    case (Some q)
    then have "Some q \<in> set subs" using i sub(2) nth_mem by metis
    then have "bitvecTestLoop q (i mod ?d) = Some (bv_mem q (i mod ?d))"
      using sub(3) bitvecDivisor_mod [of i sz] by auto
    then show ?thesis
      using i sub(2) Some bitvecDivisor_bounds(2) [of sz]
      by (simp add: bitvecTestLoop.simps [of sz] bv_mem.simps [of sz] Let_def)
  qed
qed

lemma bv_mem_less: "bv_mem p i \<Longrightarrow> i < iSize p"
  by (cases p) (simp add: bv_mem.simps)

subsection \<open>Setting a bit\<close>

text \<open>How deep the sub-division of a bitmap over \<open>sz\<close> bits can go.\<close>

function bv_rank :: "nat \<Rightarrow> nat" where
  "bv_rank sz = (if sz \<le> 3968 then 0 else Suc (bv_rank (bitvecDivisor sz)))"
  by pat_completeness auto
termination
  by (relation "measure id") (auto simp: bitvecDivisor_bounds(3))

declare bv_rank.simps [simp del]

definition bv_need :: "bitvec \<Rightarrow> nat" where
  "bv_need p = 2 * bv_rank (iSize p) + (if iDivisor p = 0 then 1 else 0)"

definition bv_set_post :: "bitvec \<Rightarrow> nat set \<Rightarrow> mallocs \<Rightarrow> bitvec \<times> rc \<times> mallocs \<Rightarrow> bool" where
  "bv_set_post p I ms = (\<lambda>(p', rc, ms').
     bv_wf p' \<and> iSize p' = iSize p \<and> (iDivisor p \<noteq> 0 \<longrightarrow> iDivisor p' = iDivisor p) \<and>
     (\<forall>j. bv_mem p' j \<longrightarrow> j + 1 \<in> I \<or> bv_mem p j) \<and>
     (rc = SQLITE_OK \<longrightarrow> (\<forall>j. bv_mem p' j \<longleftrightarrow> j + 1 \<in> I \<or> bv_mem p j)) \<and>
     (rc = SQLITE_OK \<or> rc = SQLITE_NOMEM) \<and> (ms = [] \<longrightarrow> rc = SQLITE_OK \<and> ms' = []))"

lemma bv_mem_bitmap:
  "bv_mem (Bitvec sz ns dv (aBitmap b)) i \<longleftrightarrow> i < sz \<and> bit (b ! (i div 8)) (i mod 8)"
  by (simp add: bv_mem.simps)

lemma bv_mem_hash:
  "bv_hash_ok sz ns a \<Longrightarrow> bv_mem (Bitvec sz ns' dv (aHash a)) i \<longleftrightarrow> i + 1 \<in> set a"
  by (auto simp: bv_mem.simps dest: bv_hash_okD(6))

lemma bv_mem_sub:
  "length subs = 62 \<Longrightarrow>
   bv_mem (Bitvec sz ns (bitvecDivisor sz) (apSub subs)) i \<longleftrightarrow>
     i < sz \<and> (case subs ! (i div bitvecDivisor sz) of None \<Rightarrow> False
              | Some q \<Rightarrow> bv_mem q (i mod bitvecDivisor sz))"
  by (auto simp: bv_mem.simps bitvecDivisor_bounds(4))

lemma bv_create_wf:
  "sqlite3BitvecCreate sz ms = (Some p, ms') \<Longrightarrow>
   bv_wf p \<and> iSize p = sz \<and> iDivisor p = 0 \<and> (\<forall>i. \<not> bv_mem p i) \<and> ms' = malloc_rest ms"
  by (auto simp: sqlite3BitvecCreate_def bv_hash_ok_def bv_mem.simps bvt.empty_reachable
      intro!: bv_wf.intros split: if_splits)

lemma bv_store_hash:
  assumes ok: "bv_hash_ok sz ns a" and k: "k < 124" "a ! k = 0" "path_full 124 a (bv_home v) k"
    and v: "0 < v" "v \<le> sz" and ns: "Suc ns < 124"
  shows "bv_hash_ok sz (Suc ns) (a[k := v])" and "i + 1 \<in> set (a[k := v]) \<longleftrightarrow> i + 1 = v \<or> i + 1 \<in> set a"
proof -
  note D = bv_hash_okD [OF ok]
  have S: "set (a[k := v]) - {0} = insert v (set a) - {0}"
    using k D(3) by (intro set_update_free) auto
  then show "i + 1 \<in> set (a[k := v]) \<longleftrightarrow> i + 1 = v \<or> i + 1 \<in> set a"
    by (metis DiffD1 DiffI add_is_0 insertE insertI1 insertI2 one_neq_zero singletonD)
  have "reachable_slots 124 bv_home (a[k := v])"
    using v by (intro bvt.store_reachable [OF D(1) k(3)]) simp
  moreover have "Suc ns = length (filter (\<lambda>v. v \<noteq> 0) (a[k := v]))"
    using D(3,4) k v length_filter_update [of k a v] by simp
  moreover have "\<forall>w \<in> set (a[k := v]). w \<le> sz"
    using D(6) v set_update_subset_insert [of a k v] by blast
  ultimately show "bv_hash_ok sz (Suc ns) (a[k := v])"
    using ns by (simp add: bv_hash_ok_def)
qed

lemma bit_or_one: "n < 8 \<Longrightarrow> bit ((x :: u8) OR 2 ^ m) n \<longleftrightarrow> bit x n \<or> n = m"
  by (auto simp: bit_simps)

lemma div_mod_eq_iff: "(j :: nat) = k \<longleftrightarrow> j div d = k div d \<and> j mod d = k mod d"
  by (metis div_mult_mod_eq)

lemma bv_set_bitmap:
  assumes "length b = 496" and "k < sz" and "sz \<le> 3968"
  shows "bv_set_post (Bitvec sz ns 0 (aBitmap b)) {Suc k} ms
    (Bitvec sz ns 0 (aBitmap (b[k div 8 := b ! (k div 8) OR push_bit (k mod 8) 1])), SQLITE_OK, ms)"
proof -
  have k: "k div 8 < 496" using assms by linarith
  have "bv_mem (Bitvec sz ns 0 (aBitmap (b[k div 8 := b ! (k div 8) OR push_bit (k mod 8) 1]))) j
      \<longleftrightarrow> j = k \<or> bv_mem (Bitvec sz ns 0 (aBitmap b)) j" for j
    using k assms div_mod_eq_iff [of j k 8]
    by (cases "j div 8 = k div 8") (auto simp: bv_mem_bitmap bit_or_one)
  then show ?thesis
    using assms by (simp add: bv_set_post_def bv_wf.bitmap)
qed

lemma bv_set_sub:
  assumes wf: "bv_wf (Bitvec sz ns (bitvecDivisor sz) (apSub subs))" and len: "length subs = 62"
    and k: "k < sz"
    and q: "\<And>j. bv_mem q j \<longleftrightarrow>
        (case subs ! (k div bitvecDivisor sz) of None \<Rightarrow> False | Some q \<Rightarrow> bv_mem q j)"
      "iSize q = bitvecDivisor sz"
    and post: "bv_set_post q {Suc (k mod bitvecDivisor sz)} ms' (q', rc, ms'')"
    and ms: "ms = [] \<Longrightarrow> ms' = []"
  shows "bv_set_post (Bitvec sz ns (bitvecDivisor sz) (apSub subs)) {Suc k} ms
    (Bitvec sz ns (bitvecDivisor sz) (apSub (subs[k div bitvecDivisor sz := Some q'])), rc, ms'')"
proof -
  let ?d = "bitvecDivisor sz"
  let ?p = "Bitvec sz ns ?d (apSub subs)"
  let ?p' = "Bitvec sz ns ?d (apSub (subs[k div ?d := Some q']))"
  have kd: "k div ?d < 62" using k by (rule bitvecDivisor_bounds(4))
  have p': "bv_wf q'" "iSize q' = ?d" "\<And>j. bv_mem q' j \<longrightarrow> j = k mod ?d \<or> bv_mem q j"
    "rc = SQLITE_OK \<Longrightarrow> \<forall>j. bv_mem q' j \<longleftrightarrow> j = k mod ?d \<or> bv_mem q j"
    using post q(2) by (auto simp: bv_set_post_def)
  have mem': "bv_mem ?p' j \<longleftrightarrow>
      j < sz \<and> (if j div ?d = k div ?d then bv_mem q' (j mod ?d)
        else case subs ! (j div ?d) of None \<Rightarrow> False | Some q \<Rightarrow> bv_mem q (j mod ?d))" for j
    using len kd by (simp add: bv_mem_sub nth_list_update)
  have mem: "bv_mem ?p j \<longleftrightarrow> j < sz \<and> (if j div ?d = k div ?d then bv_mem q (j mod ?d)
        else case subs ! (j div ?d) of None \<Rightarrow> False | Some q \<Rightarrow> bv_mem q (j mod ?d))" for j
    using len q(1) by (simp add: bv_mem_sub)
  have "bv_wf ?p'"
  proof (rule bv_wf.sub)
    show "3968 < sz" using wf by (auto elim: bv_wfE)
    show "length (subs[k div ?d := Some q']) = 62" using len by simp
    show "bv_wf r \<and> iSize r = ?d" if "Some r \<in> set (subs[k div ?d := Some q'])" for r
    proof -
      have "Some r \<in> insert (Some q') (set subs)"
        using that set_update_subset_insert by fastforce
      then show ?thesis using wf p'(1,2) by (auto elim!: bv_wfE)
    qed
  qed
  moreover have "bv_mem ?p' j \<longrightarrow> j = k \<or> bv_mem ?p j" for j
    using p'(3) [of "j mod ?d"] div_mod_eq_iff [of j k ?d] unfolding mem mem' by (auto split: if_splits)
  moreover have "bv_mem ?p' j \<longleftrightarrow> j = k \<or> bv_mem ?p j" if "rc = SQLITE_OK" for j
    using p'(4) [OF that] div_mod_eq_iff [of j k ?d] k unfolding mem mem' by (auto split: if_splits)
  ultimately show ?thesis
    using post ms by (simp add: bv_set_post_def)
qed

text \<open>The state after the loop over the old hash table.\<close>

lemma bitvecSetAll_post:
  assumes "\<And>p v ms. bv_wf p \<Longrightarrow> iSize p = sz \<Longrightarrow> iDivisor p = d \<Longrightarrow> 0 < v \<Longrightarrow> v \<le> sz \<Longrightarrow>
      \<exists>st. set1 p v ms = Some st \<and> bv_set_post p {v} ms st"
    and "d \<noteq> 0"
  shows "bv_wf p \<Longrightarrow> iSize p = sz \<Longrightarrow> iDivisor p = d \<Longrightarrow> \<forall>v \<in> set vs. v \<le> sz \<Longrightarrow>
    bv_set_post p0 I ms0 (p, rc, ms) \<Longrightarrow>
    \<exists>st. bitvecSetAll set1 vs (p, rc, ms) = Some st \<and> bv_set_post p0 (I \<union> (set vs - {0})) ms0 st"
proof (induction vs arbitrary: p rc ms I)
  case Nil
  then show ?case by simp
next
  case (Cons v vs)
  show ?case
  proof (cases "v = 0")
    case True
    with Cons show ?thesis by simp
  next
    case False
    then obtain p' rc' ms' where st: "set1 p v ms = Some (p', rc', ms')"
      and post: "bv_set_post p {v} ms (p', rc', ms')"
      using assms(1) [of p v ms] Cons.prems by auto
    have "bv_set_post p0 (I \<union> {v}) ms0 (p', rc_or rc rc', ms')"
      using post Cons.prems(5) Cons.prems(3) assms(2) by (auto simp: bv_set_post_def rc_or_def)
    moreover have "bv_wf p'" "iSize p' = sz" "iDivisor p' = d"
      using post Cons.prems assms(2) by (auto simp: bv_set_post_def)
    ultimately have "\<exists>st. bitvecSetAll set1 vs (p', rc_or rc rc', ms') = Some st \<and>
        bv_set_post p0 (I \<union> {v} \<union> (set vs - {0})) ms0 st"
      by (intro Cons.IH) (use Cons.prems(4) in auto)
    moreover have "I \<union> {v} \<union> (set vs - {0}) = I \<union> (set (v # vs) - {0})"
      using False by auto
    ultimately show ?thesis using False st by simp
  qed
qed


lemma bv_rank_sub: "3968 < sz \<Longrightarrow> bv_rank sz = Suc (bv_rank (bitvecDivisor sz))"
  by (simp add: bv_rank.simps [of sz])

text \<open>Sub-dividing a full hash table, given that the recursive calls work.\<close>

lemma bitvecRehash_post:
  assumes ok: "bv_hash_ok sz ns a" and sz: "3968 < sz" and i: "0 < i" "i \<le> sz"
    and slot: "k < 124" "a ! k = 0" "path_full 124 a (bv_home i) k"
    and rec: "\<And>p v ms. bv_wf p \<Longrightarrow> iSize p = sz \<Longrightarrow> iDivisor p = bitvecDivisor sz \<Longrightarrow>
      0 < v \<Longrightarrow> v \<le> sz \<Longrightarrow> \<exists>st. set1 p v ms = Some st \<and> bv_set_post p {v} ms st"
  shows "\<exists>st. bitvecRehash set1 (Bitvec sz ns 0 (aHash a)) a k i ms = Some st \<and>
    bv_set_post (Bitvec sz ns 0 (aHash a)) {i} ms st"
proof -
  let ?p = "Bitvec sz ns 0 (aHash a)"
  let ?p1 = "Bitvec sz ns (bitvecDivisor sz) (apSub (replicate 62 None))"
  note D = bv_hash_okD [OF ok]
  have mem: "bv_mem ?p j \<longleftrightarrow> j + 1 \<in> set a" for j by (rule bv_mem_hash [OF ok])
  have wf: "bv_wf ?p" using sz ok by (rule bv_wf.hash)
  show ?thesis
  proof (cases "62 \<le> ns")
    case False
    then have "Suc ns < 124" by simp
    note S = bv_store_hash [OF ok slot i this]
    have "bv_set_post ?p {i} ms (Bitvec sz (Suc ns) 0 (aHash (a[k := i])), SQLITE_OK, ms)"
      using S sz bv_wf.hash [OF sz S(1)] by (simp add: bv_set_post_def mem bv_mem_hash [OF S(1)])
    with False show ?thesis by (simp add: bitvecRehash_def)
  next
    case full: True
    show ?thesis
    proof (cases "malloc_ok ms")
      case False
      then have "ms \<noteq> []" by auto
      with wf have "bv_set_post ?p {i} ms (?p, SQLITE_NOMEM, malloc_rest ms)"
        by (simp add: bv_set_post_def)
      with False full show ?thesis by (simp add: bitvecRehash_def)
    next
      case True
      have wf1: "bv_wf ?p1" using sz by (auto intro!: bv_wf.sub)
      have none: "\<not> bv_mem ?p1 j" for j by (simp add: bv_mem.simps)
      have d: "bitvecDivisor sz \<noteq> 0" using bitvecDivisor_bounds(2) [of sz] by simp
      obtain p2 rc ms2 where st: "set1 ?p1 i (malloc_rest ms) = Some (p2, rc, ms2)"
        and post: "bv_set_post ?p1 {i} (malloc_rest ms) (p2, rc, ms2)"
        using rec [OF wf1 _ _ i] by fastforce
      have "\<exists>st. bitvecSetAll set1 a (p2, rc, ms2) = Some st \<and>
          bv_set_post ?p1 ({i} \<union> (set a - {0})) (malloc_rest ms) st"
        by (rule bitvecSetAll_post [where sz = sz and d = "bitvecDivisor sz"])
          (use rec d post D(6) in \<open>auto simp: bv_set_post_def\<close>)
      then obtain st' where st': "bitvecSetAll set1 a (p2, rc, ms2) = Some st'"
        and post': "bv_set_post ?p1 ({i} \<union> (set a - {0})) (malloc_rest ms) st'" by blast
      have "bv_set_post ?p {i} ms st'"
        using post' none by (cases st') (auto simp: bv_set_post_def mem)
      with True full st st' show ?thesis by (simp add: bitvecRehash_def)
    qed
  qed
qed

text \<open>The call on a node that is a hash table.\<close>

lemma bitvecSet_hash_post:
  assumes ok: "bv_hash_ok sz ns a" and sz: "3968 < sz" and k: "k < sz"
    and rec: "\<And>p v ms. bv_wf p \<Longrightarrow> iSize p = sz \<Longrightarrow> iDivisor p = bitvecDivisor sz \<Longrightarrow>
      0 < v \<Longrightarrow> v \<le> sz \<Longrightarrow> \<exists>st. bitvecSet fuel p v ms = Some st \<and> bv_set_post p {v} ms st"
  shows "\<exists>st. bitvecSet (Suc fuel) (Bitvec sz ns 0 (aHash a)) (Suc k) ms = Some st \<and>
    bv_set_post (Bitvec sz ns 0 (aHash a)) {Suc k} ms st"
proof -
  let ?p = "Bitvec sz ns 0 (aHash a)"
  note D = bv_hash_okD [OF ok]
  have i: "0 < Suc k" "Suc k \<le> sz" using k by simp_all
  have home: "bv_home (Suc k) = k mod 124" "k mod 124 < 124" by (simp_all add: bv_home_def)
  obtain h where h: "probe 124 124 a (k mod 124) ((=) (Suc k)) = Some h" "h < 124"
    "a ! h = Suc k \<longleftrightarrow> Suc k \<in> set a" "a ! h = 0 \<longleftrightarrow> Suc k \<notin> set a"
    "a ! h = 0 \<Longrightarrow> path_full 124 a (bv_home (Suc k)) h"
    using bvt.probe_finds [OF D(1,2), of "Suc k"] by (auto simp: home)
  consider (free) "a ! (k mod 124) = 0" "ns < 123" | (full) "a ! (k mod 124) = 0" "\<not> ns < 123"
    | (found) "a ! (k mod 124) \<noteq> 0" "Suc k \<in> set a" | (collision) "a ! (k mod 124) \<noteq> 0" "Suc k \<notin> set a"
    by blast
  then show ?thesis
  proof cases
    case free
    have path: "path_full 124 a (bv_home (Suc k)) (k mod 124)"
      by (simp add: home path_full_def dist_def)
    have "Suc ns < 124" using free by simp
    note S = bv_store_hash [OF ok home(2) free(1) path i this]
    have "bv_set_post ?p {Suc k} ms (Bitvec sz (Suc ns) 0 (aHash (a[k mod 124 := Suc k])), SQLITE_OK, ms)"
      using S(2) bv_wf.hash [OF sz S(1)]
      by (simp add: bv_set_post_def bv_mem_hash [OF ok] bv_mem_hash [OF S(1)])
    with free sz show ?thesis by (simp add: bitvecSet.simps(2) [of fuel ?p])
  next
    case full
    have path: "path_full 124 a (bv_home (Suc k)) (k mod 124)"
      by (simp add: home path_full_def dist_def)
    have "bitvecSet (Suc fuel) ?p (Suc k) ms = bitvecRehash (bitvecSet fuel) ?p a (k mod 124) (Suc k) ms"
      using full sz by (simp add: bitvecSet.simps(2) [of fuel ?p])
    then show ?thesis
      using bitvecRehash_post [OF ok sz i home(2) full(1) path, of "bitvecSet fuel" ms] rec by auto
  next
    case found
    with h have "a ! h = Suc k" by simp
    moreover have "bv_set_post ?p {Suc k} ms (?p, SQLITE_OK, ms)"
      using found bv_wf.hash [OF sz ok] by (auto simp: bv_set_post_def bv_mem_hash [OF ok])
    ultimately show ?thesis using sz found h(1) by (simp add: bitvecSet.simps(2) [of fuel ?p])
  next
    case collision
    with h have free: "a ! h = 0" by simp
    have "bitvecSet (Suc fuel) ?p (Suc k) ms = bitvecRehash (bitvecSet fuel) ?p a h (Suc k) ms"
      using collision sz h(1) free by (simp add: bitvecSet.simps(2) [of fuel ?p])
    then show ?thesis
      using bitvecRehash_post [OF ok sz i h(2) free h(5) [OF free], of "bitvecSet fuel" ms] rec by auto
  qed
qed

text \<open>The call on a node with sub-bitmaps.\<close>

lemma bitvecSet_sub_post:
  assumes wf: "bv_wf (Bitvec sz ns (bitvecDivisor sz) (apSub subs))" and k: "k < sz"
    and rec: "\<And>q ms. bv_wf q \<Longrightarrow> iSize q = bitvecDivisor sz \<Longrightarrow>
      \<exists>st. bitvecSet fuel q (Suc (k mod bitvecDivisor sz)) ms = Some st \<and>
        bv_set_post q {Suc (k mod bitvecDivisor sz)} ms st"
  shows "\<exists>st. bitvecSet (Suc fuel) (Bitvec sz ns (bitvecDivisor sz) (apSub subs)) (Suc k) ms = Some st \<and>
    bv_set_post (Bitvec sz ns (bitvecDivisor sz) (apSub subs)) {Suc k} ms st"
proof -
  let ?d = "bitvecDivisor sz"
  let ?p = "Bitvec sz ns ?d (apSub subs)"
  have kd: "k div ?d < 62" and d: "?d \<noteq> 0"
    using bitvecDivisor_bounds(2) [of sz] bitvecDivisor_bounds(4) [OF k] by auto
  have sz: "3968 < sz" and len: "length subs = 62"
    and subs: "\<And>q. Some q \<in> set subs \<Longrightarrow> bv_wf q \<and> iSize q = ?d"
    using wf d by (auto elim: bv_wfE)
  have step: "\<exists>st. bitvecSet (Suc fuel) ?p (Suc k) ms = Some st \<and> bv_set_post ?p {Suc k} ms st"
    if q: "(case subs ! (k div ?d) of Some q \<Rightarrow> (Some q, ms) | None \<Rightarrow> sqlite3BitvecCreate ?d ms)
        = (Some q, ms')" "bv_wf q" "iSize q = ?d"
      and mem: "\<And>j. bv_mem q j \<longleftrightarrow> (case subs ! (k div ?d) of None \<Rightarrow> False | Some q \<Rightarrow> bv_mem q j)"
      and ms: "ms = [] \<Longrightarrow> ms' = []" for q ms'
  proof -
    obtain q' rc ms'' where st: "bitvecSet fuel q (Suc (k mod ?d)) ms' = Some (q', rc, ms'')"
      and post: "bv_set_post q {Suc (k mod ?d)} ms' (q', rc, ms'')"
      using rec [OF q(2,3), of ms'] by auto
    have "bitvecSet (Suc fuel) ?p (Suc k) ms =
        Some (Bitvec sz ns ?d (apSub (subs[k div ?d := Some q'])), rc, ms'')"
      using st q(1) sz kd len d
      by (simp add: bitvecSet.simps(2) [of fuel ?p] Let_def cong: option.case_cong)
    with bv_set_sub [OF wf len k mem q(3) post ms] show ?thesis by blast
  qed
  show ?thesis
  proof (cases "subs ! (k div ?d)")
    case (Some q)
    then have "Some q \<in> set subs" using kd len nth_mem by metis
    with Some show ?thesis using step [of q ms] subs by simp
  next
    case None
    show ?thesis
    proof (cases "malloc_ok ms")
      case True
      then obtain q where q: "sqlite3BitvecCreate ?d ms = (Some q, malloc_rest ms)"
        by (simp add: sqlite3BitvecCreate_def)
      show ?thesis using step [of q "malloc_rest ms"] bv_create_wf [OF q] None q by simp
    next
      case False
      then have "ms \<noteq> []" by auto
      with wf have "bv_set_post ?p {Suc k} ms (?p, SQLITE_NOMEM, malloc_rest ms)"
        by (simp add: bv_set_post_def)
      moreover have "bitvecSet (Suc fuel) ?p (Suc k) ms = Some (?p, SQLITE_NOMEM, malloc_rest ms)"
        using None False sz kd len d
        by (simp add: bitvecSet.simps(2) [of fuel ?p] sqlite3BitvecCreate_def Let_def)
      ultimately show ?thesis by blast
    qed
  qed
qed

lemma bitvecSet_post:
  "bv_wf p \<Longrightarrow> k < iSize p \<Longrightarrow> bv_need p \<le> fuel \<Longrightarrow>
   \<exists>st. bitvecSet fuel p (Suc k) ms = Some st \<and> bv_set_post p {Suc k} ms st"
proof (induction fuel arbitrary: p k ms)
  case 0
  then show ?case
    by (cases p) (auto simp: bv_need_def bv_rank_sub elim: bv_wfE split: if_splits)
next
  case (Suc fuel)
  from Suc.prems(1) show ?case
  proof cases
    case (bitmap sz b ns)
    then have "k div 8 < 496" using Suc.prems(2) by simp
    with bitmap bv_set_bitmap [of b k sz ns ms] Suc.prems(2) show ?thesis
      by (simp add: bitvecSet.simps)
  next
    case (hash sz ns a)
    have "\<exists>st. bitvecSet fuel q v ms = Some st \<and> bv_set_post q {v} ms st"
      if "bv_wf q" "iSize q = sz" "iDivisor q = bitvecDivisor sz" "0 < v" "v \<le> sz" for q v ms
    proof -
      have "bv_need q \<le> fuel"
        using Suc.prems(3) hash that bitvecDivisor_bounds(2) [of sz] by (simp add: bv_need_def)
      then show ?thesis using Suc.IH [of q "v - 1" ms] that by simp
    qed
    with hash Suc.prems(2) bitvecSet_hash_post show ?thesis by simp
  next
    case (sub sz subs ns)
    have "bv_need q \<le> fuel" if "iSize q = bitvecDivisor sz" for q
      using Suc.prems(3) sub that bitvecDivisor_bounds(2) [of sz] bv_rank_sub [of sz]
      by (simp add: bv_need_def)
    then show ?thesis
      unfolding sub(1)
      by (intro bitvecSet_sub_post)
        (use Suc.prems sub Suc.IH bitvecDivisor_mod in \<open>simp_all\<close>)
  qed
qed

text \<open>Ten units of fuel are enough for every 32-bit size: at most four levels of sub-division.\<close>

lemma bitvecDivisor_le: "sz \<le> 62 * m \<Longrightarrow> 3968 \<le> m \<Longrightarrow> bitvecDivisor sz \<le> m"
proof -
  assume *: "sz \<le> 62 * m" "3968 \<le> m"
  have eq: "sz div 62 * 62 + sz mod 62 = sz" by (rule div_mult_mod_eq)
  have "sz mod 62 \<noteq> 0 \<Longrightarrow> sz div 62 + 1 \<le> m" using *(1) eq by linarith
  moreover have "sz div 62 \<le> m" using *(1) eq by linarith
  ultimately show ?thesis using *(2) unfolding bitvecDivisor_def Let_def bitvec_consts by simp
qed

lemma bv_rank_step: "sz \<le> 62 * m \<Longrightarrow> 3968 \<le> m \<Longrightarrow> (\<And>n. n \<le> m \<Longrightarrow> bv_rank n \<le> r) \<Longrightarrow> bv_rank sz \<le> Suc r"
  using bitvecDivisor_le [of sz m] by (subst bv_rank.simps) auto

lemma bv_rank_32bit: "sz < 2 ^ 32 \<Longrightarrow> bv_rank sz \<le> 4"
proof -
  have r0: "bv_rank n \<le> 0" if "n \<le> 3968" for n using that by (simp add: bv_rank.simps)
  have r1: "bv_rank n \<le> 1" if "n \<le> 62 * 3968" for n
    using bv_rank_step [of n 3968 0] r0 that by simp
  have r2: "bv_rank n \<le> 2" if "n \<le> 62 * (62 * 3968)" for n
    using bv_rank_step [of n "62 * 3968" 1] r1 that by (simp add: numeral_2_eq_2)
  have r3: "bv_rank n \<le> 3" if "n \<le> 62 * (62 * (62 * 3968))" for n
    using bv_rank_step [of n "62 * (62 * 3968)" 2] r2 that by (simp add: numeral_3_eq_3)
  assume "sz < 2 ^ 32"
  then show ?thesis
    using bv_rank_step [of sz "62 * (62 * (62 * 3968))" 3] r3 by simp
qed


subsection \<open>Clearing a bit\<close>

lemma bitvecReinsert_ok:
  "bv_hash_ok sz n a \<Longrightarrow> \<forall>v \<in> set vs. v \<le> sz \<Longrightarrow>
   n + length (filter (\<lambda>v. v \<noteq> 0) vs) < 124 \<Longrightarrow>
   \<exists>n' a'. bitvecReinsert i vs (n, a) = Some (n', a') \<and> bv_hash_ok sz n' a' \<and>
     (\<forall>j. j + 1 \<in> set a' \<longleftrightarrow> j + 1 \<in> set a \<or> j + 1 \<in> set vs \<and> j + 1 \<noteq> i)"
proof (induction vs arbitrary: n a)
  case Nil
  then show ?case by simp
next
  case (Cons v vs)
  show ?case
  proof (cases "v \<noteq> 0 \<and> v \<noteq> i")
    case False
    moreover have "n + length (filter (\<lambda>v. v \<noteq> 0) vs) < 124"
      using Cons.prems(3) by (auto split: if_splits)
    ultimately show ?thesis using Cons.IH [OF Cons.prems(1)] Cons.prems(2) by fastforce
  next
    case True
    note D = bv_hash_okD [OF Cons.prems(1)]
    obtain h where h: "probe 124 124 a (bv_home v) (\<lambda>_. False) = Some h" "h < 124" "a ! h = 0"
      "\<And>d. d < dist 124 (bv_home v) h \<Longrightarrow> a ! ((bv_home v + d) mod 124) \<noteq> 0"
      using bvt.probe_ends [OF bvt.home_less D(2), of v "\<lambda>_. False"] by metis
    have path: "path_full 124 a (bv_home v) h" using h(4) by (simp add: path_full_def)
    have v: "0 < v" "v \<le> sz" "Suc n < 124" using True Cons.prems by (auto split: if_splits)
    note S = bv_store_hash [OF Cons.prems(1) h(2,3) path v]
    have "Suc n + length (filter (\<lambda>v. v \<noteq> 0) vs) < 124" using Cons.prems(3) True by simp
    then obtain n' a' where r: "bitvecReinsert i vs (Suc n, a[h := v]) = Some (n', a')"
      "bv_hash_ok sz n' a'"
      "\<forall>j. j + 1 \<in> set a' \<longleftrightarrow> j + 1 \<in> set (a[h := v]) \<or> j + 1 \<in> set vs \<and> j + 1 \<noteq> i"
      using Cons.IH [OF S(1)] Cons.prems(2) by auto
    have "\<forall>j. j + 1 \<in> set a' \<longleftrightarrow> j + 1 \<in> set a \<or> j + 1 \<in> set (v # vs) \<and> j + 1 \<noteq> i"
      using r(3) S(2) True by auto
    then show ?thesis using True h(1) r(1,2) by (auto simp: bv_home_def)
  qed
qed

lemma bit_and_not_one: "n < 8 \<Longrightarrow> bit ((x :: u8) AND NOT (2 ^ m)) n \<longleftrightarrow> bit x n \<and> n \<noteq> m"
  by (auto simp: bit_simps)

definition bv_clear_post :: "bitvec \<Rightarrow> nat \<Rightarrow> bitvec \<Rightarrow> bool" where
  "bv_clear_post p k p' \<longleftrightarrow> bv_wf p' \<and> iSize p' = iSize p \<and> (\<forall>j. bv_mem p' j \<longleftrightarrow> bv_mem p j \<and> j \<noteq> k)"

lemma bv_clear_sub:
  assumes wf: "bv_wf (Bitvec sz ns (bitvecDivisor sz) (apSub subs))" and len: "length subs = 62"
    and k: "k < sz" and q: "subs ! (k div bitvecDivisor sz) = Some q" "iSize q = bitvecDivisor sz"
    and post: "bv_clear_post q (k mod bitvecDivisor sz) q'"
  shows "bv_clear_post (Bitvec sz ns (bitvecDivisor sz) (apSub subs)) k
    (Bitvec sz ns (bitvecDivisor sz) (apSub (subs[k div bitvecDivisor sz := Some q'])))"
proof -
  let ?d = "bitvecDivisor sz"
  let ?p' = "Bitvec sz ns ?d (apSub (subs[k div ?d := Some q']))"
  have kd: "k div ?d < 62" using k by (rule bitvecDivisor_bounds(4))
  have "bv_wf r \<and> iSize r = ?d" if "Some r \<in> set (subs[k div ?d := Some q'])" for r
  proof -
    have "Some r \<in> insert (Some q') (set subs)"
      using that set_update_subset_insert by fastforce
    then show ?thesis using wf post q(2) by (auto simp: bv_clear_post_def elim!: bv_wfE)
  qed
  then have "bv_wf ?p'"
    using wf len by (intro bv_wf.sub) (auto elim: bv_wfE)
  moreover have "bv_mem ?p' j \<longleftrightarrow> bv_mem (Bitvec sz ns ?d (apSub subs)) j \<and> j \<noteq> k" for j
    using post q(1) kd len div_mod_eq_iff [of j k ?d]
    by (cases "j div ?d = k div ?d") (auto simp: bv_clear_post_def bv_mem_sub)
  ultimately show ?thesis by (simp add: bv_clear_post_def)
qed

lemma clearLoop_correct:
  "bv_wf p \<Longrightarrow> k < iSize p \<Longrightarrow> \<exists>p'. bitvecClearLoop p k = Some p' \<and> bv_clear_post p k p'"
proof (induction p arbitrary: k rule: bv_wf.induct)
  case (bitmap sz b ns)
  have "k div 8 < 496" using bitmap by simp
  moreover have "bv_mem (Bitvec sz ns 0 (aBitmap (b[k div 8 := b ! (k div 8) AND NOT (2 ^ (k mod 8))]))) j
      \<longleftrightarrow> bv_mem (Bitvec sz ns 0 (aBitmap b)) j \<and> j \<noteq> k" for j
    using calculation bitmap div_mod_eq_iff [of j k 8]
    by (cases "j div 8 = k div 8") (auto simp: bv_mem_bitmap bit_and_not_one)
  ultimately show ?case
    using bitmap by (simp add: bitvecClearLoop.simps bv_clear_post_def bv_wf.bitmap)
next
  case (hash sz ns a)
  note D = bv_hash_okD [OF hash(2)]
  have "bv_hash_ok sz 0 (replicate 124 0)"
    by (simp add: bv_hash_ok_def bvt.empty_reachable)
  then obtain n' a' where r: "bitvecReinsert (k + 1) a (0, replicate 124 0) = Some (n', a')"
    "bv_hash_ok sz n' a'" "\<forall>j. j + 1 \<in> set a' \<longleftrightarrow> j + 1 \<in> set a \<and> j + 1 \<noteq> k + 1"
    using bitvecReinsert_ok [of sz 0 "replicate 124 0" a "k + 1"] D(4,5,6) by auto
  then have "bv_clear_post (Bitvec sz ns 0 (aHash a)) k (Bitvec sz n' 0 (aHash a'))"
    using bv_wf.hash [OF hash(1) r(2)]
    by (simp add: bv_clear_post_def bv_mem_hash [OF hash(2)] bv_mem_hash [OF r(2)])
  with hash(1) r(1) show ?case by (simp add: bitvecClearLoop.simps)
next
  case (sub sz subs ns)
  let ?d = "bitvecDivisor sz"
  have k: "k < sz" "k div ?d < 62" using sub bitvecDivisor_bounds(4) [of k sz] by auto
  have d: "?d \<noteq> 0" using bitvecDivisor_bounds(2) [of sz] by simp
  have wf: "bv_wf (Bitvec sz ns ?d (apSub subs))" using sub(1-3) by (intro bv_wf.sub) auto
  show ?case
  proof (cases "subs ! (k div ?d)")
    case None
    then have "\<not> bv_mem (Bitvec sz ns ?d (apSub subs)) k" using sub(2) by (simp add: bv_mem_sub)
    then have "bv_clear_post (Bitvec sz ns ?d (apSub subs)) k (Bitvec sz ns ?d (apSub subs))"
      using wf by (auto simp: bv_clear_post_def)
    with None k sub(2) d show ?thesis by (simp add: bitvecClearLoop.simps Let_def)
  next
    case (Some q)
    then have "Some q \<in> set subs" using k(2) sub(2) nth_mem by metis
    then obtain q' where q': "bitvecClearLoop q (k mod ?d) = Some q'" "bv_clear_post q (k mod ?d) q'"
      "iSize q = ?d"
      using sub(3) bitvecDivisor_mod by fastforce
    with Some k sub(2) d bv_clear_sub [OF wf sub(2) k(1) Some q'(3,2)] show ?thesis
      by (simp add: bitvecClearLoop.simps [of sz] Let_def)
  qed
qed


subsection \<open>The page-set interface\<close>

text \<open>
  What the pager and the b-tree layer rely on: a bitmap of a fixed size is a set of numbers
  between 1 and the size; a set operation may run out of memory, and then the set it leaves
  is only known to hold nothing new but the number being added.
\<close>

locale page_set =
  fixes test :: "'s \<Rightarrow> nat \<Rightarrow> bool option"
    and add :: "'s \<Rightarrow> nat \<Rightarrow> mallocs \<Rightarrow> ('s \<times> rc \<times> mallocs) option"
    and remove :: "'s \<Rightarrow> nat \<Rightarrow> 's option"
    and capacity :: "'s \<Rightarrow> nat" and elems :: "'s \<Rightarrow> nat set" and inv :: "'s \<Rightarrow> bool"
  assumes test_elems: "inv s \<Longrightarrow> i < 2 ^ 32 \<Longrightarrow> test s i = Some (i \<in> elems s)"
    and elems_range: "inv s \<Longrightarrow> elems s \<subseteq> {1..capacity s}"
    and add_elems: "inv s \<Longrightarrow> i \<in> {1..capacity s} \<Longrightarrow>
      \<exists>s' rc ms'. add s i ms = Some (s', rc, ms') \<and> inv s' \<and> capacity s' = capacity s \<and>
        elems s' \<subseteq> insert i (elems s) \<and> (rc = SQLITE_OK \<longrightarrow> elems s' = insert i (elems s)) \<and>
        (rc = SQLITE_OK \<or> rc = SQLITE_NOMEM) \<and> (ms = [] \<longrightarrow> rc = SQLITE_OK \<and> ms' = [])"
    and remove_elems: "inv s \<Longrightarrow> i \<in> {1..capacity s} \<Longrightarrow>
      \<exists>s'. remove s i = Some s' \<and> inv s' \<and> capacity s' = capacity s \<and> elems s' = elems s - {i}"
begin

lemma add_test:
  assumes "inv s" and "i \<in> {1..capacity s}" and "j < 2 ^ 32"
    and "add s i ms = Some (s', SQLITE_OK, ms')"
  shows "test s' j = Some (j = i \<or> j \<in> elems s)"
  using add_elems [OF assms(1,2), of ms] assms(3,4) test_elems [of s' j] by auto

lemma remove_test:
  assumes "inv s" and "i \<in> {1..capacity s}" and "j < 2 ^ 32" and "remove s i = Some s'"
  shows "test s' j = Some (j \<noteq> i \<and> j \<in> elems s)"
  using remove_elems [OF assms(1,2)] assms(3,4) test_elems [of s' j] by auto

end

definition bv_ok :: "bitvec \<Rightarrow> bool" where
  "bv_ok p \<longleftrightarrow> bv_wf p \<and> iSize p < 2 ^ 32"

lemma bv_elems_Suc: "Suc j \<in> bv_elems p \<longleftrightarrow> bv_mem p j"
  by (simp add: bv_elems_def)

lemma bv_elems_eqI:
  assumes "\<And>j. Suc j \<in> A \<longleftrightarrow> Suc j \<in> B" and "0 \<notin> A" and "0 \<notin> B"
  shows "A = B"
proof (rule set_eqI)
  show "i \<in> A \<longleftrightarrow> i \<in> B" for i using assms by (cases i) auto
qed

lemma bv_elems_range: "bv_elems p \<subseteq> {1..iSize p}"
  using bv_mem_less by (fastforce simp: bv_elems_def)

lemma zero_notin_bv_elems [simp]: "0 \<notin> bv_elems p"
  by (simp add: bv_elems_def)

lemma BitvecTest_elems:
  assumes "bv_ok p" and "i < 2 ^ 32"
  shows "sqlite3BitvecTestNotNull p i = Some (i \<in> bv_elems p)"
proof (cases i)
  case 0
  with assms show ?thesis
    by (simp add: sqlite3BitvecTestNotNull_def bv_ok_def)
next
  case (Suc k)
  then have "(i + 2 ^ 32 - 1) mod 2 ^ 32 = k" using assms(2) by simp
  with Suc assms(1) show ?thesis
    using bv_mem_less [of p k]
    by (auto simp: sqlite3BitvecTestNotNull_def bv_elems_Suc testLoop_correct bv_ok_def Let_def)
qed

lemma bitvecSet_elems:
  assumes "bv_ok p" and "i \<in> {1..iSize p}"
  shows "\<exists>p' rc ms'. bitvecSet 10 p i ms = Some (p', rc, ms') \<and> bv_ok p' \<and> iSize p' = iSize p \<and>
    bv_elems p' \<subseteq> insert i (bv_elems p) \<and> (rc = SQLITE_OK \<longrightarrow> bv_elems p' = insert i (bv_elems p)) \<and>
    (rc = SQLITE_OK \<or> rc = SQLITE_NOMEM) \<and> (ms = [] \<longrightarrow> rc = SQLITE_OK \<and> ms' = [])"
proof -
  obtain k where k: "i = Suc k" "k < iSize p" using assms(2) by (cases i) auto
  have "bv_need p \<le> 10"
    using bv_rank_32bit [of "iSize p"] assms(1) by (simp add: bv_need_def bv_ok_def)
  then obtain p' rc ms' where st: "bitvecSet 10 p i ms = Some (p', rc, ms')"
    and post: "bv_set_post p {i} ms (p', rc, ms')"
    using bitvecSet_post [of p k 10 ms] assms(1) k by (auto simp: bv_ok_def)
  have "rc = SQLITE_OK \<Longrightarrow> bv_elems p' = insert i (bv_elems p)"
    using post k by (intro bv_elems_eqI) (auto simp: bv_set_post_def bv_elems_Suc)
  moreover have "bv_elems p' \<subseteq> insert i (bv_elems p)"
    using post by (auto simp: bv_set_post_def bv_elems_def)
  ultimately show ?thesis
    using st post assms(1) by (auto simp: bv_set_post_def bv_ok_def)
qed

interpretation bvs: page_set sqlite3BitvecTestNotNull "bitvecSet 10"
  "\<lambda>p i. bitvecClearLoop p (i - 1)" iSize bv_elems bv_ok
proof unfold_locales
  show "sqlite3BitvecTestNotNull s i = Some (i \<in> bv_elems s)" if "bv_ok s" "i < 2 ^ 32" for s i
    using that by (rule BitvecTest_elems)
next
  show "bv_elems s \<subseteq> {1..iSize s}" for s by (rule bv_elems_range)
next
  show "\<exists>s' rc ms'. bitvecSet 10 s i ms = Some (s', rc, ms') \<and> bv_ok s' \<and> iSize s' = iSize s \<and>
      bv_elems s' \<subseteq> insert i (bv_elems s) \<and> (rc = SQLITE_OK \<longrightarrow> bv_elems s' = insert i (bv_elems s)) \<and>
      (rc = SQLITE_OK \<or> rc = SQLITE_NOMEM) \<and> (ms = [] \<longrightarrow> rc = SQLITE_OK \<and> ms' = [])"
    if "bv_ok s" "i \<in> {1..iSize s}" for s i ms
    using that by (rule bitvecSet_elems)
next
  fix s i assume s: "bv_ok s" "i \<in> {1..iSize s}"
  then obtain k where k: "i = Suc k" "k < iSize s" by (cases i) auto
  obtain s' where s': "bitvecClearLoop s k = Some s'" "bv_clear_post s k s'"
    using clearLoop_correct [of s k] s(1) k by (auto simp: bv_ok_def)
  have "bv_elems s' = bv_elems s - {i}"
    using s'(2) k by (intro bv_elems_eqI) (auto simp: bv_clear_post_def bv_elems_Suc)
  then show "\<exists>s'. bitvecClearLoop s (i - 1) = Some s' \<and> bv_ok s' \<and> iSize s' = iSize s \<and>
      bv_elems s' = bv_elems s - {i}"
    using s s' k by (auto simp: bv_clear_post_def bv_ok_def)
qed

lemma bv_ok_created: "bv_ok (Bitvec 5000 0 0 (aHash (replicate 124 0)))"
  using bv_create_wf [of 5000 "[]" "Bitvec 5000 0 0 (aHash (replicate 124 0))"]
  by (auto simp: sqlite3BitvecCreate_def bv_ok_def)

subsection \<open>Properties\<close>

text \<open>
  C8: on a well-formed bitmap \<open>sqlite3BitvecTest\<close> returns, for every 32-bit argument (0 and
  out-of-range numbers included), whether the number is in the set the bitmap stands for.
\<close>

theorem BitvecTest_correct:
  assumes "bv_ok p" and "i < 2 ^ 32"
  shows "sqlite3BitvecTest (Some p) i = Some (i \<in> bv_elems p)"
  using bvs.test_elems [OF assms] by (simp add: sqlite3BitvecTest_def)

lemma BitvecTest_correct_witness:
  "\<exists>p. bv_ok p \<and> iSize p = 5000 \<and> sqlite3BitvecTest (Some p) 17 = Some (17 \<in> bv_elems p)"
  by (rule exI [of _ "Bitvec 5000 0 0 (aHash (replicate 124 0))"])
    (simp add: bv_ok_created BitvecTest_correct)

text \<open>
  C6: \<open>sqlite3BitvecSet\<close> always returns, keeps the bitmap well-formed, and with result
  \<open>SQLITE_OK\<close> has added exactly the given number, whatever representation the nodes are in
  and through any re-hash; its only error is \<open>SQLITE_NOMEM\<close>, and with no allocation failure
  it succeeds.
\<close>

theorem BitvecSet_correct:
  assumes "bv_ok p" and "1 \<le> i" and "i \<le> iSize p"
  shows "\<exists>p' rc ms'. sqlite3BitvecSet (Some p) i ms = Some (Some p', rc, ms') \<and>
    bv_ok p' \<and> iSize p' = iSize p \<and> bv_elems p' \<subseteq> insert i (bv_elems p) \<and>
    (rc = SQLITE_OK \<longrightarrow> bv_elems p' = insert i (bv_elems p)) \<and>
    (rc = SQLITE_OK \<or> rc = SQLITE_NOMEM) \<and> (ms = [] \<longrightarrow> rc = SQLITE_OK)"
  using bvs.add_elems [OF assms(1), of i ms] assms(2,3) by (auto simp: sqlite3BitvecSet_def)

lemma BitvecSet_correct_witness:
  "\<exists>p p' ms'. bv_ok p \<and> iSize p = 5000 \<and>
     sqlite3BitvecSet (Some p) 17 [] = Some (Some p', SQLITE_OK, ms') \<and>
     bv_elems p' = insert 17 (bv_elems p)"
  using BitvecSet_correct [OF bv_ok_created, of 17 "[]"] bv_ok_created by fastforce

text \<open>
  C7: \<open>sqlite3BitvecClear\<close> removes exactly the given number and keeps the bitmap
  well-formed, rebuilding a hash table where the number was in one.
\<close>

theorem BitvecClear_correct:
  assumes "bv_ok p" and "1 \<le> i" and "i \<le> iSize p"
  shows "\<exists>p'. sqlite3BitvecClear (Some p) i = Some (Some p') \<and> bv_ok p' \<and>
    iSize p' = iSize p \<and> bv_elems p' = bv_elems p - {i}"
  using bvs.remove_elems [OF assms(1), of i] assms(2,3) by (auto simp: sqlite3BitvecClear_def)

lemma BitvecClear_correct_witness:
  "\<exists>p p'. bv_ok p \<and> iSize p = 5000 \<and> sqlite3BitvecClear (Some p) 17 = Some (Some p') \<and>
     bv_elems p' = bv_elems p - {17}"
  using BitvecClear_correct [OF bv_ok_created, of 17] bv_ok_created by auto

end
