(* ===== verification/RowSet.thy ===== *)
theory RowSet
  imports Sqlite_Prelude "HOL-Library.Tree" "HOL-Library.Log_Nat"
begin

text \<open>
  The rowid set of rowset.c.  Entries waiting in insertion order are a list; entries of
  earlier batches are in a forest of binary search trees, one per list cell, where an empty
  tree is a null \<^verbatim>\<open>pLeft\<close>.  Lists linked through \<^verbatim>\<open>pRight\<close> are HOL lists of their values and a
  null pointer is the empty list or the empty tree.  Only the order of rowids matters, so
  they are \<open>int\<close>.

  The merge sort uses an array of 40 buckets; the result \<open>None\<close> stands for a carry past its
  end.
\<close>

subsection \<open>The code\<close>

definition ROWSET_ENTRY_PER_CHUNK :: nat where
  "ROWSET_ENTRY_PER_CHUNK = (1024 - 8) div 24"

record RowSet =
  pChunk :: nat
  pEntry :: "int list"
  pLast :: "int option"
  pForest :: "int tree list"
  nFresh :: nat
  ROWSET_SORTED :: bool
  ROWSET_NEXT :: bool
  iBatch :: int

text \<open>\<open>N\<close> is the size \<open>sqlite3DbMallocSize\<close> reports; the structure itself takes 56 bytes.\<close>

definition sqlite3RowSetInit :: "nat \<Rightarrow> mallocs \<Rightarrow> RowSet option \<times> mallocs" where
  "sqlite3RowSetInit N ms =
     (if malloc_ok ms then
        Some \<lparr>pChunk = 0, pEntry = [], pLast = None, pForest = [],
              nFresh = ((N - 56) div 24) mod 2 ^ 16, ROWSET_SORTED = True, ROWSET_NEXT = False,
              iBatch = 0\<rparr>
      else None, malloc_rest ms)"

definition sqlite3RowSetClear :: "RowSet \<Rightarrow> RowSet" where
  "sqlite3RowSetClear p =
     p\<lparr>pChunk := 0, nFresh := 0, pEntry := [], pLast := None, pForest := [],
       ROWSET_SORTED := True, ROWSET_NEXT := False\<rparr>"

text \<open>\<open>True\<close> for a fresh entry, \<open>False\<close> for a failed allocation.\<close>

definition rowSetEntryAlloc :: "RowSet \<Rightarrow> mallocs \<Rightarrow> bool \<times> RowSet \<times> mallocs" where
  "rowSetEntryAlloc p ms =
     (if nFresh p = 0 then
        if malloc_ok ms then
          (True, p\<lparr>pChunk := pChunk p + 1, nFresh := ROWSET_ENTRY_PER_CHUNK - 1\<rparr>, malloc_rest ms)
        else (False, p, malloc_rest ms)
      else (True, p\<lparr>nFresh := nFresh p - 1\<rparr>, ms))"

definition sqlite3RowSetInsert :: "RowSet \<Rightarrow> int \<Rightarrow> mallocs \<Rightarrow> RowSet \<times> mallocs" where
  "sqlite3RowSetInsert p rowid ms =
     (case rowSetEntryAlloc p ms of
        (False, p, ms) \<Rightarrow> (p, ms)
      | (True, p, ms) \<Rightarrow>
          ((case pLast p of
              Some l \<Rightarrow>
                p\<lparr>ROWSET_SORTED := (if rowid \<le> l then False else ROWSET_SORTED p),
                  pEntry := pEntry p @ [rowid], pLast := Some rowid\<rparr>
            | None \<Rightarrow> p\<lparr>pEntry := [rowid], pLast := Some rowid\<rparr>), ms))"

fun rowSetEntryMerge :: "int list \<Rightarrow> int list \<Rightarrow> int list" where
  "rowSetEntryMerge [] pB = pB"
| "rowSetEntryMerge pA [] = pA"
| "rowSetEntryMerge (a # pA) (b # pB) =
     (if a \<le> b then (if a < b then [a] else []) @ rowSetEntryMerge pA (b # pB)
      else b # rowSetEntryMerge (a # pA) pB)"

text \<open>The inner loop of the sort: merge with the occupied buckets up to the first free one.\<close>

fun rowSetBucketAdd :: "int list list \<Rightarrow> int list \<Rightarrow> int list list option" where
  "rowSetBucketAdd [] pIn = None"
| "rowSetBucketAdd (b # bs) pIn =
     (if b = [] then Some (pIn # bs)
      else map_option ((#) []) (rowSetBucketAdd bs (rowSetEntryMerge b pIn)))"

fun rowSetBuckets :: "int list list \<Rightarrow> int list \<Rightarrow> int list list option" where
  "rowSetBuckets bs [] = Some bs"
| "rowSetBuckets bs (v # pNext) =
     (case rowSetBucketAdd bs [v] of None \<Rightarrow> None | Some bs' \<Rightarrow> rowSetBuckets bs' pNext)"

fun rowSetCollect :: "int list \<Rightarrow> int list list \<Rightarrow> int list" where
  "rowSetCollect pIn [] = pIn"
| "rowSetCollect pIn (b # bs) =
     (if b = [] then rowSetCollect pIn bs
      else rowSetCollect (if pIn \<noteq> [] then rowSetEntryMerge pIn b else b) bs)"

definition rowSetEntrySort :: "int list \<Rightarrow> int list option" where
  "rowSetEntrySort pIn =
     (case rowSetBuckets (replicate 40 []) pIn of None \<Rightarrow> None
      | Some bs \<Rightarrow> Some (rowSetCollect (hd bs) (tl bs)))"

fun rowSetTreeToList :: "int tree \<Rightarrow> int list" where
  "rowSetTreeToList Leaf = []"
| "rowSetTreeToList (Node l v r) =
     (if l \<noteq> Leaf then rowSetTreeToList l @ [v] else [v]) @
     (if r \<noteq> Leaf then rowSetTreeToList r else [])"

fun rowSetNDeepTree :: "int list \<Rightarrow> nat \<Rightarrow> int tree \<times> int list" where
  "rowSetNDeepTree pList 0 = (case pList of [] \<Rightarrow> (Leaf, []) | p # ps \<Rightarrow> (Node Leaf p Leaf, ps))"
| "rowSetNDeepTree pList (Suc d) =
     (case pList of [] \<Rightarrow> (Leaf, [])
      | p # ps \<Rightarrow>
          if Suc d > 1 then
            (case rowSetNDeepTree pList d of
               (pLeft, []) \<Rightarrow> (pLeft, [])
             | (pLeft, q # qs) \<Rightarrow>
                 (case rowSetNDeepTree qs d of (pRight, rest) \<Rightarrow> (Node pLeft q pRight, rest)))
          else (Node Leaf p Leaf, ps))"

text \<open>The tree holds the front of the list, in order, and the rest is what was not used.\<close>

lemma NDeepTree_inorder: "rowSetNDeepTree ps d = (t, rest) \<Longrightarrow> inorder t @ rest = ps"
proof (induction d arbitrary: ps t rest)
  case (Suc d)
  show ?case
  proof (cases "ps = [] \<or> d = 0")
    case True
    with Suc.prems show ?thesis by (auto split: list.splits)
  next
    case False
    obtain l qs where l: "rowSetNDeepTree ps d = (l, qs)" by fastforce
    with Suc.IH [OF l] False Suc.prems show ?thesis
      by (auto split: list.splits prod.splits dest: Suc.IH)
  qed
qed (auto split: list.splits)

lemma NDeepTree_rest: "length (snd (rowSetNDeepTree ps d)) \<le> length ps"
proof -
  obtain t rest where "rowSetNDeepTree ps d = (t, rest)" by fastforce
  from NDeepTree_inorder [OF this] this show ?thesis by auto
qed

function rowSetListToTreeLoop :: "int tree \<Rightarrow> int list \<Rightarrow> nat \<Rightarrow> int tree" where
  "rowSetListToTreeLoop p pList iDepth =
     (case pList of [] \<Rightarrow> p
      | q # qs \<Rightarrow>
          (case rowSetNDeepTree qs iDepth of
             (pRight, rest) \<Rightarrow> rowSetListToTreeLoop (Node p q pRight) rest (iDepth + 1)))"
  by pat_completeness auto
termination
proof (relation "measure (\<lambda>(p, pList, iDepth). length pList)", goal_cases)
  case (2 p pList iDepth q qs pRight rest)
  then show ?case using NDeepTree_rest [of qs iDepth] by (simp flip: 2(2))
qed simp

declare rowSetListToTreeLoop.simps [simp del]

definition rowSetListToTree :: "int list \<Rightarrow> int tree" where
  "rowSetListToTree pList =
     (case pList of [] \<Rightarrow> Leaf | p # ps \<Rightarrow> rowSetListToTreeLoop (Node Leaf p Leaf) ps 1)"

definition sqlite3RowSetNext :: "RowSet \<Rightarrow> (RowSet \<times> int option) option" where
  "sqlite3RowSetNext p =
     (case (if ROWSET_NEXT p then Some p
            else map_option (\<lambda>es. p\<lparr>pEntry := es, ROWSET_SORTED := True, ROWSET_NEXT := True\<rparr>)
                   (if ROWSET_SORTED p then Some (pEntry p) else rowSetEntrySort (pEntry p))) of
        None \<Rightarrow> None
      | Some p \<Rightarrow>
          (case pEntry p of [] \<Rightarrow> Some (p, None)
           | v # es \<Rightarrow>
               Some (if es = [] then sqlite3RowSetClear (p\<lparr>pEntry := es\<rparr>) else p\<lparr>pEntry := es\<rparr>,
                     Some v)))"

text \<open>
  The walk over the forest on the first test of a batch: trees met on the way are emptied
  into the list, and an empty cell takes the new tree.  The second component is the list left
  when the walk runs off the end of the forest.
\<close>

fun rowSetForestAdd :: "int tree list \<Rightarrow> int list \<Rightarrow> int tree list \<times> int list option" where
  "rowSetForestAdd [] p = ([], Some p)"
| "rowSetForestAdd (pTree # ts) p =
     (if pTree = Leaf then (rowSetListToTree p # ts, None)
      else (case rowSetForestAdd ts (rowSetEntryMerge (rowSetTreeToList pTree) p) of
              (ts', r) \<Rightarrow> (Leaf # ts', r)))"

definition rowSetNewBatch :: "RowSet \<Rightarrow> int list \<Rightarrow> mallocs \<Rightarrow> RowSet \<times> mallocs" where
  "rowSetNewBatch p es ms =
     (case rowSetForestAdd (pForest p) es of
        (ts, None) \<Rightarrow> (p\<lparr>pForest := ts\<rparr>, ms)
      | (ts, Some es) \<Rightarrow>
          (case rowSetEntryAlloc p ms of
             (True, p, ms) \<Rightarrow> (p\<lparr>pForest := ts @ [rowSetListToTree es]\<rparr>, ms)
           | (False, p, ms) \<Rightarrow> (p\<lparr>pForest := ts\<rparr>, ms)))"

fun rowSetTreeFind :: "int tree \<Rightarrow> int \<Rightarrow> bool" where
  "rowSetTreeFind Leaf iRowid = False"
| "rowSetTreeFind (Node l v r) iRowid =
     (if v < iRowid then rowSetTreeFind r iRowid
      else if v > iRowid then rowSetTreeFind l iRowid
      else True)"

definition rowSetBatch :: "RowSet \<Rightarrow> int \<Rightarrow> mallocs \<Rightarrow> (RowSet \<times> mallocs) option" where
  "rowSetBatch p b ms =
     (if b \<noteq> iBatch p then
        if pEntry p \<noteq> [] then
          (case (if ROWSET_SORTED p then Some (pEntry p) else rowSetEntrySort (pEntry p)) of
             None \<Rightarrow> None
           | Some es \<Rightarrow>
               (case rowSetNewBatch p es ms of
                  (p, ms) \<Rightarrow>
                    Some (p\<lparr>pEntry := [], pLast := None, ROWSET_SORTED := True, iBatch := b\<rparr>, ms)))
        else Some (p\<lparr>iBatch := b\<rparr>, ms)
      else Some (p, ms))"

definition sqlite3RowSetTest :: "RowSet \<Rightarrow> int \<Rightarrow> int \<Rightarrow> mallocs \<Rightarrow> (RowSet \<times> bool \<times> mallocs) option" where
  "sqlite3RowSetTest p b iRowid ms =
     (case rowSetBatch p b ms of None \<Rightarrow> None
      | Some (p, ms) \<Rightarrow> Some (p, list_ex (\<lambda>t. rowSetTreeFind t iRowid) (pForest p), ms))"

subsection \<open>Merging and sorting\<close>

text \<open>A strictly increasing list.\<close>

abbreviation ascending :: "int list \<Rightarrow> bool" where
  "ascending xs \<equiv> sorted_wrt (<) xs"

lemma merge_set [simp]: "set (rowSetEntryMerge xs ys) = set xs \<union> set ys"
proof (induction xs ys rule: rowSetEntryMerge.induct)
  case (3 a pA b pB)
  show ?case
  proof (cases "a \<le> b")
    case True
    with 3 show ?thesis by (cases "a < b") auto
  next
    case False
    with 3 show ?thesis by auto
  qed
qed simp_all

lemma merge_ascending: "ascending xs \<Longrightarrow> ascending ys \<Longrightarrow> ascending (rowSetEntryMerge xs ys)"
proof (induction xs ys rule: rowSetEntryMerge.induct)
  case (3 a pA b pB)
  show ?case
  proof (cases "a \<le> b")
    case True
    with 3 show ?thesis by (cases "a < b") auto
  next
    case False
    with 3 show ?thesis by auto
  qed
qed simp_all

lemma merge_eq_Nil [simp]: "rowSetEntryMerge xs ys = [] \<longleftrightarrow> xs = [] \<and> ys = []"
  using merge_set [of xs ys] by (metis Un_empty set_empty)

text \<open>The buckets count the entries in binary.\<close>

fun bucket_count :: "int list list \<Rightarrow> nat" where
  "bucket_count [] = 0"
| "bucket_count (b # bs) = (if b = [] then 0 else 1) + 2 * bucket_count bs"

definition buckets_ok :: "int list list \<Rightarrow> bool" where
  "buckets_ok bs \<longleftrightarrow> list_all ascending bs"

lemma bucketAdd_ok:
  assumes "buckets_ok bs" and "ascending p" and "p \<noteq> []" and "Suc (bucket_count bs) < 2 ^ length bs"
  shows "\<exists>bs'. rowSetBucketAdd bs p = Some bs' \<and> buckets_ok bs' \<and> length bs' = length bs \<and>
    bucket_count bs' = Suc (bucket_count bs) \<and> \<Union> (set ` set bs') = set p \<union> \<Union> (set ` set bs)"
  using assms
proof (induction bs p rule: rowSetBucketAdd.induct)
  case (2 b bs p)
  show ?case
  proof (cases "b = []")
    case False
    with 2 obtain bs' where "rowSetBucketAdd bs (rowSetEntryMerge b p) = Some bs'"
      "buckets_ok bs'" "length bs' = length bs" "bucket_count bs' = Suc (bucket_count bs)"
      "\<Union> (set ` set bs') = set b \<union> set p \<union> \<Union> (set ` set bs)"
      by (auto simp: buckets_ok_def merge_ascending)
    with False show ?thesis by (auto simp: buckets_ok_def)
  qed (use 2 in \<open>auto simp: buckets_ok_def\<close>)
qed simp

lemma buckets_correct:
  assumes "buckets_ok bs" and "bucket_count bs + length vs < 2 ^ length bs"
  shows "\<exists>bs'. rowSetBuckets bs vs = Some bs' \<and> buckets_ok bs' \<and> length bs' = length bs \<and>
    \<Union> (set ` set bs') = set vs \<union> \<Union> (set ` set bs)"
  using assms
proof (induction vs arbitrary: bs)
  case (Cons v vs)
  then obtain bs' where "rowSetBucketAdd bs [v] = Some bs'" "buckets_ok bs'"
    "length bs' = length bs" "bucket_count bs' = Suc (bucket_count bs)"
    "\<Union> (set ` set bs') = insert v (\<Union> (set ` set bs))"
    using bucketAdd_ok [of bs "[v]"] by auto
  with Cons.IH [of bs'] Cons.prems show ?case by auto
qed simp

lemma collect_correct:
  "buckets_ok bs \<Longrightarrow> ascending p \<Longrightarrow>
   ascending (rowSetCollect p bs) \<and> set (rowSetCollect p bs) = set p \<union> \<Union> (set ` set bs)"
  by (induction p bs rule: rowSetCollect.induct) (auto simp: buckets_ok_def merge_ascending)

lemma bucket_count_empty: "bucket_count (replicate n []) = 0"
  by (induction n) auto

lemma sort_ascending:
  assumes "length vs < 2 ^ 40"
  shows "\<exists>es. rowSetEntrySort vs = Some es \<and> ascending es \<and> set es = set vs"
proof -
  have "buckets_ok (replicate 40 [])" by (simp add: buckets_ok_def list_all_iff)
  then obtain bs where bs: "rowSetBuckets (replicate 40 []) vs = Some bs" "buckets_ok bs"
    "length bs = 40" "\<Union> (set ` set bs) = set vs"
    using buckets_correct [of "replicate 40 []" vs] assms by (auto simp: bucket_count_empty)
  then obtain b rest where "bs = b # rest" by (cases bs) auto
  with bs collect_correct [of rest b] show ?thesis
    by (auto simp: rowSetEntrySort_def buckets_ok_def)
qed

lemma ascending_unique: "ascending xs \<Longrightarrow> xs = sorted_list_of_set (set xs)"
  by (simp add: strict_sorted_equal)

subsection \<open>Trees\<close>

lemma TreeToList_inorder [simp]: "rowSetTreeToList t = inorder t"
  by (induction t) auto

lemma ListToTreeLoop_inorder:
  "inorder (rowSetListToTreeLoop p ps d) = inorder p @ ps"
proof (induction p ps d rule: rowSetListToTreeLoop.induct)
  case (1 p ps d)
  show ?case
  proof (cases ps)
    case (Cons q qs)
    obtain r rest where "rowSetNDeepTree qs d = (r, rest)" by fastforce
    with 1 [OF Cons this [symmetric]] NDeepTree_inorder [OF this] Cons show ?thesis
      by (simp add: rowSetListToTreeLoop.simps [of p])
  qed (simp add: rowSetListToTreeLoop.simps)
qed

lemma ListToTree_inorder [simp]: "inorder (rowSetListToTree ps) = ps"
  by (cases ps) (simp_all add: rowSetListToTree_def ListToTreeLoop_inorder)

lemma ListToTree_set [simp]: "set_tree (rowSetListToTree ps) = set ps"
  by (metis ListToTree_inorder set_inorder)

lemma ListToTree_bst: "ascending ps \<Longrightarrow> bst (rowSetListToTree ps)"
  by (simp add: bst_iff_sorted_wrt_less)

lemma TreeFind_bst: "bst t \<Longrightarrow> rowSetTreeFind t x \<longleftrightarrow> x \<in> set_tree t"
  by (induction t) auto

lemma NDeepTree_height:
  "rowSetNDeepTree ps (Suc d) = (t, rest) \<Longrightarrow>
   height t \<le> Suc d \<and> (rest \<noteq> [] \<longrightarrow> 2 ^ Suc d \<le> Suc (size t))"
proof (induction d arbitrary: ps t rest)
  case (Suc d)
  show ?case
  proof (cases ps)
    case Nil
    with Suc.prems show ?thesis by auto
  next
    case (Cons p ps')
    obtain l qs where l: "rowSetNDeepTree ps (Suc d) = (l, qs)" by fastforce
    show ?thesis
    proof (cases qs)
      case Nil
      with l Suc.IH [OF l] Suc.prems Cons show ?thesis by auto
    next
      case (Cons q qs')
      obtain r rs where r: "rowSetNDeepTree qs' (Suc d) = (r, rs)" by fastforce
      have "t = Node l q r" "rest = rs"
        using Suc.prems \<open>ps = p # ps'\<close> l r Cons
        by (auto simp del: rowSetNDeepTree.simps(2) simp: rowSetNDeepTree.simps(2) [of "p # ps'" "Suc d"])
      with Suc.IH [OF l] Suc.IH [OF r] Cons show ?thesis by auto
    qed
  qed
qed (auto split: list.splits)

lemma ListToTreeLoop_height:
  "height p \<le> Suc d \<Longrightarrow> 2 ^ Suc d \<le> Suc (size p) \<Longrightarrow> t = rowSetListToTreeLoop p ps (Suc d) \<Longrightarrow>
   2 ^ height t \<le> 2 * size t"
proof (induction p ps "Suc d" arbitrary: d rule: rowSetListToTreeLoop.induct)
  case (1 p ps d)
  show ?case
  proof (cases ps)
    case Nil
    have "2 ^ height t \<le> (2 :: nat) ^ Suc d"
      using 1(2,4) Nil by (intro power_increasing) (simp_all add: rowSetListToTreeLoop.simps)
    moreover have "t = p" using 1(4) Nil by (simp add: rowSetListToTreeLoop.simps)
    moreover have "(2 :: nat) ^ Suc d \<ge> 2" by simp
    ultimately have "2 ^ height t \<le> Suc (size t)" "2 \<le> Suc (size t)"
      using 1(3) by (metis order_trans)+
    then show ?thesis by linarith
  next
    case (Cons q qs)
    obtain r rest where r: "rowSetNDeepTree qs (Suc d) = (r, rest)" by fastforce
    note h = NDeepTree_height [OF r]
    have t: "t = rowSetListToTreeLoop (Node p q r) rest (Suc (Suc d))"
      using 1(4) Cons r by (simp add: rowSetListToTreeLoop.simps [of p])
    show ?thesis
    proof (cases "rest = []")
      case True
      then have "t = Node p q r" using t by (simp add: rowSetListToTreeLoop.simps)
      moreover from this have "2 ^ height t \<le> (2 :: nat) ^ Suc (Suc d)"
        using 1(2) h by (intro power_increasing) simp_all
      ultimately show ?thesis using 1(3) by simp
    next
      case False
      show ?thesis
        by (rule 1(1) [OF Cons r [symmetric] _ _ _ t]) (use 1(2,3) h False in auto)
    qed
  qed
qed

subsection \<open>Invariant and abstraction\<close>

definition rs_inv :: "RowSet \<Rightarrow> bool" where
  "rs_inv p \<longleftrightarrow>
     (ROWSET_SORTED p \<longrightarrow> ascending (pEntry p)) \<and>
     (\<not> ROWSET_NEXT p \<longrightarrow> pLast p = (if pEntry p = [] then None else Some (last (pEntry p)))) \<and>
     list_all bst (pForest p)"

definition forest_elems :: "int tree list \<Rightarrow> int set" where
  "forest_elems ts = \<Union> (set_tree ` set ts)"

lemma forest_elems_simps [simp]:
  "forest_elems [] = {}" "forest_elems (t # ts) = set_tree t \<union> forest_elems ts"
  "forest_elems (ts @ us) = forest_elems ts \<union> forest_elems us"
  by (auto simp: forest_elems_def)

lemma EntryAlloc_fields:
  assumes "rowSetEntryAlloc p ms = (ok, p', ms')"
  shows "pEntry p' = pEntry p" "pLast p' = pLast p" "pForest p' = pForest p"
    "ROWSET_SORTED p' = ROWSET_SORTED p" "ROWSET_NEXT p' = ROWSET_NEXT p" "iBatch p' = iBatch p"
    "ms = [] \<Longrightarrow> ok \<and> ms' = []"
  using assms by (auto simp: rowSetEntryAlloc_def split: if_splits)

lemma ascending_snoc: "ascending (xs @ [x]) \<longleftrightarrow> ascending xs \<and> (xs = [] \<or> last xs < x)"
proof (induction xs)
  case (Cons a xs)
  then show ?case by (cases "xs = []") (auto, metis last_in_set order_less_trans)
qed simp

lemma Insert_inv [inv_intro]:
  assumes "rs_inv p" and "\<not> ROWSET_NEXT p" and "sqlite3RowSetInsert p v ms = (p', ms')"
  shows "rs_inv p' \<and> \<not> ROWSET_NEXT p' \<and> pForest p' = pForest p \<and> iBatch p' = iBatch p \<and>
    (pEntry p' = pEntry p \<or> pEntry p' = pEntry p @ [v]) \<and>
    (ms = [] \<longrightarrow> ms' = [] \<and> pEntry p' = pEntry p @ [v])"
proof -
  obtain ok q ms1 where q: "rowSetEntryAlloc p ms = (ok, q, ms1)" by (metis prod_cases3)
  note f = EntryAlloc_fields [OF q]
  show ?thesis
    using assms f
    by (cases ok; cases "pEntry p = []")
      (auto simp: sqlite3RowSetInsert_def q rs_inv_def ascending_snoc split: if_splits)
qed

lemma ForestAdd_correct:
  assumes "list_all bst ts" and "ascending p" and "rowSetForestAdd ts p = (ts', r)"
  shows "list_all bst ts' \<and>
    (case r of None \<Rightarrow> forest_elems ts' = forest_elems ts \<union> set p
     | Some q \<Rightarrow> ascending q \<and> forest_elems ts' \<union> set q = forest_elems ts \<union> set p)"
  using assms
proof (induction ts p arbitrary: ts' r rule: rowSetForestAdd.induct)
  case (2 t ts p)
  show ?case
  proof (cases "t = Leaf")
    case True
    with 2(2-) show ?thesis by (auto simp: ListToTree_bst)
  next
    case False
    let ?q = "rowSetEntryMerge (rowSetTreeToList t) p"
    obtain us r' where u: "rowSetForestAdd ts ?q = (us, r')" by fastforce
    have "ascending ?q"
      using 2(2,3) by (auto simp: bst_iff_sorted_wrt_less intro: merge_ascending)
    then have IH: "list_all bst us \<and>
      (case r' of None \<Rightarrow> forest_elems us = forest_elems ts \<union> set ?q
       | Some q \<Rightarrow> ascending q \<and> forest_elems us \<union> set q = forest_elems ts \<union> set ?q)"
      using 2(1) [OF False _ _ u] 2(2) by simp
    have "ts' = Leaf # us" "r' = r" using 2(4) u False by simp_all
    with IH show ?thesis
      by (simp add: Un_ac split: option.splits)
  qed
qed auto

lemma NewBatch_correct:
  assumes "list_all bst (pForest p)" and "ascending es" and "rowSetNewBatch p es ms = (p', ms')"
  shows "list_all bst (pForest p') \<and> forest_elems (pForest p') \<subseteq> forest_elems (pForest p) \<union> set es \<and>
    ROWSET_NEXT p' = ROWSET_NEXT p \<and>
    (ms = [] \<longrightarrow> ms' = [] \<and> forest_elems (pForest p') = forest_elems (pForest p) \<union> set es)"
proof -
  obtain ts r where t: "rowSetForestAdd (pForest p) es = (ts, r)" by fastforce
  note F = ForestAdd_correct [OF assms(1,2) t]
  obtain ok q ms1 where q: "rowSetEntryAlloc p ms = (ok, q, ms1)" by (metis prod_cases3)
  note f = EntryAlloc_fields [OF q]
  show ?thesis
  proof (cases r)
    case None
    with assms(3) F show ?thesis by (auto simp: rowSetNewBatch_def t)
  next
    case (Some es')
    with F have sub: "forest_elems ts \<union> set es' = forest_elems (pForest p) \<union> set es"
      "list_all bst ts" "ascending es'" by simp_all
    from Some assms(3) have "p' = q\<lparr>pForest := (if ok then ts @ [rowSetListToTree es'] else ts)\<rparr>" "ms' = ms1"
      by (cases ok; simp add: rowSetNewBatch_def t q)+
    then have p': "pForest p' = (if ok then ts @ [rowSetListToTree es'] else ts)"
      "ROWSET_NEXT p' = ROWSET_NEXT p" "ms = [] \<Longrightarrow> ok \<and> ms' = []"
      using f(5,7) by simp_all
    have "forest_elems (pForest p') \<subseteq> forest_elems ts \<union> set es'"
      "ok \<Longrightarrow> forest_elems (pForest p') = forest_elems ts \<union> set es'"
      by (simp_all add: p'(1))
    with p' sub(2,3) show ?thesis
      unfolding sub(1) by (simp add: ListToTree_bst)
  qed
qed

text \<open>One batch change: the waiting entries join the forest unless an allocation fails.\<close>

lemma Batch_correct:
  assumes "rs_inv p" and "\<not> ROWSET_NEXT p" and "length (pEntry p) < 2 ^ 40"
  shows "\<exists>p' ms'. rowSetBatch p b ms = Some (p', ms') \<and> rs_inv p' \<and> \<not> ROWSET_NEXT p' \<and> iBatch p' = b \<and>
    pEntry p' = (if b = iBatch p then pEntry p else []) \<and>
    forest_elems (pForest p') \<subseteq> forest_elems (pForest p) \<union> (if b = iBatch p then {} else set (pEntry p)) \<and>
    (ms = [] \<longrightarrow> ms' = [] \<and>
      forest_elems (pForest p') = forest_elems (pForest p) \<union> (if b = iBatch p then {} else set (pEntry p)))"
proof (cases "b = iBatch p \<or> pEntry p = []")
  case True
  with assms show ?thesis by (auto simp: rowSetBatch_def rs_inv_def)
next
  case False
  obtain es where es: "(if ROWSET_SORTED p then Some (pEntry p) else rowSetEntrySort (pEntry p)) = Some es"
    "ascending es" "set es = set (pEntry p)"
    using assms sort_ascending [of "pEntry p"] by (cases "ROWSET_SORTED p") (auto simp: rs_inv_def)
  obtain q ms' where q: "rowSetNewBatch p es ms = (q, ms')" by fastforce
  have "list_all bst (pForest p)" using assms(1) by (simp add: rs_inv_def)
  from NewBatch_correct [OF this es(2) q] es(3) False assms(2) show ?thesis
    by (auto simp: rowSetBatch_def es(1) q rs_inv_def)
qed

lemma Test_result:
  "rs_inv p \<Longrightarrow> list_ex (\<lambda>t. rowSetTreeFind t v) (pForest p) \<longleftrightarrow> v \<in> forest_elems (pForest p)"
  by (auto simp: rs_inv_def list_ex_iff list_all_iff forest_elems_def TreeFind_bst)

subsection \<open>What a rowid set promises\<close>

text \<open>
  The abstract state: the current batch, the rowids of earlier batches, and the rowids
  inserted since the batch began.  A test with a new batch number first closes the batch.
\<close>

datatype rs_op = Insert int | Test int int

fun rs_spec_step :: "int \<times> int set \<times> int set \<Rightarrow> rs_op \<Rightarrow> (int \<times> int set \<times> int set) \<times> bool option" where
  "rs_spec_step (b, S, P) (Insert v) = ((b, S, insert v P), None)"
| "rs_spec_step (b, S, P) (Test b' v) =
     (if b' = b then ((b, S, P), Some (v \<in> S)) else ((b', S \<union> P, {}), Some (v \<in> S \<union> P)))"

fun rs_spec_run :: "int \<times> int set \<times> int set \<Rightarrow> rs_op list \<Rightarrow> bool option list" where
  "rs_spec_run s [] = []"
| "rs_spec_run s (x # xs) = (case rs_spec_step s x of (s', r) \<Rightarrow> r # rs_spec_run s' xs)"

definition rs_step :: "RowSet \<Rightarrow> rs_op \<Rightarrow> mallocs \<Rightarrow> (RowSet \<times> bool option \<times> mallocs) option" where
  "rs_step p x ms =
     (case x of
        Insert v \<Rightarrow> (case sqlite3RowSetInsert p v ms of (p', ms') \<Rightarrow> Some (p', None, ms'))
      | Test b v \<Rightarrow>
          map_option (\<lambda>(p', r, ms'). (p', Some r, ms')) (sqlite3RowSetTest p b v ms))"

fun rs_run :: "RowSet \<Rightarrow> rs_op list \<Rightarrow> mallocs \<Rightarrow> bool option list option" where
  "rs_run p [] ms = Some []"
| "rs_run p (x # xs) ms =
     (case rs_step p x ms of None \<Rightarrow> None
      | Some (p', r, ms') \<Rightarrow> map_option ((#) r) (rs_run p' xs ms'))"

definition rs_abs :: "RowSet \<Rightarrow> int \<times> int set \<times> int set" where
  "rs_abs p = (iBatch p, forest_elems (pForest p), set (pEntry p))"

definition rs_state :: "nat \<Rightarrow> RowSet \<Rightarrow> bool" where
  "rs_state n p \<longleftrightarrow> rs_inv p \<and> \<not> ROWSET_NEXT p \<and> length (pEntry p) \<le> n"

text \<open>Every step of the code is the step of the specification, when allocations succeed.\<close>

lemma rs_step_sim:
  assumes "rs_state n p" and "n < 2 ^ 40"
  shows "\<exists>p' r. rs_step p x [] = Some (p', r, []) \<and> rs_state (Suc n) p' \<and>
    rs_spec_step (rs_abs p) x = (rs_abs p', r)"
proof (cases x)
  case (Insert v)
  obtain p' ms' where i: "sqlite3RowSetInsert p v [] = (p', ms')" by fastforce
  with Insert_inv [OF _ _ i] assms show ?thesis
    by (auto simp: Insert rs_step_def rs_state_def rs_abs_def)
next
  case (Test b v)
  have "rs_inv p" "\<not> ROWSET_NEXT p" "length (pEntry p) < 2 ^ 40"
    using assms by (simp_all add: rs_state_def)
  from Batch_correct [OF this, of b "[]"] obtain p' where
    p': "rowSetBatch p b [] = Some (p', [])" "rs_inv p'" "\<not> ROWSET_NEXT p'" "iBatch p' = b"
      "pEntry p' = (if b = iBatch p then pEntry p else [])"
      "forest_elems (pForest p') =
         forest_elems (pForest p) \<union> (if b = iBatch p then {} else set (pEntry p))"
    by auto
  then show ?thesis
    using assms(1) by (auto simp: Test rs_step_def sqlite3RowSetTest_def Test_result rs_state_def rs_abs_def)
qed

lemma rs_run_sim:
  "rs_state n p \<Longrightarrow> n + length xs < 2 ^ 40 \<Longrightarrow> rs_run p xs [] = Some (rs_spec_run (rs_abs p) xs)"
proof (induction xs arbitrary: n p)
  case (Cons x xs)
  then obtain p' r where "rs_step p x [] = Some (p', r, [])" "rs_state (Suc n) p'"
    "rs_spec_step (rs_abs p) x = (rs_abs p', r)"
    using rs_step_sim [of n p x] by auto
  with Cons.IH [of "Suc n" p'] Cons.prems show ?case by simp
qed simp

subsection \<open>Draining a set in order\<close>

fun rs_inserts :: "RowSet \<Rightarrow> int list \<Rightarrow> mallocs \<Rightarrow> RowSet" where
  "rs_inserts p [] ms = p"
| "rs_inserts p (v # vs) ms = (case sqlite3RowSetInsert p v ms of (p', ms') \<Rightarrow> rs_inserts p' vs ms')"

fun rs_drain :: "nat \<Rightarrow> RowSet \<Rightarrow> int list option" where
  "rs_drain 0 p = None"
| "rs_drain (Suc fuel) p =
     (case sqlite3RowSetNext p of None \<Rightarrow> None
      | Some (p', None) \<Rightarrow> Some []
      | Some (p', Some v) \<Rightarrow> map_option ((#) v) (rs_drain fuel p'))"

lemma Next_sorted:
  assumes "rs_inv p" and "ROWSET_SORTED p"
  shows "case pEntry p of
      [] \<Rightarrow> \<exists>p'. sqlite3RowSetNext p = Some (p', None)
    | v # es \<Rightarrow> \<exists>p'. sqlite3RowSetNext p = Some (p', Some v) \<and> rs_inv p' \<and> ROWSET_SORTED p' \<and> pEntry p' = es"
  using assms by (auto simp: sqlite3RowSetNext_def sqlite3RowSetClear_def rs_inv_def split: list.splits)

lemma drain_sorted:
  "rs_inv p \<Longrightarrow> ROWSET_SORTED p \<Longrightarrow> length (pEntry p) < fuel \<Longrightarrow> rs_drain fuel p = Some (pEntry p)"
proof (induction fuel arbitrary: p)
  case (Suc fuel)
  then show ?case
    using Next_sorted [OF Suc.prems(1,2)] by (cases "pEntry p") auto
qed simp

lemma drain_correct:
  assumes "rs_inv p" and "\<not> ROWSET_NEXT p" and "length (pEntry p) < 2 ^ 40" and "length (pEntry p) < fuel"
  shows "rs_drain fuel p = Some (sorted_list_of_set (set (pEntry p)))"
proof (cases "ROWSET_SORTED p")
  case True
  with assms have "ascending (pEntry p)" by (simp add: rs_inv_def)
  with drain_sorted [OF assms(1) True assms(4)] ascending_unique show ?thesis by metis
next
  case False
  obtain es where es: "rowSetEntrySort (pEntry p) = Some es" "ascending es" "set es = set (pEntry p)"
    using sort_ascending [OF assms(3)] by auto
  let ?q = "p\<lparr>pEntry := es, ROWSET_SORTED := True, ROWSET_NEXT := True\<rparr>"
  have "rs_inv ?q" using es(2) assms(1) by (simp add: rs_inv_def)
  moreover have "length es \<le> length (pEntry p)"
    by (metis ascending_unique card_length distinct_card es(2,3) strict_sorted_iff)
  ultimately have "rs_drain fuel ?q = Some es"
    using drain_sorted [of ?q fuel] assms(4) by simp
  moreover have "rs_drain fuel p = rs_drain fuel ?q"
    using False assms(2) es(1) by (cases fuel) (simp_all add: sqlite3RowSetNext_def)
  ultimately show ?thesis using ascending_unique [OF es(2)] es(3) by simp
qed

lemma inserts_state:
  "rs_inv p \<Longrightarrow> \<not> ROWSET_NEXT p \<Longrightarrow>
   rs_inv (rs_inserts p vs []) \<and> \<not> ROWSET_NEXT (rs_inserts p vs []) \<and>
   pEntry (rs_inserts p vs []) = pEntry p @ vs"
proof (induction vs arbitrary: p)
  case (Cons v vs)
  obtain p' ms' where i: "sqlite3RowSetInsert p v [] = (p', ms')" by fastforce
  from Insert_inv [OF Cons.prems i] Cons.IH [of p'] i show ?case by simp
qed simp

lemma Init_state:
  "sqlite3RowSetInit N ms = (Some p, ms') \<Longrightarrow> rs_state 0 p \<and> rs_abs p = (0, {}, {})"
  by (auto simp: sqlite3RowSetInit_def rs_state_def rs_inv_def rs_abs_def split: if_splits)

subsection \<open>Properties\<close>

text \<open>
  C11: the merge sort of rowset.c returns the distinct input values in increasing order and
  does not run past its 40 buckets, for every list of fewer than \<^verbatim>\<open>2^40\<close> entries.
\<close>

theorem rowSetEntrySort_correct:
  assumes "length vs < 2 ^ 40"
  shows "rowSetEntrySort vs = Some (sorted_list_of_set (set vs))"
  using sort_ascending [OF assms] ascending_unique by metis

lemma rowSetEntrySort_correct_witness: "rowSetEntrySort [5, 3, 5, 1] = Some [1, 3, 5]"
  using rowSetEntrySort_correct [of "[5, 3, 5, 1]"]
  unfolding sorted_list_of_set_sort_remdups by simp

text \<open>
  The tree built from a list holds the list in order and is as shallow as possible: a
  tree of height h has at least \<^verbatim>\<open>2^(h-1)\<close> entries, so a search takes logarithmic time.
\<close>

theorem rowSetListToTree_balanced:
  assumes "ps \<noteq> []"
  shows "inorder (rowSetListToTree ps) = ps \<and>
    2 ^ height (rowSetListToTree ps) \<le> 2 * size (rowSetListToTree ps)"
  using assms ListToTreeLoop_height [of "Node Leaf (hd ps) Leaf" 0 "rowSetListToTree ps" "tl ps"]
  by (cases ps) (simp_all add: rowSetListToTree_def ListToTreeLoop_inorder)

lemma rowSetListToTree_balanced_witness:
  "inorder (rowSetListToTree [1, 2, 3, 4, 5]) = [1, 2, 3, 4, 5] \<and>
   2 ^ height (rowSetListToTree [1, 2, 3, 4, 5]) \<le> 2 * size (rowSetListToTree [1, 2, 3, 4, 5])"
  by (rule rowSetListToTree_balanced) simp

text \<open>
  C9: any sequence of fewer than \<open>2 ^ 40\<close> inserts and tests on a new rowid set, in which no allocation fails, gives
  exactly the answers of the specification: a test reports whether the rowid was inserted before
  the current batch began.  (An insert whose entry cannot be allocated is dropped.)
\<close>

theorem RowSet_refines:
  assumes "sqlite3RowSetInit N ms = (Some p, ms')" and "length xs < 2 ^ 40"
  shows "rs_run p xs [] = Some (rs_spec_run (0, {}, {}) xs)"
  using rs_run_sim [of 0 p xs] Init_state [OF assms(1)] assms(2) by simp

lemma RowSet_refines_witness:
  "\<exists>p. sqlite3RowSetInit 512 [] = (Some p, []) \<and>
     rs_run p [Insert 5, Test 0 5, Test 1 5] [] = Some [None, Some False, Some True]"
  using RowSet_refines [of 512 "[]" _ "[]" "[Insert 5, Test 0 5, Test 1 5]"]
  by (auto simp: sqlite3RowSetInit_def)

text \<open>
  C10: after any inserts, extracting with \<open>sqlite3RowSetNext\<close> until it reports an empty set
  gives every inserted rowid once, in increasing order.
\<close>

theorem RowSetNext_drains:
  assumes "sqlite3RowSetInit N ms = (Some p, ms')" and "length vs < 2 ^ 40"
  shows "rs_drain (Suc (length vs)) (rs_inserts p vs []) = Some (sorted_list_of_set (set vs))"
proof -
  have "rs_inv p" "\<not> ROWSET_NEXT p" "pEntry p = []"
    using Init_state [OF assms(1)] by (auto simp: rs_state_def)
  with inserts_state [of p vs] assms(2) show ?thesis
    using drain_correct [of "rs_inserts p vs []" "Suc (length vs)"] by simp
qed

lemma RowSetNext_drains_witness:
  "\<exists>p. sqlite3RowSetInit 512 [] = (Some p, []) \<and>
     rs_drain (Suc 4) (rs_inserts p [7, 2, 7, 4] []) = Some [2, 4, 7]"
proof -
  obtain p where p: "sqlite3RowSetInit 512 [] = (Some p, [])" by (simp add: sqlite3RowSetInit_def)
  have "rs_drain (Suc (length [7, 2, 7, 4 :: int])) (rs_inserts p [7, 2, 7, 4] []) = Some [2, 4, 7]"
    using RowSetNext_drains [OF p, of "[7, 2, 7, 4]"]
    unfolding sorted_list_of_set_sort_remdups by (simp del: rs_drain.simps rs_inserts.simps)
  moreover have "length [7, 2, 7, 4 :: int] = 4" by simp
  ultimately show ?thesis using p by metis
qed

end
