(* ===== verification/Text_Util.thy ===== *)
theory Text_Util
  imports Sqlite_Prelude
begin

text \<open>
  The character tables of global.c, the character class macros of sqliteInt.h and the string
  routines of util.c (ASCII builds).  A zero-terminated string is the list of the bytes before
  its terminator; a null pointer is \<open>None\<close>.  \<open>cstr\<close> says that a byte list is such a string,
  that is, has no zero byte.  The theory shows that the comparison routines compare strings
  up to ASCII case, that dequoting undoes quoting, and that the hexadecimal decoder inverts
  the usual encoding.
\<close>

subsection \<open>Character tables\<close>

definition sqlite3UpperToLower :: "u8 list" where
  "sqlite3UpperToLower =
   [0, 1, 2, 3, 4, 5, 6, 7, 8, 9, 10, 11, 12, 13, 14, 15,
    16, 17, 18, 19, 20, 21, 22, 23, 24, 25, 26, 27, 28, 29, 30, 31,
    32, 33, 34, 35, 36, 37, 38, 39, 40, 41, 42, 43, 44, 45, 46, 47,
    48, 49, 50, 51, 52, 53, 54, 55, 56, 57, 58, 59, 60, 61, 62, 63,
    64, 97, 98, 99, 100, 101, 102, 103, 104, 105, 106, 107, 108, 109, 110, 111,
    112, 113, 114, 115, 116, 117, 118, 119, 120, 121, 122, 91, 92, 93, 94, 95,
    96, 97, 98, 99, 100, 101, 102, 103, 104, 105, 106, 107, 108, 109, 110, 111,
    112, 113, 114, 115, 116, 117, 118, 119, 120, 121, 122, 123, 124, 125, 126, 127,
    128, 129, 130, 131, 132, 133, 134, 135, 136, 137, 138, 139, 140, 141, 142, 143,
    144, 145, 146, 147, 148, 149, 150, 151, 152, 153, 154, 155, 156, 157, 158, 159,
    160, 161, 162, 163, 164, 165, 166, 167, 168, 169, 170, 171, 172, 173, 174, 175,
    176, 177, 178, 179, 180, 181, 182, 183, 184, 185, 186, 187, 188, 189, 190, 191,
    192, 193, 194, 195, 196, 197, 198, 199, 200, 201, 202, 203, 204, 205, 206, 207,
    208, 209, 210, 211, 212, 213, 214, 215, 216, 217, 218, 219, 220, 221, 222, 223,
    224, 225, 226, 227, 228, 229, 230, 231, 232, 233, 234, 235, 236, 237, 238, 239,
    240, 241, 242, 243, 244, 245, 246, 247, 248, 249, 250, 251, 252, 253, 254, 255]"

definition sqlite3CtypeMap :: "u8 list" where
  "sqlite3CtypeMap =
   [0x00, 0x00, 0x00, 0x00, 0x00, 0x00, 0x00, 0x00, 0x00, 0x01, 0x01, 0x01, 0x01, 0x01, 0x00, 0x00,
    0x00, 0x00, 0x00, 0x00, 0x00, 0x00, 0x00, 0x00, 0x00, 0x00, 0x00, 0x00, 0x00, 0x00, 0x00, 0x00,
    0x01, 0x00, 0x80, 0x00, 0x40, 0x00, 0x00, 0x80, 0x00, 0x00, 0x00, 0x00, 0x00, 0x00, 0x00, 0x00,
    0x0c, 0x0c, 0x0c, 0x0c, 0x0c, 0x0c, 0x0c, 0x0c, 0x0c, 0x0c, 0x00, 0x00, 0x00, 0x00, 0x00, 0x00,
    0x00, 0x0a, 0x0a, 0x0a, 0x0a, 0x0a, 0x0a, 0x02, 0x02, 0x02, 0x02, 0x02, 0x02, 0x02, 0x02, 0x02,
    0x02, 0x02, 0x02, 0x02, 0x02, 0x02, 0x02, 0x02, 0x02, 0x02, 0x02, 0x80, 0x00, 0x00, 0x00, 0x40,
    0x80, 0x2a, 0x2a, 0x2a, 0x2a, 0x2a, 0x2a, 0x22, 0x22, 0x22, 0x22, 0x22, 0x22, 0x22, 0x22, 0x22,
    0x22, 0x22, 0x22, 0x22, 0x22, 0x22, 0x22, 0x22, 0x22, 0x22, 0x22, 0x00, 0x00, 0x00, 0x00, 0x00,
    0x40, 0x40, 0x40, 0x40, 0x40, 0x40, 0x40, 0x40, 0x40, 0x40, 0x40, 0x40, 0x40, 0x40, 0x40, 0x40,
    0x40, 0x40, 0x40, 0x40, 0x40, 0x40, 0x40, 0x40, 0x40, 0x40, 0x40, 0x40, 0x40, 0x40, 0x40, 0x40,
    0x40, 0x40, 0x40, 0x40, 0x40, 0x40, 0x40, 0x40, 0x40, 0x40, 0x40, 0x40, 0x40, 0x40, 0x40, 0x40,
    0x40, 0x40, 0x40, 0x40, 0x40, 0x40, 0x40, 0x40, 0x40, 0x40, 0x40, 0x40, 0x40, 0x40, 0x40, 0x40,
    0x40, 0x40, 0x40, 0x40, 0x40, 0x40, 0x40, 0x40, 0x40, 0x40, 0x40, 0x40, 0x40, 0x40, 0x40, 0x40,
    0x40, 0x40, 0x40, 0x40, 0x40, 0x40, 0x40, 0x40, 0x40, 0x40, 0x40, 0x40, 0x40, 0x40, 0x40, 0x40,
    0x40, 0x40, 0x40, 0x40, 0x40, 0x40, 0x40, 0x40, 0x40, 0x40, 0x40, 0x40, 0x40, 0x40, 0x40, 0x40,
    0x40, 0x40, 0x40, 0x40, 0x40, 0x40, 0x40, 0x40, 0x40, 0x40, 0x40, 0x40, 0x40, 0x40, 0x40, 0x40]"

definition ctype :: "u8 \<Rightarrow> u8 \<Rightarrow> bool" where
  "ctype m c \<longleftrightarrow> (sqlite3CtypeMap ! unat c) AND m \<noteq> 0"

definition sqlite3Toupper :: "u8 \<Rightarrow> u8" where
  "sqlite3Toupper c = c AND NOT ((sqlite3CtypeMap ! unat c) AND 0x20)"
definition sqlite3Tolower :: "u8 \<Rightarrow> u8" where "sqlite3Tolower c = sqlite3UpperToLower ! unat c"
definition sqlite3Isspace :: "u8 \<Rightarrow> bool" where "sqlite3Isspace c = ctype 0x01 c"
definition sqlite3Isalnum :: "u8 \<Rightarrow> bool" where "sqlite3Isalnum c = ctype 0x06 c"
definition sqlite3Isalpha :: "u8 \<Rightarrow> bool" where "sqlite3Isalpha c = ctype 0x02 c"
definition sqlite3Isdigit :: "u8 \<Rightarrow> bool" where "sqlite3Isdigit c = ctype 0x04 c"
definition sqlite3Isxdigit :: "u8 \<Rightarrow> bool" where "sqlite3Isxdigit c = ctype 0x08 c"
definition sqlite3Isquote :: "u8 \<Rightarrow> bool" where "sqlite3Isquote c = ctype 0x80 c"
definition IdChar :: "u8 \<Rightarrow> bool" where "IdChar c = ctype 0x46 c"

text \<open>A statement about every byte and its table entry is checked entry by entry.\<close>

lemma table_all:
  assumes "length t = 256" and "list_all (\<lambda>(i, v). P i v) (enumerate 0 t)"
  shows "P (unat (c :: u8)) (t ! unat c)"
proof -
  have "(unat c, t ! unat c) \<in> set (enumerate 0 t)"
    using assms(1) unat_u8_less [of c] by (simp add: in_set_enumerate_eq)
  with assms(2) show ?thesis by (auto simp: list_all_iff)
qed

lemma length_tables [simp]: "length sqlite3UpperToLower = 256" "length sqlite3CtypeMap = 256"
  by (simp_all add: sqlite3UpperToLower_def sqlite3CtypeMap_def)

lemma UpperToLower_table:
  "unat (sqlite3Tolower c) = (if 65 \<le> unat c \<and> unat c \<le> 90 then unat c + 32 else unat c)"
  unfolding sqlite3Tolower_def
  by (rule table_all [where P = "\<lambda>i v. unat v = (if 65 \<le> i \<and> i \<le> 90 then i + 32 else i)"])
    (simp_all add: sqlite3UpperToLower_def)

lemma Isspace_iff: "sqlite3Isspace c \<longleftrightarrow> (9 \<le> unat c \<and> unat c \<le> 13) \<or> unat c = 32"
  unfolding sqlite3Isspace_def ctype_def
  by (rule table_all [where P = "\<lambda>i v. v AND 0x01 \<noteq> 0 \<longleftrightarrow> (9 \<le> i \<and> i \<le> 13) \<or> i = 32"])
    (simp_all add: sqlite3CtypeMap_def)

lemma Isalpha_iff: "sqlite3Isalpha c \<longleftrightarrow> (65 \<le> unat c \<and> unat c \<le> 90) \<or> (97 \<le> unat c \<and> unat c \<le> 122)"
  unfolding sqlite3Isalpha_def ctype_def
  by (rule table_all [where P = "\<lambda>i v. v AND 0x02 \<noteq> 0 \<longleftrightarrow> (65 \<le> i \<and> i \<le> 90) \<or> (97 \<le> i \<and> i \<le> 122)"])
    (simp_all add: sqlite3CtypeMap_def)

lemma Isdigit_iff: "sqlite3Isdigit c \<longleftrightarrow> (48 \<le> unat c \<and> unat c \<le> 57)"
  unfolding sqlite3Isdigit_def ctype_def
  by (rule table_all [where P = "\<lambda>i v. v AND 0x04 \<noteq> 0 \<longleftrightarrow> (48 \<le> i \<and> i \<le> 57)"])
    (simp_all add: sqlite3CtypeMap_def)

lemma Isalnum_iff: "sqlite3Isalnum c \<longleftrightarrow> (48 \<le> unat c \<and> unat c \<le> 57) \<or> (65 \<le> unat c \<and> unat c \<le> 90) \<or> (97 \<le> unat c \<and> unat c \<le> 122)"
  unfolding sqlite3Isalnum_def ctype_def
  by (rule table_all [where P = "\<lambda>i v. v AND 0x06 \<noteq> 0 \<longleftrightarrow> (48 \<le> i \<and> i \<le> 57) \<or> (65 \<le> i \<and> i \<le> 90) \<or> (97 \<le> i \<and> i \<le> 122)"])
    (simp_all add: sqlite3CtypeMap_def)

lemma Isxdigit_iff: "sqlite3Isxdigit c \<longleftrightarrow> (48 \<le> unat c \<and> unat c \<le> 57) \<or> (65 \<le> unat c \<and> unat c \<le> 70) \<or> (97 \<le> unat c \<and> unat c \<le> 102)"
  unfolding sqlite3Isxdigit_def ctype_def
  by (rule table_all [where P = "\<lambda>i v. v AND 0x08 \<noteq> 0 \<longleftrightarrow> (48 \<le> i \<and> i \<le> 57) \<or> (65 \<le> i \<and> i \<le> 70) \<or> (97 \<le> i \<and> i \<le> 102)"])
    (simp_all add: sqlite3CtypeMap_def)

lemma Isquote_iff: "sqlite3Isquote c \<longleftrightarrow> unat c = 34 \<or> unat c = 39 \<or> unat c = 91 \<or> unat c = 96"
  unfolding sqlite3Isquote_def ctype_def
  by (rule table_all [where P = "\<lambda>i v. v AND 0x80 \<noteq> 0 \<longleftrightarrow> i = 34 \<or> i = 39 \<or> i = 91 \<or> i = 96"])
    (simp_all add: sqlite3CtypeMap_def)

lemma IdChar_iff: "IdChar c \<longleftrightarrow> (48 \<le> unat c \<and> unat c \<le> 57) \<or> (65 \<le> unat c \<and> unat c \<le> 90) \<or> (97 \<le> unat c \<and> unat c \<le> 122) \<or> unat c = 36 \<or> unat c = 95 \<or> 128 \<le> unat c"
  unfolding IdChar_def ctype_def
  by (rule table_all [where P = "\<lambda>i v. v AND 0x46 \<noteq> 0 \<longleftrightarrow> (48 \<le> i \<and> i \<le> 57) \<or> (65 \<le> i \<and> i \<le> 90) \<or> (97 \<le> i \<and> i \<le> 122) \<or> i = 36 \<or> i = 95 \<or> 128 \<le> i"])
    (simp_all add: sqlite3CtypeMap_def)

lemmas ctype_iff = Isspace_iff Isalpha_iff Isdigit_iff Isalnum_iff Isxdigit_iff Isquote_iff IdChar_iff

lemma dropWhile_shrinks: "dropWhile P z = c # cs \<Longrightarrow> length cs < length z"
  by (metis Suc_le_eq length_Cons length_dropWhile_le)

subsection \<open>Lengths and comparisons\<close>

definition cstr :: "cstring \<Rightarrow> bool" where
  "cstr z \<longleftrightarrow> 0 \<notin> set z"

text \<open>The byte a pointer points to: the first byte, or the terminator.\<close>

definition chr :: "cstring \<Rightarrow> u8" where
  "chr z = (case z of [] \<Rightarrow> 0 | c # _ \<Rightarrow> c)"

lemma chr_simps [simp]: "chr [] = 0" "chr (c # z) = c"
  by (simp_all add: chr_def)

definition sqlite3Strlen30 :: "cstring option \<Rightarrow> nat" where
  "sqlite3Strlen30 z = (case z of None \<Rightarrow> 0 | Some z \<Rightarrow> length z mod 2 ^ 30)"

fun sqlite3StrICmp :: "cstring \<Rightarrow> cstring \<Rightarrow> int" where
  "sqlite3StrICmp [] [] = 0"
| "sqlite3StrICmp (c # a) [] = uint (sqlite3Tolower c) - uint (sqlite3Tolower 0)"
| "sqlite3StrICmp [] (x # b) = uint (sqlite3Tolower 0) - uint (sqlite3Tolower x)"
| "sqlite3StrICmp (c # a) (x # b) =
     (if c = x then sqlite3StrICmp a b
      else let d = uint (sqlite3Tolower c) - uint (sqlite3Tolower x)
           in if d \<noteq> 0 then d else sqlite3StrICmp a b)"

definition sqlite3_stricmp :: "cstring option \<Rightarrow> cstring option \<Rightarrow> int" where
  "sqlite3_stricmp zLeft zRight =
     (case (zLeft, zRight) of
        (None, Some _) \<Rightarrow> - 1 | (None, None) \<Rightarrow> 0 | (Some _, None) \<Rightarrow> 1
      | (Some a, Some b) \<Rightarrow> sqlite3StrICmp a b)"

fun strnicmpLoop :: "nat \<Rightarrow> cstring \<Rightarrow> cstring \<Rightarrow> int" where
  "strnicmpLoop 0 a b = 0"
| "strnicmpLoop (Suc n) a b =
     (if chr a \<noteq> 0 \<and> sqlite3Tolower (chr a) = sqlite3Tolower (chr b)
      then strnicmpLoop n (tl a) (tl b)
      else uint (sqlite3Tolower (chr a)) - uint (sqlite3Tolower (chr b)))"

definition sqlite3_strnicmp :: "cstring option \<Rightarrow> cstring option \<Rightarrow> int \<Rightarrow> int" where
  "sqlite3_strnicmp zLeft zRight N =
     (case (zLeft, zRight) of
        (None, Some _) \<Rightarrow> - 1 | (None, None) \<Rightarrow> 0 | (Some _, None) \<Rightarrow> 1
      | (Some a, Some b) \<Rightarrow> strnicmpLoop (nat N) a b)"

fun sqlite3StrIHashLoop :: "u8 \<Rightarrow> cstring \<Rightarrow> u8" where
  "sqlite3StrIHashLoop h [] = h"
| "sqlite3StrIHashLoop h (c # z) = sqlite3StrIHashLoop (h + sqlite3Tolower c) z"

definition sqlite3StrIHash :: "cstring option \<Rightarrow> u8" where
  "sqlite3StrIHash z = (case z of None \<Rightarrow> 0 | Some z \<Rightarrow> sqlite3StrIHashLoop 0 z)"

text \<open>Case folding, the specification of the comparisons.\<close>

definition fold_case :: "cstring \<Rightarrow> cstring" where
  "fold_case z = map sqlite3Tolower z"

lemma Tolower_zero [simp]: "sqlite3Tolower c = 0 \<longleftrightarrow> c = 0" "sqlite3Tolower 0 = 0"
proof -
  show "sqlite3Tolower c = 0 \<longleftrightarrow> c = 0"
    using UpperToLower_table [of c] by (metis add_is_0 not_numeral_le_zero unsigned_0 unsigned_eq_0_iff zero_neq_numeral)
  show "sqlite3Tolower 0 = 0"
    using UpperToLower_table [of 0] by (simp add: unsigned_eq_0_iff)
qed

lemma Tolower_idem [simp]: "sqlite3Tolower (sqlite3Tolower c) = sqlite3Tolower c"
  using UpperToLower_table [of c] UpperToLower_table [of "sqlite3Tolower c"]
  by (auto simp: word_unat_eq_iff)

lemma Tolower_uint: "uint (sqlite3Tolower c) = 0 \<longleftrightarrow> c = 0"
  by (simp add: unsigned_eq_0_iff)

lemma uint_u8_eq: "uint (a :: u8) = uint b \<longleftrightarrow> a = b"
  by (simp add: word_uint_eq_iff)

lemma uint_u8_cases:
  "(a :: u8) \<noteq> b \<Longrightarrow> \<not> uint b < uint a \<Longrightarrow> uint a < uint b"
  using uint_u8_eq [of a b] by linarith

lemma StrICmp_zero_iff: "cstr a \<Longrightarrow> cstr b \<Longrightarrow> sqlite3StrICmp a b = 0 \<longleftrightarrow> fold_case a = fold_case b"
  by (induction a b rule: sqlite3StrICmp.induct)
    (auto simp: cstr_def fold_case_def Let_def Tolower_uint uint_u8_eq)

lemma StrICmp_less_iff:
  "cstr a \<Longrightarrow> cstr b \<Longrightarrow> sqlite3StrICmp a b < 0 \<longleftrightarrow> ord_class.lexordp (fold_case a) (fold_case b)"
proof (induction a b rule: sqlite3StrICmp.induct)
  case (3 x b)
  then have "0 < uint (sqlite3Tolower x)"
    using Tolower_uint [of x] by (simp add: cstr_def order_less_le)
  then show ?case by (simp add: fold_case_def)
qed (auto simp: cstr_def fold_case_def Let_def uint_u8_eq word_less_def intro: uint_u8_cases)

lemma strnicmp_take:
  "cstr a \<Longrightarrow> cstr b \<Longrightarrow> strnicmpLoop n a b = sqlite3StrICmp (take n a) (take n b)"
proof (induction n a b rule: strnicmpLoop.induct)
  case (2 n a b)
  then show ?case
    by (cases a; cases b) (auto simp: cstr_def Let_def uint_u8_eq)
qed simp

lemma StrIHash_fold: "sqlite3StrIHashLoop h (fold_case z) = sqlite3StrIHashLoop h z"
  by (induction h z rule: sqlite3StrIHashLoop.induct) (simp_all add: fold_case_def)

subsection \<open>Quotes\<close>

text \<open>
  The loop of \<open>sqlite3Dequote\<close> on the bytes from \<^verbatim>\<open>z[i]\<close> on.  The write position never
  passes the read position, so working in place does not change what is read.  \<open>None\<close> is a
  read past the terminator.
\<close>

fun dequoteLoop :: "u8 \<Rightarrow> cstring \<Rightarrow> cstring option" where
  "dequoteLoop q [] = None"
| "dequoteLoop q [c] = (if c = q then Some [] else None)"
| "dequoteLoop q (c # d # z) =
     (if c = q then if d = q then map_option ((#) q) (dequoteLoop q z) else Some []
      else map_option ((#) c) (dequoteLoop q (d # z)))"

definition sqlite3Dequote :: "cstring option \<Rightarrow> cstring option option" where
  "sqlite3Dequote z =
     (case z of None \<Rightarrow> Some None
      | Some z \<Rightarrow>
          if \<not> sqlite3Isquote (chr z) then Some (Some z)
          else map_option Some (dequoteLoop (if chr z = 91 then 93 else chr z) (tl z)))"

text \<open>A token is a pointer, here the bytes from it on, and a length.\<close>

definition sqlite3DequoteToken :: "cstring \<times> nat \<Rightarrow> cstring \<times> nat" where
  "sqlite3DequoteToken p =
     (case p of (z, n) \<Rightarrow>
        if n < 2 then (z, n)
        else if \<not> sqlite3Isquote (chr z) then (z, n)
        else if list_ex sqlite3Isquote (take (n - 2) (tl z)) then (z, n)
        else (tl z, n - 2))"

text \<open>How SQL quotes a name: the closing quote is doubled inside.\<close>

definition double_quotes :: "u8 \<Rightarrow> cstring \<Rightarrow> cstring" where
  "double_quotes q s = concat (map (\<lambda>c. if c = q then [q, q] else [c]) s)"

definition closing_quote :: "u8 \<Rightarrow> u8" where
  "closing_quote q = (if q = 91 then 93 else q)"

lemma dequoteLoop_double:
  "chr rest \<noteq> q \<Longrightarrow> dequoteLoop q (double_quotes q s @ q # rest) = Some s"
proof (induction s)
  case Nil
  then show ?case by (cases rest) (simp_all add: double_quotes_def)
next
  case (Cons c s)
  obtain d z where dz: "double_quotes q s @ q # rest = d # z"
    by (cases "double_quotes q s @ q # rest") auto
  show ?case
  proof (cases "c = q")
    case True
    then show ?thesis using Cons by (simp add: double_quotes_def)
  next
    case False
    then have "dequoteLoop q (c # d # z) = map_option ((#) c) (dequoteLoop q (d # z))" by simp
    with Cons dz False show ?thesis by (simp add: double_quotes_def)
  qed
qed

lemma double_quotes_none: "q \<notin> set s \<Longrightarrow> double_quotes q s = s"
  by (induction s) (auto simp: double_quotes_def)

subsection \<open>Hexadecimal\<close>

definition sqlite3HexToInt :: "u8 \<Rightarrow> u8" where
  "sqlite3HexToInt h = (let h = h + 9 * (1 AND drop_bit 6 h) in h AND 0xf)"

text \<open>The loop of \<open>sqlite3HexToBlob\<close>; \<open>n\<close> is the number of digits not yet read.\<close>

fun hexToBlobLoop :: "cstring \<Rightarrow> nat \<Rightarrow> u8 list" where
  "hexToBlobLoop z (Suc (Suc n)) =
     (push_bit 4 (sqlite3HexToInt (chr z)) OR sqlite3HexToInt (chr (tl z)))
       # hexToBlobLoop (tl (tl z)) n"
| "hexToBlobLoop z n = []"

text \<open>The blob is followed by a zero byte.\<close>

definition sqlite3HexToBlob :: "cstring \<Rightarrow> nat \<Rightarrow> mallocs \<Rightarrow> u8 list option" where
  "sqlite3HexToBlob z n ms = (if malloc_ok ms then Some (hexToBlobLoop z n @ [0]) else None)"

definition hexdigits_upper :: "u8 list" where
  "hexdigits_upper = [48, 49, 50, 51, 52, 53, 54, 55, 56, 57, 65, 66, 67, 68, 69, 70]"
definition hexdigits_lower :: "u8 list" where
  "hexdigits_lower = [48, 49, 50, 51, 52, 53, 54, 55, 56, 57, 97, 98, 99, 100, 101, 102]"

definition hex_encode :: "u8 list \<Rightarrow> u8 list \<Rightarrow> cstring" where
  "hex_encode digits bs = concat (map (\<lambda>b. [digits ! unat (drop_bit 4 b), digits ! unat (b AND 0xf)]) bs)"

lemma HexToInt_digits:
  "map sqlite3HexToInt hexdigits_upper = map word_of_nat [0..<16]"
  "map sqlite3HexToInt hexdigits_lower = map word_of_nat [0..<16]"
  by (simp_all add: sqlite3HexToInt_def hexdigits_upper_def hexdigits_lower_def Let_def upt_16)

lemma HexToInt_nth:
  assumes "map sqlite3HexToInt ds = map word_of_nat [0..<16]" and "unat v < 16"
  shows "sqlite3HexToInt (ds ! unat v) = v"
proof -
  have "length ds = 16" using assms(1) by (metis length_map length_upt minus_nat.diff_0)
  then have "sqlite3HexToInt (ds ! unat v) = map sqlite3HexToInt ds ! unat v"
    using assms(2) by simp
  also have "\<dots> = word_of_nat (unat v)" using assms by simp
  finally show ?thesis by simp
qed

lemma nibbles: "unat (drop_bit 4 (b :: u8)) < 16" "unat (b AND 0xf) < 16"
proof -
  show "unat (drop_bit 4 b) < 16"
    using unat_u8_less [of b] by (simp add: unat_drop_bit_eq drop_bit_nat_def less_mult_imp_div_less)
  have "b AND 0xf = take_bit 4 b" by (simp add: take_bit_eq_mask mask_eq_exp_minus_1)
  then show "unat (b AND 0xf) < 16"
    by (simp add: unsigned_take_bit_eq take_bit_nat_def)
qed

lemma nibbles_join: "push_bit 4 (drop_bit 4 b) OR (b AND 0xf) = (b :: u8)"
  using push_drop_mask [of 4 b] by (simp add: mask_eq_exp_minus_1)

lemma hexToBlobLoop_encode:
  assumes "map sqlite3HexToInt ds = map word_of_nat [0..<16]"
  shows "hexToBlobLoop (hex_encode ds bs @ rest) (2 * length bs) = bs"
  by (induction bs)
    (simp_all add: hex_encode_def HexToInt_nth [OF assms nibbles(1)] HexToInt_nth [OF assms nibbles(2)]
      nibbles_join)

subsection \<open>UTF-8\<close>

text \<open>The UTF-8 encoding of a code point, as the standard defines it.\<close>

definition utf8_ref :: "nat \<Rightarrow> u8 list" where
  "utf8_ref c =
     (if c < 0x80 then [of_nat c]
      else if c < 0x800 then [of_nat (0xC0 + c div 64), of_nat (0x80 + c mod 64)]
      else if c < 0x10000 then [of_nat (0xE0 + c div 4096), of_nat (0x80 + c div 64 mod 64), of_nat (0x80 + c mod 64)]
      else [of_nat (0xF0 + c div 262144), of_nat (0x80 + c div 4096 mod 64), of_nat (0x80 + c div 64 mod 64),
            of_nat (0x80 + c mod 64)])"

subsection \<open>Properties\<close>

text \<open>
  C0: \<open>sqlite3StrICmp\<close> is the lexicographic order of the strings with ASCII letters folded
  to lower case, and \<open>sqlite3_strnicmp\<close> with a bound \<open>N\<close> is the same order on the first
  \<open>N\<close> bytes.
\<close>

theorem StrICmp_order:
  assumes "cstr a" and "cstr b"
  shows "(sqlite3StrICmp a b = 0 \<longleftrightarrow> fold_case a = fold_case b) \<and>
    (sqlite3StrICmp a b < 0 \<longleftrightarrow> ord_class.lexordp (fold_case a) (fold_case b)) \<and>
    sqlite3_strnicmp (Some a) (Some b) (int n) = sqlite3StrICmp (take n a) (take n b)"
  using assms StrICmp_zero_iff StrICmp_less_iff
  by (simp add: sqlite3_strnicmp_def strnicmp_take)

lemma StrICmp_order_witness:
  "cstr [65, 98] \<and> cstr [97, 66, 67] \<and>
   sqlite3_strnicmp (Some [65, 98]) (Some [97, 66, 67]) (int 2) = sqlite3StrICmp [65, 98] [97, 66] \<and>
   (sqlite3StrICmp [65, 98] [97, 66, 67] < 0 \<longleftrightarrow> ord_class.lexordp (fold_case [65, 98]) (fold_case [97, 66, 67]))"
  using StrICmp_order [of "[65, 98]" "[97, 66, 67]" 2] by (simp add: cstr_def)

text \<open>
  Dequoting undoes quoting: for every quote character and every text, the text with its
  closing quotes doubled, put between the quotes, is turned back into the text, whatever
  follows the closing quote; and a string that does not begin with a quote is unchanged.
\<close>

theorem Dequote_roundtrip:
  "(sqlite3Isquote q \<longrightarrow> chr rest \<noteq> closing_quote q \<longrightarrow>
      sqlite3Dequote (Some (q # double_quotes (closing_quote q) s @ closing_quote q # rest)) = Some (Some s)) \<and>
   (\<not> sqlite3Isquote (chr s) \<longrightarrow> sqlite3Dequote (Some s) = Some (Some s))"
  using dequoteLoop_double [of rest "closing_quote q" s]
  by (auto simp: sqlite3Dequote_def closing_quote_def split: if_splits)

lemma Dequote_roundtrip_witness:
  "sqlite3Dequote (Some [34, 97, 34, 34, 98, 34]) = Some (Some [97, 34, 98])"
  using Dequote_roundtrip [of 34 "[]" "[97, 34, 98]"]
  by (simp add: closing_quote_def double_quotes_def Isquote_iff)

text \<open>
  The token-level dequoting is consistent with the string-level one: when it strips the
  quotes of a quoted token, the stripped text is what \<open>sqlite3Dequote\<close> makes of the token.
\<close>

theorem DequoteToken_consistent:
  assumes "sqlite3Isquote q" and "closing_quote q \<notin> set s"
    and "sqlite3DequoteToken (q # s @ [closing_quote q], length s + 2) = (z, n)"
  shows "(z, n) = (q # s @ [closing_quote q], length s + 2) \<or>
    sqlite3Dequote (Some (q # s @ [closing_quote q])) = Some (Some (take n z))"
proof -
  have "closing_quote q \<noteq> 0" using assms(1) by (auto simp: Isquote_iff closing_quote_def)
  with assms dequoteLoop_double [of "[]" "closing_quote q" s] show ?thesis
    by (auto simp: sqlite3DequoteToken_def sqlite3Dequote_def closing_quote_def double_quotes_none
        split: if_splits)
qed

lemma DequoteToken_consistent_witness:
  "sqlite3DequoteToken ([91, 97, 93], 3) = ([97, 93], 1) \<and>
   sqlite3Dequote (Some [91, 97, 93]) = Some (Some [97])"
  using DequoteToken_consistent [of 91 "[97]" "[97, 93]" 1]
  by (simp add: closing_quote_def sqlite3DequoteToken_def Isquote_iff)

text \<open>
  The blob literal decoder inverts hexadecimal encoding, in upper and in lower case, and
  ends the blob with a zero byte.
\<close>

theorem HexToBlob_roundtrip:
  "sqlite3HexToBlob (hex_encode hexdigits_upper bs @ rest) (2 * length bs) [] = Some (bs @ [0]) \<and>
   sqlite3HexToBlob (hex_encode hexdigits_lower bs @ rest) (2 * length bs) [] = Some (bs @ [0])"
  by (simp add: sqlite3HexToBlob_def hexToBlobLoop_encode HexToInt_digits)

end
