(* ===== verification/Hash_Table.thy ===== *)
theory Hash_Table
  imports Text_Util "HOL-Library.Multiset"
begin

text \<open>
  The symbol tables of hash.c.  All elements are on one list (the doubly linked list from
  \<^verbatim>\<open>Hash.first\<close>, here a HOL list in that order); the optional bucket array points into it:
  a bucket is the element at its \<^verbatim>\<open>chain\<close> pointer and the following \<^verbatim>\<open>count - 1\<close> ones.  An
  element carries its address, which is what \<^verbatim>\<open>chain\<close> holds; inserting in front of a given
  element and unlinking an element are the list operations on addresses.  \<open>heap_next\<close> is the
  address the allocator gives out next.

  \<open>msize\<close> is \<open>sqlite3MallocSize\<close> of a block as a function of the size asked for, which is
  the allocator's choice.  The theorems only rely on \<open>n \<le> msize n\<close>.
\<close>

subsection \<open>The code\<close>

record 'd HashElem =
  ha :: nat
  data :: 'd
  pKey :: cstring
  hh :: u32

record ht_entry =
  hcount :: nat
  chain :: nat

record 'd Hash =
  htsize :: nat
  count :: nat
  first :: "'d HashElem list"
  ht :: "ht_entry list option"
  heap_next :: nat

definition sqlite3HashInit :: "'d Hash \<Rightarrow> 'd Hash" where
  "sqlite3HashInit pH = pH\<lparr>first := [], count := 0, htsize := 0, ht := None\<rparr>"

definition sqlite3HashClear :: "'d Hash \<Rightarrow> 'd Hash" where
  "sqlite3HashClear pH = pH\<lparr>first := [], ht := None, htsize := 0, count := 0\<rparr>"

fun strHashLoop :: "u32 \<Rightarrow> cstring \<Rightarrow> u32" where
  "strHashLoop h [] = h"
| "strHashLoop h (c # z) = strHashLoop ((h + ucast (0xdf AND c)) * 0x9e3779b1) z"

definition strHash :: "cstring \<Rightarrow> u32" where
  "strHash z = strHashLoop 0 z"

text \<open>Link an element in front of the element at an address.\<close>

fun link_before :: "nat \<Rightarrow> 'd HashElem \<Rightarrow> 'd HashElem list \<Rightarrow> 'd HashElem list" where
  "link_before a e [] = []"
| "link_before a e (x # xs) = (if ha x = a then e # x # xs else x # link_before a e xs)"

text \<open>\<open>pEntry\<close> is an index into the bucket array, or \<open>None\<close> for a null pointer.\<close>

definition insertElement :: "'d Hash \<Rightarrow> nat option \<Rightarrow> 'd HashElem \<Rightarrow> 'd Hash" where
  "insertElement pH pEntry pNew =
     (case (pEntry, ht pH) of
        (Some b, Some tbl) \<Rightarrow>
          (let pHead = (if hcount (tbl ! b) \<noteq> 0 then Some (chain (tbl ! b)) else None);
               tbl' = tbl[b := \<lparr>hcount = hcount (tbl ! b) + 1, chain = ha pNew\<rparr>] in
           pH\<lparr>ht := Some tbl',
              first := (case pHead of Some a \<Rightarrow> link_before a pNew (first pH) | None \<Rightarrow> pNew # first pH)\<rparr>)
      | _ \<Rightarrow> pH\<lparr>first := pNew # first pH\<rparr>)"

definition bucket_of :: "nat \<Rightarrow> 'd HashElem \<Rightarrow> nat" where
  "bucket_of n e = unat (hh e) mod n"

definition rehash :: "(nat \<Rightarrow> nat) \<Rightarrow> 'd Hash \<Rightarrow> nat \<Rightarrow> mallocs \<Rightarrow> 'd Hash \<times> bool \<times> mallocs" where
  "rehash msize pH new_size ms =
     (let new_size = (if new_size * 16 > 1024 then 1024 div 16 else new_size) in
      if new_size = htsize pH then (pH, False, ms)
      else if new_size = 0 then (pH, False, ms)
      else if \<not> malloc_ok ms then (pH, False, malloc_rest ms)
      else
        let new_size = msize (new_size * 16) div 16;
            pH' = pH\<lparr>ht := Some (replicate new_size \<lparr>hcount = 0, chain = 0\<rparr>), htsize := new_size,
                     first := []\<rparr>
        in (foldl (\<lambda>H e. insertElement H (Some (bucket_of new_size e)) e) pH' (first pH), True,
            malloc_rest ms))"

text \<open>The search loop; the end of the list before the count runs out is the failed assertion.\<close>

fun findLoop :: "nat \<Rightarrow> 'd HashElem list \<Rightarrow> u32 \<Rightarrow> cstring \<Rightarrow> 'd HashElem option" where
  "findLoop 0 es h k = None"
| "findLoop (Suc n) [] h k = None"
| "findLoop (Suc n) (e # es) h k =
     (if h = hh e \<and> sqlite3StrICmp (pKey e) k = 0 then Some e else findLoop n es h k)"

text \<open>\<open>None\<close> is the static null element.\<close>

definition findElementWithHash :: "'d Hash \<Rightarrow> cstring \<Rightarrow> 'd HashElem option \<times> u32" where
  "findElementWithHash pH k =
     (let h = strHash k in
      (case ht pH of
         Some tbl \<Rightarrow>
           (let pEntry = tbl ! (unat h mod htsize pH) in
            findLoop (hcount pEntry) (dropWhile (\<lambda>e. ha e \<noteq> chain pEntry) (first pH)) h k)
       | None \<Rightarrow> findLoop (count pH) (first pH) h k, h))"

text \<open>The element after the one at an address: what \<^verbatim>\<open>elem->next\<close> points to.\<close>

definition next_addr :: "nat \<Rightarrow> 'd HashElem list \<Rightarrow> nat" where
  "next_addr a xs = (case tl (dropWhile (\<lambda>e. ha e \<noteq> a) xs) of [] \<Rightarrow> 0 | e # _ \<Rightarrow> ha e)"

definition removeElement :: "'d Hash \<Rightarrow> 'd HashElem \<Rightarrow> 'd Hash" where
  "removeElement pH elem =
     (let nxt = next_addr (ha elem) (first pH);
          pH = pH\<lparr>first := filter (\<lambda>e. ha e \<noteq> ha elem) (first pH)\<rparr>;
          pH = (case ht pH of None \<Rightarrow> pH
                | Some tbl \<Rightarrow>
                    let b = bucket_of (htsize pH) elem; pEntry = tbl ! b in
                    pH\<lparr>ht := Some (tbl[b := \<lparr>hcount = hcount pEntry - 1,
                        chain = (if chain pEntry = ha elem then nxt else chain pEntry)\<rparr>])\<rparr>);
          pH = pH\<lparr>count := count pH - 1\<rparr>
      in if count pH = 0 then sqlite3HashClear pH else pH)"

definition sqlite3HashFind :: "'d Hash \<Rightarrow> cstring \<Rightarrow> 'd option" where
  "sqlite3HashFind pH k = map_option data (fst (findElementWithHash pH k))"

definition sqlite3HashInsert ::
  "(nat \<Rightarrow> nat) \<Rightarrow> 'd Hash \<Rightarrow> cstring \<Rightarrow> 'd option \<Rightarrow> mallocs \<Rightarrow> 'd Hash \<times> 'd option \<times> mallocs" where
  "sqlite3HashInsert msize pH k d ms =
     (case findElementWithHash pH k of
        (Some elem, h) \<Rightarrow>
          (case d of None \<Rightarrow> (removeElement pH elem, Some (data elem), ms)
           | Some d \<Rightarrow>
               (pH\<lparr>first := map (\<lambda>e. if ha e = ha elem then e\<lparr>data := d, pKey := k\<rparr> else e) (first pH)\<rparr>,
                Some (data elem), ms))
      | (None, h) \<Rightarrow>
          (case d of None \<Rightarrow> (pH, None, ms)
           | Some d \<Rightarrow>
               if \<not> malloc_ok ms then (pH, Some d, malloc_rest ms)
               else
                 let ms = malloc_rest ms;
                     new_elem = \<lparr>ha = heap_next pH, data = d, pKey = k, hh = h\<rparr>;
                     pH = pH\<lparr>count := count pH + 1, heap_next := heap_next pH + 1\<rparr>;
                     (pH, ms) = (if count pH \<ge> 5 \<and> count pH > 2 * htsize pH
                                 then (case rehash msize pH (count pH * 3 mod 2 ^ 32) ms of (pH, _, ms) \<Rightarrow> (pH, ms))
                                 else (pH, ms))
                 in (insertElement pH
                       (case ht pH of None \<Rightarrow> None | Some _ \<Rightarrow> Some (bucket_of (htsize pH) new_elem)) new_elem,
                     None, ms)))"

subsection \<open>Hash values\<close>

lemma Tolower_add: "sqlite3Tolower c = (if 65 \<le> unat c \<and> unat c \<le> 90 then c + 32 else c)"
  using UpperToLower_table [of c] by (auto simp: word_unat_eq_iff unat_word_ariths)

lemma upper_letters:
  assumes "65 \<le> unat (c :: u8)" and "unat c \<le> 90"
  shows "\<exists>k < 26. c = word_of_nat (65 + k)"
  using assms by (intro exI [of _ "unat c - 65"]) simp

lemma letter_bit: "list_all (\<lambda>k. 0xdf AND (word_of_nat (65 + k) + 32 :: u8) = 0xdf AND word_of_nat (65 + k)) [0..<26]"
  by (simp add: upt_rec)

lemma case_bit: "0xdf AND sqlite3Tolower c = 0xdf AND c"
proof (cases "65 \<le> unat c \<and> unat c \<le> 90")
  case True
  then have "0xdf AND (c + 32) = 0xdf AND c"
    using upper_letters [of c] letter_bit by (auto simp: list_all_iff)
  with True show ?thesis by (simp add: Tolower_add)
next
  case False
  then have "sqlite3Tolower c = c" by (simp only: Tolower_add if_False)
  then show ?thesis by simp
qed

lemma case_bits: "sqlite3Tolower c = sqlite3Tolower d \<Longrightarrow> 0xdf AND c = 0xdf AND d"
  by (metis case_bit)

lemma strHash_fold: "fold_case a = fold_case b \<Longrightarrow> strHashLoop h a = strHashLoop h b"
proof (induction h a arbitrary: b rule: strHashLoop.induct)
  case (2 h c z)
  from 2(2) obtain d y where b: "b = d # y" "sqlite3Tolower c = sqlite3Tolower d" "fold_case z = fold_case y"
    by (cases b) (auto simp: fold_case_def)
  have "0xdf AND c = 0xdf AND d" using b(2) by (rule case_bits)
  then show ?case using 2(1) [OF b(3)] b(1) by simp
qed (simp add: fold_case_def)

lemma strHash_match:
  assumes "cstr k" and "cstr k'"
  shows "strHash k = strHash k' \<and> sqlite3StrICmp k' k = 0 \<longleftrightarrow> fold_case k' = fold_case k"
  using assms strHash_fold [of k' k 0] by (auto simp: StrICmp_zero_iff strHash_def)

subsection \<open>Lists whose buckets are contiguous\<close>

fun grouped :: "('a \<Rightarrow> nat) \<Rightarrow> 'a list \<Rightarrow> bool" where
  "grouped f [] = True"
| "grouped f (x # xs) \<longleftrightarrow> grouped f xs \<and> f x \<notin> f ` set (dropWhile (\<lambda>y. f y = f x) xs)"

lemma set_dropWhile_filter: "y \<in> set (dropWhile P (filter Q xs)) \<Longrightarrow> y \<in> set (dropWhile P xs)"
proof (induction xs)
  case (Cons x xs)
  show ?case
  proof (cases "P x")
    case True
    with Cons show ?thesis by (cases "Q x") simp_all
  next
    case False
    with Cons.prems set_dropWhileD [of y P "filter Q (x # xs)"] show ?thesis
      by (auto split: if_splits)
  qed
qed simp

lemma grouped_filter: "grouped f xs \<Longrightarrow> grouped f (filter Q xs)"
proof (induction xs)
  case (Cons x xs)
  have "f x \<notin> f ` set (dropWhile (\<lambda>y. f y = f x) (filter Q xs))"
  proof
    assume "f x \<in> f ` set (dropWhile (\<lambda>y. f y = f x) (filter Q xs))"
    then obtain y where "f x = f y" "y \<in> set (dropWhile (\<lambda>y. f y = f x) (filter Q xs))"
      by (rule imageE)
    with set_dropWhile_filter have "f x \<in> f ` set (dropWhile (\<lambda>y. f y = f x) xs)"
      by (metis image_eqI)
    with Cons.prems show False by simp
  qed
  with Cons show ?case by simp
qed simp

lemma grouped_map: "(\<And>x. x \<in> set xs \<Longrightarrow> f (g x) = f x) \<Longrightarrow> grouped f xs \<Longrightarrow> grouped f (map g xs)"
proof (induction xs)
  case (Cons x xs)
  have fx: "f (g x) = f x" using Cons.prems(1) by simp
  have d: "dropWhile (\<lambda>y. f y = f x) (map g xs) = map g (dropWhile (\<lambda>y. f y = f x) xs)"
    unfolding dropWhile_map comp_def using Cons.prems(1) by (intro arg_cong [where f = "map g"] dropWhile_cong) simp_all
  have "f (g y) = f y" if "y \<in> set (dropWhile (\<lambda>y. f y = f x) xs)" for y
    using that Cons.prems(1) by (simp add: set_dropWhileD)
  then have "f ` g ` set (dropWhile (\<lambda>y. f y = f x) xs) = f ` set (dropWhile (\<lambda>y. f y = f x) xs)"
    unfolding image_image by (intro image_cong) simp_all
  moreover have "grouped f (map g xs)" using Cons by simp
  ultimately show ?case using Cons.prems(2) by (simp add: fx d)
qed simp

lemma grouped_take:
  assumes "grouped f (x # xs)"
  shows "take (length (filter (\<lambda>y. f y = f x) xs)) xs = filter (\<lambda>y. f y = f x) xs"
proof -
  define P where "P = (\<lambda>y. f y = f x)"
  have "\<not> P y" if "y \<in> set (dropWhile P xs)" for y
  proof
    assume "P y"
    then have "f x = f y" by (simp add: P_def)
    with that have "f x \<in> f ` set (dropWhile P xs)" by blast
    with assms show False by (simp add: P_def)
  qed
  then have "filter P (dropWhile P xs) = []"
    by (simp add: filter_empty_conv)
  moreover have "filter P (takeWhile P xs) = takeWhile P xs"
    using set_takeWhileD [of _ P xs] by (simp add: filter_id_conv)
  ultimately have "filter P xs = takeWhile P xs"
    by (metis append.right_neutral filter_append takeWhile_dropWhile_id)
  then have "take (length (filter P xs)) xs = filter P xs"
    by (metis append_eq_conv_conj takeWhile_dropWhile_id)
  then show ?thesis by (simp add: P_def)
qed

lemma hd_filter_in: "filter P xs \<noteq> [] \<Longrightarrow> hd (filter P xs) \<in> set xs"
  using hd_in_set [of "filter P xs"] by simp

text \<open>The elements of a bucket are read off the list from the first of them.\<close>

lemma grouped_bucket:
  assumes "grouped f xs" and "distinct (map ha xs)" and "filter (\<lambda>y. f y = b) xs \<noteq> []"
  shows "take (length (filter (\<lambda>y. f y = b) xs))
      (dropWhile (\<lambda>e. ha e \<noteq> ha (hd (filter (\<lambda>y. f y = b) xs))) xs) = filter (\<lambda>y. f y = b) xs"
  using assms
proof (induction xs)
  case (Cons x xs)
  show ?case
  proof (cases "f x = b")
    case True
    then show ?thesis using grouped_take [OF Cons.prems(1)] by simp
  next
    case False
    have "hd (filter (\<lambda>y. f y = b) xs) \<in> set xs"
      using Cons.prems(3) False by (intro hd_filter_in) simp
    then have "ha x \<noteq> ha (hd (filter (\<lambda>y. f y = b) xs))"
      using Cons.prems(2) by auto
    with False Cons show ?thesis by simp
  qed
qed simp

text \<open>Linking a new element in front of its bucket, or at the head when the bucket is empty.\<close>

lemma grouped_cons_new: "grouped f xs \<Longrightarrow> f e \<notin> f ` set xs \<Longrightarrow> grouped f (e # xs)"
  using set_dropWhileD [of _ "\<lambda>y. f y = f e" xs] by auto

lemma link_before_set: "a \<in> ha ` set xs \<Longrightarrow> set (link_before a e xs) = insert e (set xs)"
  by (induction xs) auto

lemma link_before_split:
  assumes "distinct (map ha xs)" and "filter (\<lambda>y. f y = b) xs \<noteq> []"
  shows "link_before (ha (hd (filter (\<lambda>y. f y = b) xs))) e xs =
    takeWhile (\<lambda>y. f y \<noteq> b) xs @ e # dropWhile (\<lambda>y. f y \<noteq> b) xs"
  using assms
proof (induction xs)
  case (Cons x xs)
  show ?case
  proof (cases "f x = b")
    case False
    have "hd (filter (\<lambda>y. f y = b) xs) \<in> set xs"
      using Cons.prems(2) False by (intro hd_filter_in) simp
    then have "ha x \<noteq> ha (hd (filter (\<lambda>y. f y = b) xs))"
      using Cons.prems(1) by auto
    with False Cons show ?thesis by simp
  qed simp
qed simp

lemma grouped_insert:
  assumes "grouped f xs" and "f e = b" and "b \<in> f ` set xs"
  shows "grouped f (takeWhile (\<lambda>y. f y \<noteq> b) xs @ e # dropWhile (\<lambda>y. f y \<noteq> b) xs)"
  using assms
proof (induction xs)
  case (Cons x xs)
  show ?case
  proof (cases "f x = b")
    case True
    with Cons.prems show ?thesis by simp
  next
    case False
    have "set (dropWhile (\<lambda>y. f y = f x) (takeWhile (\<lambda>y. f y \<noteq> b) zs @ e # dropWhile (\<lambda>y. f y \<noteq> b) zs))
      \<subseteq> insert e (set (dropWhile (\<lambda>y. f y = f x) zs))" for zs
      using False Cons.prems(2) by (induction zs) (auto simp: set_append dest: set_takeWhileD set_dropWhileD)
    then have "f x \<notin> f ` set (dropWhile (\<lambda>y. f y = f x)
        (takeWhile (\<lambda>y. f y \<noteq> b) xs @ e # dropWhile (\<lambda>y. f y \<noteq> b) xs))"
      using Cons.prems(1,2) False by fastforce
    moreover have "b \<in> f ` set xs" using Cons.prems(3) False by simp
    ultimately show ?thesis using Cons False by simp
  qed
qed simp
subsection \<open>The bucket array\<close>

definition bucket :: "nat \<Rightarrow> nat \<Rightarrow> 'd HashElem list \<Rightarrow> 'd HashElem list" where
  "bucket n b xs = filter (\<lambda>e. bucket_of n e = b) xs"

definition buckets_ok :: "nat \<Rightarrow> ht_entry list \<Rightarrow> 'd HashElem list \<Rightarrow> bool" where
  "buckets_ok n tbl xs \<longleftrightarrow>
     0 < n \<and> length tbl = n \<and> grouped (bucket_of n) xs \<and>
     (\<forall>b < n. hcount (tbl ! b) = length (bucket n b xs) \<and>
       (bucket n b xs \<noteq> [] \<longrightarrow> chain (tbl ! b) = ha (hd (bucket n b xs))))"

lemma bucket_of_less: "0 < n \<Longrightarrow> bucket_of n e < n"
  by (simp add: bucket_of_def)

lemma bucket_empty_iff: "bucket n b xs = [] \<longleftrightarrow> b \<notin> bucket_of n ` set xs"
  by (auto simp: bucket_def filter_empty_conv)

lemma mset_link_before: "a \<in> ha ` set xs \<Longrightarrow> mset (link_before a e xs) = add_mset e (mset xs)"
  by (induction xs) auto

text \<open>Inserting an element into its bucket.\<close>

lemma bucket_insert:
  assumes "distinct (map ha xs)" and "bucket n (bucket_of n e) xs \<noteq> []"
  shows "bucket n b (link_before (ha (hd (bucket n (bucket_of n e) xs))) e xs) =
    (if b = bucket_of n e then e # bucket n b xs else bucket n b xs)"
proof -
  let ?c = "bucket_of n e"
  let ?t = "takeWhile (\<lambda>y. bucket_of n y \<noteq> ?c) xs" and ?d = "dropWhile (\<lambda>y. bucket_of n y \<noteq> ?c) xs"
  have split: "link_before (ha (hd (bucket n ?c xs))) e xs = ?t @ e # ?d"
    using assms unfolding bucket_def by (rule link_before_split)
  have td: "bucket n b xs = bucket n b ?t @ bucket n b ?d"
    unfolding bucket_def by (metis filter_append takeWhile_dropWhile_id)
  have t: "bucket n ?c ?t = []"
    by (auto simp: bucket_def filter_empty_conv dest: set_takeWhileD)
  show ?thesis
  proof (cases "b = ?c")
    case True
    then have "bucket n b (?t @ e # ?d) = e # bucket n b xs"
      using td t by (simp add: bucket_def)
    with split True show ?thesis by simp
  next
    case False
    then have "bucket n b (?t @ e # ?d) = bucket n b xs"
      using td by (simp add: bucket_def)
    with split False show ?thesis by simp
  qed
qed

lemma insertElement_bucket:
  assumes ok: "buckets_ok n tbl (first pH)" and tbl: "ht pH = Some tbl"
    and d: "distinct (map ha (e # first pH))"
  shows "\<exists>tbl' xs. insertElement pH (Some (bucket_of n e)) e = pH\<lparr>ht := Some tbl', first := xs\<rparr> \<and>
    buckets_ok n tbl' xs \<and> mset xs = add_mset e (mset (first pH))"
proof -
  let ?b = "bucket_of n e" and ?xs = "first pH"
  have b: "?b < n" and len: "length tbl = n" and cnt: "hcount (tbl ! ?b) = length (bucket n ?b ?xs)"
    using ok by (auto simp: buckets_ok_def bucket_of_less)
  let ?tbl = "tbl[?b := \<lparr>hcount = hcount (tbl ! ?b) + 1, chain = ha e\<rparr>]"
  show ?thesis
  proof (cases "bucket n ?b ?xs = []")
    case True
    then have "insertElement pH (Some ?b) e = pH\<lparr>ht := Some ?tbl, first := e # ?xs\<rparr>"
      using cnt by (simp add: insertElement_def tbl Let_def)
    moreover have "grouped (bucket_of n) (e # ?xs)"
      using ok True by (intro grouped_cons_new) (auto simp: buckets_ok_def bucket_empty_iff)
    then have "buckets_ok n ?tbl (e # ?xs)"
      using ok True b len
      by (auto simp: buckets_ok_def bucket_def nth_list_update filter_empty_conv simp del: grouped.simps)
    ultimately show ?thesis by force
  next
    case False
    let ?l = "link_before (chain (tbl ! ?b)) e ?xs"
    have a: "chain (tbl ! ?b) = ha (hd (bucket n ?b ?xs))" using ok b False by (simp add: buckets_ok_def)
    have in_set: "hd (bucket n ?b ?xs) \<in> set ?xs" using False hd_filter_in by (auto simp: bucket_def)
    have "insertElement pH (Some ?b) e = pH\<lparr>ht := Some ?tbl, first := ?l\<rparr>"
      using cnt False by (simp add: insertElement_def tbl Let_def)
    moreover have "grouped (bucket_of n) ?l"
      using grouped_insert [of "bucket_of n" ?xs e ?b] link_before_split [of ?xs "bucket_of n" ?b e] ok False d
      by (simp add: a bucket_def buckets_ok_def filter_empty_conv image_iff) (metis)
    moreover have "bucket n b' ?l = (if b' = ?b then e # bucket n b' ?xs else bucket n b' ?xs)" for b'
      unfolding a using d False by (intro bucket_insert) auto
    ultimately show ?thesis
      using ok b len mset_link_before [of "chain (tbl ! ?b)" ?xs e] in_set
      by (intro exI [of _ ?tbl] exI [of _ ?l]) (auto simp: buckets_ok_def nth_list_update a)
  qed
qed

lemma empty_buckets:
  "0 < n \<Longrightarrow> buckets_ok n (replicate n \<lparr>hcount = 0, chain = 0\<rparr>) []"
  by (simp add: buckets_ok_def bucket_def)

lemma insert_all_buckets:
  assumes "buckets_ok n tbl (first pH)" and "ht pH = Some tbl"
    and "distinct (map ha (es @ first pH))"
  shows "\<exists>tbl' xs. foldl (\<lambda>H e. insertElement H (Some (bucket_of n e)) e) pH es =
      pH\<lparr>ht := Some tbl', first := xs\<rparr> \<and> buckets_ok n tbl' xs \<and> mset xs = mset es + mset (first pH)"
  using assms
proof (induction es arbitrary: pH tbl)
  case Nil
  then show ?case by (intro exI [of _ tbl] exI [of _ "first pH"]) simp
next
  case (Cons e es)
  obtain tbl1 xs1 where i: "insertElement pH (Some (bucket_of n e)) e = pH\<lparr>ht := Some tbl1, first := xs1\<rparr>"
    "buckets_ok n tbl1 xs1" "mset xs1 = add_mset e (mset (first pH))"
    using insertElement_bucket [OF Cons.prems(1,2), of e] Cons.prems(3) by auto
  have "mset (map ha (es @ xs1)) = mset (map ha ((e # es) @ first pH))"
    using i(3) by (simp del: mset_map add: mset_map)
  then have "distinct (map ha (es @ xs1))"
    using Cons.prems(3) mset_eq_imp_distinct_iff by blast
  then obtain tbl2 xs2 where
    "foldl (\<lambda>H e. insertElement H (Some (bucket_of n e)) e) (pH\<lparr>ht := Some tbl1, first := xs1\<rparr>) es =
       pH\<lparr>ht := Some tbl2, first := xs2\<rparr>" "buckets_ok n tbl2 xs2" "mset xs2 = mset es + mset xs1"
    using Cons.IH [of tbl1 "pH\<lparr>ht := Some tbl1, first := xs1\<rparr>"] i(2) by auto
  with i show ?case by (intro exI [of _ tbl2] exI [of _ xs2]) simp
qed

subsection \<open>Invariant and abstraction\<close>

definition hash_inv :: "'d Hash \<Rightarrow> bool" where
  "hash_inv pH \<longleftrightarrow>
     distinct (map ha (first pH)) \<and> distinct (map (\<lambda>e. fold_case (pKey e)) (first pH)) \<and>
     (\<forall>e \<in> set (first pH). ha e < heap_next pH \<and> cstr (pKey e) \<and> hh e = strHash (pKey e)) \<and>
     count pH = length (first pH) \<and>
     (case ht pH of None \<Rightarrow> htsize pH = 0 | Some tbl \<Rightarrow> buckets_ok (htsize pH) tbl (first pH))"

definition hash_map :: "'d Hash \<Rightarrow> cstring \<rightharpoonup> 'd" where
  "hash_map pH = map_of (map (\<lambda>e. (fold_case (pKey e), data e)) (first pH))"

lemma hash_invD:
  assumes "hash_inv pH"
  shows "distinct (map ha (first pH))" "distinct (map (\<lambda>e. fold_case (pKey e)) (first pH))"
    "e \<in> set (first pH) \<Longrightarrow> ha e < heap_next pH \<and> cstr (pKey e) \<and> hh e = strHash (pKey e)"
    "count pH = length (first pH)" "ht pH = None \<Longrightarrow> htsize pH = 0"
    "ht pH = Some tbl \<Longrightarrow> buckets_ok (htsize pH) tbl (first pH)"
  using assms by (auto simp: hash_inv_def)

lemma hash_map_mem:
  assumes "hash_inv pH" and "e \<in> set (first pH)"
  shows "hash_map pH (fold_case (pKey e)) = Some (data e)"
  using hash_invD(2) [OF assms(1)] assms(2)
  by (auto simp: hash_map_def comp_def intro!: map_of_is_SomeI)

lemma hash_map_none: "hash_map pH f = None \<longleftrightarrow> f \<notin> (\<lambda>e. fold_case (pKey e)) ` set (first pH)"
  by (simp add: hash_map_def map_of_eq_None_iff image_image)

text \<open>The table as a map only depends on which elements are on the list.\<close>

lemma map_of_perm:
  assumes "mset xs = mset ys" and "distinct (map f ys)"
  shows "map_of (map (\<lambda>e. (f e, g e)) xs) = map_of (map (\<lambda>e. (f e, g e)) ys)"
proof -
  have "distinct (map f xs)"
    using assms by (metis mset_eq_imp_distinct_iff mset_map)
  moreover have "set xs = set ys" using assms(1) by (rule mset_eq_setD)
  ultimately show ?thesis
    using assms(2) by (intro map_of_inject_set [THEN iffD2]) (simp_all add: comp_def)
qed

subsection \<open>Looking up\<close>

lemma findLoop_find:
  "findLoop n es h k = List.find (\<lambda>e. h = hh e \<and> sqlite3StrICmp (pKey e) k = 0) (take n es)"
  by (induction n es h k rule: findLoop.induct) simp_all

lemma find_filter: "(\<And>x. P x \<Longrightarrow> Q x) \<Longrightarrow> List.find P (filter Q xs) = List.find P xs"
  by (induction xs) auto

lemma find_element:
  assumes "hash_inv pH"
  shows "fst (findElementWithHash pH k) =
    List.find (\<lambda>e. strHash k = hh e \<and> sqlite3StrICmp (pKey e) k = 0) (first pH)"
proof (cases "ht pH")
  case None
  then show ?thesis
    using hash_invD(4) [OF assms] by (simp add: findElementWithHash_def Let_def findLoop_find)
next
  case (Some tbl)
  let ?n = "htsize pH" and ?b = "unat (strHash k) mod htsize pH"
  let ?P = "\<lambda>e. strHash k = hh e \<and> sqlite3StrICmp (pKey e) k = 0"
  note ok = hash_invD(6) [OF assms Some]
  have b: "?b < ?n" "hcount (tbl ! ?b) = length (bucket ?n ?b (first pH))"
    using ok by (auto simp: buckets_ok_def)
  have "take (hcount (tbl ! ?b)) (dropWhile (\<lambda>e. ha e \<noteq> chain (tbl ! ?b)) (first pH)) =
      bucket ?n ?b (first pH)"
  proof (cases "bucket ?n ?b (first pH) = []")
    case False
    with ok b have "chain (tbl ! ?b) = ha (hd (bucket ?n ?b (first pH)))" by (simp add: buckets_ok_def)
    with False b ok grouped_bucket [of "bucket_of ?n" "first pH" ?b] hash_invD(1) [OF assms]
    show ?thesis by (simp add: bucket_def buckets_ok_def)
  qed (use b in simp)
  moreover have "List.find ?P (bucket ?n ?b (first pH)) = List.find ?P (first pH)"
    unfolding bucket_def by (rule find_filter) (simp add: bucket_of_def)
  ultimately show ?thesis
    by (simp add: findElementWithHash_def Some Let_def findLoop_find)
qed

lemma find_key:
  assumes "hash_inv pH" and "cstr k"
  shows "fst (findElementWithHash pH k) = List.find (\<lambda>e. fold_case (pKey e) = fold_case k) (first pH)"
  unfolding find_element [OF assms(1)]
  using hash_invD(3) [OF assms(1)] strHash_match [OF assms(2)]
  by (intro find_cong) (auto simp: strHash_match)

lemma find_cases:
  assumes "hash_inv pH" and "cstr k"
  obtains (absent) "findElementWithHash pH k = (None, strHash k)" "hash_map pH (fold_case k) = None"
  | (present) e where "findElementWithHash pH k = (Some e, strHash k)" "e \<in> set (first pH)"
      "fold_case (pKey e) = fold_case k" "hash_map pH (fold_case k) = Some (data e)"
proof -
  have s: "snd (findElementWithHash pH k) = strHash k" by (simp add: findElementWithHash_def Let_def)
  show thesis
  proof (cases "fst (findElementWithHash pH k)")
    case None
    then have "hash_map pH (fold_case k) = None"
      using find_key [OF assms] by (auto simp: hash_map_none find_None_iff)
    with None s absent show thesis by (metis prod.collapse)
  next
    case (Some e)
    then have "e \<in> set (first pH)" "fold_case (pKey e) = fold_case k"
      using find_key [OF assms] by (auto simp: find_Some_iff)
    with Some s present hash_map_mem [OF assms(1)] show thesis by (metis prod.collapse)
  qed
qed

subsection \<open>Inserting a new element\<close>

text \<open>A table whose list got one more element, for a key that was absent.\<close>

lemma inv_add:
  assumes inv: "hash_inv pH" and k: "cstr k" "hash_map pH (fold_case k) = None"
    and e: "e = \<lparr>ha = heap_next pH, data = d, pKey = k, hh = strHash k\<rparr>"
    and xs: "mset xs = add_mset e (mset (first pH))"
    and H: "first H = xs" "count H = count pH + 1" "heap_next H = heap_next pH + 1"
    and t: "case ht H of None \<Rightarrow> htsize H = 0 | Some tbl \<Rightarrow> buckets_ok (htsize H) tbl xs"
  shows "hash_inv H \<and> hash_map H = (hash_map pH)(fold_case k \<mapsto> d)"
proof -
  note D = hash_invD [OF inv]
  have m: "mset xs = mset (e # first pH)" using xs by simp
  have keys: "fold_case k \<notin> (\<lambda>e. fold_case (pKey e)) ` set (first pH)"
    using k(2) by (simp add: hash_map_none)
  have new: "distinct (map (\<lambda>e. fold_case (pKey e)) (e # first pH))" "distinct (map ha (e # first pH))"
    using D(1,2,3) keys e by fastforce+
  have "distinct (map (\<lambda>e. fold_case (pKey e)) xs)" "distinct (map ha xs)"
    using new m by (metis mset_eq_imp_distinct_iff mset_map)+
  moreover have "set xs = insert e (set (first pH))" using mset_eq_setD [OF m] by simp
  moreover have "length xs = Suc (length (first pH))" using mset_eq_length [OF m] by simp
  ultimately have "hash_inv H"
    using D(3,4) t H k(1) e by (auto simp: hash_inv_def less_Suc_eq)
  moreover have "hash_map H = (hash_map pH)(fold_case k \<mapsto> d)"
    unfolding hash_map_def H(1) map_of_perm [OF m new(1)] by (simp add: e)
  ultimately show ?thesis ..
qed

text \<open>Re-hashing keeps the elements and rebuilds the buckets.\<close>

lemma rehash_ok:
  assumes inv: "distinct (map ha (first pH))"
    "case ht pH of None \<Rightarrow> htsize pH = 0 | Some tbl \<Rightarrow> buckets_ok (htsize pH) tbl (first pH)"
    and ms: "\<And>n. n \<le> msize n" and r: "rehash msize pH m ms = (H, res, ms')"
  shows "mset (first H) = mset (first pH) \<and> count H = count pH \<and> heap_next H = heap_next pH \<and>
    (case ht H of None \<Rightarrow> htsize H = 0 | Some tbl \<Rightarrow> buckets_ok (htsize H) tbl (first H))"
proof (cases "rehash msize pH m ms = (pH, False, ms) \<or> rehash msize pH m ms = (pH, False, malloc_rest ms)")
  case True
  with r inv show ?thesis by auto
next
  case False
  define s where "s = (if m * 16 > 1024 then 1024 div 16 else m :: nat)"
  define n where "n = msize (s * 16) div 16"
  define H0 where "H0 = pH\<lparr>ht := Some (replicate n \<lparr>hcount = 0, chain = 0\<rparr>), htsize := n, first := []\<rparr>"
  have s: "s \<noteq> 0" and H: "H = foldl (\<lambda>H e. insertElement H (Some (bucket_of n e)) e) H0 (first pH)"
    using r False unfolding rehash_def Let_def s_def n_def H0_def by (auto split: if_splits)
  have "s * 16 div 16 \<le> n" unfolding n_def using ms by (intro div_le_mono)
  with s have "0 < n" by simp
  then have "buckets_ok n (replicate n \<lparr>hcount = 0, chain = 0\<rparr>) (first H0)"
    by (simp add: empty_buckets H0_def)
  from insert_all_buckets [OF this, of "first pH"] inv(1) show ?thesis
    by (auto simp: H H0_def)
qed

text \<open>Linking the new element into whatever table there is.\<close>

lemma insertElement_any:
  assumes "case ht pH of None \<Rightarrow> htsize pH = 0 | Some tbl \<Rightarrow> buckets_ok (htsize pH) tbl (first pH)"
    and "distinct (map ha (e # first pH))"
    and H: "H = insertElement pH (case ht pH of None \<Rightarrow> None | Some _ \<Rightarrow> Some (bucket_of (htsize pH) e)) e"
  shows "mset (first H) = add_mset e (mset (first pH)) \<and> count H = count pH \<and>
    heap_next H = heap_next pH \<and>
    (case ht H of None \<Rightarrow> htsize H = 0 | Some tbl \<Rightarrow> buckets_ok (htsize H) tbl (first H))"
proof (cases "ht pH")
  case None
  with assms(1) show ?thesis by (simp add: H insertElement_def)
next
  case (Some tbl)
  with assms(1) insertElement_bucket [of "htsize pH" tbl pH e] assms(2) show ?thesis
    by (auto simp: H)
qed

lemma Insert_absent:
  assumes inv: "hash_inv pH" and k: "cstr k" "findElementWithHash pH k = (None, strHash k)"
    "hash_map pH (fold_case k) = None" and msize: "\<And>n. n \<le> msize n" and ok: "malloc_ok ms"
  shows "\<exists>H ms'. sqlite3HashInsert msize pH k (Some d) ms = (H, None, ms') \<and>
    hash_inv H \<and> hash_map H = (hash_map pH)(fold_case k \<mapsto> d)"
proof -
  define e where "e = \<lparr>ha = heap_next pH, data = d, pKey = k, hh = strHash k\<rparr>"
  define G where "G = pH\<lparr>count := count pH + 1, heap_next := heap_next pH + 1\<rparr>"
  note D = hash_invD [OF inv]
  obtain K ms1 where K: "(if count G \<ge> 5 \<and> count G > 2 * htsize G
      then (case rehash msize G (count G * 3 mod 2 ^ 32) (malloc_rest ms) of (pH, _, ms) \<Rightarrow> (pH, ms))
      else (G, malloc_rest ms)) = (K, ms1)" by fastforce
  have G: "distinct (map ha (first G))" "first G = first pH" "ht G = ht pH" "htsize G = htsize pH"
    "case ht G of None \<Rightarrow> htsize G = 0 | Some tbl \<Rightarrow> buckets_ok (htsize G) tbl (first G)"
    using inv by (auto simp: G_def hash_inv_def split: option.splits)
  have *: "mset (first K) = mset (first pH) \<and> count K = count G \<and> heap_next K = heap_next G \<and>
    (case ht K of None \<Rightarrow> htsize K = 0 | Some tbl \<Rightarrow> buckets_ok (htsize K) tbl (first K))"
    using K G rehash_ok [OF G(1,5) msize] by (auto split: if_splits prod.splits)
  define H where "H = insertElement K (case ht K of None \<Rightarrow> None | Some _ \<Rightarrow> Some (bucket_of (htsize K) e)) e"
  have "ha e \<notin> ha ` set (first pH)" using D(3) by (fastforce simp: e_def)
  then have d: "distinct (map ha (e # first K))"
    using * D(1) mset_eq_imp_distinct_iff [of "map ha (first K)" "map ha (first pH)"]
      mset_eq_setD [of "first K" "first pH"] by auto
  note ins = insertElement_any [OF conjunct2 [OF conjunct2 [OF conjunct2 [OF *]]] d H_def]
  have "sqlite3HashInsert msize pH k (Some d) ms = (case (K, ms1) of (pH, ms) \<Rightarrow>
      (insertElement pH (case ht pH of None \<Rightarrow> None | Some _ \<Rightarrow> Some (bucket_of (htsize pH) e)) e, None, ms))"
    unfolding K [symmetric] G_def e_def
    by (simp only: sqlite3HashInsert_def k(2) prod.case option.case Let_def ok simp_thms if_False)
  then have "sqlite3HashInsert msize pH k (Some d) ms = (H, None, ms1)"
    by (simp add: H_def)
  moreover have "hash_inv H \<and> hash_map H = (hash_map pH)(fold_case k \<mapsto> d)"
    by (rule inv_add [OF inv k(1,3) e_def, where xs = "first H"]) (use ins * in \<open>simp_all add: G_def\<close>)
  ultimately show ?thesis by blast
qed

subsection \<open>Replacing the data of an element\<close>

lemma buckets_ok_map:
  fixes g :: "'d HashElem \<Rightarrow> 'd HashElem"
  assumes "buckets_ok n tbl xs" and g: "\<And>x. ha (g x) = ha x" "\<And>x. hh (g x) = hh x"
  shows "buckets_ok n tbl (map g xs)"
proof -
  have b: "bucket_of n (g x) = bucket_of n x" for x by (simp add: bucket_of_def g)
  have "bucket n i (map g xs) = map g (bucket n i xs)" for i
    by (simp add: bucket_def filter_map comp_def b)
  moreover have "grouped (bucket_of n) (map g xs)"
    by (rule grouped_map) (use assms(1) in \<open>simp_all add: b buckets_ok_def\<close>)
  ultimately show ?thesis
    using assms(1) by (simp add: buckets_ok_def g hd_map)
qed

lemma Insert_present:
  assumes inv: "hash_inv (pH :: 'd Hash)" and k: "cstr k" "findElementWithHash pH k = (Some e, strHash k)"
    "e \<in> set (first pH)" "fold_case (pKey e) = fold_case k"
  shows "\<exists>H. sqlite3HashInsert msize pH k (Some d) ms = (H, Some (data e), ms) \<and>
    hash_inv H \<and> hash_map H = (hash_map pH)(fold_case k \<mapsto> d)"
proof -
  note D = hash_invD [OF inv]
  define g where "g x = (if ha x = ha e then x\<lparr>data := d, pKey := k\<rparr> else x)" for x :: "'d HashElem"
  define H where "H = pH\<lparr>first := map g (first pH)\<rparr>"
  have same: "x = e" if "x \<in> set (first pH)" "ha x = ha e" for x
    using that k(3) D(1) by (auto simp: distinct_map inj_on_def)
  have key: "fold_case (pKey (g x)) = fold_case (pKey x)" if "x \<in> set (first pH)" for x
    using same [OF that] k(4) by (auto simp: g_def)
  have g: "ha (g x) = ha x" "hh (g x) = hh x" for x by (simp_all add: g_def)
  have "hh (g x) = strHash (pKey (g x)) \<and> cstr (pKey (g x))" if "x \<in> set (first pH)" for x
    using D(3) [OF that] same [OF that] k(1,4) strHash_fold [of "pKey e" k 0]
    by (auto simp: g_def strHash_def)
  moreover have "distinct (map (\<lambda>x. fold_case (pKey (g x))) (first pH))"
    using D(2) key by (simp cong: map_cong)
  ultimately have "hash_inv H"
    using D(1,3,4) inv unfolding hash_inv_def H_def
    by (auto simp: comp_def g buckets_ok_map split: option.splits)
  moreover have "hash_map H = (hash_map pH)(fold_case k \<mapsto> d)"
  proof
    fix f
    have m: "hash_map H (fold_case (pKey x)) = Some (data (g x))" if "x \<in> set (first pH)" for x
      using hash_map_mem [OF \<open>hash_inv H\<close>, of "g x"] that key by (auto simp: H_def)
    show "hash_map H f = ((hash_map pH)(fold_case k \<mapsto> d)) f"
    proof (cases "f \<in> (\<lambda>x. fold_case (pKey x)) ` set (first pH)")
      case True
      then obtain x where x: "x \<in> set (first pH)" "f = fold_case (pKey x)" by auto
      have "x = e" if "fold_case (pKey x) = fold_case k"
        using that x(1) k(3,4) D(2) by (auto simp: distinct_map inj_on_def)
      then show ?thesis
        using m [OF x(1)] hash_map_mem [OF inv x(1)] x(2) k(4) same [OF x(1)] by (auto simp: g_def)
    next
      case False
      then have "f \<noteq> fold_case k" using k(3,4) by (metis image_eqI)
      moreover have "hash_map H f = None" "hash_map pH f = None"
        using False key by (auto simp: hash_map_none H_def)
      ultimately show ?thesis by simp
    qed
  qed
  moreover have "sqlite3HashInsert msize pH k (Some d) ms = (H, Some (data e), ms)"
    by (simp add: sqlite3HashInsert_def k(2) H_def g_def [abs_def])
  ultimately show ?thesis by blast
qed

subsection \<open>Removing an element\<close>

lemma map_of_filter_not: "map_of (filter (\<lambda>(a, _). a \<noteq> k) xs) = (map_of xs)(k := None)"
  by (induction xs) (auto simp: fun_eq_iff)

text \<open>The address after the head of a bucket is the next element of the bucket.\<close>

lemma next_addr_bucket:
  assumes "grouped (bucket_of n) xs" and "distinct (map ha xs)" and "bucket n b xs = e # es" and "es \<noteq> []"
  shows "next_addr (ha e) xs = ha (hd es)"
proof -
  let ?d = "dropWhile (\<lambda>y. ha y \<noteq> ha e) xs"
  have "take (Suc (length es)) ?d = e # es"
    using grouped_bucket [of "bucket_of n" xs b] assms by (simp add: bucket_def)
  then obtain rest where d: "?d = e # rest" "take (length es) rest = es"
    by (cases ?d) auto
  with assms(4) obtain r rest' where "rest = r # rest'" by (cases rest) auto
  with d assms(4) have "hd es = r" by (metis hd_take length_greater_0_conv list.sel(1))
  with d \<open>rest = r # rest'\<close> show ?thesis by (simp add: next_addr_def)
qed

lemma buckets_ok_remove:
  assumes ok: "buckets_ok n tbl xs" and d: "distinct (map ha xs)" and e: "e \<in> set xs"
  shows "buckets_ok n (tbl[bucket_of n e := \<lparr>hcount = hcount (tbl ! bucket_of n e) - 1,
      chain = (if chain (tbl ! bucket_of n e) = ha e then next_addr (ha e) xs
               else chain (tbl ! bucket_of n e))\<rparr>]) (filter (\<lambda>x. ha x \<noteq> ha e) xs)"
proof -
  let ?b = "bucket_of n e" and ?f = "filter (\<lambda>x. ha x \<noteq> ha e)"
  have b: "?b < n" "length tbl = n" using ok by (auto simp: buckets_ok_def bucket_of_less)
  have same: "x = e" if "x \<in> set xs" "ha x = ha e" for x
    using that e d by (auto simp: distinct_map inj_on_def)
  have other: "bucket n i (?f xs) = bucket n i xs" if "i \<noteq> ?b" for i
    unfolding bucket_def filter_filter using that same by (intro filter_cong) auto
  have bf: "bucket n ?b (?f xs) = ?f (bucket n ?b xs)"
    unfolding bucket_def filter_filter by (rule filter_cong) auto
  have dist: "distinct (map ha (bucket n ?b xs))" using d by (simp add: bucket_def distinct_map_filter)
  have "e \<in> set (bucket n ?b xs)" using e by (simp add: bucket_def)
  then obtain us vs where uv: "bucket n ?b xs = us @ e # vs" by (meson split_list)
  have "ha e \<notin> ha ` set us" "ha e \<notin> ha ` set vs"
    using dist unfolding uv by auto
  then have "?f us = us" "?f vs = vs"
    by (metis (mono_tags, lifting) filter_True image_eqI)+
  then have f: "bucket n ?b (?f xs) = us @ vs"
    unfolding bf uv by simp
  have c: "hcount (tbl ! ?b) = Suc (length (us @ vs))" "chain (tbl ! ?b) = ha (hd (us @ e # vs))"
    using ok b(1) uv by (auto simp: buckets_ok_def)
  have h: "(if chain (tbl ! ?b) = ha e then next_addr (ha e) xs else chain (tbl ! ?b)) = ha (hd (us @ vs))"
    if "us @ vs \<noteq> []"
  proof (cases us)
    case Nil
    with that uv c next_addr_bucket [of n xs ?b e vs] ok d show ?thesis
      by (simp add: buckets_ok_def)
  next
    case (Cons u us')
    with dist uv c show ?thesis by auto
  qed
  let ?ent = "\<lparr>hcount = hcount (tbl ! ?b) - 1,
      chain = (if chain (tbl ! ?b) = ha e then next_addr (ha e) xs else chain (tbl ! ?b))\<rparr>"
  have "hcount (tbl[?b := ?ent] ! i) = length (bucket n i (?f xs)) \<and>
    (bucket n i (?f xs) \<noteq> [] \<longrightarrow> chain (tbl[?b := ?ent] ! i) = ha (hd (bucket n i (?f xs))))" if "i < n" for i
  proof (cases "i = ?b")
    case True
    with b c(1) f h show ?thesis by simp
  next
    case False
    with ok that other [OF False] show ?thesis by (simp add: buckets_ok_def)
  qed
  moreover have "grouped (bucket_of n) (?f xs)" using ok by (intro grouped_filter) (simp add: buckets_ok_def)
  ultimately show ?thesis using ok by (simp add: buckets_ok_def)
qed

lemma Insert_remove:
  assumes inv: "hash_inv (pH :: 'd Hash)" and k: "findElementWithHash pH k = (Some e, strHash k)"
    "e \<in> set (first pH)" "fold_case (pKey e) = fold_case k"
  shows "\<exists>H. sqlite3HashInsert msize pH k None ms = (H, Some (data e), ms) \<and>
    hash_inv H \<and> hash_map H = (hash_map pH)(fold_case k := None)"
proof -
  note D = hash_invD [OF inv]
  let ?f = "filter (\<lambda>x. ha x \<noteq> ha e) (first pH)"
  have same: "x = e" if "x \<in> set (first pH)" "ha x = ha e" for x
    using that k(2) D(1) by (auto simp: distinct_map inj_on_def)
  have key: "fold_case (pKey x) = fold_case k \<longleftrightarrow> ha x = ha e" if "x \<in> set (first pH)" for x
    using that k(2,3) same [OF that] D(2) by (auto simp: distinct_map inj_on_def)
  have len: "length ?f = count pH - 1"
  proof -
    have "?f = removeAll e (first pH)"
      unfolding removeAll_filter_not_eq using same by (intro filter_cong) auto
    moreover have "distinct (first pH)" using D(1) by (simp add: distinct_map)
    ultimately show ?thesis using k(2) D(4) by (simp add: distinct_remove1_removeAll [symmetric] length_remove1)
  qed
  have fm: "map_of (map (\<lambda>e. (fold_case (pKey e), data e)) ?f) = (hash_map pH)(fold_case k := None)"
  proof -
    have "map (\<lambda>e. (fold_case (pKey e), data e)) ?f =
      filter (\<lambda>(f, _). f \<noteq> fold_case k) (map (\<lambda>e. (fold_case (pKey e), data e)) (first pH))"
      unfolding filter_map comp_def using key by (auto intro!: map_cong filter_cong)
    then show ?thesis
      by (simp add: hash_map_def map_of_filter_not)
  qed
  define H where "H = removeElement pH e"
  have fH: "first H = ?f"
    using len by (auto simp: H_def removeElement_def Let_def sqlite3HashClear_def split: option.splits)
  have "hash_inv H"
    using D len buckets_ok_remove [OF D(6) D(1) k(2)]
    unfolding H_def removeElement_def
    by (auto simp: hash_inv_def Let_def sqlite3HashClear_def distinct_map_filter split: option.splits)
  moreover have "hash_map H = (hash_map pH)(fold_case k := None)"
    using fm by (simp add: hash_map_def fH)
  moreover have "sqlite3HashInsert msize pH k None ms = (H, Some (data e), ms)"
    by (simp add: sqlite3HashInsert_def k(1) H_def)
  ultimately show ?thesis by blast
qed

subsection \<open>What a symbol table promises\<close>

text \<open>
  What one update does to the map of the table: an insertion of a new name whose first allocation
  fails changes nothing.
\<close>

definition map_update :: "(cstring \<rightharpoonup> 'd) \<Rightarrow> cstring \<times> 'd option \<times> mallocs \<Rightarrow> (cstring \<rightharpoonup> 'd)" where
  "map_update m u =
     (case u of (k, d, ms) \<Rightarrow> if \<not> malloc_ok ms \<and> d \<noteq> None \<and> m (fold_case k) = None then m else m(fold_case k := d))"

text \<open>
  A client sees a map from case-folded names.  An update with a value stores it, an update
  without one removes the name, and both return the previous value; only storing under a new
  name can fail, and then the value itself comes back and the table is as before.
\<close>

locale symbol_table =
  fixes lookup :: "'s \<Rightarrow> cstring \<Rightarrow> 'd option"
    and update :: "'a \<Rightarrow> 's \<Rightarrow> cstring \<Rightarrow> 'd option \<Rightarrow> mallocs \<Rightarrow> 's \<times> 'd option \<times> mallocs"
    and alloc_ok :: "'a \<Rightarrow> bool" and amap :: "'s \<Rightarrow> cstring \<rightharpoonup> 'd" and inv :: "'s \<Rightarrow> bool"
  assumes lookup_amap: "inv s \<Longrightarrow> cstr k \<Longrightarrow> lookup s k = amap s (fold_case k)"
    and update_amap: "alloc_ok a \<Longrightarrow> inv s \<Longrightarrow> cstr k \<Longrightarrow> malloc_ok ms \<or> d = None \<or> amap s (fold_case k) \<noteq> None \<Longrightarrow>
      \<exists>s' ms'. update a s k d ms = (s', amap s (fold_case k), ms') \<and> inv s' \<and>
        amap s' = (amap s)(fold_case k := d)"
    and update_fails: "inv s \<Longrightarrow> cstr k \<Longrightarrow> \<not> malloc_ok ms \<Longrightarrow> d \<noteq> None \<Longrightarrow>
      amap s (fold_case k) = None \<Longrightarrow> update a s k d ms = (s, d, malloc_rest ms)"
begin

text \<open>A history: each update has its own outcomes of allocations.\<close>

fun updates :: "'a \<Rightarrow> 's \<Rightarrow> (cstring \<times> 'd option \<times> mallocs) list \<Rightarrow> 's" where
  "updates a s [] = s"
| "updates a s ((k, d, ms) # us) = updates a (fst (update a s k d ms)) us"

lemma update_step:
  assumes "alloc_ok a" "inv s" "cstr k"
  shows "inv (fst (update a s k d ms)) \<and> amap (fst (update a s k d ms)) = map_update (amap s) (k, d, ms)"
proof (cases "malloc_ok ms \<or> d = None \<or> amap s (fold_case k) \<noteq> None")
  case True
  with update_amap [OF assms, of ms d] show ?thesis by (auto simp: map_update_def)
next
  case False
  with update_fails [OF assms(2,3), of ms d a] assms(2) show ?thesis by (auto simp: map_update_def)
qed

lemma updates_amap:
  assumes "alloc_ok a" and "inv s" and "list_all (\<lambda>(k, d, ms). cstr k) us"
  shows "inv (updates a s us) \<and> amap (updates a s us) = foldl map_update (amap s) us"
  using assms(2,3)
proof (induction us arbitrary: s)
  case (Cons u us)
  obtain k d ms where u: "u = (k, d, ms)" by (cases u) auto
  with Cons.prems update_step [OF assms(1) Cons.prems(1), of k d ms] Cons.IH [of "fst (update a s k d ms)"] show ?case by simp
qed simp

end

lemma Insert_update:
  assumes "hash_inv pH" and "cstr k" and "\<And>n. n \<le> msize n"
    and "malloc_ok ms \<or> d = None \<or> hash_map pH (fold_case k) \<noteq> None"
  shows "\<exists>H ms'. sqlite3HashInsert msize pH k d ms = (H, hash_map pH (fold_case k), ms') \<and> hash_inv H \<and>
    hash_map H = (hash_map pH)(fold_case k := d)"
  using assms(1,2)
proof (cases rule: find_cases)
  case absent
  show ?thesis
  proof (cases d)
    case None
    with absent assms(1) show ?thesis by (auto simp: sqlite3HashInsert_def)
  next
    case (Some x)
    with absent assms Insert_absent [OF assms(1,2) absent assms(3), of ms x] show ?thesis by auto
  qed
next
  case (present e)
  show ?thesis
  proof (cases d)
    case None
    with present(4) Insert_remove [OF assms(1) present(1-3), of msize ms] show ?thesis by auto
  next
    case (Some x)
    with present(4) Insert_present [OF assms(1,2) present(1-3), of msize x ms] show ?thesis by auto
  qed
qed

lemma Insert_oom:
  assumes "hash_inv pH" and "cstr k" and "\<not> malloc_ok ms" and "d \<noteq> None" and "hash_map pH (fold_case k) = None"
  shows "sqlite3HashInsert msize pH k d ms = (pH, d, malloc_rest ms)"
  using assms(1,2) by (cases rule: find_cases) (use assms in \<open>auto simp: sqlite3HashInsert_def\<close>)

lemma HashFind_map:
  assumes "hash_inv pH" and "cstr k"
  shows "sqlite3HashFind pH k = hash_map pH (fold_case k)"
  using assms by (cases rule: find_cases) (simp_all add: sqlite3HashFind_def)

text \<open>The allocator rounding block sizes up to a multiple of 8, as the library's own does.\<close>

definition round8 :: "nat \<Rightarrow> nat" where
  "round8 n = (n + 7) div 8 * 8"

lemma round8_ge: "n \<le> round8 n"
  unfolding round8_def by presburger

text \<open>The table is a symbol table for every allocator that returns blocks of at least the requested size.\<close>

interpretation hst: symbol_table sqlite3HashFind sqlite3HashInsert "\<lambda>msize. \<forall>n. n \<le> msize n" hash_map hash_inv
proof unfold_locales
  fix s :: "'a Hash" and k and d :: "'a option" and ms and msize :: "nat \<Rightarrow> nat"
  assume s: "hash_inv s" "cstr k"
  then show "sqlite3HashFind s k = hash_map s (fold_case k)" by (rule HashFind_map)
  show "sqlite3HashInsert msize s k d ms = (s, d, malloc_rest ms)"
    if "\<not> malloc_ok ms" "d \<noteq> None" "hash_map s (fold_case k) = None"
    using s that by (rule Insert_oom)
  assume a: "\<forall>n. n \<le> msize n"
  show "\<exists>s' ms'. sqlite3HashInsert msize s k d ms = (s', hash_map s (fold_case k), ms') \<and> hash_inv s' \<and>
      hash_map s' = (hash_map s)(fold_case k := d)"
    if "malloc_ok ms \<or> d = None \<or> hash_map s (fold_case k) \<noteq> None"
    using s a that by (intro Insert_update) simp_all
qed

definition empty_hash :: "'d Hash" where
  "empty_hash = \<lparr>htsize = 0, count = 0, first = [], ht = None, heap_next = 1\<rparr>"

lemma empty_hash_inv: "hash_inv empty_hash" "hash_map empty_hash = Map.empty"
  by (simp_all add: empty_hash_def hash_inv_def hash_map_def)

lemma HashInit_inv: "heap_next pH = n \<Longrightarrow> hash_inv (sqlite3HashInit pH) \<and> hash_map (sqlite3HashInit pH) = Map.empty"
  by (simp add: sqlite3HashInit_def hash_inv_def hash_map_def)

subsection \<open>Properties\<close>

text \<open>
  Looking a name up in a well-formed table gives the value stored under any spelling of
  the name that differs only in ASCII case, through the bucket array or by a linear search.
\<close>

theorem HashFind_correct:
  assumes "hash_inv pH" and "cstr k"
  shows "sqlite3HashFind pH k = hash_map pH (fold_case k)"
  by (rule HashFind_map [OF assms])

lemma HashFind_correct_witness:
  "hash_inv (empty_hash :: nat Hash) \<and> cstr [97] \<and> sqlite3HashFind (empty_hash :: nat Hash) [97] = None"
  using HashFind_correct [OF empty_hash_inv(1), of "[97]"] by (simp add: cstr_def empty_hash_inv)

text \<open>
  C12: inserting and deleting.  When the allocations succeed (or none is needed) the table
  becomes the map updated at the name, the previous value is returned, and the table stays
  well-formed, re-hashing included; when a new element cannot be allocated the table is
  unchanged and the new value is handed back.  This holds for every allocator that returns
  blocks of at least the size asked for.
\<close>

theorem HashInsert_correct:
  assumes "hash_inv pH" and "cstr k" and "\<And>n. n \<le> msize n"
  shows "(malloc_ok ms \<or> d = None \<or> hash_map pH (fold_case k) \<noteq> None \<longrightarrow>
      (\<exists>H ms'. sqlite3HashInsert msize pH k d ms = (H, hash_map pH (fold_case k), ms') \<and> hash_inv H \<and>
        hash_map H = (hash_map pH)(fold_case k := d))) \<and>
    (\<not> malloc_ok ms \<and> d \<noteq> None \<and> hash_map pH (fold_case k) = None \<longrightarrow>
      sqlite3HashInsert msize pH k d ms = (pH, d, malloc_rest ms))"
  using Insert_update [OF assms(1,2), of msize] assms(3) Insert_oom [OF assms(1,2)] by auto

lemma HashInsert_correct_witness:
  "hash_inv (empty_hash :: nat Hash) \<and> cstr [97] \<and>
   (\<exists>H ms'. sqlite3HashInsert round8 empty_hash [97] (Some (5 :: nat)) [] = (H, None, ms') \<and> hash_inv H \<and>
      hash_map H [97] = Some 5)"
proof -
  have k: "cstr [97]" by (simp add: cstr_def)
  have f: "fold_case [97] = [97]" by (simp add: fold_case_def Tolower_add)
  from HashInsert_correct [OF empty_hash_inv(1) k round8_ge, of "[]" "Some (5 :: nat)"]
  show ?thesis using k by (auto simp: f empty_hash_inv)
qed

text \<open>
  C13: a history of insertions and deletions, starting from a new table, with any allocator and any allocations
  failing, leaves the table with exactly the last value stored under each name and not deleted since,
  names being compared without regard to ASCII case.  An insertion of a new name whose element cannot be
  allocated stores nothing; a bucket array that cannot be allocated has no effect on the result.
\<close>

theorem Hash_history:
  assumes "\<forall>n. n \<le> msize n" and "list_all (\<lambda>(k, d, ms). cstr k) us" and "cstr k"
  shows "sqlite3HashFind (hst.updates msize (sqlite3HashInit pH) us) k = foldl map_update Map.empty us (fold_case k)"
  using hst.updates_amap [of msize "sqlite3HashInit pH" us] HashInit_inv [of pH] assms
  by (simp add: hst.lookup_amap)

lemma Hash_history_witness:
  "sqlite3HashFind (hst.updates round8 (sqlite3HashInit empty_hash)
     [([97, 98], Some (1 :: nat), []), ([99], Some 2, []), ([65, 66], Some 3, [False]), ([67], None, []), ([67], Some 4, [False])]) [65, 98] = Some 3"
  using Hash_history [of round8 "[([97, 98], Some (1 :: nat), []), ([99], Some 2, []), ([65, 66], Some 3, [False]), ([67], None, []), ([67], Some 4, [False])]"
      "[65, 98]" empty_hash] round8_ge
  by (simp add: cstr_def fold_case_def Tolower_add map_update_def malloc_ok_def del: hst.updates.simps)

end
