(* ===== verification/Int_Arith.thy ===== *)
theory Int_Arith
  imports Sqlite_Prelude "HOL-Library.Signed_Division"
begin

text \<open>
  The overflow-checked 64-bit arithmetic, the wide multiplications and the logarithmic
  estimates of util.c.  The checked operations are modelled in both of their conditional
  branches, the portable code and the overflow builtins of GCC; the other functions in their
  portable branch.  A signed 64-bit value is an \<open>int\<close> in range, and C division is \<open>sdiv\<close>, which
  truncates towards zero.  The wide multiplications are on words, every intermediate value
  wrapping at 64 bits.
\<close>

subsection \<open>Overflow-checked arithmetic\<close>

definition LARGEST_INT64 :: int where "LARGEST_INT64 = 2 ^ 63 - 1"
definition SMALLEST_INT64 :: int where "SMALLEST_INT64 = - 1 - LARGEST_INT64"

definition i64 :: "int \<Rightarrow> bool" where
  "i64 v \<longleftrightarrow> SMALLEST_INT64 \<le> v \<and> v \<le> LARGEST_INT64"

lemma i64_iff: "i64 v \<longleftrightarrow> - (2 ^ 63) \<le> v \<and> v < 2 ^ 63"
  by (auto simp: i64_def SMALLEST_INT64_def LARGEST_INT64_def)

text \<open>
  The builtins \<^verbatim>\<open>__builtin_add_overflow\<close>, \<^verbatim>\<open>__builtin_sub_overflow\<close> and \<^verbatim>\<open>__builtin_mul_overflow\<close> store the
  exact result wrapped to 64 bits and return whether it was out of range.
\<close>

definition wrap64 :: "int \<Rightarrow> int" where
  "wrap64 r = (r + 2 ^ 63) mod 2 ^ 64 - 2 ^ 63"

definition builtin_overflow :: "int \<Rightarrow> int \<times> int" where
  "builtin_overflow r = (wrap64 r, if i64 r then 0 else 1)"

lemma builtin_overflow_iff: "builtin_overflow r = (if i64 r then (r, 0) else (wrap64 r, 1))"
  by (auto simp: builtin_overflow_def wrap64_def i64_iff)

text \<open>
  The new value of \<^verbatim>\<open>*pA\<close> and the result code; \<open>gcc\<close> says whether the builtins are compiled in
  (\<^verbatim>\<open>GCC_VERSION>=5004000 && !defined(__INTEL_COMPILER)\<close>).
\<close>

definition sqlite3AddInt64 :: "bool \<Rightarrow> int \<Rightarrow> int \<Rightarrow> int \<times> int" where
  "sqlite3AddInt64 gcc iA iB =
     (if gcc then builtin_overflow (iA + iB)
      else if iB \<ge> 0 then
        if iA > 0 \<and> LARGEST_INT64 - iA < iB then (iA, 1) else (iA + iB, 0)
      else
        if iA < 0 \<and> - (iA + LARGEST_INT64) > iB + 1 then (iA, 1) else (iA + iB, 0))"

definition sqlite3SubInt64 :: "bool \<Rightarrow> int \<Rightarrow> int \<Rightarrow> int \<times> int" where
  "sqlite3SubInt64 gcc iA iB =
     (if gcc then builtin_overflow (iA - iB)
      else if iB = SMALLEST_INT64 then
        if iA \<ge> 0 then (iA, 1) else (iA - iB, 0)
      else sqlite3AddInt64 gcc iA (- iB))"

definition sqlite3MulInt64 :: "bool \<Rightarrow> int \<Rightarrow> int \<Rightarrow> int \<times> int" where
  "sqlite3MulInt64 gcc iA iB =
     (if gcc then builtin_overflow (iA * iB)
      else if iB > 0 then
        if iA > LARGEST_INT64 sdiv iB then (iA, 1)
        else if iA < SMALLEST_INT64 sdiv iB then (iA, 1)
        else (iA * iB, 0)
      else if iB < 0 then
        if iA > 0 then
          if iB < SMALLEST_INT64 sdiv iA then (iA, 1) else (iA * iB, 0)
        else if iA < 0 then
          if iB = SMALLEST_INT64 then (iA, 1)
          else if iA = SMALLEST_INT64 then (iA, 1)
          else if - iA > LARGEST_INT64 sdiv (- iB) then (iA, 1)
          else (iA * iB, 0)
        else (iA * iB, 0)
      else (iA * iB, 0))"

definition sqlite3AbsInt32 :: "int \<Rightarrow> int" where
  "sqlite3AbsInt32 x = (if x \<ge> 0 then x else if x = - (2 ^ 31) then 2 ^ 31 - 1 else - x)"

lemma sdiv_pos: "0 \<le> a \<Longrightarrow> 0 < b \<Longrightarrow> a sdiv b = a div (b :: int)"
  by (cases "a = 0") (simp_all add: signed_divide_int_def)

lemma sdiv_neg: "0 \<le> a \<Longrightarrow> 0 < b \<Longrightarrow> (- a) sdiv b = - (a div (b :: int))"
  by (cases "a = 0") (simp_all add: signed_divide_int_def)

lemma SMALLEST_sdiv: "0 < b \<Longrightarrow> SMALLEST_INT64 sdiv b = - (2 ^ 63 div b)"
  using sdiv_neg [of "2 ^ 63" b] by (simp add: SMALLEST_INT64_def LARGEST_INT64_def)

lemma LARGEST_sdiv: "0 < b \<Longrightarrow> LARGEST_INT64 sdiv b = (2 ^ 63 - 1) div b"
  by (simp add: LARGEST_INT64_def sdiv_pos)

lemma div_less_iff_mult:
  assumes "0 < b"
  shows "c div b < a \<longleftrightarrow> c < a * (b :: int)"
proof
  assume "c div b < a"
  then have "(c div b + 1) * b \<le> a * b" using assms by (intro mult_right_mono) auto
  moreover have "c < (c div b + 1) * b"
    using div_mult_mod_eq [of c b] pos_mod_bound [OF assms, of c] unfolding distrib_right by linarith
  ultimately show "c < a * b" by simp
next
  assume c: "c < a * b"
  show "c div b < a"
  proof (rule ccontr)
    assume "\<not> c div b < a"
    then have "a * b \<le> c div b * b" using assms by (intro mult_right_mono) auto
    also have "\<dots> \<le> c"
      using assms div_mult_mod_eq [of c b] pos_mod_sign [OF assms, of c] by linarith
    finally show False using c by simp
  qed
qed

lemma Mul_pos:
  assumes "0 < b"
  shows "a > LARGEST_INT64 sdiv b \<longleftrightarrow> LARGEST_INT64 < a * b"
    and "a < SMALLEST_INT64 sdiv b \<longleftrightarrow> a * b < SMALLEST_INT64"
proof -
  show "a > LARGEST_INT64 sdiv b \<longleftrightarrow> LARGEST_INT64 < a * b"
    unfolding LARGEST_sdiv [OF assms]
    using div_less_iff_mult [OF assms, of "2 ^ 63 - 1" a] by (simp add: LARGEST_INT64_def)
  have "a < SMALLEST_INT64 sdiv b \<longleftrightarrow> 2 ^ 63 div b < - a"
    by (simp add: SMALLEST_sdiv assms) linarith
  also have "\<dots> \<longleftrightarrow> 2 ^ 63 < - a * b" by (rule div_less_iff_mult [OF assms])
  finally show "a < SMALLEST_INT64 sdiv b \<longleftrightarrow> a * b < SMALLEST_INT64"
    by (auto simp: SMALLEST_INT64_def LARGEST_INT64_def)
qed

lemma Mul_both_neg:
  assumes "a \<le> - 1" and "b \<le> - 1" and "a = SMALLEST_INT64 \<or> b = SMALLEST_INT64"
  shows "LARGEST_INT64 < a * b"
proof -
  have "2 ^ 63 \<le> (- a) * (- b)"
  proof (cases "a = SMALLEST_INT64")
    case True
    have "2 ^ 63 * 1 \<le> (- a) * (- b)"
      using True assms by (intro mult_mono) (auto simp: SMALLEST_INT64_def LARGEST_INT64_def)
    then show ?thesis by simp
  next
    case False
    have "1 * 2 ^ 63 \<le> (- a) * (- b)"
      using False assms by (intro mult_mono) (auto simp: SMALLEST_INT64_def LARGEST_INT64_def)
    then show ?thesis by simp
  qed
  then show ?thesis by (simp add: LARGEST_INT64_def)
qed

lemma AddInt64_correct:
  "i64 a \<Longrightarrow> i64 b \<Longrightarrow> sqlite3AddInt64 False a b = (if i64 (a + b) then (a + b, 0) else (a, 1))"
  by (auto simp: sqlite3AddInt64_def i64_def SMALLEST_INT64_def)

lemma SubInt64_correct:
  "i64 a \<Longrightarrow> i64 b \<Longrightarrow> sqlite3SubInt64 False a b = (if i64 (a - b) then (a - b, 0) else (a, 1))"
  using AddInt64_correct [of a "- b"]
  by (auto simp: sqlite3SubInt64_def i64_def SMALLEST_INT64_def LARGEST_INT64_def)

lemma mult_sign_bounds:
  "0 < a \<Longrightarrow> b < 0 \<Longrightarrow> (a :: int) * b \<le> LARGEST_INT64" "a < 0 \<Longrightarrow> b < 0 \<Longrightarrow> SMALLEST_INT64 \<le> (a :: int) * b"
  using mult_pos_neg [of a b] mult_neg_neg [of a b] by (simp_all add: SMALLEST_INT64_def LARGEST_INT64_def)

lemma MulInt64_correct:
  assumes "i64 a" and "i64 b"
  shows "sqlite3MulInt64 False a b = (if i64 (a * b) then (a * b, 0) else (a, 1))"
proof (cases "b > 0")
  case True
  then show ?thesis
    by (auto simp: sqlite3MulInt64_def Mul_pos i64_def)
next
  case False
  consider "b = 0" | "a = 0" | "b < 0" "a > 0" | "b < 0" "a < 0" using False by linarith
  then show ?thesis
  proof cases
    case 3
    then show ?thesis
      using mult_sign_bounds(1) [of a b] Mul_pos(2) [of a b]
      by (auto simp: sqlite3MulInt64_def i64_def mult.commute)
  next
    case 4
    have "- a > LARGEST_INT64 sdiv (- b) \<longleftrightarrow> LARGEST_INT64 < a * b"
      using Mul_pos(1) [of "- b" "- a"] 4 by simp
    moreover have "a = SMALLEST_INT64 \<or> b = SMALLEST_INT64 \<Longrightarrow> LARGEST_INT64 < a * b"
      using Mul_both_neg [of a b] 4 by simp
    ultimately show ?thesis
      using 4 mult_sign_bounds(2) [of a b] by (auto simp: sqlite3MulInt64_def i64_def)
  qed (use False in \<open>auto simp: sqlite3MulInt64_def i64_def SMALLEST_INT64_def LARGEST_INT64_def\<close>)
qed

subsection \<open>Wide multiplication\<close>

text \<open>The high word, and the low word the source writes through the pointer.\<close>

definition sqlite3Multiply128 :: "u64 \<Rightarrow> u64 \<Rightarrow> u64 \<times> u64" where
  "sqlite3Multiply128 a b =
     (let a0 = take_bit 32 a; a1 = drop_bit 32 a; b0 = take_bit 32 b; b1 = drop_bit 32 b;
          a0b0 = a0 * b0; a1b1 = a1 * b1; a0b1 = a0 * b1; a1b0 = a1 * b0;
          t = drop_bit 32 a0b0 + take_bit 32 a0b1 + take_bit 32 a1b0
      in (a1b1 + drop_bit 32 a0b1 + drop_bit 32 a1b0 + drop_bit 32 t,
          take_bit 32 a0b0 OR push_bit 32 t))"

definition sqlite3Multiply160 :: "u64 \<Rightarrow> u32 \<Rightarrow> u64 \<Rightarrow> u64 \<times> u32" where
  "sqlite3Multiply160 a aLo b =
     (let x2 = drop_bit 32 a; x1 = take_bit 32 a; x0 = ucast aLo; y1 = drop_bit 32 b; y0 = take_bit 32 b;
          x2y1 = x2 * y1; r4 = drop_bit 32 x2y1; x2y0 = x2 * y0; x1y1 = x1 * y1;
          r3 = take_bit 32 x2y1 + drop_bit 32 x2y0 + drop_bit 32 x1y1;
          x1y0 = x1 * y0; x0y1 = x0 * y1;
          r2 = take_bit 32 x2y0 + take_bit 32 x1y1 + drop_bit 32 x1y0 + drop_bit 32 x0y1;
          x0y0 = x0 * y0;
          r1 = take_bit 32 x1y0 + take_bit 32 x0y1 + drop_bit 32 x0y0;
          r2 = r2 + drop_bit 32 r1; r3 = r3 + drop_bit 32 r2
      in (push_bit 32 r4 + r3, ucast (take_bit 32 r2)))"

text \<open>Word operations on values that do not wrap are the operations on natural numbers.\<close>

lemma unat_lo: "unat (take_bit 32 (x :: u64)) = unat x mod 2 ^ 32"
  by (simp add: unsigned_take_bit_eq take_bit_nat_def)

lemma unat_hi: "unat (drop_bit 32 (x :: u64)) = unat x div 2 ^ 32"
  by (simp add: unat_drop_bit_eq drop_bit_nat_def)

lemma unat_halves: "unat (x :: u64) mod 2 ^ 32 < 2 ^ 32" "unat (x :: u64) div 2 ^ 32 < 2 ^ 32"
proof -
  have "unat x < 2 ^ LENGTH(64)" by (rule unsigned_less)
  then show "unat x mod 2 ^ 32 < 2 ^ 32" "unat x div 2 ^ 32 < 2 ^ 32"
    by (simp_all add: less_mult_imp_div_less)
qed

lemma unat_mult_halves:
  assumes "unat (x :: u64) < 2 ^ 32" and "unat (y :: u64) < 2 ^ 32"
  shows "unat (x * y) = unat x * unat y" and "unat x * unat y \<le> (2 ^ 32 - 1) * (2 ^ 32 - 1)"
proof -
  show le: "unat x * unat y \<le> (2 ^ 32 - 1) * (2 ^ 32 - 1)"
    using assms by (intro mult_mono) auto
  then have "unat x * unat y < 2 ^ LENGTH(64)" by simp
  then show "unat (x * y) = unat x * unat y" by (rule unat_mult_lem [THEN iffD1])
qed

lemma unat_add_small: "unat (x :: u64) + unat y < 2 ^ 64 \<Longrightarrow> unat (x + y) = unat x + unat y"
  using unat_add_lem [of x y] by simp

lemma join_halves:
  "unat (take_bit 32 x OR push_bit 32 (y :: u64)) = unat x mod 2 ^ 32 + 2 ^ 32 * (unat y mod 2 ^ 32)"
proof -
  have "take_bit 32 x OR push_bit 32 y = take_bit 32 x + push_bit 32 (take_bit 32 y)"
  proof -
    have "push_bit 32 y = push_bit 32 (take_bit 32 y)"
      by (rule bit_word_eqI) (auto simp: bit_simps)
    moreover have "take_bit 32 x AND push_bit 32 (take_bit 32 y) = 0"
      by (rule bit_word_eqI) (auto simp: bit_simps)
    ultimately show ?thesis by (simp add: disjunctive_add_eq_or)
  qed
  moreover have "unat (push_bit 32 (take_bit 32 y)) = 2 ^ 32 * (unat y mod 2 ^ 32)"
    using unat_halves(1) [of y] by (simp add: unsigned_push_bit_eq unat_lo push_bit_nat_def take_bit_nat_def)
  ultimately show ?thesis
    using unat_halves(1) [of y] unat_halves(1) [of x] by (simp add: unat_add_small unat_lo)
qed

lemma mult_split:
  fixes M :: nat
  shows "(a1 * M + a0) * (b1 * M + b0) = a1 * b1 * (M * M) + (a0 * b1 + a1 * b0) * M + a0 * b0"
  by (simp add: algebra_simps)

text \<open>The schoolbook product of two numbers of two digits in base \<open>M\<close>.\<close>

lemma school_mult:
  fixes M :: nat
  assumes "t = p00 div M + p01 mod M + p10 mod M"
  shows "(p11 + p01 div M + p10 div M + t div M) * (M * M) + (p00 mod M + (t mod M) * M) =
    p11 * (M * M) + (p01 + p10) * M + p00"
proof -
  have s: "x * y = (x div M) * (M * y) + (x mod M) * y" for x y
    by (metis add_mult_distrib mult.assoc div_mult_mod_eq)
  have "p00 = p00 div M * M + p00 mod M" by simp
  moreover have "t * M = p00 div M * M + p01 mod M * M + p10 mod M * M"
    unfolding assms by (simp only: distrib_right)
  ultimately show ?thesis
    using s [of p01 M] s [of p10 M] s [of t M] unfolding distrib_right by linarith
qed

lemma Multiply128_exact:
  "unat (fst (sqlite3Multiply128 a b)) * 2 ^ 64 + unat (snd (sqlite3Multiply128 a b)) = unat a * unat b"
proof -
  define M :: nat where "M = 2 ^ 32"
  define a0 a1 b0 b1 where "a0 = take_bit 32 a" and "a1 = drop_bit 32 a"
    and "b0 = take_bit 32 b" and "b1 = drop_bit 32 b"
  have s: "unat a0 < M" "unat a1 < M" "unat b0 < M" "unat b1 < M"
    using unat_halves by (simp_all add: a0_def a1_def b0_def b1_def unat_lo unat_hi M_def)
  define t where "t = drop_bit 32 (a0 * b0) + take_bit 32 (a0 * b1) + take_bit 32 (a1 * b0)"
  define p00 p01 p10 p11 where "p00 = unat a0 * unat b0" and "p01 = unat a0 * unat b1"
    and "p10 = unat a1 * unat b0" and "p11 = unat a1 * unat b1"
  have u: "unat (a0 * b0) = p00" "unat (a0 * b1) = p01" "unat (a1 * b0) = p10" "unat (a1 * b1) = p11"
    using s unat_mult_halves(1) by (simp_all add: p00_def p01_def p10_def p11_def M_def)
  have t: "unat t = p00 div M + p01 mod M + p10 mod M"
    using unat_halves(2) [of "a0 * b0"] unat_halves(1) [of "a0 * b1"] unat_halves(1) [of "a1 * b0"]
    by (simp add: t_def unat_add_small unat_lo unat_hi u M_def)
  have total: "p11 * (M * M) + (p01 + p10) * M + p00 = unat a * unat b"
    using mult_split [of "unat a1" M "unat a0" "unat b1" "unat b0"]
    by (simp add: p00_def p01_def p10_def p11_def a0_def a1_def b0_def b1_def unat_lo unat_hi M_def)
  define hi where "hi = p11 + p01 div M + p10 div M + unat t div M"
  have lo: "unat (take_bit 32 (a0 * b0) OR push_bit 32 t) = p00 mod M + (unat t mod M) * M"
    by (simp add: join_halves u M_def)
  have eq: "hi * (M * M) + (p00 mod M + (unat t mod M) * M) = unat a * unat b"
    unfolding hi_def total [symmetric] using t by (rule school_mult)
  have "unat a < 2 ^ LENGTH(64)" "unat b < 2 ^ LENGTH(64)" by (rule unsigned_less)+
  then have "unat a * unat b < 2 ^ 64 * 2 ^ 64" by (intro mult_strict_mono) simp_all
  with eq have "hi * (M * M) < 2 ^ 64 * (M * M)" by (simp add: M_def)
  then have "hi < 2 ^ 64" by (simp add: M_def)
  then have "unat (a1 * b1 + drop_bit 32 (a0 * b1) + drop_bit 32 (a1 * b0) + drop_bit 32 t) = hi"
    unfolding hi_def by (simp add: unat_add_small unat_hi u M_def)
  then show ?thesis
    using eq lo
    by (simp add: sqlite3Multiply128_def Let_def a0_def a1_def b0_def b1_def t_def M_def)
qed

lemma school_mult_hi:
  fixes M :: nat
  assumes r1: "r1 = p10 mod M + p01 mod M + p00 div M"
    and r2: "r2 = p20 mod M + p11 mod M + p10 div M + p01 div M + r1 div M"
    and r3: "r3 = p21 mod M + p20 div M + p11 div M + r2 div M" and M: "0 < M"
  shows "((p21 div M * M + r3) * M + r2 mod M) * (M * M) + (r1 mod M) * M + p00 mod M =
    p21 * M * (M * M) + (p20 + p11) * (M * M) + (p10 + p01) * M + p00"
proof -
  have s: "x * y = (x div M) * (M * y) + (x mod M) * y" for x y
    by (metis add_mult_distrib mult.assoc div_mult_mod_eq)
  have "p00 = p00 div M * M + p00 mod M" by simp
  moreover have "r1 * M = p10 mod M * M + p01 mod M * M + p00 div M * M"
    by (simp only: r1 distrib_right)
  moreover have "r2 * (M * M) = p20 mod M * (M * M) + p11 mod M * (M * M) + p10 div M * (M * M) +
      p01 div M * (M * M) + r1 div M * (M * M)"
    by (simp only: r2 distrib_right)
  moreover have "r3 * (M * (M * M)) = p21 mod M * (M * (M * M)) + p20 div M * (M * (M * M)) +
      p11 div M * (M * (M * M)) + r2 div M * (M * (M * M))"
    by (simp only: r3 distrib_right)
  ultimately show ?thesis
    using s [of p10 M] s [of p01 M] s [of r1 M] s [of p20 "M * M"] s [of p11 "M * M"] s [of r2 "M * M"]
      s [of p21 "M * (M * M)"]
    unfolding distrib_right mult.assoc by linarith
qed

lemma unat_add4:
  "unat (v :: u64) < 2 ^ 32 \<Longrightarrow> unat w < 2 ^ 32 \<Longrightarrow> unat x < 2 ^ 32 \<Longrightarrow> unat y < 2 ^ 32 \<Longrightarrow>
   unat (v + w + x + y) = unat v + unat w + unat x + unat y"
  by (simp add: unat_add_small)

lemma unat_add3:
  "unat (v :: u64) < 2 ^ 32 \<Longrightarrow> unat w < 2 ^ 32 \<Longrightarrow> unat x < 2 ^ 32 \<Longrightarrow>
   unat (v + w + x) = unat v + unat w + unat x"
  by (simp add: unat_add_small)

lemma unat_half_less: "unat (take_bit 32 (x :: u64)) < 2 ^ 32" "unat (drop_bit 32 x) < 2 ^ 32"
  using unat_halves [of x] by (simp_all add: unat_lo unat_hi)

lemma unat_shift_hi: "unat (push_bit 32 (drop_bit 32 (x :: u64))) = unat x div 2 ^ 32 * 2 ^ 32"
  using unat_halves(2) [of x]
  by (simp add: unsigned_push_bit_eq unat_hi push_bit_nat_def take_bit_nat_def)

lemma mult_split3:
  fixes M :: nat
  shows "((x2 * M + x1) * M + x0) * (y1 * M + y0) =
    x2 * y1 * M * (M * M) + (x2 * y0 + x1 * y1) * (M * M) + (x1 * y0 + x0 * y1) * M + x0 * y0"
  by (simp add: algebra_simps)

lemma Multiply160_exact:
  "unat (fst (sqlite3Multiply160 a aLo b)) * 2 ^ 32 + unat (snd (sqlite3Multiply160 a aLo b)) =
   (unat a * 2 ^ 32 + unat aLo) * unat b div 2 ^ 64"
proof -
  note half = unat_half_less
  define M :: nat where "M = 2 ^ 32"
  define x2 x1 y1 y0 where "x2 = drop_bit 32 a" and "x1 = take_bit 32 a"
    and "y1 = drop_bit 32 b" and "y0 = take_bit 32 b"
  define x0 :: u64 where "x0 = ucast aLo"
  have x0: "unat x0 = unat aLo" by (simp add: x0_def unat_ucast_up)
  have s: "unat x2 < M" "unat x1 < M" "unat x0 < M" "unat y1 < M" "unat y0 < M"
    using unat_halves unat_u32_less [of aLo]
    by (simp_all add: x2_def x1_def y1_def y0_def unat_lo unat_hi M_def x0)
  define p where "p x y = unat x * unat y" for x y :: u64
  have u: "unat (x * y) = p x y" if "unat x < M" "unat y < M" for x y
    using that unat_mult_halves [of x y] by (simp add: p_def M_def)
  note um = u [OF s(1) s(4)] u [OF s(1) s(5)] u [OF s(2) s(4)] u [OF s(2) s(5)] u [OF s(3) s(4)] u [OF s(3) s(5)]
  define r1 where "r1 = take_bit 32 (x1 * y0) + take_bit 32 (x0 * y1) + drop_bit 32 (x0 * y0)"
  define r2' where "r2' = take_bit 32 (x2 * y0) + take_bit 32 (x1 * y1) + drop_bit 32 (x1 * y0) + drop_bit 32 (x0 * y1)"
  define r2 where "r2 = r2' + drop_bit 32 r1"
  define r3 where "r3 = take_bit 32 (x2 * y1) + drop_bit 32 (x2 * y0) + drop_bit 32 (x1 * y1) + drop_bit 32 r2"
  have u1: "unat r1 = p x1 y0 mod M + p x0 y1 mod M + p x0 y0 div M"
    unfolding r1_def unat_add3 [OF half(1) half(1) half(2)] by (simp add: unat_lo unat_hi um M_def)
  have "unat r2' = p x2 y0 mod M + p x1 y1 mod M + p x1 y0 div M + p x0 y1 div M"
    unfolding r2'_def unat_add4 [OF half(1) half(1) half(2) half(2)] by (simp add: unat_lo unat_hi um M_def)
  moreover have "unat r2' < 4 * 2 ^ 32"
    unfolding r2'_def unat_add4 [OF half(1) half(1) half(2) half(2)]
    using half [of "x2 * y0"] half [of "x1 * y1"] half [of "x1 * y0"] half [of "x0 * y1"] by simp
  ultimately have u2: "unat r2 = p x2 y0 mod M + p x1 y1 mod M + p x1 y0 div M + p x0 y1 div M + unat r1 div M"
    using half(2) [of r1] unat_add_small [of r2' "drop_bit 32 r1"]
    unfolding r2_def by (simp add: unat_hi M_def)
  have u3: "unat r3 = p x2 y1 mod M + p x2 y0 div M + p x1 y1 div M + unat r2 div M"
    unfolding r3_def unat_add4 [OF half(1) half(2) half(2) half(2)] by (simp add: unat_lo unat_hi um M_def)
  define hi where "hi = p x2 y1 div M * M + unat r3"
  have sm: "(hi * M + unat r2 mod M) * (M * M) + unat r1 mod M * M + p x0 y0 mod M =
      ((unat x2 * M + unat x1) * M + unat x0) * (unat y1 * M + unat y0)"
    unfolding hi_def mult_split3 p_def [symmetric]
    by (rule school_mult_hi [OF u1 u2 u3]) (simp add: M_def)
  have "unat x2 * M + unat x1 = unat a" "unat y1 * M + unat y0 = unat b"
    by (simp_all add: x2_def x1_def y1_def y0_def unat_lo unat_hi M_def)
  with sm have eq: "(hi * M + unat r2 mod M) * (M * M) + (unat r1 mod M * M + p x0 y0 mod M) =
      (unat a * M + unat aLo) * unat b"
    by (simp add: x0)
  have "unat a < 2 ^ LENGTH(64)" "unat b < 2 ^ LENGTH(64)" by (rule unsigned_less)+
  then have ab: "unat a * M + unat aLo < 2 ^ 96" "unat b < 2 ^ 64"
    unfolding M_def using unat_u32_less [of aLo] by (simp_all del: unat_u32_less)
  have "unat r1 mod M * M + p x0 y0 mod M < M * M"
  proof -
    have "unat r1 mod M \<le> M - 1" "p x0 y0 mod M < M" by (simp_all add: M_def less_eq_Suc_le)
    then have "unat r1 mod M * M + p x0 y0 mod M < (M - 1) * M + M"
      by (intro add_le_less_mono mult_right_mono) simp_all
    then show ?thesis by (simp add: M_def)
  qed
  then have q: "hi * M + unat r2 mod M = (unat a * M + unat aLo) * unat b div (M * M)"
    unfolding eq [symmetric] by (subst div_mult_self3) (simp_all add: M_def)
  have "(unat a * M + unat aLo) * unat b < 2 ^ 96 * 2 ^ 64"
    using ab by (intro mult_strict_mono) simp_all
  then have "(unat a * M + unat aLo) * unat b div (M * M) < 2 ^ 96"
    by (simp add: M_def less_mult_imp_div_less)
  then have "hi < 2 ^ 64" unfolding q [symmetric] by (simp add: M_def)
  then have "unat (push_bit 32 (drop_bit 32 (x2 * y1)) + r3) = hi"
    unfolding hi_def using unat_add_small [of "push_bit 32 (drop_bit 32 (x2 * y1))" r3]
    by (simp add: unat_shift_hi um M_def)
  moreover have "unat (ucast (take_bit 32 r2) :: u32) = unat r2 mod M"
    by (simp add: M_def unsigned_ucast_eq unsigned_take_bit_eq take_bit_nat_def)
  ultimately show ?thesis
    using q unfolding M_def
    by (simp add: sqlite3Multiply160_def Let_def x0_def x1_def x2_def y0_def y1_def r1_def r2'_def r2_def r3_def)
qed

subsection \<open>Logarithmic estimates\<close>

text \<open>A \<^verbatim>\<open>LogEst\<close> is a 16-bit signed integer, here an \<open>int\<close>.\<close>

definition LogEstAdd_x :: "int list" where
  "LogEstAdd_x = [10, 10, 9, 9, 8, 8, 7, 7, 7, 6, 6, 6, 5, 5, 5, 4, 4, 4, 4, 3, 3, 3, 3, 3, 3,
     2, 2, 2, 2, 2, 2, 2]"

definition sqlite3LogEstAdd :: "int \<Rightarrow> int \<Rightarrow> int" where
  "sqlite3LogEstAdd a b =
     (if a \<ge> b then
        if a > b + 49 then a else if a > b + 31 then a + 1 else a + LogEstAdd_x ! nat (a - b)
      else
        if b > a + 49 then b else if b > a + 31 then b + 1 else b + LogEstAdd_x ! nat (b - a))"

definition LogEst_a :: "int list" where
  "LogEst_a = [0, 2, 3, 5, 6, 7, 8, 9]"

text \<open>The first loop is only reached for \<open>2 \<le> x\<close>; the guard \<open>0 < x\<close> makes it total.\<close>

function LogEst_up :: "nat \<Rightarrow> int \<Rightarrow> nat \<times> int" where
  "LogEst_up x y = (if x < 8 \<and> 0 < x then LogEst_up (2 * x) (y - 10) else (x, y))"
  by pat_completeness auto
termination by (relation "measure (\<lambda>(x, y). 8 - x)") auto

fun LogEst_down16 :: "nat \<Rightarrow> int \<Rightarrow> nat \<times> int" where
  "LogEst_down16 x y = (if x > 255 then LogEst_down16 (x div 16) (y + 40) else (x, y))"

fun LogEst_down2 :: "nat \<Rightarrow> int \<Rightarrow> nat \<times> int" where
  "LogEst_down2 x y = (if x > 15 then LogEst_down2 (x div 2) (y + 10) else (x, y))"

declare LogEst_up.simps [simp del] LogEst_down16.simps [simp del] LogEst_down2.simps [simp del]

definition sqlite3LogEst :: "nat \<Rightarrow> int" where
  "sqlite3LogEst x =
     (if x < 2 then 0
      else
        (case (if x < 8 then LogEst_up x 40
               else (case LogEst_down16 x 40 of (x, y) \<Rightarrow> LogEst_down2 x y)) of
           (x, y) \<Rightarrow> LogEst_a ! (x mod 8) + y - 10))"

text \<open>\<^verbatim>\<open>n\<close> is unsigned: a negative remainder wraps.\<close>

definition sqlite3LogEstToInt :: "int \<Rightarrow> nat" where
  "sqlite3LogEstToInt x =
     (let n = nat ((x smod 10) mod 2 ^ 64); x = x sdiv 10;
          n = (if n \<ge> 5 then n - 2 else if n \<ge> 1 then n - 1 else n)
      in if x > 60 then 2 ^ 63 - 1
         else if x \<ge> 3 then ((n + 8) mod 2 ^ 64 * 2 ^ nat (x - 3)) mod 2 ^ 64
         else (n + 8) mod 2 ^ 64 div 2 ^ nat (3 - x))"

text \<open>The two shift loops end at the leading four bits of the number.\<close>

lemma down2_exact: "8 * 2 ^ i \<le> x \<Longrightarrow> x < 16 * 2 ^ i \<Longrightarrow> LogEst_down2 x y = (x div 2 ^ i, y + 10 * int i)"
proof (induction i arbitrary: x y)
  case (Suc i)
  have "(1 :: nat) \<le> 2 ^ i" by simp
  then have "15 < x" using Suc.prems(1) unfolding power_Suc by linarith
  then have "LogEst_down2 x y = LogEst_down2 (x div 2) (y + 10)"
    by (subst LogEst_down2.simps) simp
  also have "\<dots> = (x div 2 div 2 ^ i, y + 10 + 10 * int i)"
    using Suc.prems by (intro Suc.IH) auto
  finally show ?case by (simp add: div_mult2_eq)
qed (simp add: LogEst_down2.simps)

lemma down16_exact:
  "8 * 2 ^ i \<le> x \<Longrightarrow> x < 16 * 2 ^ i \<Longrightarrow>
   (case LogEst_down16 x y of (x, y) \<Rightarrow> LogEst_down2 x y) = (x div 2 ^ i, y + 10 * int i)"
proof (induction i arbitrary: x y rule: less_induct)
  case (less i)
  show ?case
  proof (cases "x > 255")
    case False
    with less.prems show ?thesis by (simp add: LogEst_down16.simps down2_exact)
  next
    case True
    have i: "4 < i"
    proof (rule ccontr)
      assume "\<not> 4 < i"
      then have "(2 :: nat) ^ i \<le> 2 ^ 4" by (intro power_increasing) simp_all
      with less.prems True show False by simp
    qed
    then obtain j where j: "i = j + 4" by (metis add.commute less_imp_add_positive)
    have p: "(2 :: nat) ^ i = 16 * 2 ^ j" by (simp add: j power_add)
    have "(case LogEst_down16 (x div 16) (y + 40) of (x, y) \<Rightarrow> LogEst_down2 x y) =
        (x div 16 div 2 ^ j, y + 40 + 10 * int j)"
      using less.prems p j by (intro less.IH) auto
    moreover have "x div 2 ^ i = x div 16 div 2 ^ j" by (simp add: p div_mult2_eq)
    ultimately show ?thesis using True j by (simp add: LogEst_down16.simps [of x])
  qed
qed

text \<open>The estimate of a number with leading bits \<open>8 + k\<close> at exponent \<open>i\<close>.\<close>

lemma LogEst_value:
  assumes "8 * 2 ^ i \<le> x" and "x < 16 * 2 ^ i"
  shows "sqlite3LogEst x = LogEst_a ! (x div 2 ^ i - 8) + 30 + 10 * int i"
proof -
  have "8 \<le> x div 2 ^ i" "x div 2 ^ i < 16"
    using assms by (simp_all add: less_eq_div_iff_mult_less_eq div_less_iff_less_mult mult.commute)
  then have m: "x div 2 ^ i mod 8 = x div 2 ^ i - 8" by (simp add: mod_if)
  have "8 \<le> x" using assms(1) one_le_power [of "2 :: nat" i] by linarith
  then show ?thesis
    using down16_exact [OF assms, of 40] by (simp add: sqlite3LogEst_def m)
qed

lemma LogEst_a_mono: "j \<le> k \<Longrightarrow> k < 8 \<Longrightarrow> LogEst_a ! j \<le> LogEst_a ! k"
proof -
  have "sorted LogEst_a" by (simp add: LogEst_a_def)
  moreover assume "j \<le> k" "k < 8"
  ultimately show ?thesis by (intro sorted_nth_mono) (simp_all add: LogEst_a_def)
qed

lemma LogEst_a_range: "k < 8 \<Longrightarrow> 0 \<le> LogEst_a ! k \<and> LogEst_a ! k \<le> 9"
  using LogEst_a_mono [of 0 k] LogEst_a_mono [of k 7] by (simp add: LogEst_a_def)

lemma leading_bits: "8 \<le> (x :: nat) \<Longrightarrow> \<exists>i. 8 * 2 ^ i \<le> x \<and> x < 16 * 2 ^ i"
proof (induction x rule: less_induct)
  case (less x)
  show ?case
  proof (cases "x < 16")
    case True
    with less.prems show ?thesis by (intro exI [of _ 0]) simp
  next
    case False
    then have "8 \<le> x div 2" "x div 2 < x" by linarith+
    then obtain i where "8 * 2 ^ i \<le> x div 2" "x div 2 < 16 * 2 ^ i"
      using less.IH [of "x div 2"] by auto
    then show ?thesis by (intro exI [of _ "Suc i"]) auto
  qed
qed

lemma LogEst_mono_big:
  assumes "8 \<le> x" and "x \<le> y"
  shows "sqlite3LogEst x \<le> sqlite3LogEst y"
proof -
  from leading_bits [OF assms(1)] obtain i where i: "8 * 2 ^ i \<le> x" "x < 16 * 2 ^ i" by blast
  from leading_bits [of y] assms obtain j where j: "8 * 2 ^ j \<le> y" "y < 16 * 2 ^ j" by auto
  have d: "x div 2 ^ i - 8 < 8" "y div 2 ^ j - 8 < 8"
    using less_mult_imp_div_less [OF i(2)] less_mult_imp_div_less [OF j(2)] by linarith+
  have "i \<le> j"
  proof (rule ccontr)
    assume "\<not> i \<le> j"
    then have "(2 :: nat) ^ Suc j \<le> 2 ^ i" by (intro power_increasing) simp_all
    with i j assms(2) show False by simp
  qed
  then consider "i = j" | "Suc j \<le> i" | "Suc i \<le> j" by linarith
  then show ?thesis
  proof cases
    case 1
    then have "x div 2 ^ i - 8 \<le> y div 2 ^ j - 8" using assms(2) by (simp add: div_le_mono diff_le_mono)
    with LogEst_a_mono [OF this d(2)] 1 show ?thesis by (simp add: LogEst_value [OF i] LogEst_value [OF j])
  qed (use LogEst_a_range [OF d(1)] LogEst_a_range [OF d(2)] \<open>i \<le> j\<close> in
      \<open>simp_all add: LogEst_value [OF i] LogEst_value [OF j]\<close>)
qed

lemma LogEst_small:
  "map sqlite3LogEst [0, 1, 2, 3, 4, 5, 6, 7, 8] = [0, 0, 10, 16, 20, 23, 26, 28, 30]"
  by (simp add: sqlite3LogEst_def LogEst_up.simps LogEst_down16.simps LogEst_down2.simps LogEst_a_def)

lemma LogEst_mono:
  assumes "x \<le> y"
  shows "sqlite3LogEst x \<le> sqlite3LogEst y"
proof (cases "8 \<le> x")
  case True
  then show ?thesis using assms by (rule LogEst_mono_big)
next
  case False
  let ?L = "map sqlite3LogEst [0, 1, 2, 3, 4, 5, 6, 7, 8]"
  have L: "sqlite3LogEst k = ?L ! k" if "k \<le> 8" for k
    using that by (auto simp: numeral_eq_Suc le_Suc_eq)
  have "sorted ?L" unfolding LogEst_small by simp
  then have "?L ! x \<le> ?L ! min y 8" using assms False by (intro sorted_nth_mono) simp_all
  then have "sqlite3LogEst x \<le> sqlite3LogEst (min y 8)" using L [of x] L [of "min y 8"] False by simp
  also have "\<dots> \<le> sqlite3LogEst y" using LogEst_mono_big [of 8 y] by (cases "y \<le> 8") simp_all
  finally show ?thesis .
qed

subsection \<open>Properties\<close>

text \<open>
  C23: the checked 64-bit operations store the exact result and return 0 when it fits in a signed
  64-bit integer, and return 1 otherwise, in both branches of the conditional.  On overflow the
  portable code leaves the operand unchanged, as the comment of the source promises, while the
  builtins store the result wrapped to 64 bits.
\<close>

theorem Int64_checked_arithmetic:
  assumes "i64 a" and "i64 b"
  shows "sqlite3AddInt64 gcc a b = (if i64 (a + b) then (a + b, 0) else (if gcc then wrap64 (a + b) else a, 1)) \<and>
    sqlite3SubInt64 gcc a b = (if i64 (a - b) then (a - b, 0) else (if gcc then wrap64 (a - b) else a, 1)) \<and>
    sqlite3MulInt64 gcc a b = (if i64 (a * b) then (a * b, 0) else (if gcc then wrap64 (a * b) else a, 1))"
proof (cases gcc)
  case True
  then show ?thesis
    by (simp add: sqlite3AddInt64_def sqlite3SubInt64_def sqlite3MulInt64_def builtin_overflow_iff)
next
  case False
  then show ?thesis using assms by (simp add: AddInt64_correct SubInt64_correct MulInt64_correct)
qed

lemma Int64_checked_arithmetic_witness:
  "i64 (- (2 ^ 63)) \<and> i64 (- 1) \<and> sqlite3MulInt64 False (- (2 ^ 63)) (- 1) = (- (2 ^ 63), 1) \<and>
   sqlite3AddInt64 False (- (2 ^ 63)) (- 1) = (- (2 ^ 63), 1) \<and> sqlite3AddInt64 True (- (2 ^ 63)) (- 1) = (2 ^ 63 - 1, 1) \<and>
   sqlite3SubInt64 True (- (2 ^ 63)) (- 1) = (- (2 ^ 63) + 1, 0)"
  using Int64_checked_arithmetic [of "- (2 ^ 63)" "- 1" False] Int64_checked_arithmetic [of "- (2 ^ 63)" "- 1" True]
  by (simp add: i64_iff wrap64_def)

text \<open>
  The portable wide multiplications are exact: the 128-bit product is split over the two
  result words, and the 160-bit product of a 96-bit and a 64-bit number loses only its low 64
  bits.
\<close>

theorem Multiply_wide_exact:
  "unat (fst (sqlite3Multiply128 a b)) * 2 ^ 64 + unat (snd (sqlite3Multiply128 a b)) = unat a * unat b \<and>
   unat (fst (sqlite3Multiply160 a aLo b)) * 2 ^ 32 + unat (snd (sqlite3Multiply160 a aLo b)) =
     (unat a * 2 ^ 32 + unat aLo) * unat b div 2 ^ 64"
  using Multiply128_exact [of a b] Multiply160_exact [of a aLo b] by blast

end
