(* ===== verification/Int_Text.thy ===== *)
theory Int_Text
  imports Int_Arith Text_Util
begin

text \<open>
  Integers and their decimal and hexadecimal text, from util.c.  Text is a byte list; the
  routines that take a length get the list of exactly those bytes, the others stop at the
  terminator, which is the end of the list.  Where the source accumulates in 64-bit or 32-bit
  unsigned integers the model does too; results are mathematical integers.  The theory shows
  that printing and parsing are inverse, and what each parser returns on every numeric text,
  out-of-range ones included.
\<close>

subsection \<open>The value of a digit string\<close>

definition digit :: "u8 \<Rightarrow> nat" where "digit c = unat c - 48"

definition dval :: "cstring \<Rightarrow> nat" where
  "dval ds = foldl (\<lambda>v c. v * 10 + digit c) 0 ds"

abbreviation digits :: "cstring \<Rightarrow> bool" where
  "digits ds \<equiv> list_all sqlite3Isdigit ds"

subsection \<open>Printing\<close>

definition sqlite3DigitPairs :: "u8 list" where
  "sqlite3DigitPairs =
   [48, 48, 48, 49, 48, 50, 48, 51, 48, 52, 48, 53, 48, 54, 48, 55, 48, 56, 48, 57,
    49, 48, 49, 49, 49, 50, 49, 51, 49, 52, 49, 53, 49, 54, 49, 55, 49, 56, 49, 57,
    50, 48, 50, 49, 50, 50, 50, 51, 50, 52, 50, 53, 50, 54, 50, 55, 50, 56, 50, 57,
    51, 48, 51, 49, 51, 50, 51, 51, 51, 52, 51, 53, 51, 54, 51, 55, 51, 56, 51, 57,
    52, 48, 52, 49, 52, 50, 52, 51, 52, 52, 52, 53, 52, 54, 52, 55, 52, 56, 52, 57,
    53, 48, 53, 49, 53, 50, 53, 51, 53, 52, 53, 53, 53, 54, 53, 55, 53, 56, 53, 57,
    54, 48, 54, 49, 54, 50, 54, 51, 54, 52, 54, 53, 54, 54, 54, 55, 54, 56, 54, 57,
    55, 48, 55, 49, 55, 50, 55, 51, 55, 52, 55, 53, 55, 54, 55, 55, 55, 56, 55, 57,
    56, 48, 56, 49, 56, 50, 56, 51, 56, 52, 56, 53, 56, 54, 56, 55, 56, 56, 56, 57,
    57, 48, 57, 49, 57, 50, 57, 51, 57, 52, 57, 53, 57, 54, 57, 55, 57, 56, 57, 57]"

text \<open>
  The digits are produced from the right into \<^verbatim>\<open>u.a\<close>; the second argument is what that buffer
  holds from \<^verbatim>\<open>u.a[i]\<close> on.
\<close>

fun int64TextLoop :: "nat \<Rightarrow> cstring \<Rightarrow> cstring" where
  "int64TextLoop x a =
     (if x \<ge> 10 then
        let kk = (x mod 100) * 2
        in int64TextLoop (x div 100) (sqlite3DigitPairs ! kk # sqlite3DigitPairs ! (kk + 1) # a)
      else if x \<noteq> 0 then (word_of_nat x + 48) # a
      else a)"

declare int64TextLoop.simps [simp del]

definition sqlite3Int64ToText :: "int \<Rightarrow> cstring" where
  "sqlite3Int64ToText v =
     (if v = 0 then [48]
      else
        let x = (if v > 0 then nat v else if v = SMALLEST_INT64 then 2 ^ 63 else nat (- v));
            a = int64TextLoop x []
        in if v < 0 then 45 # a else a)"

subsection \<open>Parsing\<close>

fun compare2pow63Loop :: "cstring \<Rightarrow> cstring \<Rightarrow> int" where
  "compare2pow63Loop (z # zs) (p # ps) =
     (let c = (uint z - uint p) * 10 in if c \<noteq> 0 then c else compare2pow63Loop zs ps)"
| "compare2pow63Loop zs ps = 0"

definition pow63 :: cstring where
  "pow63 = [57, 50, 50, 51, 51, 55, 50, 48, 51, 54, 56, 53, 52, 55, 55, 53, 56, 48]"

definition compare2pow63 :: "cstring \<Rightarrow> int" where
  "compare2pow63 zNum =
     (let c = compare2pow63Loop zNum pow63 in if c = 0 then uint (zNum ! 18) - 56 else c)"

text \<open>
  The bytes the number is read from.  For UTF-16 these are the low bytes of the code units up
  to the first one whose high byte is not zero; the flag says that there is such a unit.
\<close>

datatype text_enc = SQLITE_UTF8 | SQLITE_UTF16LE | SQLITE_UTF16BE

fun utf16_units :: "u8 list \<Rightarrow> (u8 \<times> u8) list" where
  "utf16_units (a # b # z) = (a, b) # utf16_units z"
| "utf16_units z = []"

definition atoi64Bytes :: "cstring \<Rightarrow> text_enc \<Rightarrow> cstring \<times> bool" where
  "atoi64Bytes z enc =
     (if enc = SQLITE_UTF8 then (z, False)
      else
        let lohi = map (\<lambda>(a, b). if enc = SQLITE_UTF16LE then (a, b) else (b, a)) (utf16_units z);
            low = takeWhile (\<lambda>(lo, hi). hi = 0) lohi
        in (map fst low, length low < length lohi))"

text \<open>From the label \<open>zStart\<close> on: leading zeros, digits, the range checks and the result code.\<close>

definition atoi64Digits :: "bool \<Rightarrow> cstring \<Rightarrow> bool \<Rightarrow> int \<times> int" where
  "atoi64Digits neg zStart nonNum =
     (let zNum = dropWhile (\<lambda>c. c = 48) zStart;
          ds = takeWhile sqlite3Isdigit zNum; rest = dropWhile sqlite3Isdigit zNum;
          u = unat (foldl (\<lambda>u c. u * 10 + word_of_nat (digit c)) (0 :: u64) ds);
          lim = (if neg then SMALLEST_INT64 else LARGEST_INT64);
          num = (if int u > LARGEST_INT64 then lim else if neg then - int u else int u);
          rc = (if ds = [] \<and> zStart = zNum then - 1
                else if nonNum then 1
                else if rest \<noteq> [] \<and> \<not> list_all sqlite3Isspace rest then 1
                else 0)
      in if length ds < 19 then (rc, num)
         else
           let j = (if length ds > 19 then 1 else compare2pow63 zNum)
           in if j < 0 then (rc, num)
              else if j > 0 then (2, lim)
              else (if neg then rc else 3, lim))"

definition sqlite3Atoi64 :: "cstring \<Rightarrow> text_enc \<Rightarrow> int \<times> int" where
  "sqlite3Atoi64 z enc =
     (case atoi64Bytes z enc of (cs, nonNum) \<Rightarrow>
        let cs = dropWhile sqlite3Isspace cs;
            neg = (cs \<noteq> [] \<and> hd cs = 45);
            zStart = (if cs \<noteq> [] \<and> (hd cs = 45 \<or> hd cs = 43) then tl cs else cs)
        in atoi64Digits neg zStart nonNum)"

definition hexval64 :: "u64 \<Rightarrow> cstring \<Rightarrow> u64" where
  "hexval64 u z = foldl (\<lambda>u c. u * 16 + ucast (sqlite3HexToInt c)) u z"

definition sqlite3DecOrHexToI64 :: "cstring \<Rightarrow> int \<times> int" where
  "sqlite3DecOrHexToI64 z =
     (if chr z = 48 \<and> (chr (tl z) = 120 \<or> chr (tl z) = 88) then
        let zi = dropWhile (\<lambda>c. c = 48) (drop 2 z);
            ds = takeWhile sqlite3Isxdigit zi; u = hexval64 0 ds
        in (if length ds > 16 then 2 else if dropWhile sqlite3Isxdigit zi \<noteq> [] then 1 else 0, sint u)
      else
        let n = length (takeWhile (\<lambda>c. c \<in> {43, 45, 32, 10, 9} \<or> 48 \<le> unat c \<and> unat c \<le> 57) z) mod 2 ^ 30;
            n = (if n < length z then n + 1 else n)
        in sqlite3Atoi64 (take n z) SQLITE_UTF8)"

definition getInt32Hex :: "cstring \<Rightarrow> int option" where
  "getInt32Hex z =
     (let z = dropWhile (\<lambda>c. c = 48) z;
          ds = takeWhile sqlite3Isxdigit (take 8 z);
          u = foldl (\<lambda>u c. u * 16 + ucast (sqlite3HexToInt c)) (0 :: u32) ds
      in if u AND 0x80000000 = 0 \<and> \<not> sqlite3Isxdigit (chr (drop (length ds) z))
         then Some (int (unat u)) else None)"

definition getInt32Dec :: "bool \<Rightarrow> cstring \<Rightarrow> int option" where
  "getInt32Dec neg z =
     (if \<not> sqlite3Isdigit (chr z) then None
      else
        let z = dropWhile (\<lambda>c. c = 48) z;
            ds = takeWhile sqlite3Isdigit (take 11 z);
            v = int (dval ds)
        in if length ds > 10 then None
           else if v - (if neg then 1 else 0) > 2147483647 then None
           else Some (if neg then - v else v))"

definition sqlite3GetInt32 :: "cstring \<Rightarrow> int option" where
  "sqlite3GetInt32 z =
     (if chr z = 45 then getInt32Dec True (tl z)
      else if chr z = 43 then getInt32Dec False (tl z)
      else if chr z = 48 \<and> (chr (tl z) = 120 \<or> chr (tl z) = 88) \<and> sqlite3Isxdigit (chr (drop 2 z))
      then getInt32Hex (drop 2 z)
      else getInt32Dec False z)"

definition sqlite3Atoi :: "cstring \<Rightarrow> int" where
  "sqlite3Atoi z = (case sqlite3GetInt32 z of None \<Rightarrow> 0 | Some v \<Rightarrow> v)"

text \<open>The digit loop of \<open>sqlite3GetUInt32\<close> with its early exit; the rest of the text comes back.\<close>

fun getUInt32Loop :: "nat \<Rightarrow> cstring \<Rightarrow> (nat \<times> cstring) option" where
  "getUInt32Loop v [] = Some (v, [])"
| "getUInt32Loop v (c # z) =
     (if sqlite3Isdigit c then
        let v = v * 10 + digit c in if v > 4294967296 then None else getUInt32Loop v z
      else Some (v, c # z))"

definition sqlite3GetUInt32 :: "cstring \<Rightarrow> nat option" where
  "sqlite3GetUInt32 z =
     (case getUInt32Loop 0 z of None \<Rightarrow> None
      | Some (v, rest) \<Rightarrow> if rest = z \<or> rest \<noteq> [] then None else Some (v mod 2 ^ 32))"

subsection \<open>Digit strings\<close>

lemma dval_foldl: "foldl (\<lambda>v c. v * 10 + digit c) a ds = a * 10 ^ length ds + dval ds"
proof (induction ds rule: rev_induct)
  case (snoc c ds)
  then show ?case by (simp add: dval_def algebra_simps)
qed (simp add: dval_def)

lemma dval_Nil [simp]: "dval [] = 0"
  by (simp add: dval_def)

lemma dval_Cons: "dval (c # ds) = digit c * 10 ^ length ds + dval ds"
  using dval_foldl [of "digit c" ds] by (simp add: dval_def)

lemma dval_snoc: "dval (ds @ [c]) = dval ds * 10 + digit c"
  by (simp add: dval_def)

lemma dval_append: "dval (xs @ ys) = dval xs * 10 ^ length ys + dval ys"
  using dval_foldl [of "dval xs" ys] by (simp add: dval_def)

lemma digit_le: "sqlite3Isdigit c \<Longrightarrow> digit c \<le> 9"
  by (auto simp: Isdigit_iff digit_def)

lemma dval_less: "digits ds \<Longrightarrow> dval ds < 10 ^ length ds"
proof (induction ds)
  case (Cons c ds)
  then have "digit c * 10 ^ length ds \<le> 9 * 10 ^ length ds"
    using digit_le by (intro mult_right_mono) simp_all
  moreover have "dval ds < 10 ^ length ds" using Cons by simp
  ultimately show ?case unfolding dval_Cons length_Cons power_Suc by linarith
qed simp

lemma dval_ge:
  assumes "digits (c # ds)" and "c \<noteq> 48"
  shows "10 ^ length ds \<le> dval (c # ds)"
proof -
  have "1 \<le> digit c" using assms by (auto simp: Isdigit_iff digit_def word_unat_eq_iff)
  then show ?thesis by (simp add: dval_Cons trans_le_add1)
qed

lemma digits_append: "digits (xs @ ys) \<longleftrightarrow> digits xs \<and> digits ys"
  by simp

lemma dval_skip_zeros: "dval (dropWhile (\<lambda>c. c = 48) ds) = dval ds"
  by (induction ds) (simp_all add: dval_Cons digit_def)

lemma digits_dropWhile: "digits ds \<Longrightarrow> digits (dropWhile P ds)"
  by (auto simp: list_all_iff dest: set_dropWhileD)

subsection \<open>Printing gives the decimal digits\<close>

lemma length_concat_pairs: "length (concat (map (\<lambda>k. [f k, g k]) [0..<n])) = n * 2"
  by (induction n) simp_all

lemma nth_concat_pairs:
  "k < n \<Longrightarrow> concat (map (\<lambda>k. [f k, g k]) [0..<n]) ! (k * 2) = f k \<and>
   concat (map (\<lambda>k. [f k, g k]) [0..<n]) ! (k * 2 + 1) = g k"
proof (induction n)
  case (Suc n)
  let ?c = "concat (map (\<lambda>k. [f k, g k]) [0..<n])"
  have "length ?c = n * 2" by (rule length_concat_pairs)
  with Suc show ?case by (cases "k = n") (simp_all add: nth_append)
qed simp

lemma DigitPairs_table:
  "map unat sqlite3DigitPairs = concat (map (\<lambda>k. [48 + k div 10, 48 + k mod 10]) [0..<100])"
  by (simp add: sqlite3DigitPairs_def upt_rec)

lemma digit_pairs:
  assumes "k < 100"
  shows "digit (sqlite3DigitPairs ! (k * 2)) = k div 10" "digit (sqlite3DigitPairs ! (k * 2 + 1)) = k mod 10"
    "sqlite3Isdigit (sqlite3DigitPairs ! (k * 2))" "sqlite3Isdigit (sqlite3DigitPairs ! (k * 2 + 1))"
proof -
  have len: "length sqlite3DigitPairs = 200" by (simp add: sqlite3DigitPairs_def)
  have nth: "unat (sqlite3DigitPairs ! i) = map unat sqlite3DigitPairs ! i" if "i < 200" for i
    using that len by (simp only: nth_map)
  have i: "k * 2 < 200" "k * 2 + 1 < 200" using assms by linarith+
  have "unat (sqlite3DigitPairs ! (k * 2)) = 48 + k div 10" "unat (sqlite3DigitPairs ! (k * 2 + 1)) = 48 + k mod 10"
    unfolding nth [OF i(1)] nth [OF i(2)] DigitPairs_table
    using nth_concat_pairs [OF assms, of "\<lambda>k. 48 + k div 10" "\<lambda>k. 48 + k mod 10"] by blast+
  moreover have "k div 10 \<le> 9" using assms by simp
  ultimately show "digit (sqlite3DigitPairs ! (k * 2)) = k div 10" "digit (sqlite3DigitPairs ! (k * 2 + 1)) = k mod 10"
    "sqlite3Isdigit (sqlite3DigitPairs ! (k * 2))" "sqlite3Isdigit (sqlite3DigitPairs ! (k * 2 + 1))"
    by (simp_all add: digit_def Isdigit_iff)
qed

lemma loop_append: "int64TextLoop x a = int64TextLoop x [] @ a"
proof (induction x arbitrary: a rule: less_induct)
  case (less x)
  show ?case
  proof (cases "x \<ge> 10")
    case True
    then have "int64TextLoop (x div 100) (p # b) = int64TextLoop (x div 100) [] @ p # b" for p b
      by (intro less.IH) simp
    with True show ?thesis by (simp add: int64TextLoop.simps [of x] Let_def)
  qed (simp add: int64TextLoop.simps)
qed

lemma loop_step:
  assumes "x \<ge> 10"
  shows "int64TextLoop x [] = int64TextLoop (x div 100) [] @
    [sqlite3DigitPairs ! (x mod 100 * 2), sqlite3DigitPairs ! (x mod 100 * 2 + 1)]"
  using assms by (simp add: int64TextLoop.simps [of x] Let_def
      loop_append [of "x div 100" "[sqlite3DigitPairs ! (x mod 100 * 2), sqlite3DigitPairs ! Suc (x mod 100 * 2)]"])

lemma loop_digits: "digits (int64TextLoop x []) \<and> dval (int64TextLoop x []) = x"
proof (induction x rule: less_induct)
  case (less x)
  show ?case
  proof (cases "x \<ge> 10")
    case True
    have "x div 100 < x" using True by simp
    moreover have "x = x div 100 * 100 + (x mod 100 div 10) * 10 + x mod 100 mod 10" by simp
    ultimately show ?thesis
      using less digit_pairs [of "x mod 100"] by (simp add: loop_step [OF True] dval_append dval_Cons)
  next
    case False
    have "unat (word_of_nat x + 48 :: u8) = x + 48"
      using False by (simp add: unat_word_ariths unat_of_nat)
    with False show ?thesis
      by (auto simp: int64TextLoop.simps [of x] dval_Cons digit_def Isdigit_iff)
  qed
qed

lemma loop_no_zero: "0 < x \<Longrightarrow> \<exists>c ds. int64TextLoop x [] = c # ds \<and> c \<noteq> 48"
proof (induction x rule: less_induct)
  case (less x)
  show ?case
  proof (cases "x \<ge> 100")
    case True
    then have "x div 100 < x" "0 < x div 100" by simp_all
    with less.IH [of "x div 100"] True show ?thesis by (auto simp: loop_step)
  next
    case small: False
    show ?thesis
    proof (cases "x \<ge> 10")
      case True
      with small digit_pairs [of x] show ?thesis
        by (auto simp: loop_step int64TextLoop.simps [of 0] digit_def)
    next
      case False
      then have "unat (word_of_nat x + 48 :: u8) \<noteq> unat (48 :: u8)"
        using less.prems by (simp add: unat_word_ariths unat_of_nat)
      with False less.prems show ?thesis by (auto simp: int64TextLoop.simps [of x])
    qed
  qed
qed

lemma loop_length: "x < 10 ^ n \<Longrightarrow> length (int64TextLoop x []) \<le> n"
proof (cases "x = 0")
  case False
  assume "x < 10 ^ n"
  obtain c ds where c: "int64TextLoop x [] = c # ds" "c \<noteq> 48" using loop_no_zero False by blast
  then have "10 ^ length ds \<le> x" using dval_ge [of c ds] loop_digits [of x] by simp
  with \<open>x < 10 ^ n\<close> have "(10 :: nat) ^ length ds < 10 ^ n" by linarith
  then have "length ds < n" by simp
  with c show ?thesis by simp
qed (simp add: int64TextLoop.simps)

subsection \<open>Comparing with \<^verbatim>\<open>2^63\<close>\<close>

lemma uint_digit: "sqlite3Isdigit c \<Longrightarrow> uint c = 48 + int (digit c)"
  unfolding uint_nat by (auto simp: Isdigit_iff digit_def)

lemma compareLoop_sign:
  "length a = length p \<Longrightarrow> digits a \<Longrightarrow> digits p \<Longrightarrow>
   sgn (compare2pow63Loop a p) = sgn (int (dval a) - int (dval p)) \<and> (compare2pow63Loop a p = 0 \<longleftrightarrow> a = p)"
proof (induction a p rule: compare2pow63Loop.induct)
  case (1 z zs p ps)
  have l: "dval zs < 10 ^ length ps" "dval ps < 10 ^ length ps"
    using 1 dval_less [of zs] dval_less [of ps] by simp_all
  have m: "digit x * 10 ^ n + 10 ^ n \<le> digit y * 10 ^ n" if "digit x < digit y" for x y n
  proof -
    have "(digit x + 1) * 10 ^ n \<le> digit y * 10 ^ n"
      using that by (intro mult_right_mono) simp_all
    then show ?thesis by (simp add: distrib_right)
  qed
  have d: "uint z = 48 + int (digit z)" "uint p = 48 + int (digit p)" using 1 by (simp_all add: uint_digit)
  consider "z = p" | "digit z < digit p" | "digit p < digit z"
    using d by (metis linorder_neqE_nat word_uint_eq_iff)
  then show ?case
  proof cases
    case 1
    with "1.IH" [OF refl] "1.prems" show ?thesis by (simp add: dval_Cons)
  next
    case 2
    then have "dval (z # zs) < dval (p # ps)"
      using m [of z p "length ps"] l "1.prems"(1) by (simp add: dval_Cons)
    then show ?thesis using 2 d by (auto simp: Let_def sgn_if)
  next
    case 3
    then have "dval (p # ps) < dval (z # zs)"
      using m [of p z "length ps"] l "1.prems"(1) by (simp add: dval_Cons)
    then show ?thesis using 3 d by (auto simp: Let_def sgn_if)
  qed
qed auto

lemma compareLoop_prefix:
  "length a = length p \<Longrightarrow> compare2pow63Loop (a @ xs) p = compare2pow63Loop a p"
  by (induction a p rule: list_induct2) (cases xs, simp_all add: Let_def)

lemma pow63_facts: "length pow63 = 18" "digits pow63" "dval pow63 = 922337203685477580"
  by (simp_all add: pow63_def dval_Cons digit_def Isdigit_iff)

lemma compare_sign:
  assumes "digits ds" and "length ds = 19"
  shows "sgn (compare2pow63 (ds @ rest)) = sgn (int (dval ds) - 2 ^ 63)"
proof -
  define a l where "a = take 18 ds" and "l = ds ! 18"
  have ds: "ds = a @ [l]" "length a = 18" "digits a" "sqlite3Isdigit l"
    using assms by (auto simp: a_def l_def take_Suc_conv_app_nth [symmetric] list_all_length
        simp flip: take_Suc_conv_app_nth)
  have loop: "compare2pow63Loop (ds @ rest) pow63 = compare2pow63Loop a pow63"
    using compareLoop_prefix [of a pow63] ds pow63_facts by simp
  have last: "(ds @ rest) ! 18 = l" using ds by (simp add: nth_append)
  have v: "dval ds = dval a * 10 + digit l" unfolding ds(1) by (rule dval_snoc)
  note s = compareLoop_sign [of a pow63]
  show ?thesis
  proof (cases "a = pow63")
    case True
    then have "compare2pow63Loop a pow63 = 0" using s ds pow63_facts by simp
    then have "compare2pow63 (ds @ rest) = int (digit l) - 8"
      using uint_digit [OF ds(4)] by (simp add: compare2pow63_def loop last)
    then show ?thesis using v True pow63_facts by simp
  next
    case False
    then have "compare2pow63Loop a pow63 \<noteq> 0" using s ds pow63_facts by simp
    then have c: "compare2pow63 (ds @ rest) = compare2pow63Loop a pow63" by (simp add: compare2pow63_def loop)
    have "dval a \<noteq> dval pow63"
    proof
      assume "dval a = dval pow63"
      with s ds pow63_facts have "sgn (compare2pow63Loop a pow63) = 0" by simp
      with \<open>compare2pow63Loop a pow63 \<noteq> 0\<close> show False by (simp add: sgn_0_0)
    qed
    moreover have "sgn (compare2pow63Loop a pow63) = sgn (int (dval a) - int (dval pow63))"
      using s ds pow63_facts by simp
    ultimately show ?thesis
      unfolding c v pow63_facts(3) using digit_le [OF ds(4)] by (auto simp: sgn_if split: if_splits)
  qed
qed

subsection \<open>Parsing 64-bit integers\<close>

lemma u64_digits: "foldl (\<lambda>u c. u * 10 + word_of_nat (digit c)) (0 :: u64) ds = word_of_nat (dval ds)"
  by (induction ds rule: rev_induct) (simp_all add: dval_snoc mult.commute)

lemma unat_of_nat_u64: "unat (word_of_nat n :: u64) = n mod 2 ^ 64"
  by (simp add: unat_of_nat)

definition sign_text :: "cstring \<Rightarrow> bool" where
  "sign_text s \<longleftrightarrow> s = [] \<or> s = [45] \<or> s = [43]"

definition signed :: "cstring \<Rightarrow> cstring \<Rightarrow> int" where
  "signed s ds = (if s = [45] then - int (dval ds) else int (dval ds))"

text \<open>How the routine splits a text made of spaces, a sign, digits and a tail.\<close>

lemma takeWhile_digits:
  "digits ds \<Longrightarrow> tail = [] \<or> \<not> sqlite3Isdigit (hd tail) \<Longrightarrow>
   takeWhile sqlite3Isdigit (ds @ tail) = ds \<and> dropWhile sqlite3Isdigit (ds @ tail) = tail"
  by (induction ds) (auto simp: takeWhile_eq_Nil_iff dropWhile_eq_self_iff)

lemma dropWhile_spaces:
  "list_all sqlite3Isspace sp \<Longrightarrow> zs = [] \<or> \<not> sqlite3Isspace (hd zs) \<Longrightarrow> dropWhile sqlite3Isspace (sp @ zs) = zs"
  by (induction sp) (auto simp: dropWhile_eq_self_iff)

lemma skip_zeros:
  assumes "tail = [] \<or> \<not> sqlite3Isdigit (hd tail)"
  shows "dropWhile (\<lambda>c. c = 48) (ds @ tail) = dropWhile (\<lambda>c. c = 48) ds @ tail"
proof -
  have "dropWhile (\<lambda>c. c = 48) tail = tail"
    using assms by (cases tail) (auto simp: Isdigit_iff)
  then show ?thesis by (induction ds) simp_all
qed

lemma digit_not_space: "sqlite3Isdigit c \<Longrightarrow> \<not> sqlite3Isspace c \<and> c \<noteq> 45 \<and> c \<noteq> 43"
  by (auto simp: Isdigit_iff Isspace_iff)

lemma Atoi64_split:
  assumes "list_all sqlite3Isspace sp" and "sign_text s" and "digits ds" and "ds \<noteq> []"
  shows "sqlite3Atoi64 (sp @ s @ ds @ tail) SQLITE_UTF8 = atoi64Digits (s = [45]) (ds @ tail) False"
proof -
  obtain d ds' where d: "ds = d # ds'" using assms(4) by (cases ds) auto
  have nd: "\<not> sqlite3Isspace d" "d \<noteq> 45" "d \<noteq> 43" using assms(3) d digit_not_space by auto
  have "\<not> sqlite3Isspace 45" "\<not> sqlite3Isspace 43" by (simp_all add: Isspace_iff)
  then have "dropWhile sqlite3Isspace (sp @ s @ ds @ tail) = s @ ds @ tail"
    using assms(1,2) nd d by (intro dropWhile_spaces) (auto simp: sign_text_def)
  then show ?thesis
    using assms(2) nd d by (auto simp: sqlite3Atoi64_def atoi64Bytes_def sign_text_def Let_def)
qed

definition atoi64_spec :: "bool \<Rightarrow> int \<Rightarrow> int \<times> int" where
  "atoi64_spec clean v =
     (if i64 v then (if clean then 0 else 1, v)
      else if v = 2 ^ 63 then (3, LARGEST_INT64)
      else (2, if v < 0 then SMALLEST_INT64 else LARGEST_INT64))"

lemma Atoi64_decimal:
  assumes "list_all sqlite3Isspace sp" and "sign_text s" and "digits ds" and "ds \<noteq> []"
    and "tail = [] \<or> \<not> sqlite3Isdigit (hd tail)"
  shows "sqlite3Atoi64 (sp @ s @ ds @ tail) SQLITE_UTF8 =
    atoi64_spec (list_all sqlite3Isspace tail) (signed s ds)"
proof -
  define es where "es = dropWhile (\<lambda>c. c = 48) ds"
  have es: "digits es" "dval es = dval ds"
    using assms(3) by (simp_all add: es_def digits_dropWhile dval_skip_zeros)
  have sz: "dropWhile (\<lambda>c. c = 48) (ds @ tail) = es @ tail"
    unfolding es_def using assms(5) by (rule skip_zeros)
  have none: "\<not> (es = [] \<and> ds @ tail = es @ tail)" using assms(4) by simp
  note tw = takeWhile_digits [OF es(1) assms(5), THEN conjunct1] takeWhile_digits [OF es(1) assms(5), THEN conjunct2]
  define u where "u = unat (foldl (\<lambda>u c. u * 10 + word_of_nat (digit c)) (0 :: u64) es)"
  have u: "u = dval ds mod 2 ^ 64" by (simp add: u_def u64_digits unat_of_nat_u64 es(2))
  define lim where "lim = (if s = [45] then SMALLEST_INT64 else LARGEST_INT64)"
  define num where "num = (if int u > LARGEST_INT64 then lim else if s = [45] then - int u else int u)"
  define rc where "rc = (if list_all sqlite3Isspace tail then 0 else 1 :: int)"
  have "(if es = [] \<and> ds @ tail = es @ tail then - 1
      else if False then 1 else if tail \<noteq> [] \<and> \<not> list_all sqlite3Isspace tail then 1 else 0) = rc"
    using none by (auto simp: rc_def)
  note rc = this
  have A: "sqlite3Atoi64 (sp @ s @ ds @ tail) SQLITE_UTF8 =
    (if length es < 19 then (rc, num)
     else let j = (if length es > 19 then 1 else compare2pow63 (es @ tail)) in
       if j < 0 then (rc, num) else if j > 0 then (2, lim) else (if s = [45] then rc else 3, lim))"
    unfolding Atoi64_split [OF assms(1-4)] atoi64Digits_def Let_def sz tw rc
    by (simp only: u_def [symmetric] lim_def [symmetric] num_def [symmetric])
  have small: "sqlite3Atoi64 (sp @ s @ ds @ tail) SQLITE_UTF8 = (rc, num) \<Longrightarrow> dval ds < 2 ^ 63 \<Longrightarrow> ?thesis"
    by (auto simp: rc_def num_def u signed_def atoi64_spec_def i64_iff LARGEST_INT64_def)
  have big: "sqlite3Atoi64 (sp @ s @ ds @ tail) SQLITE_UTF8 = (2, lim) \<Longrightarrow> 2 ^ 63 < dval ds \<Longrightarrow> ?thesis"
    by (auto simp: lim_def signed_def atoi64_spec_def i64_iff)
  consider "length es < 19" | "length es = 19" | "19 < length es" by linarith
  then show ?thesis
  proof cases
    case 1
    have "dval ds < 10 ^ length es" using dval_less [OF es(1)] es(2) by simp
    also have "\<dots> \<le> 10 ^ 18" using 1 by (intro power_increasing) simp_all
    finally show ?thesis using A 1 by (intro small) simp_all
  next
    case 2
    note c = compare_sign [OF es(1) 2, of tail, unfolded es(2)]
    consider "dval ds < 2 ^ 63" | "dval ds = 2 ^ 63" | "2 ^ 63 < dval ds" by linarith
    then show ?thesis
    proof cases
      case 1
      then have "compare2pow63 (es @ tail) < 0" using c by (simp add: sgn_if split: if_splits)
      then show ?thesis using A 2 1 by (intro small) simp_all
    next
      case 2
      then have "compare2pow63 (es @ tail) = 0" using c by (simp add: sgn_0_0)
      with A 2 \<open>length es = 19\<close> show ?thesis
        by (auto simp: lim_def rc_def signed_def atoi64_spec_def i64_iff SMALLEST_INT64_def LARGEST_INT64_def)
    next
      case 3
      then have "0 < compare2pow63 (es @ tail)" using c by (simp add: sgn_if split: if_splits)
      then show ?thesis using A 2 3 by (intro big) simp_all
    qed
  next
    case 3
    then obtain c es' where e: "es = c # es'" by (cases es) auto
    then have "c \<noteq> 48" using hd_dropWhile [of "\<lambda>c. c = 48" ds] by (auto simp: es_def)
    then have "10 ^ length es' \<le> dval ds" using dval_ge [of c es'] es e by simp
    moreover have "(10 :: nat) ^ 19 \<le> 10 ^ length es'" using 3 e by (intro power_increasing) simp_all
    ultimately show ?thesis using A 3 by (intro big) simp_all
  qed
qed

lemma Int64ToText_shape:
  assumes "i64 v"
  shows "\<exists>s ds. sqlite3Int64ToText v = s @ ds \<and> sign_text s \<and> digits ds \<and> ds \<noteq> [] \<and> signed s ds = v \<and>
    length (s @ ds) \<le> 20"
proof (cases "v = 0")
  case True
  then show ?thesis
    by (intro exI [of _ "[]"] exI [of _ "[48]"])
      (simp add: sqlite3Int64ToText_def sign_text_def signed_def dval_Cons digit_def Isdigit_iff)
next
  case False
  define x where "x = nat \<bar>v\<bar>"
  have x: "0 < x" "x \<le> 2 ^ 63" using False assms by (auto simp: x_def i64_iff)
  have t: "sqlite3Int64ToText v = (if v < 0 then [45] else []) @ int64TextLoop x []"
    using False assms by (auto simp: sqlite3Int64ToText_def Let_def x_def SMALLEST_INT64_def LARGEST_INT64_def)
  have "length (int64TextLoop x []) \<le> 19" using x by (intro loop_length) simp
  moreover have "int64TextLoop x [] \<noteq> []" using loop_no_zero [OF x(1)] by auto
  ultimately show ?thesis
    using loop_digits [of x] False
    by (intro exI [of _ "if v < 0 then [45] else []"] exI [of _ "int64TextLoop x []"])
      (auto simp: t sign_text_def signed_def x_def)
qed

subsection \<open>Parsing 32-bit integers\<close>

lemma GetInt32_decimal:
  assumes "sign_text s" and "digits ds" and "ds \<noteq> []" and "tail = [] \<or> \<not> sqlite3Isdigit (hd tail)"
    and "chr tail \<noteq> 120" and "chr tail \<noteq> 88"
  shows "sqlite3GetInt32 (s @ ds @ tail) =
    (if - (2 ^ 31) \<le> signed s ds \<and> signed s ds < 2 ^ 31 then Some (signed s ds) else None)"
proof -
  obtain d ds' where d: "ds = d # ds'" using assms(3) by (cases ds) auto
  have dd: "sqlite3Isdigit d" "d \<noteq> 45" "d \<noteq> 43" using assms(2) d digit_not_space by auto
  have nx: "chr (ds' @ tail) \<noteq> 120 \<and> chr (ds' @ tail) \<noteq> 88"
    using assms(2,5,6) d by (cases ds') (auto simp: Isdigit_iff)
  define es where "es = dropWhile (\<lambda>c. c = 48) ds"
  have es: "digits es" "dval es = dval ds"
    using assms(2) by (simp_all add: es_def digits_dropWhile dval_skip_zeros)
  have sz: "dropWhile (\<lambda>c. c = 48) (ds @ tail) = es @ tail"
    unfolding es_def using assms(4) by (rule skip_zeros)
  define fs where "fs = takeWhile sqlite3Isdigit (take 11 (es @ tail))"
  have A: "sqlite3GetInt32 (s @ ds @ tail) =
    (if length fs > 10 then None
     else if int (dval fs) - (if s = [45] then 1 else 0) > 2147483647 then None
     else Some (if s = [45] then - int (dval fs) else int (dval fs)))"
  proof -
    have "sqlite3GetInt32 (s @ ds @ tail) = getInt32Dec (s = [45]) (ds @ tail)"
      using assms(1) dd nx unfolding d by (auto simp: sqlite3GetInt32_def sign_text_def)
    moreover have "sqlite3Isdigit (chr (ds @ tail))" using dd d by simp
    ultimately show ?thesis by (simp only: getInt32Dec_def sz Let_def fs_def simp_thms if_False)
  qed
  show ?thesis
  proof (cases "length es \<le> 10")
    case True
    then have "take 11 (es @ tail) = es @ take (11 - length es) tail" by simp
    moreover have "take (11 - length es) tail = [] \<or> \<not> sqlite3Isdigit (hd (take (11 - length es) tail))"
      using assms(4) True by (cases tail) (auto simp: take_Cons')
    ultimately have "fs = es" unfolding fs_def using takeWhile_digits [OF es(1)] by simp
    with A True es(2) show ?thesis by (auto simp: signed_def)
  next
    case False
    then have t: "take 11 (es @ tail) = take 11 es" by simp
    have "digits (take 11 es)" using es(1) by (auto simp: list_all_iff dest: in_set_takeD)
    then have "fs = take 11 es" unfolding fs_def t by (simp add: takeWhile_eq_all_conv list_all_iff)
    then have N: "sqlite3GetInt32 (s @ ds @ tail) = None" using A False by simp
    obtain c es' where e: "es = c # es'" using False by (cases es) auto
    then have "c \<noteq> 48" using hd_dropWhile [of "\<lambda>c. c = 48" ds] by (auto simp: es_def)
    then have "10 ^ length es' \<le> dval ds" using dval_ge [of c es'] es e by simp
    moreover have "(10 :: nat) ^ 10 \<le> 10 ^ length es'" using False e by (intro power_increasing) simp_all
    ultimately have "2 ^ 32 < dval ds" by simp
    with N show ?thesis by (auto simp: signed_def)
  qed
qed

lemma getUInt32Loop_digits:
  "digits ds \<Longrightarrow> tail = [] \<or> \<not> sqlite3Isdigit (hd tail) \<Longrightarrow> v \<le> 4294967296 \<Longrightarrow>
   getUInt32Loop v (ds @ tail) =
     (if v * 10 ^ length ds + dval ds \<le> 4294967296 then Some (v * 10 ^ length ds + dval ds, tail) else None)"
proof (induction ds arbitrary: v)
  case Nil
  then show ?case by (cases tail) simp_all
next
  case (Cons c ds)
  have e: "(v * 10 + digit c) * 10 ^ length ds + dval ds = v * 10 ^ length (c # ds) + dval (c # ds)"
    by (simp add: dval_Cons algebra_simps)
  show ?case
  proof (cases "v * 10 + digit c \<le> 4294967296")
    case True
    with Cons show ?thesis unfolding e [symmetric] by (simp add: Let_def)
  next
    case False
    have "4294967296 < v * 10 + digit c" using False by simp
    also have "\<dots> \<le> (v * 10 + digit c) * 10 ^ length ds + dval ds" by (simp add: trans_le_add1)
    finally have "\<not> v * 10 ^ length (c # ds) + dval (c # ds) \<le> 4294967296" unfolding e by simp
    with False Cons.prems show ?thesis by (simp add: Let_def)
  qed
qed

subsection \<open>Properties\<close>

text \<open>
  C20: printing and parsing are inverse: every 64-bit integer is printed in at most 20 bytes
  (sign included, so the 21-byte buffer suffices), and parsing the text gives the integer
  back with result 0.
\<close>

theorem Int64_text_roundtrip:
  assumes "i64 v"
  shows "sqlite3Atoi64 (sqlite3Int64ToText v) SQLITE_UTF8 = (0, v) \<and> length (sqlite3Int64ToText v) \<le> 20"
proof -
  obtain s ds where *: "sqlite3Int64ToText v = s @ ds" "sign_text s" "digits ds" "ds \<noteq> []" "signed s ds = v"
    "length (s @ ds) \<le> 20"
    using Int64ToText_shape [OF assms] by blast
  then show ?thesis
    using Atoi64_decimal [of "[]" s ds "[]"] assms by (simp add: atoi64_spec_def)
qed

lemma Int64_text_roundtrip_witness:
  "i64 (- (2 ^ 63)) \<and> sqlite3Atoi64 (sqlite3Int64ToText (- (2 ^ 63))) SQLITE_UTF8 = (0, - (2 ^ 63))"
  using Int64_text_roundtrip [of "- (2 ^ 63)"] by (simp add: i64_iff)

text \<open>
  C21: what \<open>sqlite3Atoi64\<close> returns on any text of spaces, an optional sign, digits, and a
  tail that does not start with a digit: the exact value when it fits in 64 bits (with result
  0 for a tail of spaces and 1 otherwise), result 3 for exactly \<^verbatim>\<open>+2^63\<close>, and result 2 with the
  nearest representable value for everything else, however many digits there are.
\<close>

theorem Atoi64_correct:
  assumes "list_all sqlite3Isspace sp" and "sign_text s" and "digits ds" and "ds \<noteq> []"
    and "tail = [] \<or> \<not> sqlite3Isdigit (hd tail)"
  shows "sqlite3Atoi64 (sp @ s @ ds @ tail) SQLITE_UTF8 =
    atoi64_spec (list_all sqlite3Isspace tail) (signed s ds)"
  by (rule Atoi64_decimal [OF assms])

lemma Atoi64_correct_witness:
  "sqlite3Atoi64 ([32] @ [45] @ [52, 50] @ [32]) SQLITE_UTF8 = (0, - 42)"
  using Atoi64_correct [of "[32]" "[45]" "[52, 50]" "[32]"]
  by (simp add: Isspace_iff Isdigit_iff sign_text_def signed_def dval_Cons digit_def atoi64_spec_def i64_iff)

text \<open>
  C0: \<open>sqlite3GetInt32\<close> accepts a decimal text exactly when its value fits in a signed
  32-bit integer, and then returns that value; trailing text is ignored.
\<close>

theorem GetInt32_correct:
  assumes "sign_text s" and "digits ds" and "ds \<noteq> []" and "tail = [] \<or> \<not> sqlite3Isdigit (hd tail)"
    and "chr tail \<noteq> 120" and "chr tail \<noteq> 88"
  shows "sqlite3GetInt32 (s @ ds @ tail) =
    (if - (2 ^ 31) \<le> signed s ds \<and> signed s ds < 2 ^ 31 then Some (signed s ds) else None)"
  by (rule GetInt32_decimal [OF assms])

lemma GetInt32_correct_witness: "sqlite3GetInt32 ([45] @ [49, 50] @ [97]) = Some (- 12)"
  using GetInt32_correct [of "[45]" "[49, 50]" "[97]"]
  by (simp add: Isdigit_iff sign_text_def signed_def dval_Cons digit_def)

text \<open>
  C22: \<open>sqlite3GetUInt32\<close> accepts a digit string exactly when its value is at most \<^verbatim>\<open>2^32\<close>,
  and returns the value modulo \<^verbatim>\<open>2^32\<close>: the text of \<^verbatim>\<open>2^32\<close> itself, which is not a 32-bit
  value, is accepted and gives 0.
\<close>

theorem GetUInt32_accepts:
  assumes "digits ds" and "ds \<noteq> []"
  shows "sqlite3GetUInt32 ds = (if dval ds \<le> 2 ^ 32 then Some (dval ds mod 2 ^ 32) else None)"
  using getUInt32Loop_digits [of ds "[]" 0] assms by (simp add: sqlite3GetUInt32_def)

lemma GetUInt32_accepts_witness:
  "sqlite3GetUInt32 [52, 50, 57, 52, 57, 54, 55, 50, 57, 54] = Some 0"
  using GetUInt32_accepts [of "[52, 50, 57, 52, 57, 54, 55, 50, 57, 54]"]
  by (simp add: Isdigit_iff dval_Cons digit_def)

end
