(* ===== verification/Tokenizer.thy ===== *)
theory Tokenizer
  imports Text_Util
begin

text \<open>
  The SQL tokenizer of tokenize.c and the loop that feeds tokens to the parser.  The input is
  the byte list before the terminator; reading at its end gives the terminator.

  \<open>sqlite3GetToken\<close> copies the text of an identifier into a local buffer of 32 bytes without
  checking its length, and the parser loop copies the keywords WINDOW and FILTER into a local
  buffer of 4 bytes.  A copy that does not fit has no defined result: the model returns \<open>None\<close>
  there.  Everything else is total.

  Three things the code uses are generated when it is built and are parameters: \<open>kw\<close>, the
  keyword table (\<^verbatim>\<open>keywordhash.h\<close>), gives the token type of a word; \<open>fallback_id\<close> says that a
  token may fall back to an identifier; and \<open>parse\<close> is the LALR parser, a step on an abstract
  state that also tells whether parsing may go on.
\<close>

subsection \<open>Character classes and token types\<close>

definition aiClass :: "nat list" where
  "aiClass =
   [29, 28, 28, 28, 28, 28, 28, 28, 28, 7, 7, 28, 7, 7, 28, 28,
    28, 28, 28, 28, 28, 28, 28, 28, 28, 28, 28, 28, 28, 28, 28, 28,
    7, 15, 8, 5, 4, 22, 24, 8, 17, 18, 21, 20, 23, 11, 26, 16,
    3, 3, 3, 3, 3, 3, 3, 3, 3, 3, 5, 19, 12, 14, 13, 6,
    5, 1, 1, 1, 1, 1, 1, 1, 1, 1, 1, 1, 1, 1, 1, 1,
    1, 1, 1, 1, 1, 1, 1, 1, 0, 2, 2, 9, 28, 28, 28, 2,
    8, 1, 1, 1, 1, 1, 1, 1, 1, 1, 1, 1, 1, 1, 1, 1,
    1, 1, 1, 1, 1, 1, 1, 1, 0, 2, 2, 28, 10, 28, 25, 28,
    27, 27, 27, 27, 27, 27, 27, 27, 27, 27, 27, 27, 27, 27, 27, 27,
    27, 27, 27, 27, 27, 27, 27, 27, 27, 27, 27, 27, 27, 27, 27, 27,
    27, 27, 27, 27, 27, 27, 27, 27, 27, 27, 27, 27, 27, 27, 27, 27,
    27, 27, 27, 27, 27, 27, 27, 27, 27, 27, 27, 27, 27, 27, 27, 27,
    27, 27, 27, 27, 27, 27, 27, 27, 27, 27, 27, 27, 27, 27, 27, 27,
    27, 27, 27, 27, 27, 27, 27, 27, 27, 27, 27, 27, 27, 27, 27, 27,
    27, 27, 27, 27, 27, 27, 27, 27, 27, 27, 27, 27, 27, 27, 27, 30,
    27, 27, 27, 27, 27, 27, 27, 27, 27, 27, 27, 27, 27, 27, 27, 27]"

definition char_class :: "u8 \<Rightarrow> nat" where
  "char_class c = aiClass ! unat c"

datatype tk = TK_SPACE | TK_COMMENT | TK_PTR | TK_MINUS | TK_LP | TK_RP | TK_SEMI | TK_PLUS | TK_STAR
  | TK_SLASH | TK_REM | TK_EQ | TK_LE | TK_NE | TK_LSHIFT | TK_LT | TK_GE | TK_RSHIFT | TK_GT
  | TK_ILLEGAL | TK_BITOR | TK_CONCAT | TK_COMMA | TK_BITAND | TK_BITNOT | TK_STRING | TK_ID | TK_DOT
  | TK_INTEGER | TK_QNUMBER | TK_FLOAT | TK_VARIABLE | TK_BLOB | TK_AS | TK_JOIN_KW
  | TK_WINDOW | TK_OVER | TK_FILTER | TK_EOF | TK_keyword nat

text \<open>\<^verbatim>\<open>z[i]\<close>, the terminator included.\<close>

definition at :: "cstring \<Rightarrow> nat \<Rightarrow> u8" where
  "at z i = (if i < length z then z ! i else 0)"

definition span :: "(u8 \<Rightarrow> bool) \<Rightarrow> cstring \<Rightarrow> nat \<Rightarrow> nat" where
  "span P z i = i + length (takeWhile P (drop i z))"

subsection \<open>Copies into local buffers\<close>

text \<open>\<^verbatim>\<open>memcpy\<close> into a buffer of \<open>cap\<close> bytes; \<open>None\<close> when it would write past the end.\<close>

definition copy_into :: "nat \<Rightarrow> cstring \<Rightarrow> nat \<Rightarrow> cstring option" where
  "copy_into cap z n = (if n \<le> cap then Some (take n z) else None)"

definition sqlite3CheckIdentifier :: "cstring \<Rightarrow> nat \<Rightarrow> u8 option" where
  "sqlite3CheckIdentifier z n = map_option chr (copy_into 32 z n)"

definition sqlite3CopyWindowKeyword :: "cstring \<Rightarrow> nat \<Rightarrow> unit option" where
  "sqlite3CopyWindowKeyword z n = map_option (\<lambda>_. ()) (copy_into 4 z n)"

subsection \<open>One token\<close>

fun slashLoop :: "u8 \<Rightarrow> cstring \<Rightarrow> nat \<Rightarrow> u8 \<times> nat" where
  "slashLoop c [] i = (0, i)"
| "slashLoop c (d # z) i = (if c = 42 \<and> d = 47 then (c, i) else slashLoop d z (i + 1))"

fun quoteLoop :: "u8 \<Rightarrow> cstring \<Rightarrow> nat \<Rightarrow> u8 \<times> nat" where
  "quoteLoop delim [] i = (0, i)"
| "quoteLoop delim [c] i = (if c = delim then (c, i) else (0, i + 1))"
| "quoteLoop delim (c # d # z) i =
     (if c = delim then if d = delim then quoteLoop delim z (i + 2) else (c, i)
      else quoteLoop delim (d # z) (i + 1))"

fun bracketLoop :: "cstring \<Rightarrow> nat \<Rightarrow> u8 \<times> nat" where
  "bracketLoop [] i = (0, i)"
| "bracketLoop (c # z) i = (if c = 93 then (c, i + 1) else bracketLoop z (i + 1))"

text \<open>The digit loops: digits and the separator \<^verbatim>\<open>_\<close>, which makes the number a quoted one.\<close>

fun numLoop :: "(u8 \<Rightarrow> bool) \<Rightarrow> cstring \<Rightarrow> nat \<Rightarrow> tk \<Rightarrow> nat \<times> tk" where
  "numLoop isd [] i t = (i, t)"
| "numLoop isd (c # z) i t =
     (if isd c then numLoop isd z (i + 1) t
      else if c = 95 then numLoop isd z (i + 1) TK_QNUMBER
      else (i, t))"

text \<open>A decimal number: digits, fraction and exponent.\<close>

definition decNumber :: "cstring \<Rightarrow> nat \<times> tk" where
  "decNumber z =
     (let (i, t) = numLoop sqlite3Isdigit z 0 TK_INTEGER;
          (i, t) = (if at z i = 46
                    then numLoop sqlite3Isdigit (drop (i + 1) z) (i + 1)
                           (if t = TK_INTEGER then TK_FLOAT else t)
                    else (i, t))
      in if (at z i = 101 \<or> at z i = 69) \<and>
            (sqlite3Isdigit (at z (i + 1)) \<or>
             (at z (i + 1) = 43 \<or> at z (i + 1) = 45) \<and> sqlite3Isdigit (at z (i + 2)))
         then numLoop sqlite3Isdigit (drop (i + 2) z) (i + 2)
                (if t = TK_INTEGER then TK_FLOAT else t)
         else (i, t))"

definition numToken :: "cstring \<Rightarrow> nat \<times> tk" where
  "numToken z =
     (let (i, t) =
        (if at z 0 = 48 \<and> (at z 1 = 120 \<or> at z 1 = 88) \<and> sqlite3Isxdigit (at z 2)
         then numLoop sqlite3Isxdigit (drop 3 z) 3 TK_INTEGER
         else decNumber z)
      in (span IdChar z i, if IdChar (at z i) then TK_ILLEGAL else t))"

fun parenLoop :: "cstring \<Rightarrow> nat \<Rightarrow> nat \<times> tk" where
  "parenLoop [] i = (i, TK_ILLEGAL)"
| "parenLoop (c # z) i =
     (if sqlite3Isspace c then (i, TK_ILLEGAL)
      else if c = 41 then (i + 1, TK_VARIABLE)
      else parenLoop z (i + 1))"

fun varLoop :: "cstring \<Rightarrow> nat \<Rightarrow> nat \<Rightarrow> nat \<times> tk \<times> nat" where
  "varLoop [] i n = (i, TK_VARIABLE, n)"
| "varLoop (c # z) i n =
     (if IdChar c then varLoop z (i + 1) (n + 1)
      else if c = 40 \<and> n > 0 then (case parenLoop z (i + 1) of (i, t) \<Rightarrow> (i, t, n))
      else if c = 58 \<and> chr z = 58 then varLoop (tl z) (i + 2) n
      else (i, TK_VARIABLE, n))"

definition varToken :: "cstring \<Rightarrow> nat \<times> tk" where
  "varToken z = (case varLoop (drop 1 z) 1 0 of (i, t, n) \<Rightarrow> (i, if n = 0 then TK_ILLEGAL else t))"

definition blobToken :: "cstring \<Rightarrow> nat \<times> tk" where
  "blobToken z =
     (let i = span sqlite3Isxdigit z 2;
          bad = (at z i \<noteq> 39 \<or> i mod 2 \<noteq> 0);
          i = (if bad then span (\<lambda>c. c \<noteq> 39) z i else i)
      in (if at z i \<noteq> 0 then i + 1 else i, if bad then TK_ILLEGAL else TK_BLOB))"

text \<open>After the \<^verbatim>\<open>switch\<close>: the rest of an identifier, and the copy of its text.\<close>

definition idToken :: "cstring \<Rightarrow> nat \<Rightarrow> (nat \<times> tk) option" where
  "idToken z i =
     (let i = span IdChar z i
      in case sqlite3CheckIdentifier z i of None \<Rightarrow> None | Some _ \<Rightarrow> Some (i, TK_ID))"

definition kywdToken :: "(cstring \<Rightarrow> tk) \<Rightarrow> cstring \<Rightarrow> (nat \<times> tk) option" where
  "kywdToken kw z =
     (if char_class (at z 1) > 2 then idToken z 1
      else
        let i = span (\<lambda>c. char_class c \<le> 2) z 2
        in if IdChar (at z i) then idToken z (i + 1)
           else Some (i, kw (take i z)))"

definition sqlite3GetToken :: "(cstring \<Rightarrow> tk) \<Rightarrow> cstring \<Rightarrow> (nat \<times> tk) option" where
  "sqlite3GetToken kw z =
     (let cc = char_class (at z 0); c = at z 1 in
      if cc = 7 then Some (span sqlite3Isspace z 1, TK_SPACE)
      else if cc = 11 then
        Some (if c = 45 then (span (\<lambda>c. c \<noteq> 10) z 2, TK_COMMENT)
              else if c = 62 then (if at z 2 = 62 then 3 else 2, TK_PTR)
              else (1, TK_MINUS))
      else if cc = 17 then Some (1, TK_LP)
      else if cc = 18 then Some (1, TK_RP)
      else if cc = 19 then Some (1, TK_SEMI)
      else if cc = 20 then Some (1, TK_PLUS)
      else if cc = 21 then Some (1, TK_STAR)
      else if cc = 16 then
        Some (if c \<noteq> 42 \<or> at z 2 = 0 then (1, TK_SLASH)
              else (case slashLoop (at z 2) (drop 3 z) 3 of
                      (c, i) \<Rightarrow> (if c \<noteq> 0 then i + 1 else i, TK_COMMENT)))
      else if cc = 22 then Some (1, TK_REM)
      else if cc = 14 then Some (if c = 61 then 2 else 1, TK_EQ)
      else if cc = 12 then
        Some (if c = 61 then (2, TK_LE) else if c = 62 then (2, TK_NE)
              else if c = 60 then (2, TK_LSHIFT) else (1, TK_LT))
      else if cc = 13 then
        Some (if c = 61 then (2, TK_GE) else if c = 62 then (2, TK_RSHIFT) else (1, TK_GT))
      else if cc = 15 then Some (if c \<noteq> 61 then (1, TK_ILLEGAL) else (2, TK_NE))
      else if cc = 10 then Some (if c \<noteq> 124 then (1, TK_BITOR) else (2, TK_CONCAT))
      else if cc = 23 then Some (1, TK_COMMA)
      else if cc = 24 then Some (1, TK_BITAND)
      else if cc = 25 then Some (1, TK_BITNOT)
      else if cc = 8 then
        Some (case quoteLoop (at z 0) (drop 1 z) 1 of
                (c, i) \<Rightarrow> if c = 39 then (i + 1, TK_STRING) else if c \<noteq> 0 then (i + 1, TK_ID)
                         else (i, TK_ILLEGAL))
      else if cc = 26 \<and> \<not> sqlite3Isdigit c then Some (1, TK_DOT)
      else if cc = 26 \<or> cc = 3 then Some (numToken z)
      else if cc = 9 then
        Some (case bracketLoop (drop 1 z) 1 of (c, i) \<Rightarrow> (i, if c = 93 then TK_ID else TK_ILLEGAL))
      else if cc = 6 then Some (span sqlite3Isdigit z 1, TK_VARIABLE)
      else if cc = 4 \<or> cc = 5 then Some (varToken z)
      else if cc = 1 then kywdToken kw z
      else if cc = 0 \<and> c = 39 then Some (blobToken z)
      else if cc = 0 \<or> cc = 2 \<or> cc = 27 then idToken z 1
      else if cc = 30 then
        (if c = 0xbb \<and> at z 2 = 0xbf then Some (3, TK_SPACE) else idToken z 1)
      else if cc = 29 then Some (0, TK_ILLEGAL)
      else Some (1, TK_ILLEGAL))"

subsection \<open>Every token is a non-empty prefix of the text\<close>

lemma at_beyond: "length z \<le> i \<Longrightarrow> at z i = 0"
  by (simp add: at_def)

lemma at_nonzero: "at z i \<noteq> 0 \<Longrightarrow> i < length z"
  by (metis at_beyond not_less)

lemma span_bounds: "i \<le> length z \<Longrightarrow> i \<le> span P z i \<and> span P z i \<le> length z"
  using length_takeWhile_le [of P "drop i z"] by (simp add: span_def)

lemma slashLoop_bounds: "slashLoop c z i = (d, j) \<Longrightarrow> i \<le> j \<and> j \<le> i + length z \<and> (d \<noteq> 0 \<longrightarrow> j < i + length z)"
  by (induction c z i rule: slashLoop.induct) (auto split: if_splits)

lemma quoteLoop_bounds: "quoteLoop q z i = (d, j) \<Longrightarrow> i \<le> j \<and> j \<le> i + length z \<and> (d \<noteq> 0 \<longrightarrow> j < i + length z)"
  by (induction q z i rule: quoteLoop.induct) (auto split: if_splits)

lemma bracketLoop_bounds: "bracketLoop z i = (d, j) \<Longrightarrow> i \<le> j \<and> j \<le> i + length z"
  by (induction z i rule: bracketLoop.induct) (auto split: if_splits)

lemma numLoop_bounds: "numLoop P z i t = (j, u) \<Longrightarrow> i \<le> j \<and> j \<le> i + length z"
  by (induction P z i t rule: numLoop.induct) (auto split: if_splits)

lemma parenLoop_bounds: "parenLoop z i = (j, u) \<Longrightarrow> i \<le> j \<and> j \<le> i + length z"
  by (induction z i rule: parenLoop.induct) (auto split: if_splits)

lemma varLoop_bounds: "varLoop z i n = (j, u, m) \<Longrightarrow> i \<le> j \<and> j \<le> i + length z"
proof (induction z i n rule: varLoop.induct)
  case (2 c z i n)
  then show ?case
    by (cases z) (auto dest: parenLoop_bounds split: if_splits prod.splits)
qed simp

lemma length_aiClass: "length aiClass = 256"
  by (simp add: aiClass_def)

lemma class_table:
  "char_class c = 29 \<longleftrightarrow> c = 0" "char_class c = 3 \<longleftrightarrow> sqlite3Isdigit c" "char_class c = 26 \<longleftrightarrow> c = 46"
proof -
  have "P (unat c) (aiClass ! unat c)" if "list_all (\<lambda>(i, v). P i v) (enumerate 0 aiClass)" for P
    using length_aiClass that by (rule table_all)
  note tab = this
  have "char_class c = 29 \<longleftrightarrow> unat c = 0"
    unfolding char_class_def by (rule tab [of "\<lambda>i v. v = 29 \<longleftrightarrow> i = 0"]) (simp add: aiClass_def)
  then show "char_class c = 29 \<longleftrightarrow> c = 0" by (simp add: unsigned_eq_0_iff)
  show "char_class c = 3 \<longleftrightarrow> sqlite3Isdigit c"
    unfolding char_class_def Isdigit_iff
    by (rule tab [of "\<lambda>i v. v = 3 \<longleftrightarrow> 48 \<le> i \<and> i \<le> 57"]) (simp add: aiClass_def)
  have "char_class c = 26 \<longleftrightarrow> unat c = 46"
    unfolding char_class_def by (rule tab [of "\<lambda>i v. v = 26 \<longleftrightarrow> i = 46"]) (simp add: aiClass_def)
  then show "char_class c = 26 \<longleftrightarrow> c = 46" by (simp add: word_unat_eq_iff)
qed

definition tok_ok :: "cstring \<Rightarrow> (nat \<times> tk) option \<Rightarrow> bool" where
  "tok_ok z r \<longleftrightarrow> (case r of None \<Rightarrow> True | Some (n, t) \<Rightarrow> 1 \<le> n \<and> n \<le> length z)"

lemma tok_ok_simps [simp]:
  "tok_ok z None" "tok_ok z (Some (n, t)) \<longleftrightarrow> 1 \<le> n \<and> n \<le> length z"
  by (simp_all add: tok_ok_def)

lemma tok_ok_if: "(b \<Longrightarrow> tok_ok z x) \<Longrightarrow> (\<not> b \<Longrightarrow> tok_ok z y) \<Longrightarrow> tok_ok z (if b then x else y)"
  by simp

lemma xdigit_nonzero: "sqlite3Isxdigit c \<Longrightarrow> c \<noteq> 0" "sqlite3Isdigit c \<Longrightarrow> c \<noteq> 0"
  by (auto simp: Isxdigit_iff Isdigit_iff)

lemma numLoop_bounds': "i \<le> length z \<Longrightarrow> numLoop P (drop i z) i t = (j, u) \<Longrightarrow> i \<le> j \<and> j \<le> length z"
  using numLoop_bounds [of P "drop i z" i t j u] by simp

lemma numLoop_first:
  "z \<noteq> [] \<Longrightarrow> sqlite3Isdigit (at z 0) \<Longrightarrow> numLoop sqlite3Isdigit z 0 t = (j, u) \<Longrightarrow> 1 \<le> j"
  using numLoop_bounds [of sqlite3Isdigit "tl z" 1 t j u] by (cases z) (auto simp: at_def)

lemma decNumber_bounds:
  assumes "z \<noteq> []" and "sqlite3Isdigit (at z 0) \<or> at z 0 = 46" and "decNumber z = (i, t)"
  shows "1 \<le> i \<and> i \<le> length z"
proof -
  obtain i1 t1 where n1: "numLoop sqlite3Isdigit z 0 TK_INTEGER = (i1, t1)" by fastforce
  have i1: "i1 \<le> length z" using numLoop_bounds [OF n1] by simp
  obtain i2 t2 where n2: "(if at z i1 = 46 then numLoop sqlite3Isdigit (drop (i1 + 1) z) (i1 + 1)
      (if t1 = TK_INTEGER then TK_FLOAT else t1) else (i1, t1)) = (i2, t2)" by fastforce
  have i2: "1 \<le> i2 \<and> i2 \<le> length z"
  proof (cases "at z i1 = 46")
    case True
    then have "i1 + 1 \<le> length z" using at_nonzero [of z i1] by simp
    with numLoop_bounds' [OF this] n2 True show ?thesis by force
  next
    case False
    then have "sqlite3Isdigit (at z 0)"
      using assms n1 by (cases z) (auto simp: at_def Isdigit_iff)
    with numLoop_first [OF assms(1) _ n1] i1 False n2 show ?thesis by simp
  qed
  define e where "e = ((at z i2 = 101 \<or> at z i2 = 69) \<and> (sqlite3Isdigit (at z (i2 + 1)) \<or>
      (at z (i2 + 1) = 43 \<or> at z (i2 + 1) = 45) \<and> sqlite3Isdigit (at z (i2 + 2))))"
  have r: "(i, t) = (if e then numLoop sqlite3Isdigit (drop (i2 + 2) z) (i2 + 2)
      (if t2 = TK_INTEGER then TK_FLOAT else t2) else (i2, t2))"
    using assms(3) unfolding decNumber_def n1 Let_def prod.case n2 e_def by simp
  show ?thesis
  proof (cases e)
    case True
    then have "at z (i2 + 1) \<noteq> 0" by (auto simp: e_def dest: xdigit_nonzero)
    then have "i2 + 2 \<le> length z" using at_nonzero [of z "i2 + 1"] by simp
    from numLoop_bounds' [OF this, of sqlite3Isdigit _ i t] r True show ?thesis
      by (metis (no_types, lifting) le_trans one_le_numeral trans_le_add2)
  qed (use i2 r in simp)
qed

lemma numToken_ok:
  assumes "z \<noteq> []" and "sqlite3Isdigit (at z 0) \<or> at z 0 = 46"
  shows "tok_ok z (Some (numToken z))"
proof -
  obtain i t where n: "(if at z 0 = 48 \<and> (at z 1 = 120 \<or> at z 1 = 88) \<and> sqlite3Isxdigit (at z 2)
      then numLoop sqlite3Isxdigit (drop 3 z) 3 TK_INTEGER else decNumber z) = (i, t)" by fastforce
  have "1 \<le> i \<and> i \<le> length z"
  proof (cases "at z 0 = 48 \<and> (at z 1 = 120 \<or> at z 1 = 88) \<and> sqlite3Isxdigit (at z 2)")
    case True
    then have "2 < length z" using xdigit_nonzero(1) at_nonzero by blast
    with numLoop_bounds' [of 3 z] n True show ?thesis by fastforce
  next
    case False
    with n have "decNumber z = (i, t)" by (simp only: if_False)
    then show ?thesis by (rule decNumber_bounds [OF assms])
  qed
  with span_bounds [of i z IdChar] show ?thesis
    unfolding numToken_def n Let_def prod.case by simp
qed

lemma IdChar_nonzero: "IdChar c \<Longrightarrow> c \<noteq> 0"
  by (auto simp: IdChar_iff)

lemma IdChar_0: "\<not> IdChar 0"
  using IdChar_nonzero by blast

lemma varToken_ok: "z \<noteq> [] \<Longrightarrow> tok_ok z (Some (varToken z))"
  using varLoop_bounds [of "drop 1 z" 1 0]
  by (auto simp: varToken_def Suc_le_eq split: prod.splits)

lemma idToken_ok: "1 \<le> i \<Longrightarrow> i \<le> length z \<Longrightarrow> tok_ok z (idToken z i)"
  using span_bounds [of i z IdChar] by (auto simp: idToken_def Let_def split: option.splits)

lemma blobToken_ok: "at z 1 = 39 \<Longrightarrow> tok_ok z (Some (blobToken z))"
proof -
  assume "at z 1 = 39"
  then have "2 \<le> length z" using at_nonzero [of z 1] by simp
  then have i: "2 \<le> span sqlite3Isxdigit z 2 \<and> span sqlite3Isxdigit z 2 \<le> length z" by (rule span_bounds)
  then have "2 \<le> span (\<lambda>c. c \<noteq> 39) z (span sqlite3Isxdigit z 2) \<and>
      span (\<lambda>c. c \<noteq> 39) z (span sqlite3Isxdigit z 2) \<le> length z"
    using span_bounds [of "span sqlite3Isxdigit z 2" z "\<lambda>c. c \<noteq> 39"] by linarith
  with i at_nonzero show ?thesis
    by (auto simp: blobToken_def Let_def Suc_le_eq)
qed

lemma kywdToken_ok: "z \<noteq> [] \<Longrightarrow> tok_ok z (kywdToken kw z)"
proof -
  assume z: "z \<noteq> []"
  have c0: "char_class 0 = 29" using class_table(1) [of 0] by simp
  show ?thesis
  proof (cases "char_class (at z 1) > 2")
    case True
    with z show ?thesis by (simp add: kywdToken_def idToken_ok Suc_le_eq)
  next
    case False
    then have "at z 1 \<noteq> 0" using c0 by auto
    then have "2 \<le> length z" using at_nonzero [of z 1] by simp
    with span_bounds [of 2 z "\<lambda>c. char_class c \<le> 2"] False show ?thesis
      using at_nonzero [of z "span (\<lambda>c. char_class c \<le> 2) z 2"]
      by (auto simp: kywdToken_def Let_def Suc_le_eq dest: IdChar_nonzero intro!: idToken_ok)
  qed
qed

lemma GetToken_ok:
  assumes z: "z \<noteq> []" "at z 0 \<noteq> 0"
  shows "tok_ok z (sqlite3GetToken kw z)"
proof -
  have l: "1 \<le> length z" using z(1) by (simp add: Suc_le_eq)
  have c1: "2 \<le> length z" if "at z 1 = k" "k \<noteq> 0" for k using at_nonzero [of z 1] that by simp
  have c2: "3 \<le> length z" if "at z 2 = k" "k \<noteq> 0" for k using at_nonzero [of z 2] that by simp
  have sp: "tok_ok z (Some (span P z 1, t))" for P t using span_bounds [OF l, of P] by simp
  have slash: "tok_ok z (Some (case slashLoop (at z 2) (drop 3 z) 3 of
      (c, i) \<Rightarrow> (if c \<noteq> 0 then i + 1 else i, TK_COMMENT)))" if "at z 2 \<noteq> 0"
  proof -
    obtain d j where s: "slashLoop (at z 2) (drop 3 z) 3 = (d, j)" by fastforce
    with slashLoop_bounds [OF s] c2 [OF refl that] show ?thesis by auto
  qed
  have quote: "tok_ok z (Some (case quoteLoop (at z 0) (drop 1 z) 1 of
      (c, i) \<Rightarrow> if c = 39 then (i + 1, TK_STRING) else if c \<noteq> 0 then (i + 1, TK_ID) else (i, TK_ILLEGAL)))"
  proof -
    obtain d j where s: "quoteLoop (at z 0) (drop 1 z) 1 = (d, j)" by fastforce
    with quoteLoop_bounds [OF s] l show ?thesis by auto
  qed
  have bracket: "tok_ok z (Some (case bracketLoop (drop 1 z) 1 of
      (c, i) \<Rightarrow> (i, if c = 93 then TK_ID else TK_ILLEGAL)))"
  proof -
    obtain d j where s: "bracketLoop (drop 1 z) 1 = (d, j)" by fastforce
    with bracketLoop_bounds [OF s] l show ?thesis by auto
  qed
  have minus: "tok_ok z (Some (if at z 1 = 45 then (span (\<lambda>c. c \<noteq> 10) z 2, TK_COMMENT)
      else if at z 1 = 62 then (if at z 2 = 62 then 3 else 2, TK_PTR) else (1, TK_MINUS)))"
    using c1 c2 l span_bounds [of 2 z "\<lambda>c. c \<noteq> 10"] by auto
  have two: "tok_ok z (Some (if at z 1 = k then (2, t) else x))"
    if "k \<noteq> 0" "tok_ok z (Some x)" for k t x
    using c1 that by simp
  have one: "tok_ok z (Some (1, t))" for t using l by simp
  have num: "tok_ok z (Some (numToken z))" if "char_class (at z 0) = 26 \<or> char_class (at z 0) = 3"
    using that z by (intro numToken_ok) (auto simp: class_table)
  have "char_class (at z 0) \<noteq> 29" using z(2) by (simp add: class_table)
  then show ?thesis
    unfolding sqlite3GetToken_def Let_def
    by (intro tok_ok_if sp minus one slash quote bracket num varToken_ok kywdToken_ok blobToken_ok idToken_ok z(1) l)
      (use c1 c2 l slash one in auto)
qed

subsection \<open>Lexers\<close>

text \<open>
  What a client of the tokenizer relies on: a token of a non-empty text is a non-empty prefix
  of it.  Then splitting a text into tokens ends, and the tokens are the text cut in pieces.
\<close>

locale lexer =
  fixes tok :: "'c list \<Rightarrow> (nat \<times> 't) option" and ok :: "'c list \<Rightarrow> bool"
  assumes progress: "ok z \<Longrightarrow> z \<noteq> [] \<Longrightarrow> tok z = Some (n, t) \<Longrightarrow> 1 \<le> n \<and> n \<le> length z"
    and ok_drop: "ok z \<Longrightarrow> ok (drop n z)"
begin

fun tokens :: "nat \<Rightarrow> 'c list \<Rightarrow> ('c list \<times> 't) list option" where
  "tokens fuel [] = Some []"
| "tokens 0 z = None"
| "tokens (Suc fuel) z =
     (case tok z of None \<Rightarrow> None
      | Some (n, t) \<Rightarrow> map_option ((#) (take n z, t)) (tokens fuel (drop n z)))"

text \<open>Cutting tokens \<open>ts\<close> off the front of \<open>z\<close> leaves \<open>z'\<close>.\<close>

fun cuts :: "'c list \<Rightarrow> ('c list \<times> 't) list \<Rightarrow> 'c list \<Rightarrow> bool" where
  "cuts z [] z' \<longleftrightarrow> z' = z"
| "cuts z ((s, t) # ts) z' \<longleftrightarrow>
     z \<noteq> [] \<and> tok z = Some (length s, t) \<and> s = take (length s) z \<and> cuts (drop (length s) z) ts z'"

lemma cuts_split: "ok z \<Longrightarrow> cuts z ts z' \<Longrightarrow> z = concat (map fst ts) @ z' \<and> (\<forall>(s, t) \<in> set ts. s \<noteq> [])"
proof (induction z ts z' rule: cuts.induct)
  case (2 z s t ts z')
  have n: "tok z = Some (length s, t)" "z \<noteq> []" "s = take (length s) z" "cuts (drop (length s) z) ts z'" using 2(3) by auto
  have "s \<noteq> []" using progress [OF 2(2) n(2,1)] by auto
  moreover have "z = s @ drop (length s) z" using n(3) by (metis append_take_drop_id)
  moreover have "drop (length s) z = concat (map fst ts) @ z'" "\<forall>(s, t) \<in> set ts. s \<noteq> []" using 2(1) [OF ok_drop [OF 2(2)] n(4)] by blast+
  ultimately show ?case by (simp only: list.map concat.simps fst_conv append.assoc list.set ball_simps split_conv simp_thms)
qed simp

text \<open>Either the whole text is cut into tokens, or a suffix is reached that has no token.\<close>

lemma tokens_or_stuck:
  "ok z \<Longrightarrow> length z \<le> fuel \<Longrightarrow>
   \<exists>ts z'. cuts z ts z' \<and> length ts \<le> length z \<and> (if z' = [] then tokens fuel z = Some ts else tok z' = None \<and> tokens fuel z = None)"
proof (induction fuel z rule: tokens.induct)
  case (1 fuel)
  show ?case by (rule exI [of _ "[]"]) simp
next
  case (3 fuel c z)
  show ?case
  proof (cases "tok (c # z)")
    case None
    then show ?thesis by (intro exI [of _ "[]"] exI [of _ "c # z"]) simp
  next
    case (Some r)
    obtain n t where n: "tok (c # z) = Some (n, t)" using Some by (cases r) auto
    have le: "1 \<le> n" "n \<le> length (c # z)" using progress [OF 3(2) _ n] by simp_all
    then have "length (drop n (c # z)) \<le> fuel" using 3(3) by simp
    note ih = 3(1) [OF n refl ok_drop [OF 3(2)] this]
    define v where "v = drop n (c # z)"
    obtain ts z' where ts: "cuts v ts z'" "length ts \<le> length v" "if z' = [] then tokens fuel v = Some ts else tok z' = None \<and> tokens fuel v = None"
      using ih [folded v_def] by (elim exE conjE) (rule that)
    have "cuts (c # z) ((take n (c # z), t) # ts) z'" using n le(2) ts(1) by (simp add: min_absorb2 v_def)
    moreover have "length ((take n (c # z), t) # ts) \<le> length (c # z)" using ts(2) le by (simp add: v_def)
    moreover have "tokens (Suc fuel) (c # z) = map_option ((#) (take n (c # z), t)) (tokens fuel v)" using n by (simp add: v_def)
    then have "if z' = [] then tokens (Suc fuel) (c # z) = Some ((take n (c # z), t) # ts) else tok z' = None \<and> tokens (Suc fuel) (c # z) = None"
      using ts(3) by (cases "z' = []") simp_all
    ultimately show ?thesis by blast
  qed
qed simp

end

interpretation sql_lexer: lexer "sqlite3GetToken kw" cstr for kw
proof
  fix z :: cstring and n t
  assume z: "cstr z" "z \<noteq> []" "sqlite3GetToken kw z = Some (n, t)"
  then have "at z 0 \<noteq> 0" by (cases z) (auto simp: cstr_def at_def)
  with GetToken_ok [OF z(2) this, of kw] z(3) show "1 \<le> n \<and> n \<le> length z" by simp
next
  show "cstr z \<Longrightarrow> cstr (drop n z)" for z n
    by (auto simp: cstr_def dest: in_set_dropD)
qed

subsection \<open>Tokens for the parser\<close>

lemma GetToken_at_end: "at z 0 = 0 \<Longrightarrow> sqlite3GetToken kw z = Some (0, TK_ILLEGAL)"
  using class_table(1) [of 0] by (simp add: sqlite3GetToken_def)

lemma GetToken_advance:
  assumes "sqlite3GetToken kw z = Some (n, t)" and "t \<noteq> TK_ILLEGAL \<or> at z 0 \<noteq> 0"
  shows "1 \<le> n \<and> n \<le> length z"
proof -
  have "at z 0 \<noteq> 0" using assms GetToken_at_end [of z kw] by auto
  moreover from this have "z \<noteq> []" by (auto simp: at_def)
  ultimately show ?thesis using GetToken_ok [of z kw] assms(1) by simp
qed

lemma GetToken_shrinks:
  "sqlite3GetToken kw z = Some (n, t) \<Longrightarrow> t \<noteq> TK_ILLEGAL \<Longrightarrow> length z - n < length z"
  using GetToken_advance [of kw z n t] by auto

function getToken :: "(cstring \<Rightarrow> tk) \<Rightarrow> (tk \<Rightarrow> bool) \<Rightarrow> cstring \<Rightarrow> (tk \<times> cstring) option" where
  "getToken kw fallback_id z =
     (case sqlite3GetToken kw z of None \<Rightarrow> None
      | Some (n, t) \<Rightarrow>
          if t = TK_SPACE \<or> t = TK_COMMENT then getToken kw fallback_id (drop n z)
          else Some (if t \<in> {TK_ID, TK_STRING, TK_JOIN_KW, TK_WINDOW, TK_OVER} \<or> fallback_id t
                     then TK_ID else t, drop n z))"
  by pat_completeness auto
termination
  by (relation "measure (\<lambda>(kw, f, z). length z)") (auto simp: GetToken_shrinks)

declare getToken.simps [simp del]

definition analyzeWindowKeyword :: "(cstring \<Rightarrow> tk) \<Rightarrow> (tk \<Rightarrow> bool) \<Rightarrow> cstring \<Rightarrow> tk option" where
  "analyzeWindowKeyword kw f z =
     (case getToken kw f z of None \<Rightarrow> None
      | Some (t, z) \<Rightarrow>
          if t \<noteq> TK_ID then Some TK_ID
          else (case getToken kw f z of None \<Rightarrow> None
                | Some (t, z) \<Rightarrow> Some (if t \<noteq> TK_AS then TK_ID else TK_WINDOW)))"

definition analyzeOverKeyword :: "(cstring \<Rightarrow> tk) \<Rightarrow> (tk \<Rightarrow> bool) \<Rightarrow> cstring \<Rightarrow> tk option \<Rightarrow> tk option" where
  "analyzeOverKeyword kw f z lastToken =
     (if lastToken = Some TK_RP then
        (case getToken kw f z of None \<Rightarrow> None
         | Some (t, z) \<Rightarrow> Some (if t = TK_LP \<or> t = TK_ID then TK_OVER else TK_ID))
      else Some TK_ID)"

definition analyzeFilterKeyword :: "(cstring \<Rightarrow> tk) \<Rightarrow> (tk \<Rightarrow> bool) \<Rightarrow> cstring \<Rightarrow> tk option \<Rightarrow> tk option" where
  "analyzeFilterKeyword kw f z lastToken =
     (if lastToken = Some TK_RP then
        (case getToken kw f z of None \<Rightarrow> None
         | Some (t, z) \<Rightarrow> Some (if t = TK_LP then TK_FILTER else TK_ID))
      else Some TK_ID)"

text \<open>
  What happens between reading a token and handing it to the parser: it may be skipped, end
  the loop, or be passed on, possibly as another token and with another length.
\<close>

datatype run_end = RunDone | RunTooBig | RunInterrupt | RunBadToken cstring | RunStopped

datatype run_act = Skip nat | Stop run_end | Feed tk nat

definition special_tk :: "tk \<Rightarrow> bool" where
  "special_tk t \<longleftrightarrow> t \<in> {TK_SPACE, TK_OVER, TK_FILTER, TK_ILLEGAL, TK_WINDOW, TK_QNUMBER, TK_COMMENT}"

definition runParserToken ::
  "(cstring \<Rightarrow> tk) \<Rightarrow> (tk \<Rightarrow> bool) \<Rightarrow> bool \<Rightarrow> bool \<Rightarrow> tk option \<Rightarrow> cstring \<Rightarrow> nat \<Rightarrow> tk \<Rightarrow> run_act option" where
  "runParserToken kw f comments interrupted lastToken z n t =
     (if \<not> special_tk t then Some (Feed t n)
      else if interrupted then Some (Stop RunInterrupt)
      else if t = TK_SPACE then Some (Skip n)
      else if at z 0 = 0 then
        Some (if lastToken = Some TK_SEMI then Feed TK_EOF 0
              else if lastToken = Some TK_EOF then Stop RunDone
              else Feed TK_SEMI 0)
      else if t = TK_WINDOW then
        (case sqlite3CopyWindowKeyword z n of None \<Rightarrow> None
         | Some _ \<Rightarrow> map_option (\<lambda>t. Feed t n) (analyzeWindowKeyword kw f (drop 6 z)))
      else if t = TK_OVER then
        map_option (\<lambda>t. Feed t n) (analyzeOverKeyword kw f (drop 4 z) lastToken)
      else if t = TK_FILTER then
        (case sqlite3CopyWindowKeyword z n of None \<Rightarrow> None
         | Some _ \<Rightarrow> map_option (\<lambda>t. Feed t n) (analyzeFilterKeyword kw f (drop 6 z) lastToken))
      else if t = TK_COMMENT \<and> comments then Some (Skip n)
      else if t \<noteq> TK_QNUMBER then Some (Stop (RunBadToken (take n z)))
      else Some (Feed t n))"

definition end_phase :: "tk option \<Rightarrow> nat" where
  "end_phase l = (if l = Some TK_EOF then 0 else if l = Some TK_SEMI then 1 else 2)"

lemma runParserToken_advance:
  assumes "sqlite3GetToken kw z = Some (n, t)" and "runParserToken kw f co b l z n t = Some a"
  shows "(\<forall>m. a = Skip m \<longrightarrow> 1 \<le> m \<and> m \<le> length z) \<and>
    (\<forall>u m. a = Feed u m \<longrightarrow> 1 \<le> m \<and> m \<le> length z \<or> m = 0 \<and> end_phase (Some u) < end_phase l)"
proof (cases "at z 0 = 0")
  case True
  then have "n = 0" "t = TK_ILLEGAL" using assms(1) GetToken_at_end [of z kw] by auto
  with True assms(2) show ?thesis
    by (auto simp: runParserToken_def special_tk_def end_phase_def split: if_splits)
next
  case False
  then have "1 \<le> n \<and> n \<le> length z" using GetToken_advance [OF assms(1)] by simp
  with False assms(2) show ?thesis
    by (auto simp: runParserToken_def split: if_splits option.splits)
qed

lemma runParserToken_shrinks:
  assumes "sqlite3GetToken kw z = Some (n, t)"
  shows "runParserToken kw f co b l z n t = Some (Skip m) \<Longrightarrow> length z - m < length z"
    and "runParserToken kw f co b l z n t = Some (Feed u m) \<Longrightarrow> length z - m < length z \<or>
      length z - m = length z \<and> end_phase (Some u) < end_phase l"
  using runParserToken_advance [OF assms, of f co b l] by fastforce+

text \<open>
  The loop of \<open>sqlite3RunParser\<close>.  \<open>interrupted\<close> says, for the text still to be read, whether
  the interrupt flag is seen set there; \<open>parse\<close> returns the new parser state and whether its
  result code is still \<^verbatim>\<open>SQLITE_OK\<close>.  The result is the parser state, why the loop ended, and
  the text not consumed.
\<close>

function runParserLoop ::
  "(cstring \<Rightarrow> tk) \<Rightarrow> (tk \<Rightarrow> bool) \<Rightarrow> ('s \<Rightarrow> tk \<Rightarrow> cstring \<Rightarrow> 's \<times> bool) \<Rightarrow> bool \<Rightarrow> (cstring \<Rightarrow> bool) \<Rightarrow>
   int \<Rightarrow> tk option \<Rightarrow> 's \<Rightarrow> cstring \<Rightarrow> ('s \<times> run_end \<times> cstring) option" where
  "runParserLoop kw f parse comments interrupted mxSqlLen lastToken s z =
     (case sqlite3GetToken kw z of None \<Rightarrow> None
      | Some (n, t) \<Rightarrow>
          if mxSqlLen - int n < 0 then Some (s, RunTooBig, z)
          else
            (case runParserToken kw f comments (interrupted z) lastToken z n t of None \<Rightarrow> None
             | Some (Stop e) \<Rightarrow> Some (s, e, z)
             | Some (Skip m) \<Rightarrow>
                 runParserLoop kw f parse comments interrupted (mxSqlLen - int n) lastToken s (drop m z)
             | Some (Feed t m) \<Rightarrow>
                 (case parse s t (take m z) of (s, ok) \<Rightarrow>
                    if ok then runParserLoop kw f parse comments interrupted (mxSqlLen - int n) (Some t) s (drop m z)
                    else Some (s, RunStopped, drop m z))))"
  by pat_completeness auto

termination
  by (relation "measures [\<lambda>(kw, f, p, c, i, mx, l, s, z). length z, \<lambda>(kw, f, p, c, i, mx, l, s, z). end_phase l]")
    (auto dest: runParserToken_shrinks)

declare runParserLoop.simps [simp del]

subsection \<open>The copies that overflow\<close>



lemma class_high: "char_class c = 27 \<or> char_class c = 30 \<Longrightarrow> IdChar c"
proof -
  have "aiClass ! unat c = 27 \<or> aiClass ! unat c = 30 \<longrightarrow> 128 \<le> unat c"
    using length_aiClass by (rule table_all [where P = "\<lambda>i v. v = 27 \<or> v = 30 \<longrightarrow> 128 \<le> i"]) (simp add: aiClass_def)
  moreover assume "char_class c = 27 \<or> char_class c = 30"
  ultimately have "128 \<le> unat c" by (simp only: char_class_def simp_thms)
  then show ?thesis by (simp add: IdChar_iff)
qed

lemma class_idchar: "char_class c \<le> 2 \<Longrightarrow> IdChar c"
proof -
  have "aiClass ! unat c \<le> 2 \<longrightarrow> (48 \<le> unat c \<and> unat c \<le> 57) \<or> (65 \<le> unat c \<and> unat c \<le> 90) \<or>
      (97 \<le> unat c \<and> unat c \<le> 122) \<or> unat c = 36 \<or> unat c = 95 \<or> 128 \<le> unat c"
    using length_aiClass
    by (rule table_all [where P = "\<lambda>i v. v \<le> 2 \<longrightarrow> (48 \<le> i \<and> i \<le> 57) \<or> (65 \<le> i \<and> i \<le> 90) \<or>
      (97 \<le> i \<and> i \<le> 122) \<or> i = 36 \<or> i = 95 \<or> 128 \<le> i"]) (simp add: aiClass_def)
  moreover assume "char_class c \<le> 2"
  ultimately show ?thesis by (simp add: char_class_def IdChar_iff)
qed







text \<open>The tokenizer has no result only where more than 32 identifier characters follow.\<close>

lemma idToken_None:
  assumes "idToken z i = None" "i \<le> length z" "list_all IdChar (take i z)"
  shows "32 < length (takeWhile IdChar z)"
proof -
  have "takeWhile IdChar z = take i z @ takeWhile IdChar (drop i z)"
    using assms(3) takeWhile_append2 [of "take i z" IdChar "drop i z"] by (simp add: list_all_iff)
  then have "length (takeWhile IdChar z) = span IdChar z i" using assms(2) by (simp add: span_def min_absorb2)
  with assms(1) show ?thesis by (auto simp: idToken_def Let_def sqlite3CheckIdentifier_def copy_into_def split: if_splits option.splits)
qed

lemma GetToken_None:
  assumes "z \<noteq> []" "sqlite3GetToken kw z = None"
  shows "32 < length (takeWhile IdChar z)"
proof -
  let ?c = "char_class (at z 0)"
  obtain a v where z: "z = a # v" using assms(1) by (cases z) auto
  have a0: "at z 0 = a" by (simp add: z at_def)
  have "?c = 1 \<and> kywdToken kw z = None \<or> ?c \<in> {0, 2, 27, 30} \<and> idToken z 1 = None"
    using assms(2) unfolding sqlite3GetToken_def Let_def by (auto split: if_splits)
  then show ?thesis
  proof (elim disjE conjE)
    assume c: "?c \<in> {0, 2, 27, 30}" and i: "idToken z 1 = None"
    have "IdChar a" using c class_idchar [of a] class_high [of a] by (auto simp: a0)
    then show ?thesis by (intro idToken_None [OF i]) (simp_all add: z)
  next
    assume c: "?c = 1" and k: "kywdToken kw z = None"
    have a: "IdChar a" using c class_idchar [of a] by (auto simp: a0)
    show ?thesis
    proof (cases "char_class (at z 1) > 2")
      case True
      with k a show ?thesis by (intro idToken_None [of z 1]) (simp_all add: z kywdToken_def)
    next
      case False
      let ?i = "span (\<lambda>c. char_class c \<le> 2) z 2"
      have k: "IdChar (at z ?i)" "idToken z (?i + 1) = None" using False k by (auto simp: kywdToken_def Let_def split: if_splits)
      have "at z 1 \<noteq> 0" "at z ?i \<noteq> 0" using False k(1) IdChar_0 class_table(1) [of "at z 1"] by auto
      then obtain b u where v: "v = b # u" and lt: "?i < length z" using at_nonzero [of z 1] at_nonzero [of z ?i] by (cases v) (auto simp: z)
      have "at z 1 = b" by (simp add: z v at_def)
      then have b: "IdChar b" using False class_idchar [of b] by simp
      have "take ?i z = a # b # takeWhile (\<lambda>c. char_class c \<le> 2) u"
        by (simp add: z v span_def takeWhile_eq_take [symmetric])
      moreover have "list_all IdChar (takeWhile (\<lambda>c. char_class c \<le> 2) u)" by (auto simp: list_all_iff dest!: set_takeWhileD intro: class_idchar)
      ultimately have "list_all IdChar (take ?i z)" using a b by simp
      then have "list_all IdChar (take (?i + 1) z)" using lt k(1) by (simp add: take_Suc_conv_app_nth at_def)
      with lt show ?thesis by (intro idToken_None [OF k(2)]) simp_all
    qed
  qed
qed

lemma window_copy_overflows: "4 < n \<Longrightarrow> sqlite3CopyWindowKeyword z n = None"
  by (simp add: sqlite3CopyWindowKeyword_def copy_into_def)

lemma getToken_total:
  "(\<And>n. sqlite3GetToken kw (drop n z) \<noteq> None) \<Longrightarrow> getToken kw f z \<noteq> None"
proof (induction kw f z rule: getToken.induct)
  case (1 kw f z)
  obtain n t where n: "sqlite3GetToken kw z = Some (n, t)" using 1(2) [of 0] by auto
  show ?case
  proof (cases "t = TK_SPACE \<or> t = TK_COMMENT")
    case True
    from 1(1) [OF n refl this] 1(2) True show ?thesis by (simp add: getToken.simps [of kw f z] n)
  next
    case False
    then show ?thesis by (simp add: getToken.simps [of kw f z] n)
  qed
qed

lemma runParserToken_total:
  assumes "\<And>n. sqlite3GetToken kw (drop n z) \<noteq> None" and "t \<noteq> TK_WINDOW" and "t \<noteq> TK_FILTER"
  shows "\<exists>a. runParserToken kw f co b l z n t = Some a"
proof -
  have "getToken kw f (drop 4 z) \<noteq> None" using assms(1) by (intro getToken_total) simp
  with assms(2,3) show ?thesis by (auto simp: runParserToken_def analyzeOverKeyword_def)
qed

lemma runParserLoop_total:
  "(\<And>n. sqlite3GetToken kw (drop n z) \<noteq> None) \<Longrightarrow>
   (\<And>n m t. sqlite3GetToken kw (drop n z) = Some (m, t) \<Longrightarrow> t \<noteq> TK_WINDOW \<and> t \<noteq> TK_FILTER) \<Longrightarrow>
   \<exists>r. runParserLoop kw f parse co i mx l s z = Some r"
proof (induction kw f parse co i mx l s z rule: runParserLoop.induct)
  case (1 kw f parse co i mx l s z)
  obtain n t where n: "sqlite3GetToken kw z = Some (n, t)" using 1(3) [of 0] by auto
  obtain a where a: "runParserToken kw f co (i z) l z n t = Some a"
    using runParserToken_total [OF 1(3)] 1(4) [of 0 n t] n by fastforce
  show ?case
  proof (cases "mx - int n < 0")
    case True
    then show ?thesis by (simp add: runParserLoop.simps [of kw f parse co i mx l s z] n)
  next
    case False
    note step = runParserLoop.simps [of kw f parse co i mx l s z]
    show ?thesis
    proof (cases a)
      case (Skip m)
      with 1(1) [OF n refl False a Skip] 1(3,4) n a False show ?thesis by (simp add: step)
    next
      case (Stop e)
      with n a False show ?thesis by (simp add: step)
    next
      case (Feed u m)
      obtain s' ok where p: "parse s u (take m z) = (s', ok)" by fastforce
      show ?thesis
      proof (cases ok)
        case True
        from 1(2) [OF n refl False a Feed p [symmetric] True] 1(3,4) n a False Feed p True
        show ?thesis by (simp add: step)
      qed (use n a False Feed p in \<open>simp add: step\<close>)
    qed
  qed
qed

subsection \<open>Properties\<close>

text \<open>
  C16: every token \<open>sqlite3GetToken\<close> returns for a non-empty text is a non-empty prefix of it, so the tokenizer
  always advances and never runs past the terminator.  Every text is cut into tokens, as far as they have a result: the
  pieces and the rest are the text; either nothing remains, and this takes at most as many calls as the
  text has bytes, or what remains has no defined token and starts with more than 32 identifier characters.
\<close>

theorem GetToken_progress:
  assumes "cstr z"
  shows "(z \<noteq> [] \<longrightarrow> sqlite3GetToken kw z = Some (n, t) \<longrightarrow> 1 \<le> n \<and> n \<le> length z) \<and>
    (\<exists>ts z'. sql_lexer.cuts kw z ts z' \<and> z = concat (map fst ts) @ z' \<and> length ts \<le> length z \<and>
       (if z' = [] then sql_lexer.tokens kw (length z) z = Some ts
        else sqlite3GetToken kw z' = None \<and> 32 < length (takeWhile IdChar z')))"
proof -
  obtain ts z' where "sql_lexer.cuts kw z ts z'" "length ts \<le> length z"
    "if z' = [] then sql_lexer.tokens kw (length z) z = Some ts else sqlite3GetToken kw z' = None \<and> sql_lexer.tokens kw (length z) z = None"
    using sql_lexer.tokens_or_stuck [OF assms order_refl] by blast
  then show ?thesis using sql_lexer.progress [OF assms, of kw n t] sql_lexer.cuts_split [OF assms, of kw ts z'] GetToken_None [of z' kw] by (auto split: if_splits)
qed

lemma GetToken_progress_witness:
  "cstr [59, 59] \<and> (\<exists>ts. sql_lexer.tokens (\<lambda>_. TK_ID) (length [59, 59 :: u8]) [59, 59] = Some ts \<and> concat (map fst ts) = [59, 59])"
proof -
  have c: "cstr [59, 59]" by (simp add: cstr_def)
  obtain ts and z' :: cstring where t: "sql_lexer.cuts (\<lambda>_. TK_ID) [59, 59] ts z'" "[59, 59] = concat (map fst ts) @ z'"
    "if z' = [] then sql_lexer.tokens (\<lambda>_. TK_ID) (length [59, 59 :: u8]) [59, 59] = Some ts
     else sqlite3GetToken (\<lambda>_. TK_ID) z' = None \<and> 32 < length (takeWhile IdChar z')"
    using GetToken_progress [OF c, of "\<lambda>_. TK_ID"] by blast
  have "length z' \<le> 2" using arg_cong [OF t(2), of length] by simp
  then have "length (takeWhile IdChar z') \<le> 2" using length_takeWhile_le [of IdChar z'] by linarith
  then have "z' = []" using t(3) by (auto split: if_splits)
  with t(2,3) c show ?thesis by auto
qed



text \<open>
  C19: as soon as the parser loop meets the keyword WINDOW or FILTER it has no defined result:
  the six bytes of the keyword are copied into a local buffer of four bytes.
\<close>

theorem RunParser_window_overflow:
  assumes "sqlite3GetToken kw z = Some (6, t)" and "t = TK_WINDOW \<or> t = TK_FILTER"
    and "6 \<le> mx" and "\<not> interrupted z"
  shows "runParserLoop kw f parse comments interrupted mx l s z = None"
proof -
  have "at z 0 \<noteq> 0" using assms(1) GetToken_at_end [of z kw] by auto
  with assms show ?thesis
    by (auto simp: runParserLoop.simps [of _ _ _ _ _ _ _ _ z] runParserToken_def special_tk_def
        window_copy_overflows)
qed

lemma RunParser_window_overflow_witness:
  "runParserLoop (\<lambda>w. if w = [70, 73, 76, 84, 69, 82] then TK_FILTER else TK_ID) (\<lambda>_. False)
     (\<lambda>s t x. (s, True)) True (\<lambda>_. False) 1000 None () [70, 73, 76, 84, 69, 82, 40] = None"
proof (rule RunParser_window_overflow [where t = TK_FILTER])
  show "sqlite3GetToken (\<lambda>w. if w = [70, 73, 76, 84, 69, 82] then TK_FILTER else TK_ID)
      [70, 73, 76, 84, 69, 82, 40] = Some (6, TK_FILTER)"
    by (simp add: sqlite3GetToken_def kywdToken_def Let_def char_class_def at_def aiClass_def span_def
        IdChar_iff)
qed simp_all

text \<open>
  C17: apart from those two copies the parser loop always ends, whatever the parser does: if no
  suffix of the text starts with an over-long identifier or with the keywords WINDOW and
  FILTER, the loop returns.
\<close>

theorem RunParser_returns:
  assumes "\<And>n. sqlite3GetToken kw (drop n z) \<noteq> None"
    and "\<And>n m t. sqlite3GetToken kw (drop n z) = Some (m, t) \<Longrightarrow> t \<noteq> TK_WINDOW \<and> t \<noteq> TK_FILTER"
  shows "\<exists>r. runParserLoop kw f parse comments interrupted mx l s z = Some r"
  using assms by (rule runParserLoop_total)

lemma RunParser_returns_witness:
  "\<exists>r. runParserLoop (\<lambda>_. TK_ID) (\<lambda>_. False) (\<lambda>s t x. (s, True)) True (\<lambda>_. False) 1000 None () [59] = Some r"
proof (rule RunParser_returns)
  have *: "sqlite3GetToken (\<lambda>_. TK_ID) (drop n [59]) = Some (if n = 0 then (1, TK_SEMI) else (0, TK_ILLEGAL))" for n
    by (cases n) (simp_all add: sqlite3GetToken_def char_class_def at_def aiClass_def)
  show "sqlite3GetToken (\<lambda>_. TK_ID) (drop n [59]) \<noteq> None" for n by (simp add: *)
  show "t \<noteq> TK_WINDOW \<and> t \<noteq> TK_FILTER" if "sqlite3GetToken (\<lambda>_. TK_ID) (drop n [59]) = Some (m, t)" for n m t
    using that by (auto simp: * split: if_splits)
qed

end
