(* ===== verification/MemJournal.thy ===== *)
theory MemJournal
  imports Sqlite_Prelude
begin

text \<open>
  The in-memory rollback journal of memjournal.c.  A journal is a list of chunks of
  \<open>nChunkSize\<close> bytes; a \<^verbatim>\<open>FileChunk*\<close> is the index of a chunk in the list, and following
  \<^verbatim>\<open>pNext\<close> goes to the next index.  The fields \<open>endOff\<close>, \<open>endChunk\<close>, \<open>readOff\<close> and \<open>readChunk\<close>
  are the two \<^verbatim>\<open>FilePoint\<close> objects of the structure.  The bytes of a freshly allocated chunk are
  arbitrary and are given by the argument \<open>junk\<close>.  The underlying file of a journal that spills
  to disk is reached through the function pointers of a VFS, so opening and writing it are
  arguments.  The result \<open>None\<close> stands for following a null pointer.

  The theory shows that the journal behaves as a file: reads return the bytes written, writes
  extend or replace the end of the file, truncation cuts it, an allocation failure leaves a
  prefix of the intended file, and spilling to disk copies exactly the content.
\<close>

subsection \<open>State\<close>

record MemJournal =
  nChunkSize :: nat
  nSpill :: int
  chunks :: "u8 list list"
  endOff :: nat
  endChunk :: "nat option"
  readOff :: nat
  readChunk :: "nat option"

definition FileChunk_size :: nat where
  "FileChunk_size = 16"

definition MEMJOURNAL_DFLT_FILECHUNKSIZE :: nat where
  "MEMJOURNAL_DFLT_FILECHUNKSIZE = 1024"

definition fileChunkSize :: "nat \<Rightarrow> nat" where
  "fileChunkSize n = FileChunk_size + (n - 8)"

datatype 'f jfile = Mem MemJournal | Real 'f

subsection \<open>Reading\<close>

text \<open>
  The search for the chunk of an offset, and the copy loop.  The copy loop returns the bytes
  copied and the chunk pointer at its end.
\<close>

function memjrnlSeek :: "nat \<Rightarrow> nat \<Rightarrow> nat \<Rightarrow> nat \<Rightarrow> nat \<Rightarrow> nat" where
  "memjrnlSeek nChunk n iOfst i iOff =
     (if i < n \<and> iOff + nChunk \<le> iOfst then memjrnlSeek nChunk n iOfst (i + 1) (iOff + nChunk) else i)"
  by pat_completeness auto

termination
  by (relation "measure (\<lambda>(nChunk, n, iOfst, i, iOff). n - i)") auto

declare memjrnlSeek.simps [simp del]

function memjrnlReadLoop ::
  "nat \<Rightarrow> u8 list list \<Rightarrow> nat \<Rightarrow> nat \<Rightarrow> int \<Rightarrow> (u8 list \<times> nat option) option" where
  "memjrnlReadLoop nChunk cs i iChunkOffset nRead =
     (if length cs \<le> i then None
      else
        let iSpace = int nChunk - int iChunkOffset;
            nCopy = min nRead iSpace;
            out = take (nat nCopy) (drop iChunkOffset (cs ! i));
            nRead = nRead - iSpace
        in if nRead < 0 then Some (out, Some i)
           else if length cs \<le> i + 1 then Some (out, None)
           else if nRead > 0 then
             map_option (\<lambda>(zOut, c). (out @ zOut, c)) (memjrnlReadLoop nChunk cs (i + 1) 0 nRead)
           else Some (out, Some (i + 1)))"
  by pat_completeness auto

termination
  by (relation "measure (\<lambda>(nChunk, cs, i, off, n). length cs - i)") auto

declare memjrnlReadLoop.simps [simp del]

definition memjrnlRead :: "MemJournal \<Rightarrow> nat \<Rightarrow> nat \<Rightarrow> (rc \<times> u8 list \<times> MemJournal) option" where
  "memjrnlRead p iAmt iOfst =
     (if endOff p < iAmt + iOfst then Some (SQLITE_IOERR_SHORT_READ, [], p)
      else
        let start =
              (if readOff p \<noteq> iOfst \<or> iOfst = 0
               then Some (memjrnlSeek (nChunkSize p) (length (chunks p)) iOfst 0 0)
               else readChunk p)
        in case start of None \<Rightarrow> None
           | Some i \<Rightarrow>
               (case memjrnlReadLoop (nChunkSize p) (chunks p) i (iOfst mod nChunkSize p) (int iAmt) of
                  None \<Rightarrow> None
                | Some (zBuf, c) \<Rightarrow>
                    Some (SQLITE_OK, zBuf,
                      p\<lparr>readOff := (if c \<noteq> None then iOfst + iAmt else 0), readChunk := c\<rparr>)))"

subsection \<open>Truncating\<close>

function memjrnlTruncSeek :: "nat \<Rightarrow> nat \<Rightarrow> nat \<Rightarrow> nat \<Rightarrow> nat \<Rightarrow> nat" where
  "memjrnlTruncSeek nChunk n sz i iOff =
     (if i < n \<and> iOff < sz then memjrnlTruncSeek nChunk n sz (i + 1) (iOff + nChunk) else i)"
  by pat_completeness auto

termination
  by (relation "measure (\<lambda>(nChunk, n, sz, i, iOff). n - i)") auto

declare memjrnlTruncSeek.simps [simp del]

definition memjrnlTruncate :: "MemJournal \<Rightarrow> nat \<Rightarrow> rc \<times> MemJournal" where
  "memjrnlTruncate p sz =
     (if sz < endOff p then
        let i = memjrnlTruncSeek (nChunkSize p) (length (chunks p)) sz 0 (nChunkSize p);
            (cs, pIter) =
              (if sz = 0 then ([], None)
               else if i < length (chunks p) then (take (i + 1) (chunks p), Some i)
               else (chunks p, None))
        in (SQLITE_OK, p\<lparr>chunks := cs, endChunk := pIter, endOff := sz, readChunk := None, readOff := 0\<rparr>)
      else (SQLITE_OK, p))"

subsection \<open>Writing\<close>

definition chunk_write :: "u8 list \<Rightarrow> nat \<Rightarrow> u8 list \<Rightarrow> u8 list" where
  "chunk_write c k xs = take k c @ xs @ drop (k + length xs) c"

definition memjrnlNewChunk :: "(nat \<Rightarrow> u8) \<Rightarrow> MemJournal \<Rightarrow> MemJournal" where
  "memjrnlNewChunk junk p =
     (let cs = (case endChunk p of Some i \<Rightarrow> take (i + 1) (chunks p) | None \<Rightarrow> []) @ [map junk [0..<nChunkSize p]]
      in p\<lparr>chunks := cs, endChunk := Some (length cs - 1)\<rparr>)"

function memjrnlWriteLoop ::
  "(nat \<Rightarrow> u8) \<Rightarrow> MemJournal \<Rightarrow> u8 list \<Rightarrow> mallocs \<Rightarrow> (rc \<times> MemJournal \<times> mallocs) option" where
  "memjrnlWriteLoop junk p zWrite ms =
     (if zWrite = [] then Some (SQLITE_OK, p, ms)
      else if nChunkSize p = 0 then None
      else
        let iChunkOffset = endOff p mod nChunkSize p;
            iSpace = min (length zWrite) (nChunkSize p - iChunkOffset)
        in if iChunkOffset = 0 \<and> \<not> malloc_ok ms then Some (SQLITE_IOERR_NOMEM, p, malloc_rest ms)
           else
             let (p, ms) = (if iChunkOffset = 0 then (memjrnlNewChunk junk p, malloc_rest ms) else (p, ms))
             in case endChunk p of None \<Rightarrow> None
                | Some i \<Rightarrow>
                    memjrnlWriteLoop junk
                      (p\<lparr>chunks := (chunks p)[i := chunk_write (chunks p ! i) iChunkOffset (take iSpace zWrite)],
                         endOff := endOff p + iSpace\<rparr>)
                      (drop iSpace zWrite) ms)"
  by pat_completeness auto

termination
  by (relation "measure (\<lambda>(junk, p, z, ms). length z)") auto

declare memjrnlWriteLoop.simps [simp del]

text \<open>The part of \<^verbatim>\<open>memjrnlWrite\<close> that stores the bytes in memory.\<close>

definition memjrnlWriteMem ::
  "(nat \<Rightarrow> u8) \<Rightarrow> MemJournal \<Rightarrow> u8 list \<Rightarrow> nat \<Rightarrow> mallocs \<Rightarrow> (rc \<times> MemJournal \<times> mallocs) option" where
  "memjrnlWriteMem junk p zBuf iOfst ms =
     (let p = (if iOfst > 0 \<and> iOfst \<noteq> endOff p then snd (memjrnlTruncate p iOfst) else p)
      in if iOfst = 0 \<and> chunks p \<noteq> []
         then Some (SQLITE_OK, p\<lparr>chunks := (chunks p)[0 := chunk_write (chunks p ! 0) 0 zBuf]\<rparr>, ms)
         else memjrnlWriteLoop junk p zBuf ms)"

subsection \<open>Spilling to a real file\<close>

fun memjrnlCopyChunks ::
  "('f \<Rightarrow> u8 list \<Rightarrow> nat \<Rightarrow> rc \<times> 'f) \<Rightarrow> u8 list list \<Rightarrow> nat \<Rightarrow> nat \<Rightarrow> nat \<Rightarrow> 'f \<Rightarrow> rc \<times> 'f" where
  "memjrnlCopyChunks os_write [] nChunk iOff eof f = (SQLITE_OK, f)"
| "memjrnlCopyChunks os_write (c # cs) nChunk iOff eof f =
     (let nChunk = (if eof < iOff + nChunk then eof - iOff else nChunk)
      in case os_write f (take nChunk c) iOff of (rc, f) \<Rightarrow>
           if rc \<noteq> SQLITE_OK then (rc, f)
           else memjrnlCopyChunks os_write cs nChunk (iOff + nChunk) eof f)"

definition memjrnlCreateFile ::
  "(rc \<times> 'f) \<Rightarrow> ('f \<Rightarrow> u8 list \<Rightarrow> nat \<Rightarrow> rc \<times> 'f) \<Rightarrow> MemJournal \<Rightarrow> rc \<times> 'f jfile" where
  "memjrnlCreateFile os_open os_write p =
     (case os_open of (rc, f) \<Rightarrow>
        if rc \<noteq> SQLITE_OK then (rc, Mem p)
        else
          case memjrnlCopyChunks os_write (chunks p) (nChunkSize p) 0 (endOff p) f of (rc, f) \<Rightarrow>
            if rc \<noteq> SQLITE_OK then (rc, Mem p) else (SQLITE_OK, Real f))"

definition memjrnlWrite ::
  "(rc \<times> 'f) \<Rightarrow> ('f \<Rightarrow> u8 list \<Rightarrow> nat \<Rightarrow> rc \<times> 'f) \<Rightarrow> (nat \<Rightarrow> u8) \<Rightarrow> MemJournal \<Rightarrow> u8 list \<Rightarrow> nat \<Rightarrow> mallocs \<Rightarrow>
   (rc \<times> 'f jfile \<times> mallocs) option" where
  "memjrnlWrite os_open os_write junk p zBuf iOfst ms =
     (if nSpill p > 0 \<and> int (length zBuf + iOfst) > nSpill p then
        (case memjrnlCreateFile os_open os_write p of
           (SQLITE_OK, Real f) \<Rightarrow> (case os_write f zBuf iOfst of (rc, f) \<Rightarrow> Some (rc, Real f, ms))
         | (rc, j) \<Rightarrow> Some (rc, j, ms))
      else map_option (\<lambda>(rc, p, ms). (rc, Mem p, ms)) (memjrnlWriteMem junk p zBuf iOfst ms))"

subsection \<open>Opening, closing and queries\<close>

definition memjrnlFileSize :: "MemJournal \<Rightarrow> nat" where
  "memjrnlFileSize p = endOff p"

definition sqlite3JournalOpen :: "(rc \<times> 'f) \<Rightarrow> int \<Rightarrow> rc \<times> 'f jfile" where
  "sqlite3JournalOpen os_open spill =
     (if spill = 0 then (case os_open of (rc, f) \<Rightarrow> (rc, Real f))
      else (SQLITE_OK, Mem \<lparr>nChunkSize =
              (if spill > 0 then nat spill else 8 + MEMJOURNAL_DFLT_FILECHUNKSIZE - FileChunk_size),
            nSpill = spill, chunks = [], endOff = 0, endChunk = None, readOff = 0, readChunk = None\<rparr>))"

definition sqlite3MemJournalOpen :: "(rc \<times> 'f) \<Rightarrow> 'f jfile" where
  "sqlite3MemJournalOpen os_open = snd (sqlite3JournalOpen os_open (- 1))"

definition sqlite3JournalCreate ::
  "(rc \<times> 'f) \<Rightarrow> ('f \<Rightarrow> u8 list \<Rightarrow> nat \<Rightarrow> rc \<times> 'f) \<Rightarrow> bool \<Rightarrow> 'f jfile \<Rightarrow> rc \<times> 'f jfile" where
  "sqlite3JournalCreate os_open os_write mainJournal j =
     (case j of Mem p \<Rightarrow>
        if nSpill p > 0 \<or> mainJournal then memjrnlCreateFile os_open os_write p else (SQLITE_OK, j)
      | _ \<Rightarrow> (SQLITE_OK, j))"

definition sqlite3JournalIsInMemory :: "'f jfile \<Rightarrow> bool" where
  "sqlite3JournalIsInMemory j = (case j of Mem p \<Rightarrow> True | _ \<Rightarrow> False)"

subsection \<open>The file a journal stands for\<close>

definition mj_content :: "MemJournal \<Rightarrow> u8 list" where
  "mj_content p = take (endOff p) (concat (chunks p))"

definition mj_inv :: "MemJournal \<Rightarrow> bool" where
  "mj_inv p \<longleftrightarrow> 0 < nChunkSize p \<and> list_all (\<lambda>c. length c = nChunkSize p) (chunks p) \<and>
     endOff p \<le> length (chunks p) * nChunkSize p \<and>
     length (chunks p) * nChunkSize p < endOff p + nChunkSize p \<and>
     endChunk p = (if chunks p = [] then None else Some (length (chunks p) - 1)) \<and>
     (readOff p = 0 \<or> readChunk p = Some (readOff p div nChunkSize p) \<and>
        readOff p div nChunkSize p < length (chunks p))"

lemma length_concat_chunks: "list_all (\<lambda>c. length c = n) cs \<Longrightarrow> length (concat cs) = length cs * n"
  by (induction cs) auto

lemma drop_concat_chunks: "list_all (\<lambda>c. length c = n) cs \<Longrightarrow> drop (i * n) (concat cs) = concat (drop i cs)"
proof (induction i arbitrary: cs)
  case (Suc i)
  show ?case
  proof (cases cs)
    case (Cons c cs')
    with Suc.prems have "length c = n" "list_all (\<lambda>c. length c = n) cs'" by auto
    with Suc.IH [of cs'] Cons show ?thesis by (simp add: add.commute)
  qed simp
qed simp

lemma take_concat_chunks: "list_all (\<lambda>c. length c = n) cs \<Longrightarrow> take (i * n) (concat cs) = concat (take i cs)"
proof (induction i arbitrary: cs)
  case (Suc i)
  show ?case
  proof (cases cs)
    case (Cons c cs')
    with Suc.prems have "length c = n" "list_all (\<lambda>c. length c = n) cs'" by auto
    with Suc.IH [of cs'] Cons show ?thesis by (simp add: add.commute)
  qed simp
qed simp

lemma mj_content_length: "mj_inv p \<Longrightarrow> length (mj_content p) = endOff p"
  using length_concat_chunks [of "nChunkSize p" "chunks p"] by (auto simp: mj_inv_def mj_content_def)

subsection \<open>Reading\<close>

lemma memjrnlSeek_div:
  "0 < n \<Longrightarrow> i \<le> k div n \<Longrightarrow> k div n < len \<Longrightarrow> memjrnlSeek n len k i (i * n) = k div n"
proof (induction "k div n - i" arbitrary: i)
  case 0
  then have i: "i = k div n" by simp
  have "k < k div n * n + n" using 0(2) by (metis add.commute dividend_less_div_times)
  then show ?case unfolding i by (simp add: memjrnlSeek.simps [of n len k "k div n"])
next
  case (Suc m)
  then have "i + 1 \<le> k div n" by simp
  then have "(i + 1) * n \<le> k" using Suc.prems(1) by (metis less_eq_div_iff_mult_less_eq)
  moreover have "memjrnlSeek n len k (i + 1) ((i + 1) * n) = k div n"
    using Suc by (intro Suc.hyps(1)) auto
  ultimately show ?case
    using Suc.prems \<open>i + 1 \<le> k div n\<close> by (simp add: memjrnlSeek.simps [of n len k i] add.commute)
qed

lemma memjrnlReadLoop_correct:
  "i < length cs \<Longrightarrow> off < n \<Longrightarrow> 0 < r \<Longrightarrow> list_all (\<lambda>c. length c = n) cs \<Longrightarrow>
   i * n + off + r \<le> length cs * n \<Longrightarrow>
   \<exists>c. memjrnlReadLoop n cs i off (int r) = Some (take r (drop off (concat (drop i cs))), c) \<and>
     (c = None \<or> c = Some ((i * n + off + r) div n) \<and> (i * n + off + r) div n < length cs)"
proof (induction "length cs - i" arbitrary: i off r)
  case (Suc m)
  have cs: "drop i cs = cs ! i # drop (i + 1) cs" using Suc.prems(1) by (simp add: Cons_nth_drop_Suc)
  have len: "length (cs ! i) = n" using Suc.prems by (auto simp: list_all_length)
  let ?out = "take r (drop off (cs ! i))"
  consider (less) "off + r < n" | (eq) "off + r = n" | (more) "n < off + r" by linarith
  then show ?case
  proof cases
    case less
    then have "(i * n + off + r) div n = i"
      using Suc.prems(2) by (simp add: add.assoc div_mult_self3)
    with less Suc.prems(1) show ?thesis
      by (simp add: memjrnlReadLoop.simps [of n cs i] cs len)
  next
    case eq
    then have sum: "i * n + off + r = (i + 1) * n" by (simp add: add.assoc)
    have "(i * n + off + r) div n = i + 1" unfolding sum using Suc.prems(2) by simp
    moreover have "int r - (int n - int off) = 0" using eq by simp
    ultimately show ?thesis using eq Suc.prems(1)
      by (cases "length cs \<le> i + 1") (simp_all add: memjrnlReadLoop.simps [of n cs i] cs len Let_def)
  next
    case more
    define r' where "r' = off + r - n"
    have r': "0 < r'" "r = n - off + r'" "int r - (int n - int off) = int r'"
      using more Suc.prems(2) by (auto simp: r'_def)
    have sum: "(i + 1) * n + 0 + r' = i * n + off + r" using r' Suc.prems(2) by simp
    then have "(i + 1) * n < length cs * n" using Suc.prems(5) r'(1) by linarith
    then have i1: "i + 1 < length cs" by (simp only: mult_less_cancel2)
    have m: "m = length cs - (i + 1)" using Suc.hyps(2) by simp
    obtain c where c: "memjrnlReadLoop n cs (i + 1) 0 (int r') = Some (take r' (concat (drop (i + 1) cs)), c)"
      "c = None \<or> c = Some ((i * n + off + r) div n) \<and> (i * n + off + r) div n < length cs"
      using Suc.hyps(1) [of "i + 1" 0 r', unfolded sum] m Suc.prems i1 r'(1) by auto
    have "memjrnlReadLoop n cs i off (int r) = Some (drop off (cs ! i) @ take r' (concat (drop (i + 1) cs)), c)"
      using i1 r' c(1) Suc.prems(2) len by (simp add: memjrnlReadLoop.simps [of n cs i] Let_def)
    with c(2) show ?thesis using r' Suc.prems(2) len by (simp add: cs)
  qed
qed simp

lemma memjrnlRead_ok:
  assumes "mj_inv p" and "0 < iAmt" and "iAmt + iOfst \<le> endOff p"
  shows "\<exists>q. memjrnlRead p iAmt iOfst = Some (SQLITE_OK, take iAmt (drop iOfst (mj_content p)), q) \<and>
    mj_inv q \<and> mj_content q = mj_content p \<and> nChunkSize q = nChunkSize p \<and> nSpill q = nSpill p"
proof -
  let ?n = "nChunkSize p" and ?i = "iOfst div nChunkSize p"
  note inv = assms(1) [unfolded mj_inv_def]
  have le: "iOfst + iAmt \<le> length (chunks p) * ?n" using assms(3) inv by simp
  have eq: "?i * ?n + iOfst mod ?n = iOfst" by simp
  have lt: "?i < length (chunks p)"
    using le assms(2) inv by (simp add: div_less_iff_less_mult)
  have start: "(if readOff p \<noteq> iOfst \<or> iOfst = 0 then Some (memjrnlSeek ?n (length (chunks p)) iOfst 0 0)
      else readChunk p) = Some ?i"
    using memjrnlSeek_div [of ?n 0 iOfst "length (chunks p)"] inv lt by auto
  obtain c where c: "memjrnlReadLoop ?n (chunks p) ?i (iOfst mod ?n) (int iAmt) =
      Some (take iAmt (drop (iOfst mod ?n) (concat (drop ?i (chunks p)))), c)"
    "c = None \<or> c = Some ((iOfst + iAmt) div ?n) \<and> (iOfst + iAmt) div ?n < length (chunks p)"
    using memjrnlReadLoop_correct [of ?i "chunks p" "iOfst mod ?n" ?n iAmt] lt inv assms(2) le by auto
  have "drop (iOfst mod ?n) (concat (drop ?i (chunks p))) = drop iOfst (concat (chunks p))"
    using drop_concat_chunks [of ?n "chunks p" ?i] inv eq by (metis drop_drop add.commute)
  moreover have "take iAmt (drop iOfst (mj_content p)) = take iAmt (drop iOfst (concat (chunks p)))"
    using assms(3) by (simp add: mj_content_def drop_take min_def)
  ultimately show ?thesis
    using c assms(3) inv start by (auto simp: memjrnlRead_def Let_def mj_inv_def mj_content_def)
qed

subsection \<open>Truncating\<close>

lemma memjrnlTruncSeek_div:
  "0 < n \<Longrightarrow> i \<le> k div n \<Longrightarrow> k div n < len \<Longrightarrow> memjrnlTruncSeek n len (Suc k) i (i * n + n) = k div n"
proof (induction "k div n - i" arbitrary: i)
  case 0
  then have i: "i = k div n" by simp
  have "k < k div n * n + n" using 0(2) by (metis add.commute dividend_less_div_times)
  then show ?case unfolding i by (simp add: memjrnlTruncSeek.simps [of n len "Suc k" "k div n"])
next
  case (Suc m)
  then have "i + 1 \<le> k div n" by simp
  then have "(i + 1) * n \<le> k" using Suc.prems(1) by (metis less_eq_div_iff_mult_less_eq)
  moreover have "memjrnlTruncSeek n len (Suc k) (i + 1) ((i + 1) * n + n) = k div n"
    using Suc by (intro Suc.hyps(1)) auto
  ultimately show ?case
    using Suc.prems \<open>i + 1 \<le> k div n\<close> by (simp add: memjrnlTruncSeek.simps [of n len "Suc k" i] add.commute)
qed

lemma memjrnlTruncate_ok:
  assumes "mj_inv p"
  shows "mj_inv (snd (memjrnlTruncate p sz)) \<and>
    mj_content (snd (memjrnlTruncate p sz)) = take sz (mj_content p) \<and>
    endOff (snd (memjrnlTruncate p sz)) = min sz (endOff p) \<and>
    nSpill (snd (memjrnlTruncate p sz)) = nSpill p \<and> nChunkSize (snd (memjrnlTruncate p sz)) = nChunkSize p"
proof (cases "sz < endOff p \<and> sz \<noteq> 0")
  case True
  define k n where "k = sz - 1" and "n = nChunkSize p"
  note inv = assms [unfolded mj_inv_def, folded n_def]
  have sz: "sz = Suc k" using True by (simp add: k_def)
  have kn: "k div n * n < sz" "sz \<le> k div n * n + n"
    using inv sz by (simp add: less_Suc_eq_le, metis Suc_leI add.commute dividend_less_div_times)
  have lt: "k div n < length (chunks p)"
    using True inv sz by (simp add: div_less_iff_less_mult)
  have seek: "memjrnlTruncSeek n (length (chunks p)) sz 0 n = k div n"
    using memjrnlTruncSeek_div [of n 0 k] inv lt sz by simp
  have "concat (take (k div n + 1) (chunks p)) = take ((k div n + 1) * n) (concat (chunks p))"
    using take_concat_chunks inv by metis
  then have "take sz (concat (take (k div n + 1) (chunks p))) = take sz (concat (chunks p))"
    using kn by (simp add: min_def)
  moreover have "snd (memjrnlTruncate p sz) = p\<lparr>chunks := take (k div n + 1) (chunks p),
      endChunk := Some (k div n), endOff := sz, readChunk := None, readOff := 0\<rparr>"
    using True seek lt by (simp add: memjrnlTruncate_def n_def Let_def)
  moreover have "length (take (k div n + 1) (chunks p)) = k div n + 1" using lt by simp
  moreover have "take (k div n + 1) (chunks p) \<noteq> []" using lt by auto
  moreover have "list_all (\<lambda>c. length c = n) (take (k div n + 1) (chunks p))"
    using inv by (auto simp: list_all_iff dest: in_set_takeD)
  ultimately show ?thesis using True kn inv
    by (simp add: mj_inv_def mj_content_def n_def [symmetric] min_def del: length_take take_eq_Nil)
next
  case False
  with assms show ?thesis
    by (auto simp: memjrnlTruncate_def mj_inv_def mj_content_def)
qed

subsection \<open>Writing\<close>

text \<open>
  Before a store, the end of the file is in the last chunk, at offset \<open>off\<close>; a new chunk is
  added first when the file ends at a chunk boundary.
\<close>

definition mj_at_end :: "MemJournal \<Rightarrow> u8 list list \<Rightarrow> u8 list \<Rightarrow> nat \<Rightarrow> bool" where
  "mj_at_end p cs c off \<longleftrightarrow> chunks p = cs @ [c] \<and> list_all (\<lambda>c. length c = nChunkSize p) (chunks p) \<and>
     endOff p = length cs * nChunkSize p + off \<and> off < nChunkSize p \<and> endChunk p = Some (length cs) \<and>
     (readOff p = 0 \<or> readChunk p = Some (readOff p div nChunkSize p) \<and>
        readOff p div nChunkSize p < length (chunks p))"

lemma mj_at_end_new:
  assumes "mj_inv p" and "endOff p mod nChunkSize p = 0"
  shows "mj_at_end (memjrnlNewChunk junk p) (chunks p) (map junk [0..<nChunkSize p]) 0"
    and "mj_content (memjrnlNewChunk junk p) = mj_content p"
proof -
  note inv = assms(1) [unfolded mj_inv_def]
  obtain k where k: "endOff p = k * nChunkSize p" using assms(2) by (metis mod_0_imp_dvd dvd_def mult.commute)
  have "k * nChunkSize p \<le> length (chunks p) * nChunkSize p" "length (chunks p) * nChunkSize p < (k + 1) * nChunkSize p"
    using inv k by auto
  then have "k \<le> length (chunks p)" "length (chunks p) < k + 1"
    using inv by (simp, metis mult_less_cancel2)
  then have eq: "endOff p = length (chunks p) * nChunkSize p" using k by simp
  have "take (length (chunks p)) (chunks p) = chunks p" by simp
  with inv eq show *: "mj_at_end (memjrnlNewChunk junk p) (chunks p) (map junk [0..<nChunkSize p]) 0"
    by (auto simp: mj_at_end_def memjrnlNewChunk_def Let_def simp flip: Suc_diff_le split: if_splits)
  have "endOff (memjrnlNewChunk junk p) = endOff p" by (simp add: memjrnlNewChunk_def Let_def)
  then show "mj_content (memjrnlNewChunk junk p) = mj_content p"
    using * eq inv length_concat_chunks [of "nChunkSize p" "chunks p"]
    by (simp add: mj_content_def mj_at_end_def)
qed

lemma mj_at_end_old:
  assumes "mj_inv p" and "endOff p mod nChunkSize p \<noteq> 0"
  obtains cs c where "mj_at_end p cs c (endOff p mod nChunkSize p)"
proof -
  define n where "n = nChunkSize p"
  note inv = assms(1) [unfolded mj_inv_def, folded n_def]
  have ne: "chunks p \<noteq> []" using inv assms(2) by auto
  define cs where "cs = butlast (chunks p)"
  have cs: "chunks p = cs @ [last (chunks p)]" using ne by (simp add: cs_def)
  then have len: "length (chunks p) = length cs + 1" by (metis length_append_singleton Suc_eq_plus1)
  have "length cs * n \<le> endOff p" "endOff p < length cs * n + n"
    using inv len assms(2) by (auto simp: n_def [symmetric] le_less) 
  then have "endOff p div n = length cs"
    by (metis add.commute div_nat_eqI mult.commute mult_Suc)
  then have "endOff p = length cs * n + endOff p mod n" by (metis div_mult_mod_eq)
  with inv cs len ne have "mj_at_end p cs (last (chunks p)) (endOff p mod n)"
    unfolding mj_at_end_def n_def [symmetric] by simp
  then show thesis unfolding n_def by (rule that)
qed

lemma mj_at_end_store:
  assumes "mj_at_end p cs c off" and "xs \<noteq> []" and "length xs \<le> nChunkSize p - off"
    and "q = p\<lparr>chunks := (chunks p)[length cs := chunk_write (chunks p ! length cs) off xs], endOff := endOff p + length xs\<rparr>"
  shows "mj_inv q \<and> mj_content q = mj_content p @ xs"
proof -
  note a = assms(1) [unfolded mj_at_end_def]
  have len: "length c = nChunkSize p" using a by auto
  have cs: "length (concat cs) = length cs * nChunkSize p" by (rule length_concat_chunks) (use a in auto)
  have w: "(chunks p)[length cs := chunk_write (chunks p ! length cs) off xs] =
      cs @ [take off c @ xs @ drop (off + length xs) c]"
    using a by (simp add: chunk_write_def)
  have "mj_content q = concat cs @ take off c @ xs" "mj_content p = concat cs @ take off c"
    using a len cs w by (simp_all add: mj_content_def assms(4))
  moreover have "mj_inv q"
    using a len assms(2,3) w by (cases xs) (auto simp: mj_inv_def assms(4))
  ultimately show ?thesis by simp
qed

text \<open>What a store in memory guarantees: the file grows by a prefix of the data, all of it on success.\<close>

definition mj_append_post :: "MemJournal \<Rightarrow> u8 list \<Rightarrow> mallocs \<Rightarrow> rc \<times> MemJournal \<times> mallocs \<Rightarrow> bool" where
  "mj_append_post p z ms = (\<lambda>(rc, q, ms').
     mj_inv q \<and> nSpill q = nSpill p \<and> nChunkSize q = nChunkSize p \<and>
     (\<exists>k \<le> length z. mj_content q = mj_content p @ take k z) \<and>
     (rc = SQLITE_OK \<longrightarrow> mj_content q = mj_content p @ z) \<and>
     (rc = SQLITE_OK \<or> rc = SQLITE_IOERR_NOMEM) \<and> (ms = [] \<longrightarrow> rc = SQLITE_OK \<and> ms' = []))"

lemma mj_append_post_step:
  assumes "mj_append_post q (drop s z) ms1 r" and "mj_content q = mj_content p @ take s z"
    and "nSpill q = nSpill p" and "nChunkSize q = nChunkSize p" and "ms = [] \<Longrightarrow> ms1 = []" and "s \<le> length z"
  shows "mj_append_post p z ms r"
proof -
  obtain rc q' ms' where r: "r = (rc, q', ms')" by (cases r)
  from assms(1) obtain k where k: "k \<le> length z - s" "mj_content q' = mj_content q @ take k (drop s z)"
    unfolding mj_append_post_def r by auto
  have "take s z @ take k (drop s z) = take (s + k) z" by (simp add: take_add)
  with k assms(2) have "mj_content q' = mj_content p @ take (s + k) z" by simp
  moreover have "s + k \<le> length z" using k assms(6) by simp
  ultimately have "\<exists>k \<le> length z. mj_content q' = mj_content p @ take k z" by blast
  moreover have "take s z @ drop s z = z" by simp
  ultimately show ?thesis using assms unfolding mj_append_post_def r by auto
qed

lemma memjrnlWriteLoop_ok:
  "mj_inv p \<Longrightarrow> \<exists>r. memjrnlWriteLoop junk p z ms = Some r \<and> mj_append_post p z ms r"
proof (induction z arbitrary: p ms rule: length_induct)
  case (1 z)
  define off s where "off = endOff p mod nChunkSize p" and "s = min (length z) (nChunkSize p - off)"
  have n: "0 < nChunkSize p" using 1(2) by (simp add: mj_inv_def)
  have off: "off < nChunkSize p" using n by (simp add: off_def)
  consider "z = []" | "z \<noteq> []" "off = 0" "\<not> malloc_ok ms" | (store) "z \<noteq> []" "off = 0 \<longrightarrow> malloc_ok ms" by blast
  then show ?case
  proof cases
    case store
    define p1 ms1 where "p1 = (if off = 0 then memjrnlNewChunk junk p else p)"
      and "ms1 = (if off = 0 then malloc_rest ms else ms)"
    obtain cs c where e: "mj_at_end p1 cs c off" "mj_content p1 = mj_content p"
    proof (cases "off = 0")
      case True
      then show ?thesis
        using that [of "chunks p" "map junk [0..<nChunkSize p]"] mj_at_end_new [OF 1(2), of junk]
        by (simp add: p1_def off_def)
    next
      case False
      with mj_at_end_old [OF 1(2)] that show ?thesis by (auto simp: p1_def off_def)
    qed
    have same: "nSpill p1 = nSpill p" "nChunkSize p1 = nChunkSize p" "endChunk p1 = Some (length cs)"
      using e(1) by (auto simp: p1_def memjrnlNewChunk_def mj_at_end_def)
    define q where "q = p1\<lparr>chunks := (chunks p1)[length cs := chunk_write (chunks p1 ! length cs) off (take s z)],
      endOff := endOff p1 + s\<rparr>"
    have q: "mj_inv q \<and> mj_content q = mj_content p1 @ take s z"
      by (rule mj_at_end_store [OF e(1)]) (use store off same in \<open>auto simp: q_def s_def min_def\<close>)
    have "length (drop s z) < length z" using store off by (simp add: s_def)
    with 1(1) q obtain r where r: "memjrnlWriteLoop junk q (drop s z) ms1 = Some r"
      "mj_append_post q (drop s z) ms1 r" by blast
    have "memjrnlWriteLoop junk p z ms = Some r"
      unfolding memjrnlWriteLoop.simps [of junk p z ms] Let_def off_def [symmetric] s_def [symmetric]
      using store n r(1) same(3) by (cases "off = 0") (simp_all add: q_def p1_def ms1_def)
    moreover have "mj_append_post p z ms r"
      by (rule mj_append_post_step [OF r(2)]) (use q e(2) same in \<open>auto simp: q_def ms1_def s_def\<close>)
    ultimately show ?thesis by blast
  qed (use 1(2) n in \<open>auto simp: memjrnlWriteLoop.simps [of junk p z ms]
      memjrnlWriteLoop.simps [of junk p "[]" ms] mj_append_post_def Let_def off_def\<close>)
qed

definition file_write :: "u8 list \<Rightarrow> u8 list \<Rightarrow> nat \<Rightarrow> u8 list" where
  "file_write f z k = (if k = 0 \<and> f \<noteq> [] then take (length f) (z @ drop (length z) f) else take k f @ z)"

lemma memjrnlWriteMem_ok:
  assumes "mj_inv p" and "k \<le> endOff p" and "k = 0 \<longrightarrow> chunks p \<noteq> [] \<longrightarrow> length z \<le> nChunkSize p"
  shows "\<exists>rc q ms'. memjrnlWriteMem junk p z k ms = Some (rc, q, ms') \<and> mj_inv q \<and> nSpill q = nSpill p \<and>
    nChunkSize q = nChunkSize p \<and> (rc = SQLITE_OK \<longrightarrow> mj_content q = file_write (mj_content p) z k) \<and>
    (rc \<noteq> SQLITE_OK \<longrightarrow> rc = SQLITE_IOERR_NOMEM \<and> (\<exists>j. mj_content q = take k (mj_content p) @ take j z)) \<and>
    (ms = [] \<longrightarrow> rc = SQLITE_OK \<and> ms' = [])"
proof (cases "k = 0 \<and> chunks p \<noteq> []")
  case True
  then obtain c cs where c: "chunks p = c # cs" by (cases "chunks p") auto
  have len: "length c = nChunkSize p" using assms(1) c by (auto simp: mj_inv_def)
  let ?q = "p\<lparr>chunks := (z @ drop (length z) c) # cs\<rparr>"
  have "0 < endOff p" using assms(1) c by (auto simp: mj_inv_def)
  then have "mj_content p \<noteq> []" using mj_content_length [OF assms(1)] by auto
  moreover have "mj_content ?q = take (endOff p) (z @ drop (length z) (mj_content p))"
    using len True assms(3) c by (simp add: mj_content_def drop_take min_def)
  moreover have "mj_inv ?q" using assms(1) c len True assms(3) by (auto simp: mj_inv_def)
  ultimately show ?thesis
    using True c by (simp add: memjrnlWriteMem_def chunk_write_def file_write_def mj_content_length [OF assms(1)])
next
  case False
  define p1 where "p1 = (if 0 < k \<and> k \<noteq> endOff p then snd (memjrnlTruncate p k) else p)"
  have p1: "mj_inv p1" "mj_content p1 = take k (mj_content p)" "nSpill p1 = nSpill p" "nChunkSize p1 = nChunkSize p"
    using memjrnlTruncate_ok [OF assms(1), of k] assms(1,2) False mj_content_length [OF assms(1)]
    by (auto simp: p1_def mj_content_def)
  have ne: "k = 0 \<Longrightarrow> chunks p1 = []" using False by (simp add: p1_def)
  have "k = 0 \<Longrightarrow> mj_content p = []" using False by (auto simp: mj_content_def)
  moreover obtain rc q ms' where w: "memjrnlWriteLoop junk p1 z ms = Some (rc, q, ms')"
    "mj_append_post p1 z ms (rc, q, ms')"
    using memjrnlWriteLoop_ok [OF p1(1), of junk z ms] by auto
  moreover have "memjrnlWriteMem junk p z k ms = memjrnlWriteLoop junk p1 z ms"
    using ne by (cases "k = 0") (simp_all add: memjrnlWriteMem_def Let_def p1_def)
  ultimately show ?thesis
    using p1 by (auto simp: mj_append_post_def file_write_def)
qed

subsection \<open>Spilling\<close>

text \<open>
  What the journal relies on of the file of the VFS: an opened file is empty, and a successful
  write within or at the end of the file replaces the bytes it covers.
\<close>

definition os_file_laws :: "('f \<Rightarrow> u8 list) \<Rightarrow> (rc \<times> 'f) \<Rightarrow> ('f \<Rightarrow> u8 list \<Rightarrow> nat \<Rightarrow> rc \<times> 'f) \<Rightarrow> bool" where
  "os_file_laws bytes os_open os_write \<longleftrightarrow>
     (fst os_open = SQLITE_OK \<longrightarrow> bytes (snd os_open) = []) \<and>
     (\<forall>f xs k. k \<le> length (bytes f) \<longrightarrow> fst (os_write f xs k) = SQLITE_OK \<longrightarrow>
        bytes (snd (os_write f xs k)) = take k (bytes f) @ xs @ drop (k + length xs) (bytes f))"

lemma memjrnlCopyChunks_ok:
  assumes "os_file_laws bytes os_open os_write"
  shows "list_all (\<lambda>c. length c = n) cs \<Longrightarrow> length (bytes f) = k \<Longrightarrow> k \<le> eof \<Longrightarrow> eof \<le> k + length cs * n \<Longrightarrow>
    length cs * n < eof - k + n \<Longrightarrow> memjrnlCopyChunks os_write cs n k eof f = (SQLITE_OK, f') \<Longrightarrow>
    bytes f' = take eof (bytes f @ concat cs)"
proof (induction cs arbitrary: f k)
  case (Cons c cs)
  define m where "m = (if eof < k + n then eof - k else n)"
  obtain g where g: "os_write f (take m c) k = (SQLITE_OK, g)"
    "memjrnlCopyChunks os_write cs m (k + m) eof g = (SQLITE_OK, f')"
    using Cons.prems(6) by (auto simp: m_def [symmetric] Let_def split: prod.splits if_splits)
  have b: "bytes g = bytes f @ take m c"
    using assms Cons.prems(2) g(1) unfolding os_file_laws_def by (metis append.right_neutral drop_all fst_conv le_add1 order_refl snd_conv take_all)
  have len: "length c = n" using Cons.prems(1) by simp
  show ?case
  proof (cases "eof < k + n")
    case True
    have "length cs * n < eof - k" using Cons.prems(5) by simp
    then have "length cs * n < n" using True by linarith
    then have "cs = []" by (cases cs) auto
    with g(2) b len True Cons.prems(2,3) show ?thesis by (simp add: m_def)
  next
    case False
    then have m: "m = n" by (simp add: m_def)
    with Cons.IH [of g "k + n"] Cons.prems False g(2) b len show ?thesis by (simp add: add.assoc)
  qed
qed simp

lemma memjrnlCreateFile_ok:
  assumes "os_file_laws bytes os_open os_write" and "mj_inv p"
    and "memjrnlCreateFile os_open os_write p = (rc, j)"
  shows "(rc \<noteq> SQLITE_OK \<longrightarrow> j = Mem p) \<and> (rc = SQLITE_OK \<longrightarrow> (\<exists>f. j = Real f \<and> bytes f = mj_content p))"
proof (cases "rc = SQLITE_OK")
  case False
  with assms(3) show ?thesis
    by (auto simp: memjrnlCreateFile_def split: prod.splits if_splits)
next
  case True
  with assms(3) obtain f0 f where f: "os_open = (SQLITE_OK, f0)" "j = Real f"
    "memjrnlCopyChunks os_write (chunks p) (nChunkSize p) 0 (endOff p) f0 = (SQLITE_OK, f)"
    by (auto simp: memjrnlCreateFile_def split: prod.splits if_splits)
  have "bytes f0 = []" using assms(1) f(1) by (auto simp: os_file_laws_def)
  with memjrnlCopyChunks_ok [OF assms(1) _ _ _ _ _ f(3)] assms(2)
  have "bytes f = mj_content p" by (simp add: mj_inv_def mj_content_def)
  with True f(2) show ?thesis by simp
qed

subsection \<open>A journal as a file\<close>

text \<open>
  Calls on an open journal, and what they do to a file held as one list of bytes.  The calls
  allowed are those the pager makes: reads of at least one byte, writes that start within the
  file or at its end, and rewrites of the start of the file that fit in one chunk.
\<close>

datatype mj_call = MRead nat nat | MWrite "u8 list" nat | MTruncate nat | MSize

datatype mj_result = RBytes "u8 list" | RCode rc | RSize nat

fun mj_exec :: "(nat \<Rightarrow> u8) \<Rightarrow> MemJournal \<Rightarrow> mj_call \<Rightarrow> (mj_result \<times> MemJournal) option" where
  "mj_exec junk p (MRead n k) =
     map_option (\<lambda>(rc, bs, q). (if rc = SQLITE_OK then RBytes bs else RCode rc, q)) (memjrnlRead p n k)"
| "mj_exec junk p (MWrite z k) =
     (case memjrnlWrite (SQLITE_IOERR, ()) (\<lambda>f xs k. (SQLITE_IOERR, ())) junk p z k [] of
        Some (rc, Mem q, ms) \<Rightarrow> Some (RCode rc, q) | _ \<Rightarrow> None)"
| "mj_exec junk p (MTruncate k) = (case memjrnlTruncate p k of (rc, q) \<Rightarrow> Some (RCode rc, q))"
| "mj_exec junk p MSize = Some (RSize (memjrnlFileSize p), p)"

fun mj_execs :: "(nat \<Rightarrow> u8) \<Rightarrow> MemJournal \<Rightarrow> mj_call list \<Rightarrow> mj_result list option" where
  "mj_execs junk p [] = Some []"
| "mj_execs junk p (c # cs) =
     (case mj_exec junk p c of None \<Rightarrow> None | Some (r, q) \<Rightarrow> map_option ((#) r) (mj_execs junk q cs))"

fun file_exec :: "u8 list \<Rightarrow> mj_call \<Rightarrow> mj_result \<times> u8 list" where
  "file_exec f (MRead n k) =
     (if length f < n + k then RCode SQLITE_IOERR_SHORT_READ else RBytes (take n (drop k f)), f)"
| "file_exec f (MWrite z k) = (RCode SQLITE_OK, file_write f z k)"
| "file_exec f (MTruncate k) = (RCode SQLITE_OK, take k f)"
| "file_exec f MSize = (RSize (length f), f)"

fun file_execs :: "u8 list \<Rightarrow> mj_call list \<Rightarrow> mj_result list" where
  "file_execs f [] = []"
| "file_execs f (c # cs) = (case file_exec f c of (r, g) \<Rightarrow> r # file_execs g cs)"

fun call_ok :: "nat \<Rightarrow> u8 list \<Rightarrow> mj_call \<Rightarrow> bool" where
  "call_ok n f (MRead a k) \<longleftrightarrow> 0 < a"
| "call_ok n f (MWrite z k) \<longleftrightarrow> k \<le> length f \<and> (k = 0 \<longrightarrow> f = [] \<or> length z < n)"
| "call_ok n f c \<longleftrightarrow> True"

fun calls_ok :: "nat \<Rightarrow> u8 list \<Rightarrow> mj_call list \<Rightarrow> bool" where
  "calls_ok n f [] \<longleftrightarrow> True"
| "calls_ok n f (c # cs) \<longleftrightarrow> call_ok n f c \<and> calls_ok n (snd (file_exec f c)) cs"

lemma mj_nonempty: "mj_inv p \<Longrightarrow> mj_content p = [] \<longleftrightarrow> chunks p = []"
  using mj_content_length [of p] by (cases "chunks p") (auto simp: mj_inv_def mj_content_def)

lemma mj_exec_file:
  assumes "mj_inv p" and "nSpill p < 0" and "call_ok (nChunkSize p) (mj_content p) c"
  shows "\<exists>q. mj_exec junk p c = Some (fst (file_exec (mj_content p) c), q) \<and> mj_inv q \<and> nSpill q < 0 \<and>
    nChunkSize q = nChunkSize p \<and> mj_content q = snd (file_exec (mj_content p) c)"
proof (cases c)
  case (MRead a k)
  show ?thesis
  proof (cases "a + k \<le> endOff p")
    case True
    with memjrnlRead_ok [OF assms(1), of a k] assms MRead show ?thesis
      by (auto simp: mj_content_length)
  next
    case False
    with assms MRead show ?thesis by (auto simp: mj_content_length memjrnlRead_def)
  qed
next
  case (MWrite z k)
  have "\<exists>rc q ms'. memjrnlWriteMem junk p z k [] = Some (rc, q, ms') \<and> mj_inv q \<and> nSpill q = nSpill p \<and>
    nChunkSize q = nChunkSize p \<and> rc = SQLITE_OK \<and> mj_content q = file_write (mj_content p) z k"
    using memjrnlWriteMem_ok [OF assms(1), of k z junk "[]"] assms MWrite mj_nonempty [OF assms(1)]
    by (auto simp: mj_content_length)
  with MWrite assms(2) show ?thesis by (auto simp: memjrnlWrite_def)
next
  case (MTruncate k)
  with memjrnlTruncate_ok [OF assms(1), of k] assms show ?thesis
    by (auto simp: memjrnlTruncate_def Let_def split: prod.splits)
next
  case MSize
  with assms show ?thesis by (simp add: memjrnlFileSize_def mj_content_length)
qed

lemma mj_execs_file:
  "mj_inv p \<Longrightarrow> nSpill p < 0 \<Longrightarrow> calls_ok (nChunkSize p) (mj_content p) cs \<Longrightarrow>
   mj_execs junk p cs = Some (file_execs (mj_content p) cs)"
proof (induction cs arbitrary: p)
  case (Cons c cs)
  then obtain q where q: "mj_exec junk p c = Some (fst (file_exec (mj_content p) c), q)" "mj_inv q" "nSpill q < 0"
    "nChunkSize q = nChunkSize p" "mj_content q = snd (file_exec (mj_content p) c)"
    using mj_exec_file [of p c junk] by auto
  with Cons.IH [of q] Cons.prems(3) show ?case by (simp add: split_beta)
qed simp

lemma open_inv:
  assumes "snd (sqlite3JournalOpen os_open spill) = Mem p"
  shows "mj_inv p \<and> mj_content p = [] \<and> nSpill p = spill \<and> spill \<noteq> 0 \<and>
    nChunkSize p = (if spill > 0 then nat spill else 1016)"
  using assms
  by (auto simp: sqlite3JournalOpen_def mj_inv_def mj_content_def MEMJOURNAL_DFLT_FILECHUNKSIZE_def
      FileChunk_size_def split: if_splits prod.splits)

subsection \<open>Properties\<close>

text \<open>
  C27: a journal that stays in memory behaves as a file.  Every sequence of reads, writes, truncations and
  size queries that follows the protocol of journals, with no failing allocation, on a newly opened journal
  gives the results of the same sequence on a single list of bytes, whatever the chunk boundaries, the
  cached read position and the initial content of the allocated memory.  The protocol: reads are not empty,
  writes begin inside or at the end of the file, and a file that is not empty is rewritten at offset 0 with less than a
  chunk.  As in the code, a write inside the file cuts it at the write, and a write at
  offset 0 keeps the rest.
\<close>

theorem MemJournal_refines_file:
  assumes "sqlite3MemJournalOpen os_open = Mem p" and "calls_ok 1016 [] cs"
  shows "mj_execs junk p cs = Some (file_execs [] cs)"
  using open_inv [of os_open "- 1" p] mj_execs_file [of p cs junk] assms
  by (simp add: sqlite3MemJournalOpen_def)

lemma MemJournal_refines_file_witness:
  "\<exists>p. sqlite3MemJournalOpen (SQLITE_OK, ()) = Mem p \<and>
     mj_execs (\<lambda>_. 7) p [MWrite [1, 2, 3] 0, MRead 2 1, MWrite [9] 2, MRead 3 0, MRead 4 0] =
     Some [RCode SQLITE_OK, RBytes [2, 3], RCode SQLITE_OK, RBytes [1, 2, 9], RCode SQLITE_IOERR_SHORT_READ]"
proof -
  obtain p where p: "sqlite3MemJournalOpen (SQLITE_OK, ()) = Mem p"
    by (simp add: sqlite3MemJournalOpen_def sqlite3JournalOpen_def)
  have "mj_execs (\<lambda>_. 7) p [MWrite [1, 2, 3] 0, MRead 2 1, MWrite [9] 2, MRead 3 0, MRead 4 0] =
     Some (file_execs [] [MWrite [1, 2, 3] 0, MRead 2 1, MWrite [9] 2, MRead 3 0, MRead 4 0])"
    by (rule MemJournal_refines_file [OF p]) (simp add: file_write_def)
  then show ?thesis using p by (simp add: file_write_def)
qed

text \<open>
  C28: a write to a journal in memory never damages it: either it succeeds and the file is the
  intended one, or an allocation failed, the code is \<^verbatim>\<open>SQLITE_IOERR_NOMEM\<close>, and the file is a
  prefix of the intended one that still holds everything before the write; the invariant of
  the chunk list holds in both cases.
\<close>

theorem MemJournal_write_failure:
  assumes "mj_inv p" and "k \<le> endOff p" and "k = 0 \<longrightarrow> chunks p \<noteq> [] \<longrightarrow> length z \<le> nChunkSize p"
    and "nSpill p \<le> 0"
  shows "\<exists>rc q ms'. memjrnlWrite os_open os_write junk p z k ms = Some (rc, Mem q, ms') \<and> mj_inv q \<and>
    (rc = SQLITE_OK \<longrightarrow> mj_content q = file_write (mj_content p) z k) \<and>
    (rc \<noteq> SQLITE_OK \<longrightarrow> rc = SQLITE_IOERR_NOMEM \<and> (\<exists>j. mj_content q = take k (mj_content p) @ take j z))"
  using memjrnlWriteMem_ok [OF assms(1-3), of junk ms] assms(4) by (auto simp: memjrnlWrite_def)

lemma MemJournal_write_failure_witness:
  "\<exists>p rc q ms'. mj_inv p \<and>
     memjrnlWrite (SQLITE_OK, ()) (\<lambda>f xs k. (SQLITE_OK, ())) (\<lambda>_. 0) p [1, 2] 0 [False] = Some (rc, Mem q, ms') \<and>
     mj_inv q"
proof -
  let ?p = "\<lparr>nChunkSize = 1016, nSpill = - 1, chunks = [], endOff = 0, endChunk = None, readOff = 0, readChunk = None\<rparr>"
  have "mj_inv ?p" by (simp add: mj_inv_def)
  with MemJournal_write_failure [of ?p 0 "[1, 2]" "(SQLITE_OK, ())" "\<lambda>f xs k. (SQLITE_OK, ())" "\<lambda>_. 0" "[False]"]
  show ?thesis by auto
qed

lemma memjrnlCopyChunks_returns:
  "\<forall>f xs k. fst (os_write f xs k) = SQLITE_OK \<Longrightarrow> fst (memjrnlCopyChunks os_write cs n iOff eof f) = SQLITE_OK"
proof (induction cs arbitrary: n iOff f)
  case (Cons c cs)
  let ?n = "if eof < iOff + n then eof - iOff else n"
  obtain g where "os_write f (take ?n c) iOff = (SQLITE_OK, g)" using Cons.prems by (metis prod.collapse)
  with Cons.IH [OF Cons.prems] show ?case by (simp add: Let_def)
qed simp

text \<open>
  C29: spilling.  A write that would pass the spill limit first creates the file.  When that fails, because
  the file does not open or because a chunk is not copied, the write returns the error code and the journal is
  the one in memory, unchanged; otherwise the journal is from now on a file that held exactly its content,
  into which the new bytes are written with the result of that write.  Creating the file fails
  only when the VFS refuses to open it or to write a chunk.
\<close>

theorem MemJournal_spill:
  assumes "os_file_laws bytes os_open os_write" and "mj_inv p" and "0 < nSpill p"
    and "nSpill p < int (length z + k)" and "k \<le> endOff p"
  shows "fst (memjrnlCreateFile os_open os_write p) \<noteq> SQLITE_OK \<and>
      memjrnlWrite os_open os_write junk p z k ms = Some (fst (memjrnlCreateFile os_open os_write p), Mem p, ms) \<and>
      (fst os_open \<noteq> SQLITE_OK \<or> (\<exists>f xs k. fst (os_write f xs k) \<noteq> SQLITE_OK)) \<or>
    fst os_open = SQLITE_OK \<and> (\<exists>f rc g. bytes f = mj_content p \<and> os_write f z k = (rc, g) \<and>
      memjrnlWrite os_open os_write junk p z k ms = Some (rc, Real g, ms) \<and>
      (rc = SQLITE_OK \<longrightarrow> bytes g = take k (mj_content p) @ z @ drop (k + length z) (mj_content p)))"
proof -
  obtain rc j where c: "memjrnlCreateFile os_open os_write p = (rc, j)" by fastforce
  note ok = memjrnlCreateFile_ok [OF assms(1,2) c]
  show ?thesis
  proof (cases "rc = SQLITE_OK")
    case True
    with ok obtain f where f: "j = Real f" "bytes f = mj_content p" by auto
    obtain rc' g where g: "os_write f z k = (rc', g)" by fastforce
    have "k \<le> length (bytes f)" using f(2) assms(2,5) by (simp add: mj_content_length)
    then have w: "rc' = SQLITE_OK \<longrightarrow> bytes g = take k (bytes f) @ z @ drop (k + length z) (bytes f)"
      using assms(1) g unfolding os_file_laws_def by (metis fst_conv snd_conv)
    have "fst os_open = SQLITE_OK" using c True by (auto simp: memjrnlCreateFile_def split: prod.splits if_splits)
    moreover have "memjrnlWrite os_open os_write junk p z k ms = Some (rc', Real g, ms)"
      using f True c g assms(3,4) by (simp add: memjrnlWrite_def)
    ultimately show ?thesis using f(2) g w by auto
  next
    case False
    with ok have "j = Mem p" by simp
    moreover from this have "memjrnlWrite os_open os_write junk p z k ms = Some (rc, Mem p, ms)"
      using False c assms(3,4) by (cases rc) (auto simp: memjrnlWrite_def)
    moreover have "fst os_open \<noteq> SQLITE_OK \<or> (\<exists>f xs k. fst (os_write f xs k) \<noteq> SQLITE_OK)"
      using False c memjrnlCopyChunks_returns [of os_write "chunks p" "nChunkSize p" 0 "endOff p"]
      by (auto simp: memjrnlCreateFile_def split: prod.splits if_splits) (metis fst_conv)
    ultimately show ?thesis using False c by simp
  qed
qed

definition list_write :: "u8 list \<Rightarrow> u8 list \<Rightarrow> nat \<Rightarrow> rc \<times> u8 list" where
  "list_write f xs k = (SQLITE_OK, take k f @ xs @ drop (k + length xs) f)"

lemma MemJournal_spill_witness:
  "\<exists>p g. mj_inv p \<and> memjrnlWrite (SQLITE_OK, []) list_write (\<lambda>_. 0) p [1, 2, 3] 0 [] = Some (SQLITE_OK, Real g, []) \<and> g = [1, 2, 3]"
proof -
  let ?p = "\<lparr>nChunkSize = 2, nSpill = 2, chunks = [], endOff = 0, endChunk = None, readOff = 0, readChunk = None\<rparr>"
  have inv: "mj_inv ?p" "mj_content ?p = []" by (simp_all add: mj_inv_def mj_content_def)
  have "os_file_laws id (SQLITE_OK, []) list_write" by (simp add: os_file_laws_def list_write_def)
  from MemJournal_spill [OF this inv(1), of "[1, 2, 3]" 0 "\<lambda>_. 0" "[]"] inv show ?thesis
    by (intro exI [of _ ?p] exI [of _ "[1, 2, 3]"]) (auto simp: list_write_def)
qed

end
