(* ===== verification/Linked_List.thy ===== *)
theory Linked_List
  imports Main
begin

text \<open>
  Doubly linked lists whose links are two arrays indexed by the elements, with \<open>- 1\<close> for a null
  link.  \<open>dseg\<close> describes a segment: it starts at \<open>h\<close> with previous element \<open>p\<close>, visits the
  elements of a list, and ends with the next pointer \<open>q\<close> after the last element \<open>l\<close>.  \<open>dll\<close> is a
  whole list.  The theory proves what linking at the front and unlinking anywhere do.
\<close>

fun dseg :: "(nat \<Rightarrow> int) \<Rightarrow> (nat \<Rightarrow> int) \<Rightarrow> int \<Rightarrow> int \<Rightarrow> nat list \<Rightarrow> int \<Rightarrow> int \<Rightarrow> bool" where
  "dseg nx pv h p [] q l \<longleftrightarrow> h = q \<and> p = l"
| "dseg nx pv h p (x # xs) q l \<longleftrightarrow> h = int x \<and> pv x = p \<and> dseg nx pv (nx x) (int x) xs q l"

definition dll :: "(nat \<Rightarrow> int) \<Rightarrow> (nat \<Rightarrow> int) \<Rightarrow> int \<Rightarrow> nat list \<Rightarrow> bool" where
  "dll nx pv h xs \<longleftrightarrow> (\<exists>l. dseg nx pv h (- 1) xs (- 1) l)"

lemma dseg_append:
  "dseg nx pv h p (xs @ ys) q l \<longleftrightarrow> (\<exists>m n. dseg nx pv h p xs m n \<and> dseg nx pv m n ys q l)"
  by (induction xs arbitrary: h p) auto

lemma dseg_frame:
  "(\<And>x. x \<in> set xs \<Longrightarrow> nx' x = nx x \<and> pv' x = pv x) \<Longrightarrow>
   dseg nx' pv' h p xs q l = dseg nx pv h p xs q l"
  by (induction xs arbitrary: h p) auto

lemma dll_frame:
  "(\<And>x. x \<in> set xs \<Longrightarrow> nx' x = nx x \<and> pv' x = pv x) \<Longrightarrow> dll nx' pv' h xs = dll nx pv h xs"
  using dseg_frame [of xs nx' nx pv' pv] by (simp add: dll_def)

lemma dll_Nil [simp]: "dll nx pv h [] \<longleftrightarrow> h = - 1"
  by (simp add: dll_def)

lemma dll_single [simp]: "dll nx pv h [x] \<longleftrightarrow> h = int x \<and> pv x = - 1 \<and> nx x = - 1"
  by (auto simp: dll_def)

lemma dll_head: "dll nx pv h xs \<Longrightarrow> h = (if xs = [] then - 1 else int (hd xs))"
  by (cases xs) (auto simp: dll_def)

lemma dll_prev: "dll nx pv h xs \<Longrightarrow> x \<in> set xs \<Longrightarrow> 0 \<le> pv x \<Longrightarrow> nat (pv x) \<in> set xs"
proof -
  assume "dll nx pv h xs" and x: "x \<in> set xs" "0 \<le> pv x"
  then obtain l ys zs where l: "dseg nx pv h (- 1) (ys @ x # zs) (- 1) l" "xs = ys @ x # zs"
    by (auto simp: dll_def in_set_conv_decomp)
  then obtain m where "dseg nx pv h (- 1) ys m (pv x)" by (auto simp: dseg_append)
  then show ?thesis using x(2) l(2) by (cases ys rule: rev_cases) (auto simp: dseg_append)
qed

lemma dll_next: "dll nx pv h xs \<Longrightarrow> x \<in> set xs \<Longrightarrow> 0 \<le> nx x \<Longrightarrow> nat (nx x) \<in> set xs"
proof -
  assume "dll nx pv h xs" and x: "x \<in> set xs" "0 \<le> nx x"
  then obtain l ys zs where l: "dseg nx pv h (- 1) (ys @ x # zs) (- 1) l" "xs = ys @ x # zs"
    by (auto simp: dll_def in_set_conv_decomp)
  then show ?thesis using x(2) by (cases zs) (auto simp: dseg_append)
qed

text \<open>Linking a new element at the front of a list.\<close>

definition dll_link_next :: "(nat \<Rightarrow> int) \<Rightarrow> int \<Rightarrow> nat \<Rightarrow> nat \<Rightarrow> int" where
  "dll_link_next nx h i = nx(i := h)"

definition dll_link_prev :: "(nat \<Rightarrow> int) \<Rightarrow> int \<Rightarrow> nat \<Rightarrow> nat \<Rightarrow> int" where
  "dll_link_prev pv h i = (let pv = pv(i := - 1) in if 0 \<le> h then pv(nat h := int i) else pv)"

lemma dll_link:
  assumes "dll nx pv h xs" and "i \<notin> set xs" and "distinct xs"
  shows "dll (dll_link_next nx h i) (dll_link_prev pv h i) (int i) (i # xs)"
proof (cases xs)
  case Nil
  with assms show ?thesis by (simp add: dll_def dll_link_next_def dll_link_prev_def)
next
  case (Cons x ys)
  then obtain l where l: "h = int x" "pv x = - 1" "dseg nx pv (nx x) (int x) ys (- 1) l"
    using assms(1) by (auto simp: dll_def)
  have "x \<notin> set ys" "i \<notin> set ys" "i \<noteq> x" using assms Cons by auto
  with l Cons show ?thesis
    by (auto simp: dll_def dll_link_next_def dll_link_prev_def intro!: exI [of _ l]
        dseg_frame [THEN iffD2, of ys _ nx _ pv])
qed

text \<open>Unlinking an element.\<close>

definition dll_unlink_next :: "(nat \<Rightarrow> int) \<Rightarrow> (nat \<Rightarrow> int) \<Rightarrow> nat \<Rightarrow> nat \<Rightarrow> int" where
  "dll_unlink_next nx pv i = (if pv i < 0 then nx else nx(nat (pv i) := nx i))"

definition dll_unlink_prev :: "(nat \<Rightarrow> int) \<Rightarrow> (nat \<Rightarrow> int) \<Rightarrow> nat \<Rightarrow> nat \<Rightarrow> int" where
  "dll_unlink_prev nx pv i = (if 0 \<le> nx i then pv(nat (nx i) := pv i) else pv)"

definition dll_unlink_head :: "(nat \<Rightarrow> int) \<Rightarrow> (nat \<Rightarrow> int) \<Rightarrow> int \<Rightarrow> nat \<Rightarrow> int" where
  "dll_unlink_head nx pv h i = (if pv i < 0 then nx i else h)"

lemma dll_unlink:
  assumes "dll nx pv h xs" and "i \<in> set xs" and "distinct xs"
  shows "dll (dll_unlink_next nx pv i) (dll_unlink_prev nx pv i) (dll_unlink_head nx pv h i) (remove1 i xs)"
proof -
  obtain ys zs where xs: "xs = ys @ i # zs" using assms(2) by (auto simp: in_set_conv_decomp)
  let ?nx = "dll_unlink_next nx pv i" and ?pv = "dll_unlink_prev nx pv i"
  have d: "distinct ys" "distinct zs" "i \<notin> set ys" "i \<notin> set zs" "set ys \<inter> set zs = {}"
    using assms(3) xs by auto
  from assms(1) xs obtain l where ys: "dseg nx pv h (- 1) ys (int i) (pv i)"
    and zs: "dseg nx pv (nx i) (int i) zs (- 1) l"
    by (auto simp: dll_def dseg_append)
  have nxz: "nx i \<noteq> int y" "nx i \<ge> 0 \<Longrightarrow> nat (nx i) \<noteq> y" if "y \<in> set ys" for y
    using zs that d by (cases zs; auto)+
  have pvy: "pv i \<ge> 0 \<Longrightarrow> nat (pv i) \<in> set ys"
    using ys by (cases ys rule: rev_cases) (auto simp: dseg_append)
  have left: "dseg ?nx ?pv (dll_unlink_head nx pv h i) (- 1) ys (nx i) (pv i)"
  proof (cases ys rule: rev_cases)
    case Nil
    with ys show ?thesis by (simp add: dll_unlink_head_def)
  next
    case (snoc us u)
    with ys have u: "pv i = int u" "dseg nx pv h (- 1) us (int u) (pv u)" by (auto simp: dseg_append)
    have "dseg ?nx ?pv h (- 1) us (int u) (pv u)"
      by (rule dseg_frame [THEN iffD2, OF _ u(2)])
        (use u(1) d nxz snoc in \<open>auto simp: dll_unlink_next_def dll_unlink_prev_def\<close>)
    moreover have "?pv u = pv u" "?nx u = nx i"
      using u(1) nxz snoc by (auto simp: dll_unlink_next_def dll_unlink_prev_def)
    ultimately show ?thesis using snoc u(1) by (auto simp: dseg_append dll_unlink_head_def)
  qed
  have "\<exists>l. dseg ?nx ?pv (nx i) (pv i) zs (- 1) l"
  proof (cases zs)
    case (Cons z us)
    with zs have z: "nx i = int z" "dseg nx pv (nx z) (int z) us (- 1) l" by auto
    have "dseg ?nx ?pv (nx z) (int z) us (- 1) l"
      by (rule dseg_frame [THEN iffD2, OF _ z(2)])
        (use z(1) d pvy Cons in \<open>auto simp: dll_unlink_next_def dll_unlink_prev_def\<close>)
    moreover have "?pv z = pv i" "?nx z = nx z"
      using z(1) pvy d Cons by (auto simp: dll_unlink_next_def dll_unlink_prev_def)
    ultimately show ?thesis using Cons z(1) by auto
  qed (use zs in auto)
  with left d(3) xs show ?thesis by (auto simp: dll_def dseg_append remove1_append)
qed

end
