(* ===== verification/Mem5.thy ===== *)
theory Mem5
  imports Sqlite_Prelude Linked_List
begin

text \<open>
  The buddy allocator of mem5.c.  The pool is an array of \<open>nBlock\<close> atoms of \<open>szAtom\<close> bytes.  A
  free block keeps the two links of its free list in its first atom: \<open>lnext i\<close> and \<open>lprev i\<close> are
  what \<^verbatim>\<open>MEM5LINK(i)\<close> finds there, so a change of them inside an allocated block would be a change
  of the user's data.  \<open>aCtrl\<close> holds one control byte per atom and \<open>aiFreelist\<close> the heads of the
  free lists.  A pointer into the pool is its byte offset; a null pointer is \<open>None\<close>.  The mutex
  and the statistics of debugging builds are not part of the state.

  The theory shows that the blocks always tile the pool at aligned positions, that the control
  bytes and the free lists describe the tiling, that outstanding blocks never overlap and are
  never written by the allocator, and that a freed block is merged with its free buddies.
\<close>

subsection \<open>State\<close>

definition LOGMAX :: nat where "LOGMAX = 30"
definition CTRL_LOGSIZE :: u8 where "CTRL_LOGSIZE = 0x1f"
definition CTRL_FREE :: u8 where "CTRL_FREE = 0x20"

record Mem5Global =
  szAtom :: nat
  nBlock :: nat
  lnext :: "nat \<Rightarrow> int"
  lprev :: "nat \<Rightarrow> int"
  aiFreelist :: "nat \<Rightarrow> int"
  aCtrl :: "nat \<Rightarrow> u8"

subsection \<open>Free lists\<close>

definition memsys5Unlink :: "nat \<Rightarrow> nat \<Rightarrow> Mem5Global \<Rightarrow> Mem5Global" where
  "memsys5Unlink i iLogsize m =
     (let nxt = lnext m i; prv = lprev m i;
          m = (if prv < 0 then m\<lparr>aiFreelist := (aiFreelist m)(iLogsize := nxt)\<rparr>
               else m\<lparr>lnext := (lnext m)(nat prv := nxt)\<rparr>)
      in if 0 \<le> nxt then m\<lparr>lprev := (lprev m)(nat nxt := prv)\<rparr> else m)"

definition memsys5Link :: "nat \<Rightarrow> nat \<Rightarrow> Mem5Global \<Rightarrow> Mem5Global" where
  "memsys5Link i iLogsize m =
     (let x = aiFreelist m iLogsize;
          m = m\<lparr>lnext := (lnext m)(i := x), lprev := (lprev m)(i := - 1)\<rparr>;
          m = (if 0 \<le> x then m\<lparr>lprev := (lprev m)(nat x := int i)\<rparr> else m)
      in m\<lparr>aiFreelist := (aiFreelist m)(iLogsize := int i)\<rparr>)"

definition memsys5Size :: "Mem5Global \<Rightarrow> nat \<Rightarrow> nat" where
  "memsys5Size m p = (let i = p div szAtom m in szAtom m * 2 ^ unat (aCtrl m i AND CTRL_LOGSIZE))"

subsection \<open>Allocation\<close>

text \<open>
  The loops of \<^verbatim>\<open>memsys5MallocUnsafe\<close>: rounding the request up to a power of two times the atom
  size, the search for a non-empty free list, and the splitting of the block found there.
\<close>

function mem5FullSz :: "nat \<Rightarrow> nat \<Rightarrow> nat \<Rightarrow> nat \<times> nat" where
  "mem5FullSz nByte iFullSz iLogsize =
     (if 0 < iFullSz \<and> iFullSz < nByte then mem5FullSz nByte (iFullSz * 2) (iLogsize + 1)
      else (iFullSz, iLogsize))"
  by pat_completeness auto

termination
  by (relation "measure (\<lambda>(n, f, l). n - f)") auto

declare mem5FullSz.simps [simp del]

function mem5Bin :: "Mem5Global \<Rightarrow> nat \<Rightarrow> nat" where
  "mem5Bin m iBin = (if iBin \<le> LOGMAX \<and> aiFreelist m iBin < 0 then mem5Bin m (iBin + 1) else iBin)"
  by pat_completeness auto

termination
  by (relation "measure (\<lambda>(m, b). Suc LOGMAX - b)") auto

declare mem5Bin.simps [simp del]

fun mem5Split :: "nat \<Rightarrow> nat \<Rightarrow> nat \<Rightarrow> Mem5Global \<Rightarrow> Mem5Global" where
  "mem5Split i iLogsize 0 m = m"
| "mem5Split i iLogsize (Suc iBin) m =
     (if iLogsize < Suc iBin then
        mem5Split i iLogsize iBin
          (memsys5Link (i + 2 ^ iBin) iBin
             (m\<lparr>aCtrl := (aCtrl m)(i + 2 ^ iBin := CTRL_FREE OR of_nat iBin)\<rparr>))
      else m)"

definition memsys5MallocUnsafe :: "nat \<Rightarrow> Mem5Global \<Rightarrow> nat option \<times> Mem5Global" where
  "memsys5MallocUnsafe nByte m =
     (if nByte > 0x40000000 then (None, m)
      else
        let (iFullSz, iLogsize) = mem5FullSz nByte (szAtom m) 0;
            iBin = mem5Bin m iLogsize
        in if iBin > LOGMAX then (None, m)
           else
             let i = nat (aiFreelist m iBin);
                 m = mem5Split i iLogsize iBin (memsys5Unlink i iBin m);
                 m = m\<lparr>aCtrl := (aCtrl m)(i := of_nat iLogsize)\<rparr>
             in (Some (i * szAtom m), m))"

definition memsys5Malloc :: "nat \<Rightarrow> Mem5Global \<Rightarrow> nat option \<times> Mem5Global" where
  "memsys5Malloc nBytes m = (if nBytes > 0 then memsys5MallocUnsafe nBytes m else (None, m))"

subsection \<open>Release\<close>

text \<open>
  The loop that merges a block with its buddies, then the link of the result.  The variable
  \<^verbatim>\<open>size\<close> of the source is always the power of two of \<^verbatim>\<open>iLogsize\<close>.
\<close>

function mem5Merge :: "nat \<Rightarrow> nat \<Rightarrow> Mem5Global \<Rightarrow> nat \<times> nat \<times> Mem5Global" where
  "mem5Merge iBlock iLogsize m =
     (if iLogsize < LOGMAX then
        let iBuddy = (if odd (iBlock div 2 ^ iLogsize) then iBlock - 2 ^ iLogsize else iBlock + 2 ^ iLogsize)
        in if even (iBlock div 2 ^ iLogsize) \<and> nBlock m \<le> iBuddy then (iBlock, iLogsize, m)
           else if aCtrl m iBuddy \<noteq> CTRL_FREE OR of_nat iLogsize then (iBlock, iLogsize, m)
           else
             let m = memsys5Unlink iBuddy iLogsize m; iLogsize = iLogsize + 1
             in if iBuddy < iBlock then
                  mem5Merge iBuddy iLogsize
                    (m\<lparr>aCtrl := (aCtrl m)(iBuddy := CTRL_FREE OR of_nat iLogsize, iBlock := 0)\<rparr>)
                else
                  mem5Merge iBlock iLogsize
                    (m\<lparr>aCtrl := (aCtrl m)(iBlock := CTRL_FREE OR of_nat iLogsize, iBuddy := 0)\<rparr>)
      else (iBlock, iLogsize, m))"
  by pat_completeness auto

termination
  by (relation "measure (\<lambda>(i, k, m). LOGMAX - k)") auto

declare mem5Merge.simps [simp del]

definition memsys5FreeUnsafe :: "nat \<Rightarrow> Mem5Global \<Rightarrow> Mem5Global" where
  "memsys5FreeUnsafe pOld m =
     (let iBlock = pOld div szAtom m;
          iLogsize = unat (aCtrl m iBlock AND CTRL_LOGSIZE);
          sz = 2 ^ iLogsize;
          m = m\<lparr>aCtrl := (aCtrl m)(iBlock := aCtrl m iBlock OR CTRL_FREE)\<rparr>;
          m = m\<lparr>aCtrl := (aCtrl m)(iBlock + sz - 1 := aCtrl m (iBlock + sz - 1) OR CTRL_FREE)\<rparr>;
          m = m\<lparr>aCtrl := (aCtrl m)(iBlock := CTRL_FREE OR of_nat iLogsize)\<rparr>;
          (iBlock, iLogsize, m) = mem5Merge iBlock iLogsize m
      in memsys5Link iBlock iLogsize m)"

definition memsys5Free :: "nat \<Rightarrow> Mem5Global \<Rightarrow> Mem5Global" where
  "memsys5Free pPrior m = memsys5FreeUnsafe pPrior m"

text \<open>
  Resizing.  The bytes are copied by \<^verbatim>\<open>memcpy\<close>; the third component of the result is that copy:
  from where, to where and how many bytes.
\<close>

definition memsys5Realloc ::
  "nat \<Rightarrow> nat \<Rightarrow> Mem5Global \<Rightarrow> nat option \<times> Mem5Global \<times> (nat \<times> nat \<times> nat) option" where
  "memsys5Realloc pPrior nBytes m =
     (if nBytes = 0 then (None, m, None)
      else
        let nOld = memsys5Size m pPrior
        in if nBytes \<le> nOld then (Some pPrior, m, None)
           else
             case memsys5Malloc nBytes m of
               (None, m) \<Rightarrow> (None, m, None)
             | (Some p, m) \<Rightarrow> (Some p, memsys5Free pPrior m, Some (pPrior, p, nOld)))"

subsection \<open>Sizes and initialisation\<close>

function mem5Round4 :: "nat \<Rightarrow> nat \<Rightarrow> nat" where
  "mem5Round4 n iFullSz = (if 0 < iFullSz \<and> iFullSz < n then mem5Round4 n (iFullSz * 4) else iFullSz)"
  by pat_completeness auto

termination
  by (relation "measure (\<lambda>(n, f). n - f)") auto

declare mem5Round4.simps [simp del]

definition memsys5Roundup :: "Mem5Global \<Rightarrow> nat \<Rightarrow> nat" where
  "memsys5Roundup m n =
     (if n \<le> szAtom m * 2 then (if n \<le> szAtom m then szAtom m else szAtom m * 2)
      else if n > 0x10000000 then
        (if n > 0x40000000 then 0 else if n > 0x20000000 then 0x40000000 else 0x20000000)
      else
        let iFullSz = mem5Round4 n (szAtom m * 8)
        in if n \<le> iFullSz div 2 then iFullSz div 2 else iFullSz)"

function memsys5LogLoop :: "nat \<Rightarrow> nat \<Rightarrow> nat" where
  "memsys5LogLoop iValue iLog = (if iLog < 31 \<and> 2 ^ iLog < iValue then memsys5LogLoop iValue (iLog + 1) else iLog)"
  by pat_completeness auto

termination
  by (relation "measure (\<lambda>(v, l). 31 - l)") auto

declare memsys5LogLoop.simps [simp del]

definition memsys5Log :: "nat \<Rightarrow> nat" where
  "memsys5Log iValue = memsys5LogLoop iValue 0"

definition Mem5Link_size :: nat where "Mem5Link_size = 8"

function mem5Atom :: "nat \<Rightarrow> nat" where
  "mem5Atom sz = (if 0 < sz \<and> sz < Mem5Link_size then mem5Atom (sz * 2) else sz)"
  by pat_completeness auto

termination
  by (relation "measure (\<lambda>s. Mem5Link_size - s)") auto

declare mem5Atom.simps [simp del]

text \<open>The loop over \<^verbatim>\<open>ii\<close> from \<^verbatim>\<open>LOGMAX\<close> down to 0; the argument is \<^verbatim>\<open>ii + 1\<close>.\<close>

fun mem5InitLoop :: "nat \<Rightarrow> nat \<Rightarrow> Mem5Global \<Rightarrow> Mem5Global" where
  "mem5InitLoop 0 iOffset m = m"
| "mem5InitLoop (Suc ii) iOffset m =
     (let nAlloc = 2 ^ ii
      in if iOffset + nAlloc \<le> nBlock m then
           mem5InitLoop ii (iOffset + nAlloc)
             (memsys5Link iOffset ii (m\<lparr>aCtrl := (aCtrl m)(iOffset := of_nat ii OR CTRL_FREE)\<rparr>))
         else mem5InitLoop ii iOffset m)"

definition memsys5Init :: "nat \<Rightarrow> nat \<Rightarrow> Mem5Global \<Rightarrow> Mem5Global" where
  "memsys5Init nHeap mnReq m =
     (let nMinLog = memsys5Log mnReq;
          m = m\<lparr>szAtom := mem5Atom (2 ^ nMinLog)\<rparr>;
          m = m\<lparr>nBlock := nHeap div (szAtom m + 1)\<rparr>;
          m = m\<lparr>aiFreelist := (\<lambda>ii. if ii \<le> LOGMAX then - 1 else aiFreelist m ii)\<rparr>
      in mem5InitLoop (Suc LOGMAX) 0 m)"

subsection \<open>Control bytes\<close>

lemma of_nat_low5: "k < 32 \<Longrightarrow> of_nat k AND (0x1f :: u8) = of_nat k"
proof -
  assume "k < 32"
  have "(0x1f :: u8) = mask 5" by (simp add: mask_eq_exp_minus_1)
  then have "of_nat k AND (0x1f :: u8) = take_bit 5 (of_nat k)" by (simp add: take_bit_eq_mask)
  also have "\<dots> = of_nat (take_bit 5 k)" by (simp add: take_bit_of_nat)
  finally show ?thesis using \<open>k < 32\<close> by (simp add: take_bit_nat_eq_self)
qed

lemma ctrl_logsize:
  assumes "k \<le> 30"
  shows "unat (of_nat k AND CTRL_LOGSIZE :: u8) = k" "unat ((CTRL_FREE OR of_nat k) AND CTRL_LOGSIZE :: u8) = k"
proof -
  have "unat (of_nat k :: u8) = k" using assms by (simp add: unat_of_nat take_bit_nat_eq_self)
  moreover have "(CTRL_FREE OR of_nat k) AND CTRL_LOGSIZE = (of_nat k AND CTRL_LOGSIZE :: u8)"
    by (simp add: CTRL_FREE_def CTRL_LOGSIZE_def bit.conj_disj_distrib2)
  ultimately show "unat (of_nat k AND CTRL_LOGSIZE :: u8) = k"
    "unat ((CTRL_FREE OR of_nat k) AND CTRL_LOGSIZE :: u8) = k"
    using of_nat_low5 [of k] assms by (simp_all add: CTRL_LOGSIZE_def)
qed

lemma ctrl_free_inj: "k \<le> 30 \<Longrightarrow> j \<le> 30 \<Longrightarrow> CTRL_FREE OR of_nat k = (CTRL_FREE OR of_nat j :: u8) \<longleftrightarrow> k = j"
  using ctrl_logsize(2) by metis

lemma ctrl_used_free: "k \<le> 30 \<Longrightarrow> of_nat k \<noteq> (CTRL_FREE OR of_nat j :: u8)"
proof
  assume k: "k \<le> 30" and eq: "of_nat k = (CTRL_FREE OR of_nat j :: u8)"
  have "of_nat k AND (0x1f :: u8) = of_nat k" using k by (intro of_nat_low5) simp
  then have "of_nat k AND (0x20 :: u8) = of_nat k AND (0x1f AND 0x20)" by (metis and.assoc)
  moreover have "(CTRL_FREE OR of_nat j) AND 0x20 = (0x20 :: u8)" by (simp add: CTRL_FREE_def and.commute)
  ultimately show False using eq by simp
qed

subsection \<open>Tilings\<close>

text \<open>
  A block is a pair of its first atom and the logarithm of its number of atoms.  The blocks of
  the pool tile it: they are aligned, disjoint and cover every atom.
\<close>

type_synonym blk = "nat \<times> nat"

definition atoms :: "blk \<Rightarrow> nat set" where
  "atoms b = {fst b..<fst b + 2 ^ snd b}"

definition tiling :: "nat \<Rightarrow> blk set \<Rightarrow> bool" where
  "tiling n T \<longleftrightarrow> (\<forall>(i, k) \<in> T. 2 ^ k dvd i \<and> i + 2 ^ k \<le> n \<and> k \<le> LOGMAX) \<and>
     (\<forall>x < n. \<exists>b \<in> T. x \<in> atoms b) \<and>
     pairwise (\<lambda>b c. atoms b \<inter> atoms c = {}) T"

lemma mem_atoms: "x \<in> atoms (i, k) \<longleftrightarrow> i \<le> x \<and> x < i + 2 ^ k"
  by (simp add: atoms_def)

lemma tilingD:
  assumes "tiling n T" and "(i, k) \<in> T"
  shows "2 ^ k dvd i" "i + 2 ^ k \<le> n" "k \<le> 30" "i < n"
proof -
  show "2 ^ k dvd i" "i + 2 ^ k \<le> n" "k \<le> 30" using assms by (auto simp: tiling_def LOGMAX_def)
  then show "i < n" using zero_less_power [of "2 :: nat" k] by linarith
qed

lemma tiling_disjoint:
  "tiling n T \<Longrightarrow> b \<in> T \<Longrightarrow> c \<in> T \<Longrightarrow> x \<in> atoms b \<Longrightarrow> x \<in> atoms c \<Longrightarrow> b = c"
  unfolding tiling_def pairwise_def by blast

lemma tiling_cover:
  assumes "tiling n T" and "x < n"
  obtains i k where "(i, k) \<in> T" "x \<in> atoms (i, k)"
  using assms unfolding tiling_def by (metis surj_pair)

lemma tiling_head: "tiling n T \<Longrightarrow> (i, k) \<in> T \<Longrightarrow> (i, j) \<in> T \<Longrightarrow> k = j"
  using tiling_disjoint [of n T "(i, k)" "(i, j)" i] by (simp add: mem_atoms)

definition buddy :: "nat \<Rightarrow> nat \<Rightarrow> nat" where
  "buddy i k = (if odd (i div 2 ^ k) then i - 2 ^ k else i + 2 ^ k)"

lemma buddy_cases:
  assumes "2 ^ k dvd i"
  obtains (right) "odd (i div 2 ^ k)" "buddy i k + 2 ^ k = i" "2 ^ Suc k dvd buddy i k"
  | (left) "even (i div 2 ^ k)" "buddy i k = i + 2 ^ k" "2 ^ Suc k dvd i"
proof -
  obtain q where q: "i = 2 ^ k * q" using assms by (auto simp: dvd_def)
  show thesis
  proof (cases "odd q")
    case True
    then obtain r where "q = 2 * r + 1" by (auto elim: oddE)
    with q right show thesis by (simp add: buddy_def algebra_simps)
  next
    case False
    then obtain r where "q = 2 * r" by (auto elim: evenE)
    with q left show thesis by (simp add: buddy_def)
  qed
qed

lemma dvd_between:
  assumes "(a :: nat) dvd x" and "a dvd y" and "x \<le> y" and "y < x + a"
  shows "x = y"
proof -
  have "a dvd y - x" using assms(1,2) by (rule dvd_diff_nat [rotated])
  moreover have "y - x < a" using assms(3,4) by linarith
  ultimately have "y - x = 0" by (metis gr0I nat_dvd_not_less)
  with assms(3) show ?thesis by simp
qed

text \<open>The atom where the buddy of a block would start is the first atom of a block that is no larger.\<close>

lemma tiling_buddy:
  assumes T: "tiling n T" and "(i, k) \<in> T" and "buddy i k < n"
  obtains j where "(buddy i k, j) \<in> T" "j \<le> k"
proof -
  obtain a m where a: "(a, m) \<in> T" "buddy i k \<in> atoms (a, m)"
    using tiling_cover [OF T assms(3)] .
  note ik = tilingD [OF T assms(2)] and am = tilingD [OF T a(1)]
  have bk: "2 ^ k dvd buddy i k"
    using ik(1) by (rule buddy_cases) (use ik(1) in \<open>simp_all add: dvd_add_left_iff, meson dvd_mult_right\<close>)
  show thesis
  proof (cases "m \<le> k")
    case True
    then have "2 ^ m dvd buddy i k" using bk by (meson dvd_trans le_imp_power_dvd)
    then have "a = buddy i k" using am(1) a(2) by (intro dvd_between [of "2 ^ m"]) (auto simp: mem_atoms)
    with a(1) True that show thesis by simp
  next
    case False
    then have "2 ^ Suc k dvd (2 :: nat) ^ m" by (intro le_imp_power_dvd) simp
    then have am2: "2 ^ Suc k dvd a" "2 ^ Suc k dvd a + 2 ^ m" using am(1) by (auto intro: dvd_trans)
    have "i \<in> atoms (a, m)"
      using ik(1)
    proof (cases rule: buddy_cases)
      case right
      have "\<not> a + 2 ^ m < buddy i k + 2 ^ Suc k"
        using dvd_between [OF right(3) am2(2)] a(2) unfolding mem_atoms by linarith
      moreover have "i < buddy i k + 2 ^ Suc k"
        using right(2) zero_less_power [of "2 :: nat" k] unfolding power_Suc by linarith
      ultimately show ?thesis using right(2) a(2) unfolding mem_atoms by linarith
    next
      case left
      have "\<not> i < a" 
      proof
        assume "i < a"
        moreover have "a < i + 2 ^ Suc k"
          using a(2) left(2) zero_less_power [of "2 :: nat" k] unfolding mem_atoms power_Suc by linarith
        ultimately show False using dvd_between [OF left(3) am2(1)] by linarith
      qed
      then show ?thesis using left(2) a(2) unfolding mem_atoms by linarith
    qed
    then have "(i, k) = (a, m)" using tiling_disjoint [OF T assms(2) a(1), of i] by (simp add: mem_atoms)
    with False show thesis by simp
  qed
qed

lemma atoms_split: "atoms (i, Suc k) = atoms (i, k) \<union> atoms (i + 2 ^ k, k)"
  by (auto simp: mem_atoms)

lemma tiling_insert:
  "tiling n (insert b R) \<Longrightarrow> b \<notin> R \<Longrightarrow> c \<in> R \<Longrightarrow> atoms c \<inter> atoms b = {}"
  "tiling n (insert b R) \<Longrightarrow> pairwise (\<lambda>b c. atoms b \<inter> atoms c = {}) R"
  unfolding tiling_def pairwise_insert by blast+

lemma tiling_split:
  assumes T: "tiling n (insert (i, Suc k) R)" and "(i, Suc k) \<notin> R"
  shows "tiling n (insert (i, k) (insert (i + 2 ^ k, k) R))"
  unfolding tiling_def
proof (intro conjI)
  note ik = tilingD [OF T insertI1]
  have "2 ^ k dvd i" using ik(1) by (meson dvd_trans le_imp_power_dvd le_SucI order_refl)
  then show "\<forall>(j, m) \<in> insert (i, k) (insert (i + 2 ^ k, k) R). 2 ^ m dvd j \<and> j + 2 ^ m \<le> n \<and> m \<le> LOGMAX"
    using T ik by (auto simp: tiling_def LOGMAX_def)
  show "\<forall>x < n. \<exists>b \<in> insert (i, k) (insert (i + 2 ^ k, k) R). x \<in> atoms b"
    using T atoms_split [of i k] unfolding tiling_def by blast
  have "atoms (i, k) \<inter> atoms (i + 2 ^ k, k) = {}" by (auto simp: mem_atoms)
  moreover have "atoms b \<inter> atoms (i, k) = {} \<and> atoms b \<inter> atoms (i + 2 ^ k, k) = {}" if "b \<in> R" for b
    using tiling_insert(1) [OF T assms(2) that] unfolding atoms_split by blast
  ultimately show "pairwise (\<lambda>b c. atoms b \<inter> atoms c = {}) (insert (i, k) (insert (i + 2 ^ k, k) R))"
    using tiling_insert(2) [OF T] unfolding pairwise_insert by blast
qed

lemma tiling_merge:
  assumes T: "tiling n (insert (i, k) (insert (i + 2 ^ k, k) R))" and "2 ^ Suc k dvd i" and "k < LOGMAX"
    and "(i, k) \<notin> R" and "(i + 2 ^ k, k) \<notin> R"
  shows "tiling n (insert (i, Suc k) R)"
  unfolding tiling_def
proof (intro conjI)
  have "i + 2 ^ k + 2 ^ k \<le> n" using tilingD(2) [OF T] by blast
  then show "\<forall>(j, m) \<in> insert (i, Suc k) R. 2 ^ m dvd j \<and> j + 2 ^ m \<le> n \<and> m \<le> LOGMAX"
    using T assms(2,3) by (auto simp: tiling_def)
  show "\<forall>x < n. \<exists>b \<in> insert (i, Suc k) R. x \<in> atoms b"
    using T atoms_split [of i k] unfolding tiling_def by blast
  have p: "pairwise (\<lambda>b c. atoms b \<inter> atoms c = {}) (insert (i, k) (insert (i + 2 ^ k, k) R))"
    using T by (simp add: tiling_def)
  have "atoms b \<inter> atoms (i, Suc k) = {}" if "b \<in> R" for b
  proof -
    have "b \<noteq> (i, k)" "b \<noteq> (i + 2 ^ k, k)" using that assms(4,5) by auto
    then have "atoms b \<inter> atoms (i, k) = {}" "atoms b \<inter> atoms (i + 2 ^ k, k) = {}"
      using pairwiseD(1) [OF p, of b "(i, k)"] pairwiseD(1) [OF p, of b "(i + 2 ^ k, k)"] that by simp_all
    then show ?thesis unfolding atoms_split by blast
  qed
  moreover have "pairwise (\<lambda>b c. atoms b \<inter> atoms c = {}) R" by (rule pairwise_subset [OF p]) auto
  ultimately show "pairwise (\<lambda>b c. atoms b \<inter> atoms c = {}) (insert (i, Suc k) R)"
    by (simp add: pairwise_insert Int_commute)
qed

subsection \<open>What the state represents\<close>

text \<open>
  \<open>free_ok F m\<close>: the free lists and the control bytes describe the set \<open>F\<close> of free blocks.
  \<open>used_ok A m\<close>: the control bytes describe the set \<open>A\<close> of outstanding blocks.
\<close>

definition free_ok :: "blk set \<Rightarrow> Mem5Global \<Rightarrow> bool" where
  "free_ok F m \<longleftrightarrow> (\<forall>(i, k) \<in> F. aCtrl m i = CTRL_FREE OR of_nat k) \<and>
     (\<forall>k \<le> LOGMAX. \<exists>xs. distinct xs \<and> set xs = {i. (i, k) \<in> F} \<and> dll (lnext m) (lprev m) (aiFreelist m k) xs)"

definition used_ok :: "blk set \<Rightarrow> Mem5Global \<Rightarrow> bool" where
  "used_ok A m \<longleftrightarrow> (\<forall>(i, k) \<in> A. aCtrl m i = of_nat k)"

definition heads :: "blk set \<Rightarrow> nat set" where
  "heads F = fst ` F"

lemma heads_simps [simp]: "heads {} = {}" "heads (insert b F) = insert (fst b) (heads F)"
  by (simp_all add: heads_def)

lemma mem_heads: "(i, k) \<in> F \<Longrightarrow> i \<in> heads F"
  by (force simp: heads_def)

lemma not_heads: "i \<notin> heads F \<Longrightarrow> (i, k) \<notin> F"
  by (force simp: heads_def)

definition links_same :: "nat set \<Rightarrow> Mem5Global \<Rightarrow> Mem5Global \<Rightarrow> bool" where
  "links_same X m m' \<longleftrightarrow> nBlock m' = nBlock m \<and> szAtom m' = szAtom m \<and>
     (\<forall>j. j \<notin> X \<longrightarrow> lnext m' j = lnext m j \<and> lprev m' j = lprev m j)"

lemma Link_fields:
  "lnext (memsys5Link i k m) = dll_link_next (lnext m) (aiFreelist m k) i"
  "lprev (memsys5Link i k m) = dll_link_prev (lprev m) (aiFreelist m k) i"
  "aiFreelist (memsys5Link i k m) = (aiFreelist m)(k := int i)"
  "aCtrl (memsys5Link i k m) = aCtrl m" "nBlock (memsys5Link i k m) = nBlock m"
  "szAtom (memsys5Link i k m) = szAtom m"
  by (simp_all add: memsys5Link_def Let_def dll_link_next_def dll_link_prev_def)

lemma Unlink_fields:
  "lnext (memsys5Unlink i k m) = dll_unlink_next (lnext m) (lprev m) i"
  "lprev (memsys5Unlink i k m) = dll_unlink_prev (lnext m) (lprev m) i"
  "aiFreelist (memsys5Unlink i k m) = (aiFreelist m)(k := dll_unlink_head (lnext m) (lprev m) (aiFreelist m k) i)"
  "aCtrl (memsys5Unlink i k m) = aCtrl m" "nBlock (memsys5Unlink i k m) = nBlock m"
  "szAtom (memsys5Unlink i k m) = szAtom m"
  by (auto simp: memsys5Unlink_def Let_def dll_unlink_next_def dll_unlink_prev_def dll_unlink_head_def)

lemma free_okD:
  assumes "free_ok F m" and "k \<le> LOGMAX"
  obtains xs where "distinct xs" "set xs = {i. (i, k) \<in> F}" "dll (lnext m) (lprev m) (aiFreelist m k) xs"
  using assms by (auto simp: free_ok_def)

lemma free_head:
  assumes "free_ok F m" and "k \<le> LOGMAX"
  shows "aiFreelist m k < 0 \<longleftrightarrow> (\<forall>i. (i, k) \<notin> F)"
    and "0 \<le> aiFreelist m k \<Longrightarrow> (nat (aiFreelist m k), k) \<in> F"
proof -
  obtain xs where xs: "set xs = {i. (i, k) \<in> F}" "dll (lnext m) (lprev m) (aiFreelist m k) xs"
    using free_okD [OF assms] .
  note h = dll_head [OF xs(2)]
  show "aiFreelist m k < 0 \<longleftrightarrow> (\<forall>i. (i, k) \<notin> F)" using h xs(1) by (cases xs) (auto split: if_splits)
  show "0 \<le> aiFreelist m k \<Longrightarrow> (nat (aiFreelist m k), k) \<in> F" using h xs(1) by (cases xs) auto
qed

text \<open>Linking a block that is marked free.\<close>

lemma free_ok_link:
  assumes F: "free_ok F m" and k: "k \<le> LOGMAX" and i: "i \<notin> heads F" "aCtrl m i = CTRL_FREE OR of_nat k"
    and u: "\<And>a j l. (a, j) \<in> F \<Longrightarrow> (a, l) \<in> F \<Longrightarrow> j = l"
  shows "free_ok (insert (i, k) F) (memsys5Link i k m) \<and> links_same (insert i (heads F)) m (memsys5Link i k m)"
proof -
  let ?m = "memsys5Link i k m"
  obtain ys where ys: "distinct ys" "set ys = {i. (i, k) \<in> F}" "dll (lnext m) (lprev m) (aiFreelist m k) ys"
    using free_okD [OF F k] .
  have head: "0 \<le> aiFreelist m k \<Longrightarrow> (nat (aiFreelist m k), k) \<in> F" using free_head(2) [OF F k] .
  have "\<exists>xs. distinct xs \<and> set xs = {a. (a, l) \<in> insert (i, k) F} \<and> dll (lnext ?m) (lprev ?m) (aiFreelist ?m l) xs"
    if l: "l \<le> LOGMAX" for l
  proof (cases "l = k")
    case True
    have "i \<notin> set ys" using ys(2) i(1) by (auto dest: mem_heads)
    with dll_link [OF ys(3) _ ys(1)] ys True show ?thesis
      by (intro exI [of _ "i # ys"]) (auto simp: Link_fields)
  next
    case False
    obtain xs where xs: "distinct xs" "set xs = {i. (i, l) \<in> F}" "dll (lnext m) (lprev m) (aiFreelist m l) xs"
      using free_okD [OF F l] .
    have "dll (lnext ?m) (lprev ?m) (aiFreelist m l) xs"
    proof (rule dll_frame [THEN iffD2, OF _ xs(3)])
      fix x assume "x \<in> set xs"
      then have x: "(x, l) \<in> F" using xs(2) by simp
      then have "x \<noteq> i" using i(1) by (auto dest: mem_heads)
      moreover have "0 \<le> aiFreelist m k \<Longrightarrow> nat (aiFreelist m k) \<noteq> x" using head u x False by blast
      ultimately show "lnext ?m x = lnext m x \<and> lprev ?m x = lprev m x"
        by (auto simp: Link_fields dll_link_next_def dll_link_prev_def Let_def)
    qed
    with xs False show ?thesis by (intro exI [of _ xs]) (auto simp: Link_fields)
  qed
  moreover have "links_same (insert i (heads F)) m ?m"
    using head by (auto simp: links_same_def Link_fields dll_link_next_def dll_link_prev_def Let_def dest: mem_heads)
  ultimately show ?thesis using F i by (auto simp: free_ok_def Link_fields)
qed

lemma free_ok_unlink:
  assumes F: "free_ok F m" and b: "(i, k) \<in> F" and k: "k \<le> LOGMAX"
    and u: "\<And>a j l. (a, j) \<in> F \<Longrightarrow> (a, l) \<in> F \<Longrightarrow> j = l"
  shows "free_ok (F - {(i, k)}) (memsys5Unlink i k m) \<and> links_same (heads F) m (memsys5Unlink i k m)"
proof -
  let ?m = "memsys5Unlink i k m"
  obtain ys where ys: "distinct ys" "set ys = {i. (i, k) \<in> F}" "dll (lnext m) (lprev m) (aiFreelist m k) ys"
    using free_okD [OF F k] .
  have nb: "0 \<le> lprev m i \<Longrightarrow> (nat (lprev m i), k) \<in> F" "0 \<le> lnext m i \<Longrightarrow> (nat (lnext m i), k) \<in> F"
    using dll_prev [OF ys(3), of i] dll_next [OF ys(3), of i] b ys(2) by auto
  have "\<exists>xs. distinct xs \<and> set xs = {a. (a, l) \<in> F - {(i, k)}} \<and> dll (lnext ?m) (lprev ?m) (aiFreelist ?m l) xs"
    if l: "l \<le> LOGMAX" for l
  proof (cases "l = k")
    case True
    with dll_unlink [OF ys(3) _ ys(1)] ys b show ?thesis
      by (intro exI [of _ "remove1 i ys"]) (auto simp: Unlink_fields)
  next
    case False
    obtain xs where xs: "distinct xs" "set xs = {i. (i, l) \<in> F}" "dll (lnext m) (lprev m) (aiFreelist m l) xs"
      using free_okD [OF F l] .
    have "dll (lnext ?m) (lprev ?m) (aiFreelist m l) xs"
    proof (rule dll_frame [THEN iffD2, OF _ xs(3)])
      fix x assume "x \<in> set xs"
      then have x: "(x, l) \<in> F" using xs(2) by simp
      with nb u False have "0 \<le> lprev m i \<Longrightarrow> nat (lprev m i) \<noteq> x" "0 \<le> lnext m i \<Longrightarrow> nat (lnext m i) \<noteq> x"
        by blast+
      then show "lnext ?m x = lnext m x \<and> lprev ?m x = lprev m x"
        by (auto simp: Unlink_fields dll_unlink_next_def dll_unlink_prev_def)
    qed
    with xs False show ?thesis by (intro exI [of _ xs]) (auto simp: Unlink_fields)
  qed
  moreover have "links_same (heads F) m ?m"
    using nb by (auto simp: links_same_def Unlink_fields dll_unlink_next_def dll_unlink_prev_def dest: mem_heads)
  ultimately show ?thesis using F by (auto simp: free_ok_def Unlink_fields)
qed

subsection \<open>The invariant\<close>

text \<open>
  \<open>m5_state m A F\<close>: the outstanding blocks \<open>A\<close> and the free blocks \<open>F\<close> tile the pool, the state
  describes both, and no two free blocks are buddies.  \<open>m5_cut m A F b\<close> is the situation in the
  middle of an operation, with one block \<open>b\<close> in neither set.
\<close>

definition coalesced :: "blk set \<Rightarrow> bool" where
  "coalesced F \<longleftrightarrow> (\<forall>(i, k) \<in> F. k < LOGMAX \<longrightarrow> (buddy i k, k) \<notin> F)"

definition m5_state :: "Mem5Global \<Rightarrow> blk set \<Rightarrow> blk set \<Rightarrow> bool" where
  "m5_state m A F \<longleftrightarrow> tiling (nBlock m) (A \<union> F) \<and> A \<inter> F = {} \<and> free_ok F m \<and> used_ok A m \<and> coalesced F"

definition m5_cut :: "Mem5Global \<Rightarrow> blk set \<Rightarrow> blk set \<Rightarrow> blk \<Rightarrow> bool" where
  "m5_cut m A F b \<longleftrightarrow> tiling (nBlock m) (insert b (A \<union> F)) \<and> b \<notin> A \<and> b \<notin> F \<and> A \<inter> F = {} \<and>
     free_ok F m \<and> used_ok A m \<and> coalesced F"

text \<open>The allocator does not write into outstanding blocks or past the pool.\<close>

definition user_same :: "blk set \<Rightarrow> Mem5Global \<Rightarrow> Mem5Global \<Rightarrow> bool" where
  "user_same A m m' \<longleftrightarrow> nBlock m' = nBlock m \<and> szAtom m' = szAtom m \<and>
     (\<forall>j. nBlock m \<le> j \<or> (\<exists>b \<in> A. j \<in> atoms b) \<longrightarrow> lnext m' j = lnext m j \<and> lprev m' j = lprev m j)"

lemma user_same_refl: "user_same A m m"
  by (simp add: user_same_def)

lemma user_same_trans: "user_same A m m1 \<Longrightarrow> user_same A m1 m2 \<Longrightarrow> user_same A m m2"
  by (simp add: user_same_def)

lemma user_same_ctrl: "user_same A m (m'\<lparr>aCtrl := c\<rparr>) = user_same A m m'"
  "user_same A (m\<lparr>aCtrl := c\<rparr>) m' = user_same A m m'"
  by (simp_all add: user_same_def)

lemma links_user_same:
  assumes "tiling (nBlock m) T" and "links_same (heads G) m m'" and "A \<subseteq> T" and "G \<subseteq> T" and "A \<inter> G = {}"
  shows "user_same A m m'"
proof -
  have "j \<notin> heads G" if "nBlock m \<le> j \<or> (\<exists>b \<in> A. j \<in> atoms b)" for j
  proof
    assume "j \<in> heads G"
    then obtain k where "(j, k) \<in> G" by (auto simp: heads_def)
    with assms(4,5) have k: "(j, k) \<in> T" "(j, k) \<notin> A" by blast+
    then have "j < nBlock m" using tilingD(4) [OF assms(1)] by blast
    with that obtain b where b: "b \<in> A" "j \<in> atoms b" by auto
    with assms(3) have "b = (j, k)"
      by (intro tiling_disjoint [OF assms(1) _ k(1), of b j]) (auto simp: mem_atoms)
    with b k show False by simp
  qed
  with assms(2) show ?thesis by (auto simp: links_same_def user_same_def)
qed

lemma free_ok_ctrl: "free_ok F m \<Longrightarrow> i \<notin> heads F \<Longrightarrow> free_ok F (m\<lparr>aCtrl := (aCtrl m)(i := c)\<rparr>)"
  by (auto simp: free_ok_def dest: mem_heads)

lemma used_ok_ctrl: "used_ok A m \<Longrightarrow> i \<notin> heads A \<Longrightarrow> used_ok A (m\<lparr>aCtrl := (aCtrl m)(i := c)\<rparr>)"
  by (auto simp: used_ok_def dest: mem_heads)

lemma used_ok_links:
  "used_ok A (memsys5Link i k m) = used_ok A m" "used_ok A (memsys5Unlink i k m) = used_ok A m"
  by (simp_all add: used_ok_def Link_fields Unlink_fields)

lemma tiling_not_head:
  assumes "tiling n (insert b R)" and "b \<notin> R" and "j \<in> atoms b" and "S \<subseteq> R"
  shows "j \<notin> heads S"
proof
  assume "j \<in> heads S"
  then obtain k where "(j, k) \<in> R" using assms(4) by (auto simp: heads_def)
  moreover from this have "b = (j, k)"
    using tiling_disjoint [OF assms(1), of b "(j, k)" j] assms(3) by (simp add: mem_atoms)
  ultimately show False using assms(2) by simp
qed

lemma cut_ctrl:
  assumes "m5_cut m A F b" and "j \<in> atoms b"
  shows "m5_cut (m\<lparr>aCtrl := (aCtrl m)(j := c)\<rparr>) A F b"
proof -
  have "j \<notin> heads A" "j \<notin> heads F"
    using assms tiling_not_head [of "nBlock m" b "A \<union> F" j A] tiling_not_head [of "nBlock m" b "A \<union> F" j F]
    by (auto simp: m5_cut_def)
  then show ?thesis using assms(1) by (simp add: m5_cut_def free_ok_ctrl used_ok_ctrl)
qed

lemma cut_heads_unique:
  "m5_cut m A F b \<Longrightarrow> (a, j) \<in> F \<Longrightarrow> (a, l) \<in> F \<Longrightarrow> j = l"
  using tiling_head [of "nBlock m" "insert b (A \<union> F)" a j l] by (simp add: m5_cut_def)

lemma buddy_buddy: "2 ^ k dvd i \<Longrightarrow> buddy (buddy i k) k = i"
proof -
  assume "2 ^ k dvd i"
  then show ?thesis
  proof (cases rule: buddy_cases)
    case right
    then show ?thesis by (auto simp: buddy_def [of "buddy i k"] dvd_def)
  next
    case left
    then obtain q where "i = 2 ^ k * (2 * q)" by (auto simp: dvd_def)
    then have "(i + 2 ^ k) div 2 ^ k = 2 * q + 1" by (simp add: div_add1_eq)
    then have "buddy (i + 2 ^ k) k = i" by (simp add: buddy_def)
    with left show ?thesis by simp
  qed
qed

lemma cut_unlink:
  assumes "m5_state m A F" and "(i, k) \<in> F"
  shows "m5_cut (memsys5Unlink i k m) A (F - {(i, k)}) (i, k)" and "user_same A m (memsys5Unlink i k m)"
proof -
  note st = assms(1) [unfolded m5_state_def]
  have u: "j = l" if "(a, j) \<in> F" "(a, l) \<in> F" for a j l
    using st that tiling_head [of "nBlock m" "A \<union> F" a j l] by blast
  have k: "k \<le> LOGMAX" using tilingD(3) [of "nBlock m" "A \<union> F" i k] st assms(2) by (simp add: LOGMAX_def)
  have "free_ok F m" using st by blast
  note un = free_ok_unlink [OF this assms(2) k u]
  have eq: "insert (i, k) (A \<union> (F - {(i, k)})) = A \<union> F" using assms(2) by auto
  have c: "coalesced (F - {(i, k)})" using st by (auto simp: coalesced_def)
  have a: "(i, k) \<notin> A" "(i, k) \<notin> F - {(i, k)}" "A \<inter> (F - {(i, k)}) = {}" using st assms(2) by auto
  have t: "tiling (nBlock (memsys5Unlink i k m)) (A \<union> F)" "used_ok A (memsys5Unlink i k m)"
    using st by (simp_all add: Unlink_fields used_ok_links)
  show "m5_cut (memsys5Unlink i k m) A (F - {(i, k)}) (i, k)"
    unfolding m5_cut_def eq by (intro conjI t a c conjunct1 [OF un])
  show "user_same A m (memsys5Unlink i k m)"
    by (rule links_user_same [OF _ conjunct2 [OF un], of "A \<union> F"]) (use st in auto)
qed

lemma cut_split:
  assumes "m5_cut m A F (i, Suc k)"
    and "m' = memsys5Link (i + 2 ^ k) k (m\<lparr>aCtrl := (aCtrl m)(i + 2 ^ k := CTRL_FREE OR of_nat k)\<rparr>)"
  shows "m5_cut m' A (insert (i + 2 ^ k, k) F) (i, k)" and "user_same A m m'"
proof -
  note cut = assms(1) [unfolded m5_cut_def]
  have T: "tiling (nBlock m) (insert (i, Suc k) (A \<union> F))" using cut by blast
  note ik = tilingD [OF T insertI1]
  let ?j = "i + 2 ^ k" and ?m = "m\<lparr>aCtrl := (aCtrl m)(i + 2 ^ k := CTRL_FREE OR of_nat k)\<rparr>"
  have j: "?j \<in> atoms (i, Suc k)" "i \<in> atoms (i, Suc k)" by (simp_all add: mem_atoms)
  have cut1: "m5_cut ?m A F (i, Suc k)" using assms(1) j(1) by (rule cut_ctrl)
  have heads: "?j \<notin> heads (A \<union> F)" "i \<notin> heads (A \<union> F)"
    using tiling_not_head [OF T _ j(1), of "A \<union> F"] tiling_not_head [OF T _ j(2), of "A \<union> F"] cut by blast+
  then have hF: "?j \<notin> heads F" and iF: "(i, k) \<notin> A" "(i, k) \<notin> F" "(?j, k) \<notin> A"
    by (auto simp: heads_def dest: image_eqI [of _ fst, rotated])
  have "free_ok F ?m" using cut1 by (simp add: m5_cut_def)
  moreover have k: "k \<le> LOGMAX" using ik(3) by (simp add: LOGMAX_def)
  moreover have "aCtrl ?m ?j = CTRL_FREE OR of_nat k" by simp
  ultimately have ln: "free_ok (insert (?j, k) F) m' \<and> links_same (insert ?j (heads F)) ?m m'"
    unfolding assms(2) using free_ok_link [OF _ _ hF] cut_heads_unique [OF cut1] by blast
  have T2: "tiling (nBlock m) (insert (i, k) (insert (?j, k) (A \<union> F)))" using tiling_split [OF T] cut by simp
  have bj: "buddy i k = ?j" "buddy ?j k = i"
  proof -
    have *: "2 ^ k dvd i" using ik(1) by (meson dvd_trans le_imp_power_dvd le_SucI order_refl)
    have "even (i div 2 ^ k)" using ik(1) by (auto simp: dvd_def)
    then show "buddy i k = ?j" by (simp add: buddy_def)
    with buddy_buddy [OF *] show "buddy ?j k = i" by simp
  qed
  have "coalesced (insert (?j, k) F)"
    unfolding coalesced_def
  proof clarify
    fix a l assume a: "(a, l) \<in> insert (?j, k) F" "l < LOGMAX" "(buddy a l, l) \<in> insert (?j, k) F"
    have "2 ^ l dvd a" if "(a, l) \<in> F" using tilingD(1) [OF T] that by blast
    with buddy_buddy [of l a] a bj iF cut show False by (auto simp: coalesced_def)
  qed
  then have c: "coalesced (insert (?j, k) F)" .
  have eq: "insert (i, k) (A \<union> insert (?j, k) F) = insert (i, k) (insert (?j, k) (A \<union> F))" by auto
  have a: "(i, k) \<notin> A" "(i, k) \<notin> insert (?j, k) F" "A \<inter> insert (?j, k) F = {}" using iF cut by auto
  have t: "tiling (nBlock m') (insert (i, k) (insert (?j, k) (A \<union> F)))" "used_ok A m'"
    using T2 cut1 by (simp_all add: assms(2) m5_cut_def Link_fields used_ok_links)
  show "m5_cut m' A (insert (?j, k) F) (i, k)"
    unfolding m5_cut_def eq by (intro conjI t a c conjunct1 [OF ln])
  have "user_same A ?m m'"
    by (rule links_user_same [of _ "insert (i, k) (insert (?j, k) (A \<union> F))" "insert (?j, k) F"])
      (use T2 conjunct2 [OF ln] iF cut in auto)
  then show "user_same A m m'" by (simp add: user_same_ctrl)
qed

lemma Split_cut:
  "iLog \<le> b \<Longrightarrow> m5_cut m A F (i, b) \<Longrightarrow>
   \<exists>F'. m5_cut (mem5Split i iLog b m) A F' (i, iLog) \<and> user_same A m (mem5Split i iLog b m)"
proof (induction b arbitrary: m F)
  case 0
  then show ?case by (auto simp: user_same_refl)
next
  case (Suc b)
  show ?case
  proof (cases "iLog = Suc b")
    case True
    with Suc.prems show ?thesis by (auto simp: user_same_refl)
  next
    case False
    with Suc.prems have le: "iLog \<le> b" "iLog < Suc b" by auto
    let ?m = "memsys5Link (i + 2 ^ b) b (m\<lparr>aCtrl := (aCtrl m)(i + 2 ^ b := CTRL_FREE OR of_nat b)\<rparr>)"
    note cs = cut_split [OF Suc.prems(2) refl]
    from Suc.IH [OF le(1) cs(1)] cs(2) le(2) show ?thesis by (auto intro: user_same_trans)
  qed
qed

lemma cut_take:
  assumes "m5_cut m A F (i, k)"
  shows "m5_state (m\<lparr>aCtrl := (aCtrl m)(i := of_nat k)\<rparr>) (insert (i, k) A) F"
proof -
  have "m5_cut (m\<lparr>aCtrl := (aCtrl m)(i := of_nat k)\<rparr>) A F (i, k)"
    using assms by (rule cut_ctrl) (simp add: mem_atoms)
  then show ?thesis by (auto simp: m5_cut_def m5_state_def used_ok_def)
qed

lemma cut_link:
  assumes "m5_cut m A F (i, k)" and "aCtrl m i = CTRL_FREE OR of_nat k"
    and "k < LOGMAX \<Longrightarrow> (buddy i k, k) \<notin> F"
  shows "m5_state (memsys5Link i k m) A (insert (i, k) F)" and "user_same A m (memsys5Link i k m)"
proof -
  note cut = assms(1) [unfolded m5_cut_def]
  have T: "tiling (nBlock m) (insert (i, k) (A \<union> F))" using cut by blast
  note ik = tilingD [OF T insertI1]
  have k: "k \<le> LOGMAX" using ik(3) by (simp add: LOGMAX_def)
  have i: "i \<notin> heads F"
    using cut by (intro tiling_not_head [OF T]) (auto simp: mem_atoms)
  have ln: "free_ok (insert (i, k) F) (memsys5Link i k m) \<and> links_same (heads (insert (i, k) F)) m (memsys5Link i k m)"
    using free_ok_link [OF _ k i assms(2)] cut_heads_unique [OF assms(1)] cut by simp
  have c: "coalesced (insert (i, k) F)"
    unfolding coalesced_def
  proof clarify
    fix a l assume a: "(a, l) \<in> insert (i, k) F" "l < LOGMAX" "(buddy a l, l) \<in> insert (i, k) F"
    have d: "2 ^ l dvd a" using tilingD(1) [OF T] a(1) by blast
    have "buddy a l \<noteq> a" using d by (rule buddy_cases) auto
    with buddy_buddy [OF d] a assms(3) cut show False by (auto simp: coalesced_def)
  qed
  have eq: "A \<union> insert (i, k) F = insert (i, k) (A \<union> F)" by auto
  have t: "tiling (nBlock (memsys5Link i k m)) (insert (i, k) (A \<union> F))" "A \<inter> insert (i, k) F = {}"
    "used_ok A (memsys5Link i k m)"
    using cut by (auto simp: Link_fields used_ok_links)
  show "m5_state (memsys5Link i k m) A (insert (i, k) F)"
    unfolding m5_state_def eq by (intro conjI t c conjunct1 [OF ln])
  show "user_same A m (memsys5Link i k m)"
    by (rule links_user_same [OF T conjunct2 [OF ln]]) (use cut in auto)
qed

lemma cut_merge:
  assumes "m5_cut m A F (i, k)" and "k < LOGMAX" and "(buddy i k, k) \<in> F"
    and "m' = (memsys5Unlink (buddy i k) k m)\<lparr>aCtrl := (aCtrl m)(lo := CTRL_FREE OR of_nat (Suc k), hi := 0)\<rparr>"
    and "lo = min i (buddy i k)" and "hi = max i (buddy i k)"
  shows "m5_cut m' A (F - {(buddy i k, k)}) (lo, Suc k)" and "user_same A m m'"
proof -
  note cut = assms(1) [unfolded m5_cut_def]
  have T: "tiling (nBlock m) (insert (i, k) (A \<union> F))" using cut by blast
  note ik = tilingD [OF T insertI1]
  let ?b = "buddy i k" and ?u = "memsys5Unlink (buddy i k) k m" and ?R = "A \<union> (F - {(buddy i k, k)})"
  have k: "k \<le> LOGMAX" using assms(2) by simp
  have un: "free_ok (F - {(?b, k)}) ?u \<and> links_same (heads F) m ?u"
    using cut by (intro free_ok_unlink [OF _ assms(3) k] cut_heads_unique [OF assms(1)]) auto
  have eq: "insert (i, k) (A \<union> F) = insert (lo, k) (insert (lo + 2 ^ k, k) ?R)" "2 ^ Suc k dvd lo"
    and hi: "hi = lo + 2 ^ k"
    using ik(1) by (cases rule: buddy_cases; use assms(3,5,6) in auto)+
  have n: "(lo, k) \<notin> ?R" "(hi, k) \<notin> ?R"
    using ik(1) by (cases rule: buddy_cases; use cut assms(3,5,6) in auto)+
  have T2: "tiling (nBlock m) (insert (lo, Suc k) ?R)"
    using T n eq(2) assms(2) unfolding eq(1) hi by (intro tiling_merge)
  have new: "(lo, Suc k) \<notin> ?R"
  proof
    assume "(lo, Suc k) \<in> ?R"
    then have "(lo, Suc k) \<in> insert (i, k) (A \<union> F)" by auto
    moreover have "(lo, k) \<in> insert (i, k) (A \<union> F)" unfolding eq(1) by simp
    ultimately show False using tiling_head [OF T, of lo "Suc k" k] by simp
  qed
  have "coalesced (F - {(?b, k)})" using cut by (auto simp: coalesced_def)
  then have c1: "m5_cut ?u A (F - {(?b, k)}) (lo, Suc k)"
    using T2 new cut un unfolding m5_cut_def by (auto simp: Unlink_fields used_ok_links)
  have "lo \<in> atoms (lo, Suc k)" "hi \<in> atoms (lo, Suc k)" by (simp_all add: mem_atoms hi)
  with cut_ctrl [OF cut_ctrl [OF c1, of lo], of hi] show "m5_cut m' A (F - {(?b, k)}) (lo, Suc k)"
    by (simp add: assms(4) Unlink_fields fun_upd_def)
  have "user_same A m ?u" by (rule links_user_same [OF T conjunct2 [OF un]]) (use cut in auto)
  then show "user_same A m m'" by (simp add: assms(4) user_same_ctrl)
qed

text \<open>The buddy of a block is free exactly when the test of the merge loop says so.\<close>

lemma buddy_free_iff:
  assumes "m5_cut m A F (i, k)" and "buddy i k < nBlock m"
  shows "(buddy i k, k) \<in> F \<longleftrightarrow> aCtrl m (buddy i k) = CTRL_FREE OR of_nat k"
proof
  note cut = assms(1) [unfolded m5_cut_def]
  have T: "tiling (nBlock m) (insert (i, k) (A \<union> F))" using cut by blast
  note ik = tilingD [OF T insertI1]
  show "(buddy i k, k) \<in> F \<Longrightarrow> aCtrl m (buddy i k) = CTRL_FREE OR of_nat k"
    using cut by (auto simp: free_ok_def)
  assume c: "aCtrl m (buddy i k) = CTRL_FREE OR of_nat k"
  obtain j where j: "(buddy i k, j) \<in> insert (i, k) (A \<union> F)" "j \<le> k"
    using tiling_buddy [OF T insertI1 assms(2)] .
  have "buddy i k \<noteq> i" using ik(1) by (rule buddy_cases) auto
  with j consider "(buddy i k, j) \<in> A" | "(buddy i k, j) \<in> F" by auto
  then show "(buddy i k, k) \<in> F"
  proof cases
    case 1
    then have "aCtrl m (buddy i k) = of_nat j" using cut by (auto simp: used_ok_def)
    with c ctrl_used_free [of j k] j(2) ik(3) show ?thesis by simp
  next
    case 2
    then have "aCtrl m (buddy i k) = CTRL_FREE OR of_nat j" using cut by (auto simp: free_ok_def)
    with c ctrl_free_inj [of j k] j(2) ik(3) 2 show ?thesis by simp
  qed
qed

lemma Merge_cut:
  "m5_cut m A F (i, k) \<Longrightarrow> aCtrl m i = CTRL_FREE OR of_nat k \<Longrightarrow> mem5Merge i k m = (i', k', m') \<Longrightarrow>
   \<exists>F'. m5_cut m' A F' (i', k') \<and> aCtrl m' i' = CTRL_FREE OR of_nat k' \<and> user_same A m m' \<and>
     (k' < LOGMAX \<longrightarrow> (buddy i' k', k') \<notin> F')"
proof (induction "LOGMAX - k" arbitrary: i k m F rule: less_induct)
  case less
  have T: "tiling (nBlock m) (insert (i, k) (A \<union> F))" using less.prems(1) by (simp add: m5_cut_def)
  note ik = tilingD [OF T insertI1]
  show ?case
  proof (cases "k < LOGMAX \<and> (buddy i k, k) \<in> F")
    case False
    have "mem5Merge i k m = (i, k, m)"
    proof (cases "k < LOGMAX \<and> buddy i k < nBlock m")
      case True
      with False buddy_free_iff [OF less.prems(1)] show ?thesis
        by (simp add: mem5Merge.simps [of i k] buddy_def)
    next
      case b: False
      have "even (i div 2 ^ k)" if "k < LOGMAX" using ik(1)
        by (cases rule: buddy_cases) (use b ik(4) that in auto)
      with b show ?thesis by (auto simp: mem5Merge.simps [of i k] buddy_def)
    qed
    with less.prems False show ?thesis by (auto simp: user_same_refl)
  next
    case True
    let ?b = "buddy i k" and ?lo = "min i (buddy i k)" and ?hi = "max i (buddy i k)"
    let ?m = "(memsys5Unlink ?b k m)\<lparr>aCtrl := (aCtrl m)(?lo := CTRL_FREE OR of_nat (Suc k), ?hi := 0)\<rparr>"
    have "?b < nBlock m" using tilingD(4) [OF T] True by blast
    then have c: "aCtrl m ?b = CTRL_FREE OR of_nat k" using buddy_free_iff [OF less.prems(1)] True by simp
    have ne: "?lo \<noteq> ?hi" using ik(1) by (rule buddy_cases) auto
    note cm = cut_merge [OF less.prems(1) _ _ refl refl refl]
    have "mem5Merge i k m = mem5Merge ?lo (Suc k) ?m"
      using True c \<open>?b < nBlock m\<close> ne
      by (simp add: mem5Merge.simps [of i k] buddy_def [symmetric] Unlink_fields min_def max_def Let_def)
    with less.prems(3) have "mem5Merge ?lo (Suc k) ?m = (i', k', m')" by simp
    moreover have "LOGMAX - Suc k < LOGMAX - k" using True by linarith
    ultimately
    have "\<exists>F'. m5_cut m' A F' (i', k') \<and> aCtrl m' i' = CTRL_FREE OR of_nat k' \<and> user_same A ?m m' \<and>
        (k' < LOGMAX \<longrightarrow> (buddy i' k', k') \<notin> F')"
      using less.hyps [of "Suc k" ?m "F - {(?b, k)}" ?lo] cm True ne by simp
    with cm True show ?thesis using user_same_trans [of A m ?m m'] by blast
  qed
qed

subsection \<open>The operations\<close>

lemma mem5FullSz_spec:
  assumes "0 < f"
  obtains j where "mem5FullSz n f l = (f * 2 ^ j, l + j)" "n \<le> f * 2 ^ j" "j = 0 \<or> f * 2 ^ j < 2 * n"
proof -
  have "\<exists>j. mem5FullSz n f l = (f * 2 ^ j, l + j) \<and> n \<le> f * 2 ^ j \<and> (j = 0 \<or> f * 2 ^ j < 2 * n)"
    using assms
  proof (induction n f l rule: mem5FullSz.induct)
    case (1 n f l)
    show ?case
    proof (cases "f < n")
      case True
      with 1 obtain j where j: "mem5FullSz n (f * 2) (l + 1) = (f * 2 * 2 ^ j, l + 1 + j)" "n \<le> f * 2 * 2 ^ j"
        "j = 0 \<or> f * 2 * 2 ^ j < 2 * n" by auto
      have "f * 2 * 2 ^ j < 2 * n" using j(3) True by auto
      with j 1(2) True show ?thesis by (intro exI [of _ "Suc j"]) (simp add: mem5FullSz.simps [of n f] mult.assoc)
    next
      case False
      then show ?thesis by (intro exI [of _ 0]) (simp add: mem5FullSz.simps [of n f])
    qed
  qed
  with that show thesis by blast
qed

lemma mem5Bin_spec:
  "b \<le> mem5Bin m b \<and> (\<forall>k. b \<le> k \<and> k < mem5Bin m b \<longrightarrow> aiFreelist m k < 0) \<and>
   (mem5Bin m b \<le> LOGMAX \<longrightarrow> 0 \<le> aiFreelist m (mem5Bin m b))"
proof (induction m b rule: mem5Bin.induct)
  case (1 m b)
  show ?case
  proof (cases "b \<le> LOGMAX \<and> aiFreelist m b < 0")
    case True
    with 1 [OF True] show ?thesis
      by (simp add: mem5Bin.simps [of m b]) (metis Suc_leI le_antisym not_less_eq_eq)
  next
    case False
    then show ?thesis by (auto simp: mem5Bin.simps [of m b])
  qed
qed

lemma Malloc_state:
  assumes st: "m5_state m A F" and "0 < szAtom m" and "0 < nByte"
  shows "case memsys5Malloc nByte m of
      (None, m') \<Rightarrow> m' = m \<and> (nByte > 0x40000000 \<or> (\<forall>(i, k) \<in> F. szAtom m * 2 ^ k < nByte))
    | (Some p, m') \<Rightarrow> \<exists>i k F'. p = i * szAtom m \<and> nByte \<le> szAtom m * 2 ^ k \<and> (k = 0 \<or> szAtom m * 2 ^ k < 2 * nByte) \<and>
        memsys5Size m' p = szAtom m * 2 ^ k \<and> (i, k) \<notin> A \<and> m5_state m' (insert (i, k) A) F' \<and> user_same A m m'"
proof (cases "nByte > 0x40000000")
  case True
  then show ?thesis by (simp add: memsys5Malloc_def memsys5MallocUnsafe_def)
next
  case False
  obtain k where k: "mem5FullSz nByte (szAtom m) 0 = (szAtom m * 2 ^ k, k)" "nByte \<le> szAtom m * 2 ^ k"
    "k = 0 \<or> szAtom m * 2 ^ k < 2 * nByte"
    using mem5FullSz_spec [OF assms(2), of nByte 0] by auto
  define b where "b = mem5Bin m k"
  note bin = mem5Bin_spec [of k m, folded b_def]
  have fo: "free_ok F m" and T: "tiling (nBlock m) (A \<union> F)" using st by (auto simp: m5_state_def)
  show ?thesis
  proof (cases "b > LOGMAX")
    case True
    have "szAtom m * 2 ^ l < nByte" if "(i, l) \<in> F" for i l
    proof -
      have l: "l \<le> LOGMAX" using tilingD(3) [OF T, of i l] that by (simp add: LOGMAX_def)
      then have "l < k" using bin True that free_head(1) [OF fo l] by (meson leI le_less_trans)
      then have "2 * (szAtom m * 2 ^ l) \<le> szAtom m * 2 ^ k"
        using power_increasing [of "Suc l" k "2 :: nat"] by simp
      with k(3) \<open>l < k\<close> show ?thesis by linarith
    qed
    with True False k(1) assms(3) show ?thesis
      by (auto simp: memsys5Malloc_def memsys5MallocUnsafe_def b_def)
  next
    case small: False
    define i where "i = nat (aiFreelist m b)"
    have b: "(i, b) \<in> F" using free_head(2) [OF fo, of b] bin small by (simp add: i_def)
    define m1 where "m1 = mem5Split i k b (memsys5Unlink i b m)"
    obtain F' where F': "m5_cut m1 A F' (i, k)" "user_same A m m1"
      using Split_cut [OF conjunct1 [OF bin] cut_unlink(1) [OF st b]] cut_unlink(2) [OF st b] user_same_trans
      unfolding m1_def by blast
    define m2 where "m2 = m1\<lparr>aCtrl := (aCtrl m1)(i := of_nat k)\<rparr>"
    have s2: "m5_state m2 (insert (i, k) A) F'" unfolding m2_def by (rule cut_take [OF F'(1)])
    have us: "user_same A m m2" using F'(2) by (simp add: m2_def user_same_ctrl)
    have "k \<le> 30" using tilingD(3) [of "nBlock m2" "insert (i, k) A \<union> F'" i k] s2 by (simp add: m5_state_def)
    then have "memsys5Size m2 (i * szAtom m) = szAtom m * 2 ^ k"
      using us assms(2) by (simp add: memsys5Size_def Let_def m2_def user_same_def ctrl_logsize)
    moreover have "memsys5Malloc nByte m = (Some (i * szAtom m), m2)"
      using False small k(1) assms(3) F'(2)
      by (simp add: memsys5Malloc_def memsys5MallocUnsafe_def Let_def b_def [symmetric] i_def [symmetric]
          m1_def [symmetric] m2_def [symmetric] user_same_def)
    moreover have "(i, k) \<notin> A" using F'(1) by (simp add: m5_cut_def)
    ultimately show ?thesis using k s2 us by auto
  qed
qed

lemma Free_state:
  assumes st: "m5_state m (insert (i, k) A) F" and new: "(i, k) \<notin> A" and "0 < szAtom m"
  shows "\<exists>F'. m5_state (memsys5Free (i * szAtom m) m) A F' \<and> user_same A m (memsys5Free (i * szAtom m) m)"
proof -
  have T: "tiling (nBlock m) (insert (i, k) (A \<union> F))" using st by (simp add: m5_state_def)
  have k: "k \<le> 30" using tilingD(3) [OF T, of i k] by simp
  have c: "aCtrl m i = of_nat k" using st by (auto simp: m5_state_def used_ok_def)
  have cut: "m5_cut m A F (i, k)" using st new by (auto simp: m5_state_def m5_cut_def used_ok_def)
  define m1 where "m1 = m\<lparr>aCtrl := (aCtrl m)(i := aCtrl m i OR CTRL_FREE)\<rparr>"
  define m2 where "m2 = m1\<lparr>aCtrl := (aCtrl m1)(i + 2 ^ k - 1 := aCtrl m1 (i + 2 ^ k - 1) OR CTRL_FREE)\<rparr>"
  define m3 where "m3 = m2\<lparr>aCtrl := (aCtrl m2)(i := CTRL_FREE OR of_nat k)\<rparr>"
  have at: "i \<in> atoms (i, k)" "i + 2 ^ k - 1 \<in> atoms (i, k)"
    using zero_less_power [of "2 :: nat" k] unfolding mem_atoms by linarith+
  have cut3: "m5_cut m3 A F (i, k)"
    unfolding m3_def m2_def m1_def by (intro cut_ctrl cut at)
  obtain i' k' m' where mg: "mem5Merge i k m3 = (i', k', m')" by (metis prod_cases3)
  obtain F' where F': "m5_cut m' A F' (i', k')" "aCtrl m' i' = CTRL_FREE OR of_nat k'" "user_same A m3 m'"
    "k' < LOGMAX \<longrightarrow> (buddy i' k', k') \<notin> F'"
    using Merge_cut [OF cut3 _ mg] by (auto simp: m3_def)
  have lg: "i * szAtom m div szAtom m = i" "unat (aCtrl m i AND CTRL_LOGSIZE) = k"
    using assms(3) c k by (simp_all only: nonzero_mult_div_cancel_right ctrl_logsize)
  have "memsys5Free (i * szAtom m) m = (case mem5Merge i k m3 of (b, l, m) \<Rightarrow> memsys5Link b l m)"
    unfolding memsys5Free_def memsys5FreeUnsafe_def Let_def lg m3_def m2_def m1_def by (rule refl)
  then have eq: "memsys5Free (i * szAtom m) m = memsys5Link i' k' m'" by (simp add: mg)
  have "user_same A m m3" by (simp add: m3_def m2_def m1_def user_same_ctrl user_same_refl)
  with cut_link [OF F'(1,2)] F'(3,4) show ?thesis
    unfolding eq by (blast intro: user_same_trans)
qed

subsection \<open>Initialisation\<close>

lemma mem5Atom_small: "mem5Atom 8 = 8" "mem5Atom 4 = 8" "mem5Atom 2 = 8" "mem5Atom (Suc 0) = 8"
proof -
  have step: "mem5Atom sz = (if 0 < sz \<and> sz < 8 then mem5Atom (sz * 2) else sz)" for sz
    using mem5Atom.simps [of sz] by (simp only: Mem5Link_size_def)
  show 8: "mem5Atom 8 = 8" using step [of 8] by simp
  show 4: "mem5Atom 4 = 8" using step [of 4] 8 by simp
  show 2: "mem5Atom 2 = 8" using step [of 2] 4 by simp
  show "mem5Atom (Suc 0) = 8" using step [of "Suc 0"] 2 by simp
qed

lemma mem5Atom_pow: "mem5Atom (2 ^ l) = 2 ^ max l 3"
proof (cases "3 \<le> l")
  case True
  then have "(8 :: nat) \<le> 2 ^ l" using power_increasing [of 3 l "2 :: nat"] by simp
  then show ?thesis using True by (subst mem5Atom.simps) (simp add: Mem5Link_size_def max_def)
next
  case False
  then consider "l = 0" | "l = 1" | "l = 2" by linarith
  then show ?thesis by cases (simp_all add: mem5Atom_small)
qed

text \<open>The loop has laid out blocks of different sizes over the first \<open>off\<close> atoms.\<close>

definition init_ok :: "nat \<Rightarrow> nat \<Rightarrow> Mem5Global \<Rightarrow> blk set \<Rightarrow> bool" where
  "init_ok ii off m F \<longleftrightarrow> tiling off F \<and> free_ok F m \<and> (\<forall>(a, l) \<in> F. ii \<le> l) \<and>
     (\<forall>a b l. (a, l) \<in> F \<longrightarrow> (b, l) \<in> F \<longrightarrow> a = b) \<and> 2 ^ ii dvd off \<and> off \<le> nBlock m \<and> nBlock m < off + 2 ^ ii"

lemma init_ok_step:
  assumes "init_ok (Suc ii) off m F" and "off + 2 ^ ii \<le> nBlock m" and "ii \<le> LOGMAX"
    and "m' = memsys5Link off ii (m\<lparr>aCtrl := (aCtrl m)(off := of_nat ii OR CTRL_FREE)\<rparr>)"
  shows "init_ok ii (off + 2 ^ ii) m' (insert (off, ii) F)"
proof -
  note ok = assms(1) [unfolded init_ok_def]
  let ?m = "m\<lparr>aCtrl := (aCtrl m)(off := of_nat ii OR CTRL_FREE)\<rparr>"
  have T: "tiling off F" using ok by blast
  have h: "off \<notin> heads F" using tilingD(4) [OF T, of off] by (auto simp: heads_def)
  have d: "2 ^ ii dvd off" using ok by (meson dvd_trans le_imp_power_dvd le_SucI order_refl)
  have "free_ok F ?m" using ok h by (intro free_ok_ctrl) auto
  moreover have "aCtrl ?m off = CTRL_FREE OR of_nat ii" by (simp add: or.commute)
  ultimately have fo: "free_ok (insert (off, ii) F) m'"
    unfolding assms(4) using free_ok_link [OF _ assms(3) h] tiling_head [OF T] by blast
  have "tiling (off + 2 ^ ii) (insert (off, ii) F)"
    unfolding tiling_def
  proof (intro conjI)
    show "\<forall>(i, k) \<in> insert (off, ii) F. 2 ^ k dvd i \<and> i + 2 ^ k \<le> off + 2 ^ ii \<and> k \<le> LOGMAX"
      using T d assms(3) by (auto simp: tiling_def)
    show "\<forall>x < off + 2 ^ ii. \<exists>b \<in> insert (off, ii) F. x \<in> atoms b"
      using T unfolding tiling_def by (metis insertCI mem_atoms not_le)
    have "atoms b \<inter> atoms (off, ii) = {}" if "b \<in> F" for b
      using tilingD(2) [OF T, of "fst b" "snd b"] that by (auto simp: atoms_def)
    then show "pairwise (\<lambda>b c. atoms b \<inter> atoms c = {}) (insert (off, ii) F)"
      using T by (auto simp: tiling_def pairwise_insert Int_commute)
  qed
  with fo d ok assms(2,4) show ?thesis
    by (fastforce simp: init_ok_def Link_fields)
qed

lemma InitLoop_ok:
  "init_ok ii off m F \<Longrightarrow> ii \<le> Suc LOGMAX \<Longrightarrow> \<exists>F'. init_ok 0 (nBlock m) (mem5InitLoop ii off m) F' \<and>
     nBlock (mem5InitLoop ii off m) = nBlock m \<and> szAtom (mem5InitLoop ii off m) = szAtom m"
proof (induction ii arbitrary: off m F)
  case 0
  then have "off = nBlock m" by (simp add: init_ok_def)
  with 0 show ?case by auto
next
  case (Suc ii)
  show ?case
  proof (cases "off + 2 ^ ii \<le> nBlock m")
    case True
    note st = init_ok_step [OF Suc.prems(1) True _ refl]
    from Suc.IH [OF st] Suc.prems(2) True show ?thesis by (simp add: Let_def Link_fields)
  next
    case False
    have "2 ^ ii dvd off" using Suc.prems(1) unfolding init_ok_def
      by (meson dvd_trans le_imp_power_dvd le_SucI order_refl)
    with Suc.prems(1) False have "init_ok ii off m F" by (fastforce simp: init_ok_def)
    from Suc.IH [OF this] Suc.prems(2) False show ?thesis by simp
  qed
qed

lemma init_ok_state:
  assumes "init_ok 0 (nBlock m) m F"
  shows "m5_state m {} F"
proof -
  note ok = assms [unfolded init_ok_def]
  have "coalesced F" unfolding coalesced_def
  proof clarify
    fix i k assume *: "(i, k) \<in> F" "(buddy i k, k) \<in> F"
    then have "buddy i k = i" using ok by blast
    moreover have "2 ^ k dvd i" using tilingD(1) * ok by blast
    then have "buddy i k \<noteq> i" by (rule buddy_cases) auto
    ultimately show False by simp
  qed
  with ok show ?thesis by (simp add: m5_state_def used_ok_def)
qed

lemma memsys5Init_state:
  assumes "nHeap < 2 ^ 31"
  shows "\<exists>F. m5_state (memsys5Init nHeap mnReq m) {} F \<and>
    szAtom (memsys5Init nHeap mnReq m) = 2 ^ max (memsys5Log mnReq) 3 \<and>
    nBlock (memsys5Init nHeap mnReq m) = nHeap div (2 ^ max (memsys5Log mnReq) 3 + 1)"
proof -
  define l where "l = max (memsys5Log mnReq) 3"
  define m1 where "m1 = m\<lparr>szAtom := 2 ^ l, nBlock := nHeap div (2 ^ l + 1),
    aiFreelist := (\<lambda>ii. if ii \<le> LOGMAX then - 1 else aiFreelist m ii)\<rparr>"
  have eq: "memsys5Init nHeap mnReq m = mem5InitLoop (Suc LOGMAX) 0 m1"
    unfolding memsys5Init_def Let_def mem5Atom_pow
    by (rule arg_cong [where f = "mem5InitLoop (Suc LOGMAX) 0"]) (simp add: m1_def l_def cong: if_cong)
  have "nBlock m1 \<le> nHeap" by (simp add: m1_def)
  then have "nBlock m1 < 2 ^ Suc LOGMAX" using assms by (simp add: LOGMAX_def)
  then have "init_ok (Suc LOGMAX) 0 m1 {}"
    by (simp add: init_ok_def tiling_def free_ok_def m1_def)
  from InitLoop_ok [OF this] obtain F where F: "init_ok 0 (nBlock m1) (mem5InitLoop (Suc LOGMAX) 0 m1) F"
    "nBlock (mem5InitLoop (Suc LOGMAX) 0 m1) = nBlock m1" "szAtom (mem5InitLoop (Suc LOGMAX) 0 m1) = szAtom m1" by auto
  with init_ok_state [of "mem5InitLoop (Suc LOGMAX) 0 m1" F] show ?thesis
    unfolding eq l_def [symmetric] by (intro exI [of _ F]) (simp add: m1_def)
qed

subsection \<open>Rounding\<close>

lemma mem5Round4_spec:
  "0 < f \<Longrightarrow> f < 4 * n \<Longrightarrow> \<exists>j. mem5Round4 n f = f * 4 ^ j \<and> n \<le> f * 4 ^ j \<and> f * 4 ^ j < 4 * n"
proof (induction n f rule: mem5Round4.induct)
  case (1 n f)
  show ?case
  proof (cases "f < n")
    case True
    with 1 obtain j where "mem5Round4 n (f * 4) = f * 4 * 4 ^ j" "n \<le> f * 4 * 4 ^ j" "f * 4 * 4 ^ j < 4 * n" by auto
    with 1(2) True show ?thesis by (intro exI [of _ "Suc j"]) (simp add: mem5Round4.simps [of n f] mult.assoc)
  next
    case False
    with 1 show ?thesis by (intro exI [of _ 0]) (simp add: mem5Round4.simps [of n f])
  qed
qed

lemma Roundup_spec:
  assumes "szAtom m = 2 ^ a" and "0 < n" and "n \<le> 0x40000000"
  shows "n \<le> memsys5Roundup m n \<and> (\<exists>j. memsys5Roundup m n = 2 ^ j) \<and>
    (memsys5Roundup m n = szAtom m \<or> memsys5Roundup m n < 2 * n)"
proof -
  consider (small) "n \<le> szAtom m * 2" | (big) "\<not> n \<le> szAtom m * 2" "n > 0x10000000"
    | (mid) "szAtom m * 2 < n" "n \<le> 0x10000000" by linarith
  then show ?thesis
  proof cases
    case small
    then have r: "memsys5Roundup m n = (if n \<le> 2 ^ a then 2 ^ a else 2 ^ Suc a)"
      using assms(1) by (simp add: memsys5Roundup_def)
    show ?thesis
    proof (cases "n \<le> 2 ^ a")
      case True
      then show ?thesis unfolding r assms(1) by auto
    next
      case False
      then have "memsys5Roundup m n = 2 ^ Suc a" using r by simp
      moreover have "n \<le> 2 ^ Suc a" "2 ^ Suc a < 2 * n" using small assms(1) False by simp_all
      ultimately show ?thesis by metis
    qed
  next
    case big
    have "(0x20000000 :: nat) = 2 ^ 29" "(0x40000000 :: nat) = 2 ^ 30" by simp_all
    with big assms(3) show ?thesis unfolding memsys5Roundup_def by (simp del: power_numeral) blast
  next
    case mid
    define f where "f = szAtom m * 8"
    obtain j where j: "mem5Round4 n f = f * 4 ^ j" "n \<le> f * 4 ^ j" "f * 4 ^ j < 4 * n"
      using mem5Round4_spec [of f n] mid(1) assms(1) by (auto simp: f_def)
    have "f * 4 ^ j = 2 ^ (a + 3 + 2 * j)"
      unfolding f_def assms(1) power_add power_mult by (simp add: power2_eq_square)
    then obtain e where e: "f * 4 ^ j = 2 ^ Suc e" by (metis add_Suc_right add_Suc numeral_3_eq_3)
    then have "f * 4 ^ j div 2 = 2 ^ e" by simp
    with mid j(1) e have "memsys5Roundup m n = (if n \<le> 2 ^ e then 2 ^ e else 2 ^ Suc e)"
      by (simp add: memsys5Roundup_def f_def [symmetric])
    moreover have "n \<le> 2 ^ Suc e" "2 ^ e < 2 * n" using j(2,3) e by simp_all
    ultimately show ?thesis by (cases "n \<le> 2 ^ e") (auto intro: exI [of _ e] exI [of _ "Suc e"])
  qed
qed

subsection \<open>Histories\<close>

text \<open>
  The states a program can reach from initialisation by allocating, releasing, resizing, and
  writing what it likes into the blocks it holds.  The second argument is the set of the blocks
  held, as pairs of byte offset and size in bytes.
\<close>

definition bytes_of :: "Mem5Global \<Rightarrow> blk \<Rightarrow> nat \<times> nat" where
  "bytes_of m b = (fst b * szAtom m, szAtom m * 2 ^ snd b)"

definition user_writes :: "(nat \<times> nat) set \<Rightarrow> Mem5Global \<Rightarrow> Mem5Global \<Rightarrow> bool" where
  "user_writes H m m' \<longleftrightarrow> (\<exists>nx pv. m' = m\<lparr>lnext := nx, lprev := pv\<rparr> \<and>
     (\<forall>j. (\<forall>(p, n) \<in> H. \<not> (p \<le> j * szAtom m \<and> j * szAtom m < p + n)) \<longrightarrow> nx j = lnext m j \<and> pv j = lprev m j))"

inductive mem5_run :: "Mem5Global \<Rightarrow> (nat \<times> nat) set \<Rightarrow> bool" where
  run_init: "nHeap < 2 ^ 31 \<Longrightarrow> mem5_run (memsys5Init nHeap mnReq m) {}"
| run_malloc: "mem5_run m H \<Longrightarrow> memsys5Malloc n m = (Some p, m') \<Longrightarrow> mem5_run m' (insert (p, memsys5Size m' p) H)"
| run_nomem: "mem5_run m H \<Longrightarrow> memsys5Malloc n m = (None, m') \<Longrightarrow> mem5_run m' H"
| run_free: "mem5_run m H \<Longrightarrow> (p, n) \<in> H \<Longrightarrow> mem5_run (memsys5Free p m) (H - {(p, n)})"
| run_write: "mem5_run m H \<Longrightarrow> user_writes H m m' \<Longrightarrow> mem5_run m' H"

lemma state_size:
  assumes "m5_state m A F" and "(i, k) \<in> A" and "0 < szAtom m"
  shows "memsys5Size m (i * szAtom m) = szAtom m * 2 ^ k"
proof -
  have "tiling (nBlock m) (A \<union> F)" using assms(1) by (simp add: m5_state_def)
  then have "k \<le> 30" using tilingD(3) [of "nBlock m" "A \<union> F" i k] assms(2) by simp
  moreover have "aCtrl m i = of_nat k" using assms by (auto simp: m5_state_def used_ok_def)
  ultimately show ?thesis using assms(3) by (simp add: memsys5Size_def ctrl_logsize)
qed

lemma bytes_of_inj: "0 < szAtom m \<Longrightarrow> bytes_of m b = bytes_of m c \<longleftrightarrow> b = c"
  by (auto simp: bytes_of_def prod_eq_iff)

lemma user_writes_state:
  assumes st: "m5_state m A F" and "0 < szAtom m" and "user_writes (bytes_of m ` A) m m'"
  shows "m5_state m' A F \<and> nBlock m' = nBlock m \<and> szAtom m' = szAtom m"
proof -
  obtain nx pv where m': "m' = m\<lparr>lnext := nx, lprev := pv\<rparr>"
    and same: "\<And>j. (\<forall>(p, n) \<in> bytes_of m ` A. \<not> (p \<le> j * szAtom m \<and> j * szAtom m < p + n)) \<Longrightarrow>
      nx j = lnext m j \<and> pv j = lprev m j"
    using assms(3) unfolding user_writes_def by blast
  have T: "tiling (nBlock m) (A \<union> F)" using st by (simp add: m5_state_def)
  have keep: "nx j = lnext m j \<and> pv j = lprev m j" if "(j, l) \<in> F" for j l
  proof -
    have False if h: "(p, n) \<in> bytes_of m ` A" "p \<le> j * szAtom m" "j * szAtom m < p + n" for p n
    proof -
      from h(1) obtain i k where b: "(i, k) \<in> A" "p = i * szAtom m" "n = szAtom m * 2 ^ k"
        by (auto simp: bytes_of_def)
      have "p + n = (i + 2 ^ k) * szAtom m" by (simp add: b algebra_simps)
      with h(2,3) b(2) have "j \<in> atoms (i, k)" unfolding mem_atoms using assms(2) by simp
      then have "(i, k) = (j, l)" using tiling_disjoint [OF T, of "(i, k)" "(j, l)" j] b \<open>(j, l) \<in> F\<close>
        by (simp add: mem_atoms)
      with b \<open>(j, l) \<in> F\<close> st show False by (auto simp: m5_state_def)
    qed
    then show ?thesis by (intro same) fast
  qed
  have "free_ok F m'"
    unfolding free_ok_def
  proof (intro conjI allI impI)
    show "\<forall>(i, k) \<in> F. aCtrl m' i = CTRL_FREE OR of_nat k" using st by (simp add: m5_state_def free_ok_def m')
    fix k assume k: "k \<le> LOGMAX"
    obtain xs where xs: "distinct xs" "set xs = {i. (i, k) \<in> F}" "dll (lnext m) (lprev m) (aiFreelist m k) xs"
      using free_okD [of F m k] st k by (auto simp: m5_state_def)
    have "dll nx pv (aiFreelist m k) xs"
      by (rule dll_frame [THEN iffD2, OF _ xs(3)]) (use keep xs(2) in auto)
    with xs show "\<exists>xs. distinct xs \<and> set xs = {i. (i, k) \<in> F} \<and> dll (lnext m') (lprev m') (aiFreelist m' k) xs"
      by (auto simp: m')
  qed
  with st show ?thesis by (simp add: m' m5_state_def used_ok_def)
qed

lemma run_state:
  "mem5_run m H \<Longrightarrow> 0 < szAtom m \<and> (\<exists>A F. m5_state m A F \<and> H = bytes_of m ` A)"
proof (induction rule: mem5_run.induct)
  case (run_init nHeap mnReq m)
  with memsys5Init_state [of nHeap mnReq m] show ?case by (metis image_empty zero_less_power zero_less_numeral)
next
  case (run_malloc m H n p m')
  then obtain A F where st: "0 < szAtom m" "m5_state m A F" "H = bytes_of m ` A" by blast
  have "0 < n" using run_malloc.hyps(2) by (auto simp: memsys5Malloc_def split: if_splits)
  with Malloc_state [OF st(2,1), of n] run_malloc.hyps(2) obtain i k F' where
    s: "p = i * szAtom m" "memsys5Size m' p = szAtom m * 2 ^ k" "m5_state m' (insert (i, k) A) F'" "user_same A m m'"
    by auto
  then have "szAtom m' = szAtom m" by (simp add: user_same_def)
  then have "insert (p, memsys5Size m' p) H = bytes_of m' ` insert (i, k) A"
    using s st(3) by (simp add: bytes_of_def [abs_def])
  with s(3) st(1) \<open>szAtom m' = szAtom m\<close> show ?case by metis
next
  case (run_nomem m H n m')
  then have "m' = m"
    by (auto simp: memsys5Malloc_def memsys5MallocUnsafe_def Let_def split: if_splits prod.splits)
  with run_nomem show ?case by simp
next
  case (run_free m H p n)
  then obtain A F where st: "0 < szAtom m" "m5_state m A F" "H = bytes_of m ` A" by blast
  then obtain i k where b: "(i, k) \<in> A" "(p, n) = bytes_of m (i, k)" using run_free.hyps(2) by auto
  define B where "B = A - {(i, k)}"
  have A: "A = insert (i, k) B" "(i, k) \<notin> B" using b by (auto simp: B_def)
  obtain F' where F': "m5_state (memsys5Free p m) B F'" "user_same B m (memsys5Free p m)"
    using Free_state [of m i k B F] st A b(2) by (auto simp: bytes_of_def)
  then have sz: "szAtom (memsys5Free p m) = szAtom m" by (simp add: user_same_def)
  have "H - {(p, n)} = bytes_of m ` B"
    unfolding st(3) A(1) b(2) using A(2) bytes_of_inj [OF st(1)] by auto
  also have "\<dots> = bytes_of (memsys5Free p m) ` B" using sz by (simp add: bytes_of_def [abs_def])
  finally show ?case using F'(1) st(1) sz by auto
next
  case (run_write m H m')
  then obtain A F where st: "0 < szAtom m" "m5_state m A F" "H = bytes_of m ` A" by blast
  then have "m5_state m' A F" "szAtom m' = szAtom m"
    using user_writes_state [OF st(2,1)] run_write.hyps(2) by blast+
  moreover from this(2) have "bytes_of m' = bytes_of m" by (simp add: bytes_of_def fun_eq_iff)
  ultimately show ?case using st(1,3) by metis
qed

subsection \<open>Properties\<close>

text \<open>
  C24: whatever sequence of allocations, releases and writes into its own blocks a program
  makes after initialisation, the blocks it holds never overlap, lie inside the pool, and have
  the size \<open>memsys5Size\<close> reports.
\<close>

theorem Mem5_blocks_disjoint:
  assumes "mem5_run m H" and "(p, n) \<in> H" and "(q, k) \<in> H" and "(p, n) \<noteq> (q, k)"
  shows "(p + n \<le> q \<or> q + k \<le> p) \<and> p + n \<le> nBlock m * szAtom m \<and> memsys5Size m p = n"
proof -
  obtain A F where st: "0 < szAtom m" "m5_state m A F" "H = bytes_of m ` A" using run_state [OF assms(1)] by blast
  obtain b c where b: "b \<in> A" "(p, n) = bytes_of m b" and c: "c \<in> A" "(q, k) = bytes_of m c"
    using assms(2,3) st(3) by auto
  have T: "tiling (nBlock m) (A \<union> F)" using st(2) by (simp add: m5_state_def)
  have "b \<noteq> c" using assms(4) b c by auto
  then have d: "atoms b \<inter> atoms c = {}" using T b c by (auto simp: tiling_def pairwise_def)
  have "fst b + 2 ^ snd b \<le> fst c \<or> fst c + 2 ^ snd c \<le> fst b"
  proof (rule ccontr)
    assume "\<not> ?thesis"
    then have "max (fst b) (fst c) \<in> atoms b \<inter> atoms c" by (auto simp: atoms_def max_def)
    with d show False by simp
  qed
  moreover have "x \<le> y \<Longrightarrow> x * szAtom m \<le> y * szAtom m" for x y :: nat by simp
  ultimately have "(fst b + 2 ^ snd b) * szAtom m \<le> fst c * szAtom m \<or> (fst c + 2 ^ snd c) * szAtom m \<le> fst b * szAtom m"
    by blast
  moreover have "(fst b + 2 ^ snd b) * szAtom m \<le> nBlock m * szAtom m"
    using tilingD(2) [OF T, of "fst b" "snd b"] b(1) by simp
  ultimately show ?thesis
    using b c state_size [OF st(2) _ st(1), of "fst b" "snd b"] by (simp add: bytes_of_def algebra_simps)
qed

text \<open>
  C25: allocation.  A block that is returned has at least the requested size, less than twice as
  much unless it is a single atom, was not outstanding before, and the allocator has not
  written into any outstanding block.  The only reasons for failing are a request above 1 GiB
  and that no free block is large enough; the state is then unchanged.
\<close>

theorem Mem5_malloc:
  assumes "m5_state m A F" and "0 < szAtom m" and "0 < nByte"
  shows "case memsys5Malloc nByte m of
      (None, m') \<Rightarrow> m' = m \<and> (nByte > 0x40000000 \<or> (\<forall>(i, k) \<in> F. szAtom m * 2 ^ k < nByte))
    | (Some p, m') \<Rightarrow> \<exists>i k F'. p = i * szAtom m \<and> nByte \<le> szAtom m * 2 ^ k \<and> (k = 0 \<or> szAtom m * 2 ^ k < 2 * nByte) \<and>
        memsys5Size m' p = szAtom m * 2 ^ k \<and> (i, k) \<notin> A \<and> m5_state m' (insert (i, k) A) F' \<and> user_same A m m'"
  by (rule Malloc_state [OF assms])

text \<open>
  C26: release.  Freeing an outstanding block removes exactly that block from the outstanding
  ones, merges it with its free buddies so that again no two free blocks are buddies, and
  writes into no other outstanding block.
\<close>

theorem Mem5_free:
  assumes "m5_state m (insert (i, k) A) F" and "(i, k) \<notin> A" and "0 < szAtom m"
  shows "\<exists>F'. m5_state (memsys5Free (i * szAtom m) m) A F' \<and> coalesced F' \<and>
    user_same A m (memsys5Free (i * szAtom m) m)"
  using Free_state [OF assms] by (auto simp: m5_state_def)

text \<open>
  Rounding.  For every request of at most 1 GiB \<open>memsys5Roundup\<close> returns a power of two
  that is at least the request and, unless it is the atom size, less than twice the request.
\<close>

theorem Mem5_roundup:
  assumes "szAtom m = 2 ^ a" and "0 < n" and "n \<le> 0x40000000"
  shows "n \<le> memsys5Roundup m n \<and> (\<exists>j. memsys5Roundup m n = 2 ^ j) \<and>
    (memsys5Roundup m n = szAtom m \<or> memsys5Roundup m n < 2 * n)"
  by (rule Roundup_spec [OF assms])

subsection \<open>Witnesses\<close>

definition mem5_empty :: Mem5Global where
  "mem5_empty = \<lparr>szAtom = 0, nBlock = 0, lnext = (\<lambda>_. 0), lprev = (\<lambda>_. 0), aiFreelist = (\<lambda>_. 0), aCtrl = (\<lambda>_. 0)\<rparr>"

text \<open>A pool of four atoms of eight bytes, as \<^verbatim>\<open>memsys5Init\<close> lays it out.\<close>

definition mem5_pool :: Mem5Global where
  "mem5_pool = \<lparr>szAtom = 8, nBlock = 4, lnext = (\<lambda>_. - 1), lprev = (\<lambda>_. - 1),
     aiFreelist = (\<lambda>k. if k = 2 then 0 else - 1), aCtrl = (\<lambda>i. if i = 0 then 0x22 else 0)\<rparr>"

lemma mem5_pool_state: "m5_state mem5_pool {} {(0, 2)}"
proof -
  have "tiling 4 {(0, 2)}" by (auto simp: tiling_def mem_atoms LOGMAX_def)
  moreover have "free_ok {(0, 2)} mem5_pool"
    unfolding free_ok_def
  proof (intro conjI allI impI)
    show "\<forall>(i, k) \<in> {(0, 2)}. aCtrl mem5_pool i = CTRL_FREE OR of_nat k" by (simp add: mem5_pool_def CTRL_FREE_def)
    fix k
    show "\<exists>xs. distinct xs \<and> set xs = {i. (i, k) \<in> {(0, 2)}} \<and> dll (lnext mem5_pool) (lprev mem5_pool) (aiFreelist mem5_pool k) xs"
      by (rule exI [of _ "if k = 2 then [0] else []"]) (simp add: mem5_pool_def)
  qed
  ultimately show ?thesis
    by (simp add: m5_state_def used_ok_def coalesced_def buddy_def mem5_pool_def)
qed

lemma malloc_atom:
  assumes "m5_state m A F" and "szAtom m = 8" and "F \<noteq> {}"
  obtains i m' F' where "memsys5Malloc 1 m = (Some (i * 8), m')" "m5_state m' (insert (i, 0) A) F'" "(i, 0) \<notin> A"
    "memsys5Size m' (i * 8) = 8" "szAtom m' = 8" "nBlock m' = nBlock m"
proof -
  obtain r m' where r: "memsys5Malloc 1 m = (r, m')" by fastforce
  from Malloc_state [OF assms(1), of 1] r assms(2,3) obtain p where p: "r = Some p" by (cases r) auto
  have "k = 0" if "k = 0 \<or> 8 * 2 ^ k < (2 :: nat)" for k :: nat
    using that zero_less_power [of "2 :: nat" k] by linarith
  with Malloc_state [OF assms(1), of 1] r p assms(2) that show thesis by (auto simp: user_same_def)
qed

lemma free_left: "m5_state m A F \<Longrightarrow> x < nBlock m \<Longrightarrow> (\<And>b. b \<in> A \<Longrightarrow> x \<notin> atoms b) \<Longrightarrow> F \<noteq> {}"
  unfolding m5_state_def tiling_def by (metis Un_empty_right)

lemma Mem5_blocks_disjoint_witness:
  "\<exists>m p q. mem5_run m {(p, 8), (q, 8)} \<and> p \<noteq> q \<and> (p + 8 \<le> q \<or> q + 8 \<le> p) \<and> p + 8 \<le> nBlock m * szAtom m"
proof -
  let ?m = "memsys5Init 100 8 mem5_empty"
  have log: "memsys5Log 8 = 3"
    by (simp add: memsys5Log_def memsys5LogLoop.simps [of 8 0] memsys5LogLoop.simps [of 8 1]
        memsys5LogLoop.simps [of 8 "Suc 0"] memsys5LogLoop.simps [of 8 "Suc (Suc 0)"]
        memsys5LogLoop.simps [of 8 "Suc (Suc (Suc 0))"])
  obtain F where F: "m5_state ?m {} F" "szAtom ?m = 8" "nBlock ?m = 11"
    using memsys5Init_state [of 100 8 mem5_empty] by (auto simp: log)
  have run0: "mem5_run ?m {}" by (rule run_init) simp
  have "F \<noteq> {}" using free_left [OF F(1), of 0] F(3) by simp
  from malloc_atom [OF F(1,2) this] obtain i m1 F1 where
    1: "memsys5Malloc 1 ?m = (Some (i * 8), m1)" "m5_state m1 {(i, 0)} F1" "(i, 0 :: nat) \<notin> {}"
    "memsys5Size m1 (i * 8) = 8" "szAtom m1 = 8" "nBlock m1 = nBlock ?m" .
  have run1: "mem5_run m1 {(i * 8, 8)}" using run_malloc [OF run0 1(1)] 1(4) by simp
  have "F1 \<noteq> {}"
    by (rule free_left [OF 1(2), of "if i = 0 then 1 else 0"]) (use 1(6) F(3) in \<open>simp_all add: mem_atoms\<close>)
  from malloc_atom [OF 1(2,5) this] obtain j m2 F2 where
    2: "memsys5Malloc 1 m1 = (Some (j * 8), m2)" "m5_state m2 {(j, 0), (i, 0)} F2" "(j, 0 :: nat) \<notin> {(i, 0)}"
    "memsys5Size m2 (j * 8) = 8" "szAtom m2 = 8" "nBlock m2 = nBlock m1" .
  have run2: "mem5_run m2 {(j * 8, 8), (i * 8, 8)}" using run_malloc [OF run1 2(1)] 2(4) by simp
  have "(j * 8, 8 :: nat) \<noteq> (i * 8, 8)" using 2(3) by simp
  from Mem5_blocks_disjoint [OF run2 _ _ this] run2 this show ?thesis
    by (intro exI [of _ m2] exI [of _ "j * 8"] exI [of _ "i * 8"]) auto
qed

lemma Mem5_malloc_witness:
  "case memsys5Malloc 5 mem5_pool of (None, m') \<Rightarrow> False
   | (Some p, m') \<Rightarrow> \<exists>i k F'. p = i * 8 \<and> 5 \<le> (8 :: nat) * 2 ^ k \<and> m5_state m' (insert (i, k) {}) F'"
proof -
  have "fst (memsys5Malloc 5 mem5_pool) \<noteq> None"
    using Mem5_malloc [OF mem5_pool_state, of 5]
    by (auto simp: mem5_pool_def split: prod.splits option.splits)
  with Mem5_malloc [OF mem5_pool_state, of 5] show ?thesis
    by (auto simp: mem5_pool_def split: prod.splits option.splits)
qed

lemma Mem5_free_witness:
  "\<exists>m i k F'. m5_state m {(i, k)} {} \<and> m5_state (memsys5Free (i * szAtom m) m) {} F' \<and> coalesced F'"
proof -
  let ?m = "mem5_pool\<lparr>aiFreelist := (\<lambda>_. - 1), aCtrl := (\<lambda>i. if i = 0 then 2 else 0)\<rparr>"
  have "tiling 4 {(0, 2)}" by (auto simp: tiling_def mem_atoms LOGMAX_def)
  then have "m5_state ?m (insert (0, 2) {}) {}"
    by (simp add: m5_state_def free_ok_def used_ok_def coalesced_def mem5_pool_def)
  with Mem5_free [OF this] show ?thesis by (force simp: mem5_pool_def)
qed

lemma Mem5_roundup_witness: "szAtom mem5_pool = 2 ^ 3 \<and> 100 \<le> memsys5Roundup mem5_pool 100 \<and> memsys5Roundup mem5_pool 100 < 200"
  using Mem5_roundup [of mem5_pool 3 100] by (auto simp: mem5_pool_def)

end
