(* ===== verification/CJson_String.thy ===== *)
theory CJson_String
  imports Text_Util
begin

text \<open>
  The strings of the JSON library cJSON: decoding of string literals (\<^verbatim>\<open>parse_hex4\<close>,
  \<^verbatim>\<open>utf16_literal_to_utf8\<close>, \<^verbatim>\<open>parse_string\<close>), printing (\<^verbatim>\<open>ensure\<close>, \<^verbatim>\<open>print_string_ptr\<close>,
  \<^verbatim>\<open>update_offset\<close>) and the white space helpers of cJSON.c.

  The input of the parser is a buffer of bytes with a read offset.  A decoded string is the
  list of the bytes stored from the start of the allocated block on, the terminator included,
  together with the size of the block: the stores are inside the block exactly when the list is
  not longer than the block.  The output of the printer is a memory, seen from the start of its
  buffer, and the length of the buffer: a store past the buffer is a change at an index not
  below the length.

  The theory shows which UTF-8 bytes an escape sequence gives, that decoding undoes printing,
  what the printer writes, and by how much the two routines overrun their blocks.
\<close>

subsection \<open>Hexadecimal and Unicode escapes\<close>

definition hex_digit :: "u8 \<Rightarrow> u32 option" where
  "hex_digit c =
     (if 48 \<le> c \<and> c \<le> 57 then Some (ucast c - 48)
      else if 65 \<le> c \<and> c \<le> 70 then Some (10 + ucast c - 65)
      else if 97 \<le> c \<and> c \<le> 102 then Some (10 + ucast c - 97)
      else None)"

fun parse_hex4_loop :: "u8 list \<Rightarrow> nat \<Rightarrow> u32 \<Rightarrow> u32" where
  "parse_hex4_loop [] i h = h"
| "parse_hex4_loop (c # cs) i h =
     (case hex_digit c of None \<Rightarrow> 0
      | Some d \<Rightarrow> let h = h + d in parse_hex4_loop cs (i + 1) (if i < 3 then push_bit 4 h else h))"

definition parse_hex4 :: "u8 list \<Rightarrow> u32" where
  "parse_hex4 input = parse_hex4_loop (take 4 input) 0 0"

text \<open>The bytes after the first, from the last to the second, and what is left of the code point.\<close>

fun utf8_rest :: "nat \<Rightarrow> u64 \<Rightarrow> u8 list \<Rightarrow> u64 \<times> u8 list" where
  "utf8_rest 0 codepoint out = (codepoint, out)"
| "utf8_rest (Suc utf8_position) codepoint out =
     utf8_rest utf8_position (drop_bit 6 codepoint) (ucast ((codepoint OR 0x80) AND 0xBF) # out)"

definition utf8_bytes :: "nat \<Rightarrow> u64 \<Rightarrow> u64 \<Rightarrow> u8 list" where
  "utf8_bytes utf8_length first_byte_mark codepoint =
     (case utf8_rest (utf8_length - 1) codepoint [] of (codepoint, out) \<Rightarrow>
        (if utf8_length > 1 then ucast ((codepoint OR first_byte_mark) AND 0xFF)
         else ucast (codepoint AND 0x7F)) # out)"

definition utf8_encode :: "u64 \<Rightarrow> u8 list option" where
  "utf8_encode codepoint =
     (if codepoint < 0x80 then Some (utf8_bytes 1 0 codepoint)
      else if codepoint < 0x800 then Some (utf8_bytes 2 0xC0 codepoint)
      else if codepoint < 0x10000 then Some (utf8_bytes 3 0xE0 codepoint)
      else if codepoint \<le> 0x10FFFF then Some (utf8_bytes 4 0xF0 codepoint)
      else None)"

text \<open>
  \<open>n\<close> is \<^verbatim>\<open>input_end - input_pointer\<close>; the result is the bytes written and the number of input
  bytes used, \<open>None\<close> for the jump to \<^verbatim>\<open>fail\<close>.
\<close>

definition utf16_literal_to_utf8 :: "u8 list \<Rightarrow> nat \<Rightarrow> (u8 list \<times> nat) option" where
  "utf16_literal_to_utf8 input n =
     (if n < 6 then None
      else
        let first_code = parse_hex4 (drop 2 input)
        in if 0xDC00 \<le> first_code \<and> first_code \<le> 0xDFFF then None
           else if 0xD800 \<le> first_code \<and> first_code \<le> 0xDBFF then
             (if n - 6 < 6 then None
              else if input ! 6 \<noteq> 92 \<or> input ! 7 \<noteq> 117 then None
              else
                let second_code = parse_hex4 (drop 8 input)
                in if second_code < 0xDC00 \<or> second_code > 0xDFFF then None
                   else map_option (\<lambda>bs. (bs, 12))
                     (utf8_encode (ucast (0x10000 + (push_bit 10 (first_code AND 0x3FF) OR (second_code AND 0x3FF))))))
           else map_option (\<lambda>bs. (bs, 6)) (utf8_encode (ucast first_code)))"

subsection \<open>Parsing string literals\<close>

record parse_buffer =
  content :: "u8 list"
  offset :: nat

text \<open>
  The scan for the closing quote, over the bytes after the opening one: the length of the body
  and the number of backslashes skipped, \<open>None\<close> when there is no closing quote.
\<close>

fun scan_string :: "u8 list \<Rightarrow> (nat \<times> nat) option" where
  "scan_string [] = None"
| "scan_string (c # cs) =
     (if c = 34 then Some (0, 0)
      else if c = 92 then
        (case cs of [] \<Rightarrow> None | d # ds \<Rightarrow> map_option (\<lambda>(n, s). (n + 2, s + 1)) (scan_string ds))
      else map_option (\<lambda>(n, s). (n + 1, s)) (scan_string cs))"

definition simple_escape :: "u8 \<Rightarrow> u8 option" where
  "simple_escape c =
     (if c = 98 then Some 8 else if c = 102 then Some 12 else if c = 110 then Some 10
      else if c = 114 then Some 13 else if c = 116 then Some 9
      else if c = 34 \<or> c = 92 \<or> c = 47 then Some c else None)"

text \<open>
  The decoding loop; \<open>input\<close> starts at \<^verbatim>\<open>input_pointer\<close> and \<open>n\<close> is \<^verbatim>\<open>input_end - input_pointer\<close>.
  \<open>Inr\<close> gives the bytes written, \<open>Inl\<close> how far the input was read when decoding failed.
\<close>

function parse_string_loop :: "u8 list \<Rightarrow> nat \<Rightarrow> nat + u8 list" where
  "parse_string_loop input n =
     (if n = 0 then Inr []
      else if input ! 0 \<noteq> 92 then
        (case parse_string_loop (drop 1 input) (n - 1) of Inl k \<Rightarrow> Inl (k + 1) | Inr out \<Rightarrow> Inr (input ! 0 # out))
      else if input ! 1 = 117 then
        (case utf16_literal_to_utf8 input n of None \<Rightarrow> Inl 0
         | Some (bs, sequence_length) \<Rightarrow>
             if sequence_length = 0 then Inl 0
             else (case parse_string_loop (drop sequence_length input) (n - sequence_length) of
                     Inl k \<Rightarrow> Inl (k + sequence_length) | Inr out \<Rightarrow> Inr (bs @ out)))
      else
        (case simple_escape (input ! 1) of None \<Rightarrow> Inl 0
         | Some c \<Rightarrow> (case parse_string_loop (drop 2 input) (n - 2) of
                        Inl k \<Rightarrow> Inl (k + 2) | Inr out \<Rightarrow> Inr (c # out))))"
  by pat_completeness auto

termination
  by (relation "measure snd") auto

declare parse_string_loop.simps [simp del]

definition parse_string :: "bool \<Rightarrow> parse_buffer \<Rightarrow> (u8 list \<times> nat) option \<times> parse_buffer" where
  "parse_string alloc_ok b =
     (let start = offset b + 1; input = drop start (content b)
      in if content b ! offset b \<noteq> 34 then (None, b\<lparr>offset := start\<rparr>)
         else
           case scan_string input of
             None \<Rightarrow> (None, b\<lparr>offset := start\<rparr>)
           | Some (n, skipped_bytes) \<Rightarrow>
               let allocation_length = n + 1 - skipped_bytes
               in if \<not> alloc_ok then (None, b\<lparr>offset := start\<rparr>)
                  else
                    case parse_string_loop input n of
                      Inl k \<Rightarrow> (None, b\<lparr>offset := start + k\<rparr>)
                    | Inr out \<Rightarrow>
                        (Some (out @ [0], allocation_length - 1), b\<lparr>offset := start + n + 1\<rparr>))"

subsection \<open>Printing strings\<close>

record printbuffer =
  buffer :: "mem option"
  plength :: nat
  poffset :: nat
  noalloc :: bool

definition INT_MAX :: nat where "INT_MAX = 0x7fffffff"

text \<open>
  \<open>alloc_ok\<close> is the outcome of the allocation; a new block keeps the bytes up to the offset and
  has the content \<open>junk\<close> after it.
\<close>

definition ensure :: "bool \<Rightarrow> mem \<Rightarrow> printbuffer \<Rightarrow> nat \<Rightarrow> bool \<times> printbuffer" where
  "ensure alloc_ok junk p needed =
     (case buffer p of None \<Rightarrow> (False, p)
      | Some buf \<Rightarrow>
          if plength p > 0 \<and> poffset p \<ge> plength p then (False, p)
          else if needed > INT_MAX then (False, p)
          else
            let needed = needed + poffset p + 1
            in if needed \<le> plength p then (True, p)
               else if noalloc p then (False, p)
               else if needed > INT_MAX div 2 \<and> needed > INT_MAX then (False, p)
               else
                 let newsize = (if needed > INT_MAX div 2 then INT_MAX else needed * 2)
                 in if alloc_ok
                    then (True, p\<lparr>plength := newsize, buffer := Some (\<lambda>i. if i \<le> poffset p then buf i else junk i)\<rparr>)
                    else (False, p\<lparr>plength := 0, buffer := None\<rparr>))"

definition one_char_escape :: "u8 \<Rightarrow> u8 option" where
  "one_char_escape c =
     (if c = 92 then Some 92 else if c = 34 then Some 34 else if c = 8 then Some 98
      else if c = 12 then Some 102 else if c = 10 then Some 110 else if c = 13 then Some 114
      else if c = 9 then Some 116 else None)"

text \<open>The first pass, which counts the additional characters.\<close>

fun escape_characters :: "cstring \<Rightarrow> nat" where
  "escape_characters [] = 0"
| "escape_characters (c # cs) =
     (if one_char_escape c \<noteq> None then 1 else if c < 32 then 4 else 0) + escape_characters cs"

text \<open>What \<^verbatim>\<open>sprintf\<close> writes for the format \<^verbatim>\<open>u%04x\<close>, the terminator included.\<close>

definition sprintf_u04x :: "u8 \<Rightarrow> u8 list" where
  "sprintf_u04x c = [117, 48, 48, hexdigits_lower ! unat (drop_bit 4 c), hexdigits_lower ! unat (c AND 0xf), 0]"

fun print_loop :: "cstring \<Rightarrow> nat \<Rightarrow> mem \<Rightarrow> mem" where
  "print_loop [] k m = m"
| "print_loop (c # cs) k m =
     (if c > 31 \<and> c \<noteq> 34 \<and> c \<noteq> 92 then print_loop cs (k + 1) (m(k := c))
      else
        let m = m(k := 92)
        in case one_char_escape c of
             Some x \<Rightarrow> print_loop cs (k + 2) (m(k + 1 := x))
           | None \<Rightarrow> print_loop cs (k + 6) (memcpy m (k + 1) (sprintf_u04x c)))"

definition print_string_ptr :: "bool \<Rightarrow> mem \<Rightarrow> cstring option \<Rightarrow> printbuffer \<Rightarrow> bool \<times> printbuffer" where
  "print_string_ptr alloc_ok junk input p =
     (case input of
        None \<Rightarrow>
          (case ensure alloc_ok junk p 3 of
             (False, p) \<Rightarrow> (False, p)
           | (True, p) \<Rightarrow> (True, p\<lparr>buffer := map_option (\<lambda>m. memcpy m (poffset p) [34, 34, 0]) (buffer p)\<rparr>))
      | Some s \<Rightarrow>
          let output_length = length s + escape_characters s
          in case ensure alloc_ok junk p (output_length + 3) of
               (False, p) \<Rightarrow> (False, p)
             | (True, p) \<Rightarrow>
                 let output = poffset p
                 in if escape_characters s = 0 then
                      (True, p\<lparr>buffer := map_option (\<lambda>m.
                         (memcpy (m(output := 34)) (output + 1) s)
                           (output + output_length + 1 := 34, output + output_length + 2 := 0)) (buffer p)\<rparr>)
                    else
                      (True, p\<lparr>buffer := map_option (\<lambda>m.
                         (print_loop s (output + 1) (m(output := 34)))
                           (output + output_length + 1 := 34, output + output_length + 2 := 0)) (buffer p)\<rparr>))"

text \<open>\<^verbatim>\<open>strlen\<close> of the bytes from an index on, given how far at most to look.\<close>

definition mem_strlen :: "nat \<Rightarrow> mem \<Rightarrow> nat" where
  "mem_strlen bound m = length (takeWhile (\<lambda>c. c \<noteq> 0) (map m [0..<bound]))"

definition update_offset :: "printbuffer \<Rightarrow> printbuffer" where
  "update_offset p =
     (case buffer p of None \<Rightarrow> p
      | Some m \<Rightarrow> p\<lparr>poffset := poffset p + mem_strlen (plength p - poffset p) (ptr m (poffset p))\<rparr>)"

subsection \<open>White space\<close>

definition buffer_skip_whitespace :: "parse_buffer \<Rightarrow> parse_buffer" where
  "buffer_skip_whitespace b =
     (if length (content b) \<le> offset b then b
      else
        let b = b\<lparr>offset := offset b + length (takeWhile (\<lambda>c. c \<le> 32) (drop (offset b) (content b)))\<rparr>
        in if offset b = length (content b) then b\<lparr>offset := offset b - 1\<rparr> else b)"

definition skip_utf8_bom :: "parse_buffer \<Rightarrow> parse_buffer option" where
  "skip_utf8_bom b =
     (if offset b \<noteq> 0 then None
      else if 4 < length (content b) \<and> take 3 (content b) = [0xEF, 0xBB, 0xBF] then Some (b\<lparr>offset := 3\<rparr>)
      else Some b)"

subsection \<open>Unicode escapes\<close>

lemma cont_byte: "ucast ((x OR 0x80) AND 0xBF :: u64) = (of_nat (0x80 + unat x mod 64) :: u8)"
proof -
  have m: "(0x3F :: u64) = mask 6" by (simp add: mask_eq_exp_minus_1)
  have "(x OR 0x80) AND 0xBF = (x AND 0x3F) OR (0x80 :: u64)"
    by (rule bit_word_eq_upt) (simp add: upt_64 bit_simps)
  also have "\<dots> = (x AND 0x3F) + 0x80"
    by (rule disjunctive_add_eq_or [symmetric]) (simp add: word_bw_assocs)
  finally have "unat ((x OR 0x80) AND 0xBF) = unat ((x AND mask 6) + 0x80)" unfolding m by simp
  also have "\<dots> = unat x mod 64 + 0x80"
    by (subst unat_add_lem [THEN iffD1]) (simp_all add: unat_and_mask less_imp_le order_less_trans)
  finally show ?thesis by (metis add.commute of_nat_unat)
qed

lemma first_byte:
  assumes "unat x + k < 256" and "x AND of_nat k = (0 :: u64)"
  shows "ucast ((x OR of_nat k) AND 0xFF :: u64) = (of_nat (k + unat x) :: u8)"
proof -
  have m: "(0xFF :: u64) = mask 8" by (simp add: mask_eq_exp_minus_1)
  have k: "unat (of_nat k :: u64) = k" using assms(1) by (simp add: unat_of_nat take_bit_nat_eq_self)
  have "x OR of_nat k = x + of_nat k" using assms(2) by (rule disjunctive_add_eq_or [symmetric])
  then have "unat ((x OR of_nat k) AND 0xFF) = unat (x + of_nat k) mod 256" unfolding m unat_and_mask by simp
  also have "unat (x + of_nat k) = unat x + k"
    using assms(1) k by (subst unat_add_lem [THEN iffD1]) simp_all
  finally have "unat ((x OR of_nat k) AND 0xFF) = k + unat x" using assms(1) by simp
  then show ?thesis by (metis of_nat_unat)
qed

lemma AND_zero:
  assumes "unat x < 2 ^ n" and "take_bit n m = (0 :: u64)"
  shows "x AND m = (0 :: u64)"
proof -
  have "unat (take_bit n x) = take_bit n (unat x)" by (simp only: unsigned_take_bit_eq)
  then have "take_bit n x = x" using assms(1) by (simp add: take_bit_nat_eq_self unsigned_word_eqI)
  then have "x AND m = x AND (m AND mask n)" by (metis take_bit_eq_mask and.assoc and.commute)
  then show ?thesis using assms(2) by (simp add: take_bit_eq_mask)
qed

lemma utf8_bytes_simps:
  "utf8_bytes 1 m c = [ucast (c AND 0x7F)]"
  "utf8_bytes 2 m c = [ucast ((drop_bit 6 c OR m) AND 0xFF), ucast ((c OR 0x80) AND 0xBF)]"
  "utf8_bytes 3 m c = [ucast ((drop_bit 12 c OR m) AND 0xFF), ucast ((drop_bit 6 c OR 0x80) AND 0xBF),
     ucast ((c OR 0x80) AND 0xBF)]"
  "utf8_bytes 4 m c = [ucast ((drop_bit 18 c OR m) AND 0xFF), ucast ((drop_bit 12 c OR 0x80) AND 0xBF),
     ucast ((drop_bit 6 c OR 0x80) AND 0xBF), ucast ((c OR 0x80) AND 0xBF)]"
  by (simp_all add: utf8_bytes_def numeral_2_eq_2 numeral_3_eq_3)

lemma utf8_encode_correct: "unat c \<le> 0x10FFFF \<Longrightarrow> utf8_encode c = Some (utf8_ref (unat c))"
proof -
  assume c: "unat c \<le> 0x10FFFF"
  have less: "c < 0x80 \<longleftrightarrow> unat c < 0x80" "c < 0x800 \<longleftrightarrow> unat c < 0x800" "c < 0x10000 \<longleftrightarrow> unat c < 0x10000"
    "c \<le> 0x10FFFF \<longleftrightarrow> unat c \<le> 0x10FFFF"
    by (simp_all add: word_less_nat_alt word_le_nat_alt)
  have m7: "(0x7F :: u64) = mask 7" by (simp add: mask_eq_exp_minus_1)
  have b2: "unat c < 0x800 \<Longrightarrow> ucast ((drop_bit 6 c OR 0xC0) AND 0xFF :: u64) = (of_nat (0xC0 + unat c div 64) :: u8)"
    using first_byte [of "drop_bit 6 c" "0xC0"] AND_zero [of "drop_bit 6 c" 5 "0xC0"]
    by (simp add: unat_drop_bit_div div_less_iff_less_mult)
  have b3: "unat c < 0x10000 \<Longrightarrow> ucast ((drop_bit 12 c OR 0xE0) AND 0xFF :: u64) = (of_nat (0xE0 + unat c div 4096) :: u8)"
    using first_byte [of "drop_bit 12 c" "0xE0"] AND_zero [of "drop_bit 12 c" 4 "0xE0"]
    by (simp add: unat_drop_bit_div div_less_iff_less_mult)
  have b4: "ucast ((drop_bit 18 c OR 0xF0) AND 0xFF :: u64) = (of_nat (0xF0 + unat c div 262144) :: u8)"
    using first_byte [of "drop_bit 18 c" "0xF0"] AND_zero [of "drop_bit 18 c" 3 "0xF0"] c
    by (simp add: unat_drop_bit_div div_less_iff_less_mult)
  have b1: "unat c < 0x80 \<Longrightarrow> ucast (c AND 0x7F) = (of_nat (unat c) :: u8)"
  proof -
    assume "unat c < 0x80"
    then have "unat (c AND 0x7F) = unat c" unfolding m7 unat_and_mask by simp
    then show ?thesis by (metis of_nat_unat)
  qed
  show ?thesis
    unfolding utf8_encode_def utf8_ref_def less utf8_bytes_simps cont_byte unat_drop_bit_div
    using c b1 b2 b3 b4 by simp
qed

text \<open>The escape sequence of a code point: one \<^verbatim>\<open>\\uXXXX\<close>, or two for a surrogate pair.\<close>

definition u_literal :: "u8 list \<Rightarrow> nat \<Rightarrow> u8 list" where
  "u_literal ds w = [92, 117, ds ! (w div 4096 mod 16), ds ! (w div 256 mod 16), ds ! (w div 16 mod 16), ds ! (w mod 16)]"

definition json_escape :: "u8 list \<Rightarrow> nat \<Rightarrow> u8 list" where
  "json_escape ds c =
     (if c < 0x10000 then u_literal ds c
      else u_literal ds (0xD800 + (c - 0x10000) div 1024) @ u_literal ds (0xDC00 + (c - 0x10000) mod 1024))"

definition hex_table :: "u8 list \<Rightarrow> bool" where
  "hex_table ds \<longleftrightarrow> map hex_digit ds = map (\<lambda>d. Some (of_nat d)) [0..<16]"

lemma hex_tables: "hex_table hexdigits_lower" "hex_table hexdigits_upper"
  by (simp_all add: hex_table_def hex_digit_def hexdigits_lower_def hexdigits_upper_def upt_16)

lemma hex_table_nth: "hex_table ds \<Longrightarrow> d < 16 \<Longrightarrow> hex_digit (ds ! d) = Some (of_nat d)"
proof -
  assume *: "hex_table ds" "d < 16"
  then have "length ds = 16" unfolding hex_table_def by (metis length_map length_upt diff_zero)
  moreover have "map hex_digit ds ! d = map (\<lambda>d. Some (of_nat d)) [0..<16] ! d" using * by (simp add: hex_table_def)
  ultimately show ?thesis using *(2) by simp
qed

lemma parse_hex4_digits:
  assumes "hex_digit a = Some (of_nat d1)" "hex_digit b = Some (of_nat d2)" "hex_digit c = Some (of_nat d3)"
    "hex_digit e = Some (of_nat d4)"
  shows "parse_hex4 (a # b # c # e # rest) = of_nat (((d1 * 16 + d2) * 16 + d3) * 16 + d4)"
  using assms by (simp add: parse_hex4_def push_bit_eq_mult algebra_simps)

lemma hex4_sum: "w < 65536 \<Longrightarrow> ((w div 4096 mod 16 * 16 + w div 256 mod 16) * 16 + w div 16 mod 16) * 16 + w mod 16 = (w :: nat)"
proof -
  assume "w < 65536"
  then have e1: "w div 4096 mod 16 = w div 4096" by (simp add: div_less_iff_less_mult)
  have e: "w div 4096 * 16 + w div 256 mod 16 = w div 256" "w div 256 * 16 + w div 16 mod 16 = w div 16"
    using div_mult_mod_eq [of "w div 256" 16] div_mult_mod_eq [of "w div 16" 16]
    by (simp_all add: div_mult2_eq [symmetric])
  show ?thesis by (simp only: e1 e div_mult_mod_eq)
qed

lemma parse_hex4_literal:
  assumes "hex_table ds" and "w < 65536"
  shows "parse_hex4 (drop 2 (u_literal ds w @ rest)) = of_nat w"
proof -
  have "parse_hex4 (drop 2 (u_literal ds w @ rest)) =
      of_nat (((w div 4096 mod 16 * 16 + w div 256 mod 16) * 16 + w div 16 mod 16) * 16 + w mod 16)"
    unfolding u_literal_def by (simp only: append.simps drop_Suc_Cons numeral_2_eq_2 drop_0)
      (intro parse_hex4_digits hex_table_nth [OF assms(1)]; simp)
  then show ?thesis by (simp only: hex4_sum [OF assms(2)])
qed

lemma surrogate_join:
  assumes "a < 1024" and "b < 1024"
  shows "unat (ucast (0x10000 + (push_bit 10 (of_nat (0xD800 + a) AND 0x3FF) OR (of_nat (0xDC00 + b) AND 0x3FF)) :: u32) :: u64)
    = 0x10000 + a * 1024 + b"
proof -
  have m: "(0x3FF :: u32) = mask 10" by (simp add: mask_eq_exp_minus_1)
  have low: "of_nat (k * 1024 + c) AND (0x3FF :: u32) = of_nat c" if "c < 1024" for c k
    unfolding m take_bit_eq_mask [symmetric] take_bit_of_nat using that by (simp add: take_bit_eq_mod)
  have "of_nat (0xD800 + a) AND (0x3FF :: u32) = of_nat a" "of_nat (0xDC00 + b) AND (0x3FF :: u32) = of_nat b"
    using low [of a 54] low [of b 55] assms by simp_all
  moreover have "push_bit 10 (of_nat a :: u32) OR of_nat b = of_nat (a * 1024 + b)"
  proof -
    have "push_bit 10 (of_nat a :: u32) AND of_nat b = 0"
    proof -
      have "(of_nat b :: u32) = of_nat b AND mask 10" using low [of b 0] assms(2) m by simp
      moreover have "push_bit 10 x AND (y AND mask 10) = 0" for x y :: u32
        by (rule bit_word_eqI) (auto simp: bit_simps)
      ultimately show ?thesis by metis
    qed
    then show ?thesis by (simp add: disjunctive_add_eq_or [symmetric] push_bit_eq_mult)
  qed
  ultimately have eq: "0x10000 + (push_bit 10 (of_nat (0xD800 + a) AND 0x3FF) OR (of_nat (0xDC00 + b) AND 0x3FF)) =
      (of_nat (0x10000 + (a * 1024 + b)) :: u32)" by simp
  have u: "unat (ucast (x :: u32) :: u64) = unat x" for x by (rule unat_ucast_up) simp
  show ?thesis
    unfolding eq u using assms by (subst unat_of_nat) (simp add: take_bit_nat_eq_self)
qed

lemma utf16_literal_correct:
  assumes "hex_table ds" and "c \<le> 0x10FFFF" and "\<not> (0xD800 \<le> c \<and> c \<le> 0xDFFF)"
    and "length (json_escape ds c) \<le> n"
  shows "utf16_literal_to_utf8 (json_escape ds c @ rest) n = Some (utf8_ref c, length (json_escape ds c))"
proof (cases "c < 0x10000")
  case True
  have h: "parse_hex4 (drop 2 (u_literal ds c @ rest)) = of_nat c"
    using parse_hex4_literal [OF assms(1)] True by simp
  have u: "unat (of_nat c :: u32) = c" using True by (simp add: unat_of_nat take_bit_nat_eq_self)
  have "unat (ucast (of_nat c :: u32) :: u64) = c" using u by (simp add: unat_ucast_up)
  then have e: "utf8_encode (ucast (of_nat c :: u32)) = Some (utf8_ref c)"
    using utf8_encode_correct [of "ucast (of_nat c :: u32)"] True by simp
  have "6 \<le> n" "json_escape ds c = u_literal ds c" using True assms(4) by (simp_all add: json_escape_def u_literal_def)
  moreover have "length (u_literal ds c) = 6" by (simp add: u_literal_def)
  moreover have "\<not> (0xDC00 \<le> (of_nat c :: u32) \<and> of_nat c \<le> (0xDFFF :: u32))"
    "\<not> (0xD800 \<le> (of_nat c :: u32) \<and> of_nat c \<le> (0xDBFF :: u32))"
    using assms(3) u by (auto simp: word_le_nat_alt)
  ultimately show ?thesis unfolding utf16_literal_to_utf8_def Let_def by (simp only: h e) simp
next
  case False
  define a b where "a = (c - 0x10000) div 1024" and "b = (c - 0x10000) mod 1024"
  have ab: "a < 1024" "b < 1024" "c = 0x10000 + a * 1024 + b"
    using assms(2) False div_mult_mod_eq [of "c - 0x10000" 1024] by (auto simp: a_def b_def div_less_iff_less_mult)
  let ?l = "u_literal ds (0xD800 + a) @ u_literal ds (0xDC00 + b) @ rest"
  have esc: "json_escape ds c @ rest = ?l" "length (json_escape ds c) = 12"
    using False by (simp_all add: json_escape_def a_def b_def u_literal_def)
  have h1: "parse_hex4 (drop 2 ?l) = of_nat (0xD800 + a)"
    by (rule parse_hex4_literal [OF assms(1)]) (use ab(1) in simp)
  have "drop 8 ?l = drop 2 (u_literal ds (0xDC00 + b) @ rest)" "?l ! 6 = 92" "?l ! 7 = 117" by (simp_all add: u_literal_def)
  then have h2: "parse_hex4 (drop 8 ?l) = of_nat (0xDC00 + b)" "?l ! 6 = 92" "?l ! 7 = 117"
    by (simp_all only:) (rule parse_hex4_literal [OF assms(1)], use ab(2) in simp)
  have u: "unat (of_nat (0xD800 + a) :: u32) = 0xD800 + a" "unat (of_nat (0xDC00 + b) :: u32) = 0xDC00 + b"
    using ab by (subst unat_of_nat, simp add: take_bit_nat_eq_self)+
  then have r: "\<not> (0xDC00 \<le> (of_nat (0xD800 + a) :: u32) \<and> of_nat (0xD800 + a) \<le> (0xDFFF :: u32))"
    "0xD800 \<le> (of_nat (0xD800 + a) :: u32) \<and> of_nat (0xD800 + a) \<le> (0xDBFF :: u32)"
    "\<not> (of_nat (0xDC00 + b) < (0xDC00 :: u32) \<or> of_nat (0xDC00 + b) > (0xDFFF :: u32))"
    using ab by (simp_all add: word_le_nat_alt word_less_nat_alt del: of_nat_add)
  have enc: "utf8_encode x = Some (utf8_ref c)" if "unat x = c" for x
    using utf8_encode_correct [of x] that assms(2) by simp
  have e: "utf8_encode (ucast (0x10000 + (push_bit 10 (of_nat (0xD800 + a) AND 0x3FF) OR (of_nat (0xDC00 + b) AND 0x3FF)) :: u32))
      = Some (utf8_ref c)"
    by (rule enc) (use surrogate_join [OF ab(1,2)] ab(3) in \<open>simp only:\<close>)
  have "\<not> n < 6" "\<not> n - 6 < 6" using assms(4) esc(2) by simp_all
  then show ?thesis
    unfolding esc utf16_literal_to_utf8_def Let_def h1 h2(1)
    by (simp only: if_False if_True r e h2(2,3) option.map simp_thms)
qed

subsection \<open>Escaped text\<close>

definition plain :: "u8 \<Rightarrow> bool" where
  "plain c \<longleftrightarrow> c > 31 \<and> c \<noteq> 34 \<and> c \<noteq> 92"

text \<open>The control characters without an escape of their own.\<close>

definition ctrl :: "u8 \<Rightarrow> bool" where
  "ctrl c \<longleftrightarrow> \<not> plain c \<and> one_char_escape c = None"

definition esc_char :: "u8 \<Rightarrow> u8 list" where
  "esc_char c = (if plain c then [c] else case one_char_escape c of Some x \<Rightarrow> [92, x]
     | None \<Rightarrow> u_literal hexdigits_lower (unat c))"

definition esc :: "cstring \<Rightarrow> cstring" where
  "esc s = concat (map esc_char s)"

definition ctrls :: "cstring \<Rightarrow> nat" where
  "ctrls s = length (filter ctrl s)"

lemma esc_simps [simp]: "esc [] = []" "esc (c # s) = esc_char c @ esc s" "ctrls [] = 0"
  "ctrls (c # s) = (if ctrl c then 1 else 0) + ctrls s"
  by (simp_all add: esc_def ctrls_def)

lemma u8_cases_32: "c < (32 :: u8) \<longleftrightarrow> unat c < 32" "c > (31 :: u8) \<longleftrightarrow> 31 < unat c"
  by (simp_all add: word_less_nat_alt)

lemma ctrl_less:
  assumes "ctrl c"
  shows "unat c < 32"
proof -
  have "c \<noteq> 34" "c \<noteq> 92" using assms by (auto simp: ctrl_def one_char_escape_def)
  with assms have "\<not> c > 31" by (simp add: ctrl_def plain_def)
  then show ?thesis unfolding u8_cases_32 by simp
qed

lemma one_char_simple: "one_char_escape c = Some x \<Longrightarrow> simple_escape x = Some c \<and> x \<noteq> 117"
  by (auto simp: one_char_escape_def simple_escape_def split: if_splits)

lemma one_char_not_plain: "one_char_escape c = Some x \<Longrightarrow> \<not> plain c"
  by (auto simp: one_char_escape_def plain_def split: if_splits)

lemma esc_char_cases:
  obtains (plain) "plain c" "esc_char c = [c]" "one_char_escape c = None" "\<not> ctrl c" "\<not> c < 32"
  | (one) x where "\<not> plain c" "one_char_escape c = Some x" "esc_char c = [92, x]" "\<not> ctrl c"
  | (u) "\<not> plain c" "one_char_escape c = None" "ctrl c" "esc_char c = u_literal hexdigits_lower (unat c)" "c < 32"
proof (cases "plain c")
  case True
  then have "one_char_escape c = None" using one_char_not_plain by (cases "one_char_escape c") auto
  moreover have "\<not> c < 32" using True by (simp add: plain_def u8_cases_32)
  ultimately show thesis using True plain by (simp add: esc_char_def ctrl_def)
next
  case False
  show thesis
  proof (cases "one_char_escape c")
    case None
    then have "ctrl c" using False by (simp add: ctrl_def)
    with None False u ctrl_less [of c] show thesis by (simp add: esc_char_def u8_cases_32)
  next
    case (Some x)
    with False one show thesis by (simp add: esc_char_def ctrl_def)
  qed
qed

lemma esc_length: "length (esc s) = length s + escape_characters s + ctrls s"
proof (induction s)
  case (Cons c s)
  show ?case by (rule esc_char_cases [of c]) (use Cons in \<open>simp_all add: u_literal_def\<close>)
qed simp

lemma esc_none: "escape_characters s = 0 \<Longrightarrow> esc s = s \<and> ctrls s = 0"
proof (induction s)
  case (Cons c s)
  show ?case by (rule esc_char_cases [of c]) (use Cons in auto)
qed simp

subsection \<open>Decoding escaped text\<close>

text \<open>The number of backslashes the scan counts, and whether a literal has no \<^verbatim>\<open>\u\<close> escape.\<close>

fun unicode_free :: "u8 list \<Rightarrow> bool" where
  "unicode_free [] = True"
| "unicode_free [c] = True"
| "unicode_free (c # d # cs) = (if c = 92 then d \<noteq> 117 \<and> unicode_free cs else unicode_free (d # cs))"

fun backslashes :: "u8 list \<Rightarrow> nat" where
  "backslashes [] = 0"
| "backslashes [c] = 0"
| "backslashes (c # d # cs) = (if c = 92 then Suc (backslashes cs) else backslashes (d # cs))"

lemma hex_lower_ne: "d < 16 \<Longrightarrow> hexdigits_lower ! d \<noteq> 34 \<and> hexdigits_lower ! d \<noteq> 92"
proof -
  have "list_all (\<lambda>c. c \<noteq> 34 \<and> c \<noteq> 92) hexdigits_lower" by (simp add: hexdigits_lower_def)
  moreover have "length hexdigits_lower = 16" by (simp add: hexdigits_lower_def)
  ultimately show "d < 16 \<Longrightarrow> hexdigits_lower ! d \<noteq> 34 \<and> hexdigits_lower ! d \<noteq> 92" by (simp add: list_all_length)
qed

lemma scan_esc:
  "scan_string (esc s @ 34 # rest) = Some (length (esc s), length (filter (\<lambda>c. \<not> plain c) s))"
proof (induction s)
  case (Cons c s)
  show ?case
  proof (rule esc_char_cases [of c])
    assume "plain c" "esc_char c = [c]"
    with Cons show ?thesis by (simp add: plain_def)
  next
    fix x assume "\<not> plain c" "esc_char c = [92, x]"
    with Cons show ?thesis by simp
  next
    assume "\<not> plain c" "esc_char c = u_literal hexdigits_lower (unat c)"
    with Cons hex_lower_ne show ?thesis by (simp add: u_literal_def)
  qed
qed simp

lemma loop_plain:
  "c \<noteq> 92 \<Longrightarrow> parse_string_loop (c # xs) (Suc n) =
     (case parse_string_loop xs n of Inl k \<Rightarrow> Inl (k + 1) | Inr out \<Rightarrow> Inr (c # out))"
  by (simp add: parse_string_loop.simps [of "c # xs"] split: sum.split)

lemma loop_simple:
  "simple_escape x = Some c \<Longrightarrow> x \<noteq> 117 \<Longrightarrow> parse_string_loop (92 # x # xs) (Suc (Suc n)) =
     (case parse_string_loop xs n of Inl k \<Rightarrow> Inl (k + 2) | Inr out \<Rightarrow> Inr (c # out))"
  by (simp add: parse_string_loop.simps [of "92 # x # xs"])

lemma loop_unicode:
  "utf16_literal_to_utf8 (92 # 117 # xs) n = Some (bs, k) \<Longrightarrow> 0 < k \<Longrightarrow> 0 < n \<Longrightarrow>
   parse_string_loop (92 # 117 # xs) n =
     (case parse_string_loop (drop k (92 # 117 # xs)) (n - k) of Inl j \<Rightarrow> Inl (j + k) | Inr out \<Rightarrow> Inr (bs @ out))"
  by (simp add: parse_string_loop.simps [of "92 # 117 # xs"])

lemma loop_esc: "parse_string_loop (esc s @ rest) (length (esc s)) = Inr s"
proof (induction s)
  case Nil
  show ?case by (simp add: parse_string_loop.simps)
next
  case (Cons c s)
  show ?case
  proof (rule esc_char_cases [of c])
    assume "plain c" "esc_char c = [c]"
    with Cons loop_plain [of c "esc s @ rest"] show ?thesis by (simp add: plain_def)
  next
    fix x assume "one_char_escape c = Some x" "esc_char c = [92, x]"
    with Cons loop_simple [of x c "esc s @ rest"] one_char_simple show ?thesis by auto
  next
    assume c: "ctrl c" "esc_char c = u_literal hexdigits_lower (unat c)"
    let ?l = "u_literal hexdigits_lower (unat c)"
    have lt: "unat c < 32" using c(1) by (rule ctrl_less)
    have "utf16_literal_to_utf8 (?l @ esc s @ rest) (length ?l + length (esc s)) = Some ([c], 6)"
      using utf16_literal_correct [OF hex_tables(1), of "unat c" "length ?l + length (esc s)" "esc s @ rest"] lt
      by (simp add: json_escape_def u_literal_def utf8_ref_def)
    moreover obtain ys where "?l = 92 # 117 # ys" "length ys = 4" by (simp add: u_literal_def)
    ultimately show ?thesis using Cons c(2) loop_unicode [of "ys @ esc s @ rest" _ "[c]" 6] by simp
  qed
qed

subsection \<open>How much decoding writes\<close>

text \<open>
  Every decoded byte uses at least one byte of the body that is not a counted backslash, so at
  most \<open>n - backslashes\<close> bytes are written before the terminator.
\<close>

lemma scan_backslashes:
  "scan_string xs = Some (n, k) \<Longrightarrow> n < length xs \<and> xs ! n = 34 \<and> k = backslashes (take n xs) \<and> 2 * k \<le> n"
proof (induction xs arbitrary: n k rule: scan_string.induct)
  case (2 c cs)
  consider "c = 34" | (esc) "c = 92" | (other) "c \<noteq> 34" "c \<noteq> 92" by blast
  then show ?case
  proof cases
    case esc
    with 2(3) obtain d ds m j where m: "cs = d # ds" "scan_string ds = Some (m, j)" "n = m + 2" "k = j + 1"
      by (cases cs) auto
    with 2(1) [OF _ esc m(1), of m j] esc show ?thesis by auto
  next
    case other
    note False = other
    with 2 obtain m where m: "scan_string cs = Some (m, k)" "n = Suc m" by auto
    with 2(2) False have "m < length cs \<and> cs ! m = 34 \<and> k = backslashes (take m cs) \<and> 2 * k \<le> m" by auto
    moreover have "backslashes (c # ys) = backslashes ys" for ys using False by (cases ys) auto
    ultimately show ?thesis using m(2) by auto
  qed (use 2(3) in auto)
qed simp

lemma backslashes_Cons: "backslashes cs \<le> backslashes (c # cs) \<and> backslashes (c # cs) \<le> Suc (backslashes cs)"
  by (induction cs arbitrary: c) auto

lemma backslashes_hex: "hex_digit c \<noteq> None \<Longrightarrow> backslashes (c # cs) = backslashes cs"
  by (cases cs) (auto simp: hex_digit_def split: if_splits)

lemma backslashes_hex4:
  "hex_digit a \<noteq> None \<Longrightarrow> hex_digit b \<noteq> None \<Longrightarrow> hex_digit c \<noteq> None \<Longrightarrow> hex_digit e \<noteq> None \<Longrightarrow>
   backslashes (a # b # c # e # ys) = backslashes ys"
  by (simp only: backslashes_hex not_False_eq_True)

lemma hex4_nonzero:
  assumes "parse_hex4 xs \<noteq> 0" and "4 \<le> length xs"
  obtains a b c e ys where "xs = a # b # c # e # ys" "hex_digit a \<noteq> None" "hex_digit b \<noteq> None"
    "hex_digit c \<noteq> None" "hex_digit e \<noteq> None"
proof -
  obtain a b c e ys where xs: "xs = a # b # c # e # ys"
    using assms(2) by (cases xs; cases "tl xs"; cases "tl (tl xs)"; cases "tl (tl (tl xs))") auto
  with assms(1) that show thesis by (auto simp: parse_hex4_def split: option.splits)
qed

lemma utf8_encode_length:
  "utf8_encode c = Some bs \<Longrightarrow> length bs \<le> 4 \<and> (c < 0x10000 \<longrightarrow> length bs \<le> 3) \<and> (c = 0 \<longrightarrow> length bs = 1)"
  by (auto simp: utf8_encode_def utf8_bytes_simps utf8_bytes_simps(1) [unfolded One_nat_def] split: if_splits)

lemma backslashes_any4: "backslashes (a # b # c # e # ys) \<le> 4 + backslashes ys"
  using backslashes_Cons [of "b # c # e # ys" a] backslashes_Cons [of "c # e # ys" b]
    backslashes_Cons [of "e # ys" c] backslashes_Cons [of ys e] by linarith

lemma utf16_bound:
  assumes "utf16_literal_to_utf8 (92 # 117 # xs @ rest) (2 + length xs) = Some (bs, k)"
  shows "(k = 6 \<or> k = 12) \<and> k \<le> 2 + length xs \<and>
    length bs + backslashes (92 # 117 # xs) \<le> k + backslashes (drop k (92 # 117 # xs))"
proof -
  let ?f = "parse_hex4 (xs @ rest)"
  have n: "4 \<le> length xs" using assms by (auto simp: utf16_literal_to_utf8_def split: if_splits)
  have drop: "drop 2 (92 # 117 # xs @ rest) = xs @ rest" "drop 8 (92 # 117 # xs @ rest) = drop 6 (xs @ rest)" by simp_all
  have l: "4 \<le> length (xs @ rest)" using n by simp
  show ?thesis
  proof (cases "0xD800 \<le> ?f \<and> ?f \<le> 0xDBFF")
    case False
    then have k: "k = 6" and bs: "utf8_encode (ucast ?f) = Some bs"
      using assms n unfolding utf16_literal_to_utf8_def drop Let_def by (auto split: if_splits)
    note len = utf8_encode_length [OF bs]
    obtain a b c e ys where xs: "xs = a # b # c # e # ys"
      using n by (cases xs; cases "tl xs"; cases "tl (tl xs)"; cases "tl (tl (tl xs))") auto
    show ?thesis
    proof (cases "?f = 0")
      case True
      with len xs k backslashes_any4 [of a b c e ys] show ?thesis by simp
    next
      case f: False
      obtain a' b' c' e' ys' where h: "xs @ rest = a' # b' # c' # e' # ys'" "hex_digit a' \<noteq> None" "hex_digit b' \<noteq> None"
        "hex_digit c' \<noteq> None" "hex_digit e' \<noteq> None"
        using hex4_nonzero [OF f l] .
      with xs backslashes_hex4 [of a' b' c' e' ys] have "backslashes (a # b # c # e # ys) = backslashes ys" by simp
      with len xs k show ?thesis by simp
    qed
  next
    case True
    let ?s = "parse_hex4 (drop 6 (xs @ rest))"
    have f: "\<not> (0xDC00 \<le> ?f \<and> ?f \<le> 0xDFFF)" using assms unfolding utf16_literal_to_utf8_def drop Let_def by (auto split: if_splits)
    have k: "k = 12" and m: "10 \<le> length xs" "(xs @ rest) ! 4 = 92" "\<not> ?s < 0xDC00"
      and bs: "\<exists>c. utf8_encode c = Some bs"
      using assms f n True unfolding utf16_literal_to_utf8_def drop Let_def by (auto split: if_splits)
    have f0: "?f \<noteq> 0" and s0: "?s \<noteq> 0" using True m(3) by auto
    obtain a b c e ys where h: "xs @ rest = a # b # c # e # ys" "hex_digit a \<noteq> None" "hex_digit b \<noteq> None"
        "hex_digit c \<noteq> None" "hex_digit e \<noteq> None" using hex4_nonzero [OF f0 l] .
    then obtain x y zs where xs: "xs = a # b # c # e # 92 # y # zs" "4 \<le> length zs"
      using m by (cases xs; cases "tl xs"; cases "tl (tl xs)"; cases "tl (tl (tl xs))"; cases "tl (tl (tl (tl xs)))";
          cases "tl (tl (tl (tl (tl xs))))") auto
    then have "parse_hex4 (zs @ rest) \<noteq> 0" "4 \<le> length (zs @ rest)" using s0 by simp_all
    then obtain a' b' c' e' us where h2: "zs @ rest = a' # b' # c' # e' # us" "hex_digit a' \<noteq> None"
      "hex_digit b' \<noteq> None" "hex_digit c' \<noteq> None" "hex_digit e' \<noteq> None" by (rule hex4_nonzero)
    with xs(2) obtain ws where "zs = a' # b' # c' # e' # ws"
      by (cases zs; cases "tl zs"; cases "tl (tl zs)"; cases "tl (tl (tl zs))") auto
    with xs backslashes_hex4 [OF h(2-5), of "92 # y # zs"] backslashes_hex4 [OF h2(2-5), of ws]
    have "backslashes xs = Suc (backslashes ws)" "drop 10 xs = ws" by simp_all
    moreover have "length bs \<le> 4" using bs utf8_encode_length by blast
    ultimately show ?thesis using k m(1) by simp
  qed
qed

lemma loop_bound:
  "parse_string_loop (body @ 34 # rest) (length body) = Inr out \<Longrightarrow> length out + backslashes body \<le> length body"
proof (induction "length body" arbitrary: body out rule: less_induct)
  case less
  show ?case
  proof (cases body)
    case Nil
    with less.prems show ?thesis by (simp add: parse_string_loop.simps)
  next
    case (Cons c xs)
    consider (plain) "c \<noteq> 92" | (single) "c = 92" "xs = []" | (u) ys where "c = 92" "xs = 117 # ys"
      | (simple) d ys where "c = 92" "xs = d # ys" "d \<noteq> 117" by (cases xs) auto
    then show ?thesis
    proof cases
      case plain
      with less.prems Cons loop_plain [of c "xs @ 34 # rest" "length xs"] obtain out'
        where o: "parse_string_loop (xs @ 34 # rest) (length xs) = Inr out'" "out = c # out'" by (auto split: sum.splits)
      moreover have "backslashes (c # xs) = backslashes xs" using plain by (cases xs) auto
      ultimately show ?thesis using less.hyps [of xs out'] Cons by simp
    next
      case single
      with less.prems Cons show ?thesis
        by (simp add: parse_string_loop.simps [of "92 # 34 # rest"] simple_escape_def parse_string_loop.simps [of rest]
            split: sum.splits) auto
    next
      case u
      obtain bs k where w: "utf16_literal_to_utf8 (92 # 117 # ys @ 34 # rest) (2 + length ys) = Some (bs, k)"
        using less.prems Cons u by (auto simp: parse_string_loop.simps [of "92 # 117 # ys @ 34 # rest"] split: option.splits if_splits)
      note b = utf16_bound [OF w]
      obtain out' where o: "parse_string_loop (drop k (92 # 117 # ys @ 34 # rest)) (2 + length ys - k) = Inr out'" "out = bs @ out'"
        using less.prems Cons u loop_unicode [OF w] b by (auto split: sum.splits)
      let ?d = "drop k (92 # 117 # ys)"
      have "drop k (92 # 117 # ys @ 34 # rest) = ?d @ 34 # rest" "length ?d = 2 + length ys - k" "length ?d < length body"
        using b Cons u by (auto simp: drop_Cons' )
      with less.hyps [of ?d out'] o have "length out' + backslashes ?d \<le> 2 + length ys - k" by simp
      moreover have "k \<le> 2 + length ys" "length bs + backslashes body \<le> k + backslashes ?d" using b Cons u by simp_all
      moreover have "length out = length bs + length out'" "length body = 2 + length ys" using o(2) Cons u by simp_all
      ultimately show ?thesis by linarith
    next
      case simple
      with less.prems Cons obtain x out' where o: "simple_escape d = Some x"
        "parse_string_loop (ys @ 34 # rest) (length ys) = Inr out'" "out = x # out'"
        by (auto simp: parse_string_loop.simps [of "92 # d # ys @ 34 # rest"] split: option.splits sum.splits)
      with less.hyps [of ys out'] Cons simple show ?thesis by simp
    qed
  qed
qed

text \<open>Without \<^verbatim>\<open>\u\<close> escapes every other byte of the literal is one byte of the string.\<close>

lemma loop_exact:
  "parse_string_loop (body @ 34 # rest) (length body) = Inr out \<Longrightarrow> unicode_free body \<Longrightarrow> length out + backslashes body = length body"
proof (induction "length body" arbitrary: body out rule: less_induct)
  case less
  show ?case
  proof (cases body)
    case Nil
    with less.prems show ?thesis by (simp add: parse_string_loop.simps)
  next
    case (Cons c xs)
    consider (plain) "c \<noteq> 92" | (single) "c = 92" "xs = []" | (simple) d ys where "c = 92" "xs = d # ys" "d \<noteq> 117" "unicode_free ys"
      using less.prems(2) Cons by (cases xs; cases "c = 92") auto
    then show ?thesis
    proof cases
      case plain
      with less.prems(1) Cons loop_plain [of c "xs @ 34 # rest" "length xs"] obtain out'
        where o: "parse_string_loop (xs @ 34 # rest) (length xs) = Inr out'" "out = c # out'" by (auto split: sum.splits)
      moreover have "backslashes (c # xs) = backslashes xs" "unicode_free xs" using plain less.prems(2) Cons by (cases xs; auto)+
      ultimately show ?thesis using less.hyps [of xs out'] Cons by simp
    next
      case single
      with less.prems(1) Cons show ?thesis
        by (simp add: parse_string_loop.simps [of "92 # 34 # rest"] simple_escape_def parse_string_loop.simps [of rest]
            split: sum.splits) auto
    next
      case simple
      with less.prems(1) Cons obtain x out' where o: "simple_escape d = Some x"
        "parse_string_loop (ys @ 34 # rest) (length ys) = Inr out'" "out = x # out'"
        by (auto simp: parse_string_loop.simps [of "92 # d # ys @ 34 # rest"] split: option.splits sum.splits)
      with less.hyps [of ys out'] Cons simple show ?thesis by simp
    qed
  qed
qed

subsection \<open>What printing writes\<close>

definition wrote :: "mem \<Rightarrow> nat \<Rightarrow> u8 list \<Rightarrow> mem \<Rightarrow> bool" where
  "wrote m k xs m' \<longleftrightarrow> (\<forall>i < length xs. m' (k + i) = xs ! i) \<and> (\<forall>i. i < k \<or> k + length xs < i \<longrightarrow> m' i = m i)"

lemma wrote_append:
  assumes "wrote m k xs m1" and "wrote m1 (k + length xs) ys m2"
  shows "wrote m k (xs @ ys) m2"
proof -
  have "m2 (k + i) = (xs @ ys) ! i" if i: "i < length xs + length ys" for i
  proof (cases "i < length xs")
    case True
    then have "k + i < k + length xs" by simp
    with assms True show ?thesis by (auto simp: wrote_def nth_append)
  next
    case False
    have "m2 (k + length xs + j) = ys ! j" if "j < length ys" for j using assms(2) that by (simp add: wrote_def)
    from this [of "i - length xs"] i False show ?thesis by (simp add: nth_append)
  qed
  moreover have "m2 i = m i" if "i < k \<or> k + length (xs @ ys) < i" for i
  proof -
    have "i < k + length xs \<or> k + length xs + length ys < i" "i < k \<or> k + length xs < i" using that by auto
    with assms show ?thesis unfolding wrote_def by metis
  qed
  ultimately show ?thesis by (simp add: wrote_def)
qed

lemma all_less_Suc: "(\<forall>i < Suc n. P i) \<longleftrightarrow> P 0 \<and> (\<forall>i < n. P (Suc i))"
  by (auto simp: less_Suc_eq_0_disj)

definition print_char :: "u8 \<Rightarrow> nat \<Rightarrow> mem \<Rightarrow> mem" where
  "print_char c k m = print_loop [c] k m"

lemma length_u_literal: "length (u_literal ds w) = 6"
  by (simp add: u_literal_def)

lemma print_loop_Cons: "print_loop (c # s) k m = print_loop s (k + length (esc_char c)) (print_char c k m)"
  by (rule esc_char_cases [of c])
    (simp_all add: print_char_def plain_def [symmetric] length_u_literal Let_def)

lemma sprintf_literal: "unat c < 32 \<Longrightarrow> 92 # sprintf_u04x c = u_literal hexdigits_lower (unat c) @ [0]"
proof -
  assume c: "unat c < 32"
  have m: "(0xf :: u8) = mask 4" by (simp add: mask_eq_exp_minus_1)
  have "unat (drop_bit 4 c) = unat c div 16" by (simp add: unat_drop_bit_eq drop_bit_eq_div [where 'a = nat])
  moreover have "unat (c AND 0xf) = unat c mod 16"
  proof -
    have "unat (c AND 0xf) = unat (take_bit 4 c)" unfolding m by (simp add: take_bit_eq_mask)
    also have "\<dots> = take_bit 4 (unat c)" by (simp only: unsigned_take_bit_eq)
    finally show ?thesis by (simp add: take_bit_eq_mod)
  qed
  ultimately show ?thesis
    using c by (simp add: sprintf_u04x_def u_literal_def hexdigits_lower_def)
qed

lemma print_char_wrote: "wrote m k (esc_char c) (print_char c k m)"
  and print_char_nul: "ctrl c \<Longrightarrow> print_char c k m (k + length (esc_char c)) = 0"
proof -
  have u: "print_char c k m = memcpy m k (esc_char c @ [0])" if "ctrl c" "esc_char c = u_literal hexdigits_lower (unat c)"
  proof -
    have "print_char c k m = memcpy (m(k := 92)) (k + 1) (sprintf_u04x c)"
      using that(1) by (auto simp: print_char_def ctrl_def plain_def)
    also have "\<dots> = memcpy m k (92 # sprintf_u04x c)"
    proof
      fix x
      show "memcpy (m(k := 92)) (k + 1) (sprintf_u04x c) x = memcpy m k (92 # sprintf_u04x c) x"
        by (cases "x - k") (auto simp: memcpy_def le_Suc_eq dest: arg_cong [of _ _ "\<lambda>d. d - 1"])
    qed
    finally show ?thesis using that sprintf_literal [OF ctrl_less] by simp
  qed
  show "wrote m k (esc_char c) (print_char c k m)"
  proof (rule esc_char_cases [of c])
    assume "plain c" "esc_char c = [c]"
    then show ?thesis by (simp add: wrote_def print_char_def plain_def)
  next
    fix x assume "\<not> plain c" "one_char_escape c = Some x" "esc_char c = [92, x]"
    then show ?thesis by (simp add: wrote_def print_char_def plain_def all_less_Suc)
  next
    assume "ctrl c" "esc_char c = u_literal hexdigits_lower (unat c)"
    with u show ?thesis by (auto simp: wrote_def memcpy_def nth_append)
  qed
  show "ctrl c \<Longrightarrow> print_char c k m (k + length (esc_char c)) = 0"
    by (rule esc_char_cases [of c]) (use u in \<open>auto simp: memcpy_def nth_append\<close>)
qed

lemma print_loop_wrote: "wrote m k (esc s) (print_loop s k m)"
proof (induction s arbitrary: k m)
  case (Cons c s)
  show ?case
    unfolding print_loop_Cons esc_simps by (rule wrote_append [OF print_char_wrote Cons])
qed (simp add: wrote_def)

lemma print_loop_snoc: "print_loop (s @ [c]) k m = print_char c (k + length (esc s)) (print_loop s k m)"
  by (induction s arbitrary: k m) (simp_all add: print_loop_Cons add.assoc del: print_loop.simps(2))

lemma ensure_true:
  assumes "ensure ok junk p n = (True, q)"
  obtains m0 m where "buffer p = Some m0" "buffer q = Some m" "poffset q = poffset p" "poffset p + n + 1 \<le> plength q"
    "\<forall>i < poffset p. m i = m0 i" "plength p \<ge> poffset p + n + 1 \<longrightarrow> q = p"
  using assms unfolding ensure_def Let_def by (auto split: option.splits if_splits)

text \<open>The length the first pass computes, and the text and the memory after printing.\<close>

lemma print_string_stores:
  assumes "print_string_ptr ok junk (Some s) p = (True, q)"
  obtains m0 m' m where "buffer p = Some m0" "buffer q = Some m'" "poffset q = poffset p"
    "poffset p + (length (esc s) - ctrls s) + 4 \<le> plength q" "\<forall>i < poffset p. m' i = m0 i"
    "m' = (print_loop s (poffset p + 1) (m(poffset p := 34)))
       (poffset p + (length (esc s) - ctrls s) + 1 := 34, poffset p + (length (esc s) - ctrls s) + 2 := 0)"
    "plength p \<ge> poffset p + (length (esc s) - ctrls s) + 4 \<longrightarrow> plength q = plength p"
proof -
  let ?n = "length (esc s) - ctrls s"
  have n: "length s + escape_characters s = ?n" by (simp add: esc_length)
  obtain q1 where e: "ensure ok junk p (?n + 3) = (True, q1)"
    using assms unfolding print_string_ptr_def Let_def option.case n by (auto split: prod.splits bool.splits)
  obtain m0 m where m: "buffer p = Some m0" "buffer q1 = Some m" "poffset q1 = poffset p" "poffset p + (?n + 3) + 1 \<le> plength q1"
    "\<forall>i < poffset p. m i = m0 i" "plength p \<ge> poffset p + (?n + 3) + 1 \<longrightarrow> q1 = p"
    using ensure_true [OF e] .
  let ?m = "(print_loop s (poffset p + 1) (m(poffset p := 34))) (poffset p + ?n + 1 := 34, poffset p + ?n + 2 := 0)"
  have q: "q = q1\<lparr>buffer := Some ?m\<rparr>"
  proof (cases "escape_characters s = 0")
    case True
    note s = esc_none [OF True]
    have "memcpy (m(poffset p := 34)) (poffset p + 1) s i = print_loop s (poffset p + 1) (m(poffset p := 34)) i"
      if "i \<noteq> poffset p + length s + 1" for i
    proof (cases "poffset p + 1 \<le> i \<and> i < poffset p + 1 + length s")
      case True
      then obtain j where "i = poffset p + 1 + j" "j < length s" by (metis le_Suc_ex nat_add_left_cancel_less)
      with print_loop_wrote [of "m(poffset p := 34)" "poffset p + 1" s] s show ?thesis by (simp add: wrote_def memcpy_def)
    next
      case False
      with that have "i < poffset p + 1 \<or> poffset p + 1 + length s < i" by auto
      with print_loop_wrote [of "m(poffset p := 34)" "poffset p + 1" s] s show ?thesis
        by (auto simp: wrote_def memcpy_def)
    qed
    then have "(memcpy (m(poffset p := 34)) (poffset p + 1) s)(poffset p + length s + 1 := 34, poffset p + length s + 2 := 0) =
        (print_loop s (poffset p + 1) (m(poffset p := 34)))(poffset p + length s + 1 := 34, poffset p + length s + 2 := 0)"
      by (auto simp: fun_eq_iff)
    with assms e m True s show ?thesis unfolding print_string_ptr_def Let_def option.case n by auto
  next
    case False
    with assms e m show ?thesis unfolding print_string_ptr_def Let_def option.case n by auto
  qed
  have "\<forall>i < poffset p. ?m i = m0 i"
    using print_loop_wrote [of "m(poffset p := 34)" "poffset p + 1" s] m(5) by (simp add: wrote_def)
  with that [of m0 ?m m] m q show thesis by simp
qed

lemma plain_escapes: "ctrls s = 0 \<Longrightarrow> escape_characters s = length (filter (\<lambda>c. \<not> plain c) s)"
proof (induction s)
  case (Cons c s)
  show ?case by (rule esc_char_cases [of c]) (use Cons in auto)
qed simp

lemma parse_string_esc:
  "parse_string True \<lparr>content = pre @ 34 # esc s @ 34 # post, offset = length pre\<rparr> =
     (Some (s @ [0], length (esc s) - length (filter (\<lambda>c. \<not> plain c) s)),
      \<lparr>content = pre @ 34 # esc s @ 34 # post, offset = length pre + length (esc s) + 2\<rparr>)"
proof -
  have "drop (length pre + 1) (pre @ 34 # esc s @ 34 # post) = esc s @ 34 # post"
    "(pre @ 34 # esc s @ 34 # post) ! length pre = 34" by simp_all
  then show ?thesis
    using scan_esc [of s post] loop_esc [of s "34 # post"] by (simp add: parse_string_def Let_def nth_append)
qed

lemma print_text:
  assumes "print_string_ptr ok junk (Some s) p = (True, q)"
  shows "\<exists>m0 m. buffer p = Some m0 \<and> buffer q = Some m \<and> poffset q = poffset p \<and>
    poffset p + (length (esc s) - ctrls s) + 4 \<le> plength q \<and> (\<forall>i < poffset p. m i = m0 i) \<and>
    map (\<lambda>i. m (poffset p + i)) [0..<length (esc s) - ctrls s + 3] = 34 # take (length (esc s) - ctrls s) (esc s) @ [34, 0]"
proof -
  obtain m0 m' m where m: "buffer p = Some m0" "buffer q = Some m'" "poffset q = poffset p"
    "poffset p + (length (esc s) - ctrls s) + 4 \<le> plength q" "\<forall>i < poffset p. m' i = m0 i"
    "m' = (print_loop s (poffset p + 1) (m(poffset p := 34)))
       (poffset p + (length (esc s) - ctrls s) + 1 := 34, poffset p + (length (esc s) - ctrls s) + 2 := 0)"
    "plength p \<ge> poffset p + (length (esc s) - ctrls s) + 4 \<longrightarrow> plength q = plength p"
    using print_string_stores [OF assms] .
  define n where "n = length (esc s) - ctrls s"
  note w = print_loop_wrote [of "m(poffset p := 34)" "poffset p + 1" s]
  have le: "n \<le> length (esc s)" by (simp add: n_def)
  have first: "m' (poffset p) = 34" using w by (simp add: m(6) wrote_def)
  have mid: "m' (poffset p + Suc i) = esc s ! i" if "i < n" for i
    using w that le by (simp add: m(6) [folded n_def] wrote_def)
  have last: "m' (poffset p + Suc n) = 34" "m' (poffset p + Suc (Suc n)) = 0" by (simp_all add: m(6) n_def)
  have "map (\<lambda>i. m' (poffset p + i)) [0..<n + 3] = 34 # take n (esc s) @ [34, 0]"
  proof (rule nth_equalityI)
    have l: "n \<le> length (esc s)" by (simp add: n_def)
    then show "length (map (\<lambda>i. m' (poffset p + i)) [0..<n + 3]) = length (34 # take n (esc s) @ [34, 0])" by simp
    fix i assume "i < length (map (\<lambda>i. m' (poffset p + i)) [0..<n + 3])"
    then have i: "i < n + 3" by simp
    then consider "i = 0" | j where "i = Suc j" "j < n" | "i = Suc n" | "i = Suc (Suc n)"
      by (cases i) (auto, linarith)
    then show "map (\<lambda>i. m' (poffset p + i)) [0..<n + 3] ! i = (34 # take n (esc s) @ [34, 0]) ! i"
      using i l first mid last by cases (auto simp: nth_append)
  qed
  with m(1-5) show ?thesis
    unfolding n_def by (intro exI [of _ m0] exI [of _ m'] conjI)
qed

subsection \<open>Properties\<close>

text \<open>
  C31: the escape sequence of every code point that is not a surrogate, written with upper or
  lower case digits and as a surrogate pair above 0xFFFF, is decoded to the UTF-8 encoding of
  the code point, and all of it is used.
\<close>

theorem cJSON_unicode_escape:
  assumes "hex_table ds" and "c \<le> 0x10FFFF" and "\<not> (0xD800 \<le> c \<and> c \<le> 0xDFFF)"
    and "length (json_escape ds c) \<le> n"
  shows "utf16_literal_to_utf8 (json_escape ds c @ rest) n = Some (utf8_ref c, length (json_escape ds c))"
  by (rule utf16_literal_correct [OF assms])

lemma cJSON_unicode_escape_witness:
  "utf16_literal_to_utf8 (json_escape hexdigits_upper 0x1F600 @ []) 12 = Some ([0xF0, 0x9F, 0x98, 0x80], 12)"
  using cJSON_unicode_escape [OF hex_tables(2), of "0x1F600" 12 "[]"]
  by (simp add: json_escape_def u_literal_def utf8_ref_def)

text \<open>
  What the printer writes for a string.  It succeeds only with room for the length it has
  computed, keeps the bytes before the current position, and leaves there the quoted, escaped
  string, except that for every control character without an escape letter one byte is missing
  at the end of the escaped text: the first pass counts four extra characters for \<^verbatim>\<open>\\u00XX\<close>
  instead of five.
\<close>

theorem cJSON_print_text:
  assumes "print_string_ptr ok junk (Some s) p = (True, q)"
  shows "\<exists>m0 m. buffer p = Some m0 \<and> buffer q = Some m \<and> poffset q = poffset p \<and>
    poffset p + (length (esc s) - ctrls s) + 4 \<le> plength q \<and> (\<forall>i < poffset p. m i = m0 i) \<and>
    map (\<lambda>i. m (poffset p + i)) [0..<length (esc s) - ctrls s + 3] = 34 # take (length (esc s) - ctrls s) (esc s) @ [34, 0]"
  by (rule print_text [OF assms])

text \<open>A buffer of a given length that may not be reallocated.\<close>

definition fixed_buffer :: "nat \<Rightarrow> printbuffer" where
  "fixed_buffer n = \<lparr>buffer = Some (\<lambda>_. 7), plength = n, poffset = 0, noalloc = True\<rparr>"

lemma fixed_buffer_print:
  "length s + escape_characters s + 4 \<le> n \<Longrightarrow> n \<le> INT_MAX \<Longrightarrow>
   \<exists>q. print_string_ptr True (\<lambda>_. 0) (Some s) (fixed_buffer n) = (True, q)"
  by (simp add: print_string_ptr_def ensure_def fixed_buffer_def Let_def)

lemma cJSON_print_text_witness:
  "\<exists>q m. print_string_ptr True (\<lambda>_. 0) (Some [1]) (fixed_buffer 20) = (True, q) \<and> buffer q = Some m \<and>
     map m [0..<8] = [34, 92, 117, 48, 48, 48, 34, 0]"
proof -
  obtain q where q: "print_string_ptr True (\<lambda>_. 0) (Some [1]) (fixed_buffer 20) = (True, q)"
    using fixed_buffer_print [of "[1]" 20] by (auto simp: one_char_escape_def INT_MAX_def)
  have "esc [1] = [92, 117, 48, 48, 48, 49]" "ctrls [1] = 1"
    by (simp_all add: esc_char_def plain_def one_char_escape_def u_literal_def hexdigits_lower_def ctrl_def)
  with cJSON_print_text [OF q] q show ?thesis by (auto simp: fixed_buffer_def)
qed

text \<open>
  C30: decoding undoes printing.  For a string without control characters that lack an escape
  letter, parsing the printed bytes succeeds, gives the string with its terminator, and stops
  right after the closing quote.
\<close>

theorem cJSON_string_roundtrip:
  assumes "print_string_ptr ok junk (Some s) p = (True, q)" and "ctrls s = 0" and "buffer q = Some m"
  shows "\<exists>sz b. parse_string True \<lparr>content = map (\<lambda>i. m (poffset p + i)) [0..<length (esc s) + 3], offset = 0\<rparr> =
    (Some (s @ [0], sz), b) \<and> offset b = length (esc s) + 2"
proof -
  have "map (\<lambda>i. m (poffset p + i)) [0..<length (esc s) + 3] = 34 # esc s @ [34, 0]"
    using print_text [OF assms(1)] assms(2,3) by auto
  with parse_string_esc [of "[]" s "[0]"] show ?thesis by simp
qed

lemma cJSON_string_roundtrip_witness:
  "\<exists>q m sz b. print_string_ptr True (\<lambda>_. 0) (Some [97, 34, 10]) (fixed_buffer 20) = (True, q) \<and> buffer q = Some m \<and>
     parse_string True \<lparr>content = map m [0..<length (esc [97, 34, 10]) + 3], offset = 0\<rparr> = (Some ([97, 34, 10] @ [0], sz), b)"
proof -
  obtain q where q: "print_string_ptr True (\<lambda>_. 0) (Some [97, 34, 10]) (fixed_buffer 20) = (True, q)"
    using fixed_buffer_print [of "[97, 34, 10]" 20] by (auto simp: one_char_escape_def INT_MAX_def)
  moreover obtain m where m: "buffer q = Some m" using print_text [OF q] by auto
  moreover have "ctrls [97, 34, 10] = 0" by (simp add: ctrl_def plain_def one_char_escape_def)
  ultimately show ?thesis using cJSON_string_roundtrip [OF q _ m] by (auto simp: fixed_buffer_def)
qed

text \<open>
  C32: a decoded string and its terminator overrun the allocated block by at most one byte, and by
  exactly one byte whenever the literal, the bytes up to the closing quote, has no \<^verbatim>\<open>\u\<close> escape.
\<close>

theorem cJSON_parse_overflow:
  assumes "parse_string ok b = (Some (out, sz), b')"
    and "scan_string (drop (offset b + 1) (content b)) = Some (n, k)"
  shows "length out \<le> sz + 1 \<and> (unicode_free (take n (drop (offset b + 1) (content b))) \<longrightarrow> length out = sz + 1)"
proof -
  let ?xs = "drop (offset b + 1) (content b)"
  obtain o' where *: "parse_string_loop ?xs n = Inr o'" "out = o' @ [0]" "sz = n - k"
    using assms by (auto simp: parse_string_def Let_def split: if_splits sum.splits)
  note sc = scan_backslashes [OF assms(2)]
  have xs: "?xs = take n ?xs @ 34 # drop (Suc n) ?xs" "length (take n ?xs) = n"
    using id_take_nth_drop [of n ?xs] sc by (metis, simp)
  have "length o' + backslashes (take n ?xs) \<le> n" using loop_bound [of "take n ?xs" "drop (Suc n) ?xs" o'] *(1) xs by simp
  moreover have "unicode_free (take n ?xs) \<longrightarrow> length o' + backslashes (take n ?xs) = n"
    using loop_exact [of "take n ?xs" "drop (Suc n) ?xs" o'] *(1) xs by simp
  ultimately show ?thesis using *(2,3) sc by auto
qed

lemma cJSON_parse_overflow_witness:
  "\<exists>out sz b'. parse_string True \<lparr>content = [34, 97, 92, 47, 9, 34], offset = 0\<rparr> = (Some (out, sz), b') \<and> length out = sz + 1"
proof -
  let ?b = "\<lparr>content = [34, 97, 92, 47, 9, 34], offset = 0\<rparr>"
  have s: "scan_string (drop (offset ?b + 1) (content ?b)) = Some (4, 1)" by simp
  have "parse_string_loop [97, 92, 47, 9, 34] (Suc (Suc (Suc (Suc 0)))) = Inr [97, 47, 9]"
    by (simp add: parse_string_loop.simps simple_escape_def)
  then obtain out sz b' where p: "parse_string True ?b = (Some (out, sz), b')"
    by (simp add: parse_string_def Let_def)
  have "unicode_free (take 4 (drop (offset ?b + 1) (content ?b)))" by simp
  with cJSON_parse_overflow [OF p s] p show ?thesis by blast
qed

text \<open>
  C33: printing into a buffer of exactly the computed size stores beyond its end: the text itself
  when the string has at least four control characters that lack an escape letter, and a zero byte
  when it has at least three and ends in one.
\<close>

theorem cJSON_print_overflow:
  assumes "print_string_ptr ok junk (Some s) p = (True, q)"
    and "plength p = poffset p + (length (esc s) - ctrls s) + 4"
  shows "\<exists>m. buffer q = Some m \<and>
    (4 \<le> ctrls s \<longrightarrow> plength q \<le> poffset p + length (esc s) \<and> m (poffset p + length (esc s)) = last (esc s)) \<and>
    (3 \<le> ctrls s \<and> ctrl (last s) \<longrightarrow> plength q \<le> poffset p + 1 + length (esc s) \<and> m (poffset p + 1 + length (esc s)) = 0)"
proof -
  obtain m0 m' m where m: "buffer p = Some m0" "buffer q = Some m'" "poffset q = poffset p"
    "poffset p + (length (esc s) - ctrls s) + 4 \<le> plength q" "\<forall>i < poffset p. m' i = m0 i"
    "m' = (print_loop s (poffset p + 1) (m(poffset p := 34)))
       (poffset p + (length (esc s) - ctrls s) + 1 := 34, poffset p + (length (esc s) - ctrls s) + 2 := 0)"
    "plength p \<ge> poffset p + (length (esc s) - ctrls s) + 4 \<longrightarrow> plength q = plength p"
    using print_string_stores [OF assms(1)] .
  have le: "ctrls s \<le> length (esc s)" by (simp add: esc_length)
  have four: "m' (poffset p + length (esc s)) = last (esc s)" if "4 \<le> ctrls s"
  proof -
    have ne: "esc s \<noteq> []" using that le by auto
    have "print_loop s (poffset p + 1) (m(poffset p := 34)) (poffset p + 1 + (length (esc s) - 1)) = esc s ! (length (esc s) - 1)"
      using print_loop_wrote [of "m(poffset p := 34)" "poffset p + 1" s] ne by (simp add: wrote_def)
    moreover have "poffset p + 1 + (length (esc s) - 1) = poffset p + length (esc s)"
      "poffset p + length (esc s) \<noteq> poffset p + (length (esc s) - ctrls s) + 1"
      "poffset p + length (esc s) \<noteq> poffset p + (length (esc s) - ctrls s) + 2" using that le by linarith+
    ultimately show ?thesis using ne by (simp only: m(6) last_conv_nth fun_upd_other not_False_eq_True)
  qed
  have three: "m' (poffset p + 1 + length (esc s)) = 0" if "3 \<le> ctrls s" "ctrl (last s)"
  proof -
    have "s \<noteq> []" using that(1) by auto
    then obtain t c where t: "s = t @ [c]" by (cases s rule: rev_cases) auto
    have e: "length (esc s) = length (esc t) + length (esc_char c)" by (simp add: t esc_def)
    have "poffset p + 1 + length (esc s) \<noteq> poffset p + (length (esc s) - ctrls s) + 1"
      "poffset p + 1 + length (esc s) \<noteq> poffset p + (length (esc s) - ctrls s) + 2" using that le by linarith+
    then have "m' (poffset p + 1 + length (esc s)) = print_loop s (poffset p + 1) (m(poffset p := 34)) (poffset p + 1 + length (esc s))"
      by (simp only: m(6) fun_upd_other not_False_eq_True)
    also have "\<dots> = 0" using print_char_nul [of c "poffset p + 1 + length (esc t)"] that(2)
      unfolding e by (simp add: t print_loop_snoc add.assoc)
    finally show ?thesis .
  qed
  have "plength q = poffset p + (length (esc s) - ctrls s) + 4" using m(7) assms(2) by simp
  with m(2) four three le show ?thesis by (intro exI [of _ m']) auto
qed

lemma cJSON_print_overflow_witness:
  "\<exists>q m i. print_string_ptr True (\<lambda>_. 0) (Some [1, 1, 1]) (fixed_buffer 19) = (True, q) \<and> buffer q = Some m \<and>
     plength q \<le> i \<and> m i = 0"
proof -
  have c: "ctrl 1" by (simp add: ctrl_def plain_def one_char_escape_def)
  then have n: "ctrls [1, 1, 1] = 3" "length (esc [1, 1, 1]) = 18"
    by (simp_all add: esc_char_def ctrl_def length_u_literal)
  obtain q where q: "print_string_ptr True (\<lambda>_. 0) (Some [1, 1, 1]) (fixed_buffer 19) = (True, q)"
    using fixed_buffer_print [of "[1, 1, 1]" 19] by (auto simp: one_char_escape_def INT_MAX_def)
  have "plength (fixed_buffer 19) = poffset (fixed_buffer 19) + (18 - 3) + 4" by (simp add: fixed_buffer_def)
  with cJSON_print_overflow [OF q] n c have "\<exists>m i. buffer q = Some m \<and> plength q \<le> i \<and> m i = 0" by auto
  with q show ?thesis by auto
qed

end
