(* ===== verification/Complete.thy ===== *)
theory Complete
  imports Tokenizer
begin

text \<open>
  \<^verbatim>\<open>sqlite3_complete\<close> of complete.c: does a text end at the end of an SQL statement?  The code
  scans the text into tokens of eight kinds and runs a state machine over them; the machine
  knows that the body of a CREATE TRIGGER ends with \<^verbatim>\<open>;END;\<close> and not with its first semicolon.

  The specification is a grammar of statements over the tokens that are not white space, and
  the main result says that the machine accepts exactly the non-empty sequences of
  statements.  \<^verbatim>\<open>sqlite3_complete16\<close> only converts its argument and calls the function here.
\<close>

subsection \<open>The scanner and the state machine\<close>

datatype ctk = tkSEMI | tkWS | tkOTHER | tkEXPLAIN | tkCREATE | tkTEMP | tkTRIGGER | tkEND

definition ctk_code :: "ctk \<Rightarrow> nat" where
  "ctk_code t = (case t of tkSEMI \<Rightarrow> 0 | tkWS \<Rightarrow> 1 | tkOTHER \<Rightarrow> 2 | tkEXPLAIN \<Rightarrow> 3 | tkCREATE \<Rightarrow> 4
     | tkTEMP \<Rightarrow> 5 | tkTRIGGER \<Rightarrow> 6 | tkEND \<Rightarrow> 7)"

definition ctrans :: "nat list list" where
  "ctrans =
    [[1, 0, 2, 3, 4, 2, 2, 2],
     [1, 1, 2, 3, 4, 2, 2, 2],
     [1, 2, 2, 2, 2, 2, 2, 2],
     [1, 3, 3, 2, 4, 2, 2, 2],
     [1, 4, 2, 2, 2, 4, 5, 2],
     [6, 5, 5, 5, 5, 5, 5, 5],
     [6, 6, 5, 5, 5, 5, 5, 7],
     [1, 7, 5, 5, 5, 5, 5, 5]]"

definition ctrans_step :: "nat \<Rightarrow> ctk \<Rightarrow> nat" where
  "ctrans_step state t = ctrans ! state ! ctk_code t"

text \<open>The keywords the machine distinguishes; \<open>nId\<close> is the length of the word at the front.\<close>

definition completeKeyword :: "cstring \<Rightarrow> nat \<Rightarrow> ctk" where
  "completeKeyword z nId =
     (let c = at z 0; is = (\<lambda>w. nId = length w \<and> sqlite3_strnicmp (Some z) (Some w) (int (length w)) = 0) in
      if c = 99 \<or> c = 67 then
        (if is [99, 114, 101, 97, 116, 101] then tkCREATE else tkOTHER)
      else if c = 116 \<or> c = 84 then
        (if is [116, 114, 105, 103, 103, 101, 114] then tkTRIGGER
         else if is [116, 101, 109, 112] then tkTEMP
         else if is [116, 101, 109, 112, 111, 114, 97, 114, 121] then tkTEMP
         else tkOTHER)
      else if c = 101 \<or> c = 69 then
        (if is [101, 110, 100] then tkEND
         else if is [101, 120, 112, 108, 97, 105, 110] then tkEXPLAIN
         else tkOTHER)
      else tkOTHER)"

fun skipComment :: "cstring \<Rightarrow> cstring" where
  "skipComment [] = []"
| "skipComment (c # z) = (if c \<noteq> 42 \<or> chr z \<noteq> 47 then skipComment z else c # z)"

text \<open>One turn of the scanner: an early return of 0, an early return of the test, or a token.\<close>

datatype cscan = ReturnZero | ReturnTest | Token ctk cstring

definition completeScan :: "cstring \<Rightarrow> cscan" where
  "completeScan z =
     (let c = at z 0 in
      if c = 59 then Token tkSEMI (drop 1 z)
      else if c = 32 \<or> c = 13 \<or> c = 9 \<or> c = 10 \<or> c = 12 then Token tkWS (drop 1 z)
      else if c = 47 then
        if at z 1 \<noteq> 42 then Token tkOTHER (drop 1 z)
        else (case skipComment (drop 2 z) of [] \<Rightarrow> ReturnZero | z' \<Rightarrow> Token tkWS (drop 2 z'))
      else if c = 45 then
        if at z 1 \<noteq> 45 then Token tkOTHER (drop 1 z)
        else (case dropWhile (\<lambda>d. d \<noteq> 10) z of [] \<Rightarrow> ReturnTest | z' \<Rightarrow> Token tkWS (drop 1 z'))
      else if c = 91 then
        (case dropWhile (\<lambda>d. d \<noteq> 93) (drop 1 z) of [] \<Rightarrow> ReturnZero | z' \<Rightarrow> Token tkOTHER (drop 1 z'))
      else if c = 96 \<or> c = 34 \<or> c = 39 then
        (case dropWhile (\<lambda>d. d \<noteq> c) (drop 1 z) of [] \<Rightarrow> ReturnZero | z' \<Rightarrow> Token tkOTHER (drop 1 z'))
      else if IdChar c then
        (let nId = span IdChar z 1 in Token (completeKeyword z nId) (drop nId z))
      else Token tkOTHER (drop 1 z))"

lemma skipComment_shrinks: "skipComment z = c # cs \<Longrightarrow> length cs < length z"
  by (induction z) (auto split: if_splits)

lemma completeScan_shrinks:
  assumes "completeScan z = Token t z'" and "z \<noteq> []"
  shows "length z' < length z"
proof -
  have sub: "length (drop n cs) < length z" if "length cs < length (drop m z)" for n m cs
    using that by simp
  have "\<exists>n cs m. z' = drop n cs \<and> (length cs < length (drop m z) \<or> cs = z \<and> n \<noteq> 0)"
    using assms(1) unfolding completeScan_def Let_def
    by (auto split: if_splits list.splits simp: span_def dest!: skipComment_shrinks dropWhile_shrinks)
      (metis One_nat_def drop0 drop_Suc_Cons drop_drop length_drop zero_less_one)+
  with sub assms(2) show ?thesis by auto
qed

function sqlite3CompleteLoop :: "nat \<Rightarrow> cstring \<Rightarrow> bool" where
  "sqlite3CompleteLoop state z =
     (if z = [] then state = 1
      else (case completeScan z of
              ReturnZero \<Rightarrow> False
            | ReturnTest \<Rightarrow> state = 1
            | Token t z' \<Rightarrow> sqlite3CompleteLoop (ctrans_step state t) z'))"
  by pat_completeness auto
termination
  by (relation "measure (\<lambda>(s, z). length z)") (auto simp: completeScan_shrinks)

declare sqlite3CompleteLoop.simps [simp del]

definition sqlite3_complete :: "cstring \<Rightarrow> bool" where
  "sqlite3_complete zSql = sqlite3CompleteLoop 0 zSql"

subsection \<open>The grammar of statements\<close>

text \<open>All tokens of a text; \<open>None\<close> when a comment or a quoted word is not closed.\<close>

function completeTokens :: "cstring \<Rightarrow> ctk list option" where
  "completeTokens z =
     (if z = [] then Some []
      else (case completeScan z of
              ReturnZero \<Rightarrow> None
            | ReturnTest \<Rightarrow> Some []
            | Token t z' \<Rightarrow> map_option ((#) t) (completeTokens z')))"
  by pat_completeness auto
termination
  by (relation "measure length") (auto simp: completeScan_shrinks)

declare completeTokens.simps [simp del]

text \<open>\<^verbatim>\<open>[EXPLAIN ...] CREATE [TEMP] TRIGGER\<close>, and the first \<^verbatim>\<open>;END;\<close> of what follows.\<close>

definition ends :: "ctk list \<Rightarrow> ctk list \<Rightarrow> bool" where
  "ends p ts \<longleftrightarrow> (\<exists>us. ts = us @ p)"

definition explain :: "ctk list \<Rightarrow> bool" where
  "explain ts \<longleftrightarrow> ts = [] \<or> (\<exists>k. ts = tkEXPLAIN # replicate k tkOTHER)"

definition trigger_head :: "ctk list \<Rightarrow> bool" where
  "trigger_head ts \<longleftrightarrow> (\<exists>e n. explain e \<and> ts = e @ tkCREATE # replicate n tkTEMP @ [tkTRIGGER])"

definition no_end :: "ctk list \<Rightarrow> bool" where
  "no_end ts \<longleftrightarrow> (\<forall>us vs. ts = us @ vs \<longrightarrow> \<not> ends [tkSEMI, tkEND, tkSEMI] us)"

inductive statement :: "ctk list \<Rightarrow> bool" where
  simple: "tkSEMI \<notin> set ts \<Longrightarrow> (\<And>h r. ts = h @ r \<Longrightarrow> \<not> trigger_head h) \<Longrightarrow> statement (ts @ [tkSEMI])"
| trigger: "trigger_head h \<Longrightarrow> no_end (b @ [tkSEMI, tkEND]) \<Longrightarrow> statement (h @ b @ [tkSEMI, tkEND, tkSEMI])"

inductive statements :: "ctk list \<Rightarrow> bool" where
  none: "statements []"
| more: "statement s \<Longrightarrow> statements r \<Longrightarrow> statements (s @ r)"

subsection \<open>The machine over token lists\<close>

abbreviation crun :: "nat \<Rightarrow> ctk list \<Rightarrow> nat" where
  "crun \<equiv> foldl ctrans_step"

lemma CompleteLoop_tokens:
  "sqlite3CompleteLoop s z = (case completeTokens z of None \<Rightarrow> False | Some ts \<Rightarrow> crun s ts = 1)"
proof (induction s z rule: sqlite3CompleteLoop.induct)
  case (1 s z)
  show ?case
  proof (cases "z = []")
    case False
    with 1 show ?thesis
      by (subst sqlite3CompleteLoop.simps, subst completeTokens.simps)
        (auto split: cscan.splits option.splits)
  qed (simp add: sqlite3CompleteLoop.simps completeTokens.simps)
qed

lemma ctrans_step_simps [simp]:
  "ctrans_step 0 t = (case t of tkWS \<Rightarrow> 0 | _ \<Rightarrow> ctrans_step 1 t)"
  "ctrans_step (Suc 0) t = (case t of tkSEMI \<Rightarrow> 1 | tkWS \<Rightarrow> 1 | tkEXPLAIN \<Rightarrow> 3 | tkCREATE \<Rightarrow> 4 | _ \<Rightarrow> 2)"
  "ctrans_step 2 t = (case t of tkSEMI \<Rightarrow> 1 | _ \<Rightarrow> 2)"
  "ctrans_step 3 t = (case t of tkSEMI \<Rightarrow> 1 | tkWS \<Rightarrow> 3 | tkOTHER \<Rightarrow> 3 | tkCREATE \<Rightarrow> 4 | _ \<Rightarrow> 2)"
  "ctrans_step 4 t = (case t of tkSEMI \<Rightarrow> 1 | tkWS \<Rightarrow> 4 | tkTEMP \<Rightarrow> 4 | tkTRIGGER \<Rightarrow> 5 | _ \<Rightarrow> 2)"
  "ctrans_step 5 t = (case t of tkSEMI \<Rightarrow> 6 | _ \<Rightarrow> 5)"
  "ctrans_step 6 t = (case t of tkSEMI \<Rightarrow> 6 | tkWS \<Rightarrow> 6 | tkEND \<Rightarrow> 7 | _ \<Rightarrow> 5)"
  "ctrans_step 7 t = (case t of tkSEMI \<Rightarrow> 1 | tkWS \<Rightarrow> 7 | _ \<Rightarrow> 5)"
  by (cases t; simp add: ctrans_step_def ctrans_def ctk_code_def)+

lemma ctrans_step_less: "s < 8 \<Longrightarrow> ctrans_step s t < 8"
  by (cases t; auto simp: less_Suc_eq numeral_eq_Suc ctrans_step_def ctrans_def ctk_code_def)

lemma ctrans_step_WS: "s < 8 \<Longrightarrow> ctrans_step s tkWS = s"
  by (auto simp: less_Suc_eq numeral_eq_Suc ctrans_step_def ctrans_def ctk_code_def)

lemma crun_filter: "s < 8 \<Longrightarrow> crun s ts = crun s (filter (\<lambda>t. t \<noteq> tkWS) ts)"
  by (induction ts arbitrary: s) (auto simp: ctrans_step_less ctrans_step_WS simp del: ctrans_step_simps)

subsection \<open>The tokens that lead to a state\<close>

lemma ends_snoc_snoc: "ends (p @ [x]) (b @ [t]) \<longleftrightarrow> t = x \<and> ends p b"
  unfolding ends_def append_assoc [symmetric] append1_eq_conv by auto

lemma ends_Nil: "ends [] b" "\<not> ends (x # p) []"
  by (simp_all add: ends_def)

lemmas ends_snoc = ends_snoc_snoc [where p = "[]" and x = tkSEMI, simplified append_Nil ends_Nil simp_thms]
  ends_snoc_snoc [where p = "[tkSEMI]" and x = tkEND, simplified append.simps]
  ends_snoc_snoc [where p = "[tkSEMI, tkEND]" and x = tkSEMI, simplified append.simps]

lemma no_end_snoc: "no_end (b @ [t]) \<longleftrightarrow> no_end b \<and> \<not> ends [tkSEMI, tkEND, tkSEMI] (b @ [t])"
proof -
  have "b @ [t] = us @ vs \<longleftrightarrow> us = b @ [t] \<and> vs = [] \<or> (\<exists>vs'. vs = vs' @ [t] \<and> b = us @ vs')" for us vs
    by (cases vs rule: rev_cases) auto
  then have "(\<forall>us vs. b @ [t] = us @ vs \<longrightarrow> \<not> P us) \<longleftrightarrow> (\<forall>us vs. b = us @ vs \<longrightarrow> \<not> P us) \<and> \<not> P (b @ [t])" for P
    by metis
  then show ?thesis unfolding no_end_def .
qed

lemma no_end_Nil: "no_end []"
  by (simp add: no_end_def ends_def)

definition body_state :: "ctk list \<Rightarrow> nat" where
  "body_state b = (if ends [tkSEMI, tkEND] b then 7 else if ends [tkSEMI] b then 6 else 5)"

lemma body_state_snoc:
  "body_state (b @ [t]) = (if t = tkEND \<and> ends [tkSEMI] b then 7 else if t = tkSEMI then 6 else 5)"
  by (auto simp: body_state_def ends_snoc)

text \<open>Inside a trigger: the state tells how much of \<^verbatim>\<open>;END;\<close> has been seen.\<close>

lemma body_step:
  assumes "t \<noteq> tkWS"
  shows "ctrans_step (body_state b) t =
    (if ends [tkSEMI, tkEND, tkSEMI] (b @ [t]) then 1 else body_state (b @ [t]))"
proof -
  have "ends [tkSEMI] b \<Longrightarrow> \<not> ends [tkSEMI, tkEND] b"
    by (cases b rule: rev_cases) (auto simp: ends_snoc ends_Nil)
  with assms show ?thesis
    by (cases t) (auto simp: body_state_snoc ends_snoc, auto simp: body_state_def)
qed

lemma crun_body: "tkWS \<notin> set b \<Longrightarrow> no_end b \<Longrightarrow> crun 5 b = body_state b"
proof (induction b rule: rev_induct)
  case (snoc t b)
  then show ?case using body_step [of t b] by (auto simp: no_end_snoc)
qed (simp add: body_state_def ends_Nil)

lemma crun_replicate:
  "crun 3 (replicate k tkOTHER) = 3" "crun 4 (replicate n tkTEMP) = 4"
  by (induction k, simp_all) (induction n, simp_all)

lemma crun_head: "trigger_head h \<Longrightarrow> crun 1 h = 5"
  by (auto simp: trigger_head_def explain_def crun_replicate)

lemma replicate_snoc: "replicate (Suc k) x = replicate k x @ [x]"
  by (simp add: replicate_append_same)

lemma explain_snoc: "explain (p @ [t]) \<longleftrightarrow> (if p = [] then t = tkEXPLAIN else explain p \<and> t = tkOTHER)"
proof (cases p)
  case (Cons a q)
  have "q @ [t] = replicate k tkOTHER \<longleftrightarrow> q = replicate (k - 1) tkOTHER \<and> t = tkOTHER \<and> k \<noteq> 0" for k
    by (cases k) (auto simp: replicate_snoc simp del: replicate_Suc)
  then show ?thesis using Cons by (auto simp: explain_def) (rule exI [of _ "Suc _"], simp)
qed (auto simp: explain_def)

lemma create_snoc:
  "p @ [t] = e @ tkCREATE # replicate n tkTEMP \<longleftrightarrow>
    (if n = 0 then p = e \<and> t = tkCREATE else p = e @ tkCREATE # replicate (n - 1) tkTEMP \<and> t = tkTEMP)"
  by (cases n) (auto simp: replicate_snoc append_assoc [symmetric] append_Cons [symmetric]
      simp del: replicate_Suc append_assoc append_Cons)

lemma head_snoc: "trigger_head (p @ [t]) \<longleftrightarrow> t = tkTRIGGER \<and> (\<exists>e n. explain e \<and> p = e @ tkCREATE # replicate n tkTEMP)"
proof -
  have "p @ [t] = e @ tkCREATE # replicate n tkTEMP @ [tkTRIGGER] \<longleftrightarrow>
      t = tkTRIGGER \<and> p = e @ tkCREATE # replicate n tkTEMP" for e n
    using append1_eq_conv [of p t "e @ tkCREATE # replicate n tkTEMP" tkTRIGGER] by auto
  then show ?thesis unfolding trigger_head_def by auto
qed

lemma explain_create: "\<not> explain (e @ tkCREATE # r)"
proof
  assume "explain (e @ tkCREATE # r)"
  then have "tkCREATE \<notin> set (e @ tkCREATE # r)" by (auto simp: explain_def simp del: set_append)
  then show False by simp
qed

lemma no_head_snoc:
  assumes "\<forall>h r. p = h @ r \<longrightarrow> \<not> trigger_head h" and "\<not> trigger_head (p @ [t])"
  shows "\<forall>h r. p @ [t] = h @ r \<longrightarrow> \<not> trigger_head h"
proof (intro allI impI)
  fix h r
  assume "p @ [t] = h @ r"
  with assms show "\<not> trigger_head h" by (cases r rule: rev_cases) auto
qed

text \<open>The first four states: no semicolon yet and no trigger.\<close>

definition plain_state :: "nat \<Rightarrow> ctk list \<Rightarrow> bool" where
  "plain_state s p \<longleftrightarrow> tkSEMI \<notin> set p \<and> (\<forall>h r. p = h @ r \<longrightarrow> \<not> trigger_head h) \<and>
     s = (if p = [] then 1 else if explain p then 3
          else if \<exists>e n. explain e \<and> p = e @ tkCREATE # replicate n tkTEMP then 4 else 2)"

definition trigger_state :: "nat \<Rightarrow> ctk list \<Rightarrow> bool" where
  "trigger_state s p \<longleftrightarrow> (\<exists>h b. trigger_head h \<and> no_end b \<and> p = h @ b \<and> s = body_state b)"

lemma plain_step:
  assumes "plain_state s p" and "t \<noteq> tkWS" and "t \<noteq> tkSEMI" and "\<not> trigger_head (p @ [t])"
  shows "plain_state (ctrans_step s t) (p @ [t])"
proof -
  let ?cr = "\<lambda>p. \<exists>e n. explain e \<and> p = e @ tkCREATE # replicate n tkTEMP"
  have cr: "?cr (p @ [t]) \<longleftrightarrow> (t = tkCREATE \<and> explain p) \<or> (t = tkTEMP \<and> ?cr p)"
  proof
    assume "?cr (p @ [t])"
    then show "(t = tkCREATE \<and> explain p) \<or> (t = tkTEMP \<and> ?cr p)" unfolding create_snoc by (metis (full_types))
  next
    assume "(t = tkCREATE \<and> explain p) \<or> (t = tkTEMP \<and> ?cr p)"
    then obtain e n where "explain e" "p @ [t] = e @ tkCREATE # replicate n tkTEMP"
      by (metis append.assoc append_Cons replicate_0 replicate_snoc)
    then show "?cr (p @ [t])" by blast
  qed
  have ex: "explain p \<Longrightarrow> \<not> ?cr p" using explain_create by blast
  have s: "s = (if p = [] then 1 else if explain p then 3 else if ?cr p then 4 else 2)"
    and p: "tkSEMI \<notin> set p" "\<forall>h r. p = h @ r \<longrightarrow> \<not> trigger_head h"
    using assms(1) by (auto simp: plain_state_def)
  have "t = tkTRIGGER \<Longrightarrow> \<not> ?cr p" using assms(4) head_snoc by auto
  then have "ctrans_step s t = (if explain (p @ [t]) then 3 else if ?cr (p @ [t]) then 4 else 2)"
    using assms(2,3) ex unfolding s cr explain_snoc
    by (cases t) (auto simp: explain_def)
  then show ?thesis using no_head_snoc [OF p(2) assms(4)] p(1) assms(3) by (simp add: plain_state_def)
qed

lemma trigger_step:
  assumes "trigger_state s p" and "t \<noteq> tkWS"
  shows "ctrans_step s t = 1 \<and> statement (p @ [t]) \<or> trigger_state (ctrans_step s t) (p @ [t])"
proof -
  obtain h b where hb: "trigger_head h" "no_end b" "p = h @ b" "s = body_state b"
    using assms(1) unfolding trigger_state_def by blast
  show ?thesis
  proof (cases "ends [tkSEMI, tkEND, tkSEMI] (b @ [t])")
    case True
    then obtain c where c: "b @ [t] = c @ [tkSEMI, tkEND, tkSEMI]" unfolding ends_def by blast
    then have b: "b = c @ [tkSEMI, tkEND]" using append1_eq_conv [of b t "c @ [tkSEMI, tkEND]" tkSEMI] by simp
    have "statement (h @ c @ [tkSEMI, tkEND, tkSEMI])" using hb(1,2) b by (intro trigger) auto
    with body_step [OF assms(2), of b] True c show ?thesis by (simp add: hb(3,4))
  next
    case False
    with body_step [OF assms(2), of b] hb have "trigger_state (ctrans_step s t) (p @ [t])"
      unfolding trigger_state_def by (intro exI [of _ h] exI [of _ "b @ [t]"]) (auto simp: no_end_snoc)
    then show ?thesis by blast
  qed
qed

lemma machine_step:
  assumes "plain_state s p \<or> trigger_state s p" and "t \<noteq> tkWS"
  shows "ctrans_step s t = 1 \<and> statement (p @ [t]) \<or>
    plain_state (ctrans_step s t) (p @ [t]) \<or> trigger_state (ctrans_step s t) (p @ [t])"
proof (cases "trigger_state s p")
  case True
  then show ?thesis using trigger_step [OF _ assms(2)] by blast
next
  case False
  with assms(1) have p: "plain_state s p" by blast
  consider "t = tkSEMI" | "trigger_head (p @ [t])" | "t \<noteq> tkSEMI" "\<not> trigger_head (p @ [t])" by blast
  then show ?thesis
  proof cases
    case 1
    have "statement (p @ [tkSEMI])" using p by (intro simple) (auto simp: plain_state_def)
    with 1 p show ?thesis by (auto simp: plain_state_def)
  next
    case 2
    then have "t = tkTRIGGER" "\<exists>e n. explain e \<and> p = e @ tkCREATE # replicate n tkTEMP" by (auto simp: head_snoc)
    moreover from this have "s = 4" using p by (auto simp: plain_state_def explain_create)
    ultimately have "trigger_state (ctrans_step s t) (p @ [t])"
      using 2 unfolding trigger_state_def by (intro exI [of _ "p @ [t]"] exI [of _ "[]"]) (simp add: no_end_Nil body_state_def ends_Nil)
    then show ?thesis by blast
  next
    case 3
    then show ?thesis using plain_step [OF p assms(2)] by blast
  qed
qed

lemma fresh_state: "plain_state 1 []"
  by (auto simp: plain_state_def trigger_head_def)

lemma accepted_statements:
  "plain_state s p \<or> trigger_state s p \<Longrightarrow> tkWS \<notin> set ts \<Longrightarrow> crun s ts = 1 \<Longrightarrow> statements (p @ ts)"
proof (induction ts arbitrary: s p)
  case Nil
  then have "p = []" by (auto simp: plain_state_def trigger_state_def body_state_def split: if_splits)
  then show ?case by (simp add: none)
next
  case (Cons t ts)
  from machine_step [OF Cons.prems(1), of t] Cons.prems(2)
  consider "ctrans_step s t = 1" "statement (p @ [t])"
    | "plain_state (ctrans_step s t) (p @ [t]) \<or> trigger_state (ctrans_step s t) (p @ [t])" by auto
  then show ?case
  proof cases
    case 1
    with Cons.IH [of 1 "[]"] Cons.prems fresh_state have "statements ts" by simp
    from more [OF 1(2) this] show ?thesis by simp
  next
    case 2
    with Cons.IH [of "ctrans_step s t" "p @ [t]"] Cons.prems show ?thesis by simp
  qed
qed

lemma crun_plain:
  "tkSEMI \<notin> set ts \<Longrightarrow> tkWS \<notin> set ts \<Longrightarrow> (\<forall>h r. ts = h @ r \<longrightarrow> \<not> trigger_head h) \<Longrightarrow> plain_state (crun 1 ts) ts"
proof (induction ts rule: rev_induct)
  case (snoc t ts)
  then have "\<forall>h r. ts = h @ r \<longrightarrow> \<not> trigger_head h" by auto
  with snoc show ?case by (auto intro: plain_step)
qed (use fresh_state in simp)

lemma statement_accepted: "statement s \<Longrightarrow> tkWS \<notin> set s \<Longrightarrow> crun 1 s = 1"
proof (induction rule: statement.induct)
  case (simple ts)
  then have "plain_state (crun 1 ts) ts" by (intro crun_plain) auto
  then show ?case by (auto simp: plain_state_def)
next
  case (trigger h b)
  then have "crun 5 (b @ [tkSEMI, tkEND]) = body_state (b @ [tkSEMI, tkEND])" by (intro crun_body) auto
  also have "\<dots> = 7" by (simp add: body_state_def ends_def)
  finally have "crun 5 (b @ [tkSEMI, tkEND, tkSEMI]) = 1" by simp
  with trigger show ?case by (simp add: crun_head del: One_nat_def)
qed

lemma statements_accepted: "statements ts \<Longrightarrow> tkWS \<notin> set ts \<Longrightarrow> crun 1 ts = 1"
  by (induction rule: statements.induct) (auto simp: statement_accepted simp del: One_nat_def)

lemma crun_start: "ts \<noteq> [] \<Longrightarrow> tkWS \<notin> set ts \<Longrightarrow> crun 0 ts = crun 1 ts"
  by (cases ts) (auto split: ctk.splits)

lemma crun_accepts:
  assumes "tkWS \<notin> set ts"
  shows "crun 0 ts = 1 \<longleftrightarrow> ts \<noteq> [] \<and> statements ts"
proof (cases "ts = []")
  case False
  then have "crun 0 ts = crun 1 ts" using assms by (rule crun_start)
  moreover have "statements ts" if "crun 1 ts = 1"
    using accepted_statements [OF disjI1 [OF fresh_state] assms that] by simp
  moreover have "crun 1 ts = 1" if "statements ts" using that assms by (rule statements_accepted)
  ultimately show ?thesis using False by metis
qed simp

subsection \<open>Properties\<close>

text \<open>
  C34: \<^verbatim>\<open>sqlite3_complete\<close> answers yes exactly when every comment and quoted word of the text is
  closed and the tokens that are not white space form at least one statement and nothing but
  complete statements, where a trigger is complete only after its first \<^verbatim>\<open>;END;\<close>.
\<close>

theorem complete_grammar:
  "sqlite3_complete z \<longleftrightarrow>
    (case completeTokens z of None \<Rightarrow> False
     | Some ts \<Rightarrow> let us = filter (\<lambda>t. t \<noteq> tkWS) ts in us \<noteq> [] \<and> statements us)"
proof (cases "completeTokens z")
  case (Some ts)
  have "crun 0 ts = crun 0 (filter (\<lambda>t. t \<noteq> tkWS) ts)" by (rule crun_filter) simp
  also have "\<dots> = 1 \<longleftrightarrow> filter (\<lambda>t. t \<noteq> tkWS) ts \<noteq> [] \<and> statements (filter (\<lambda>t. t \<noteq> tkWS) ts)"
    by (rule crun_accepts) simp
  finally show ?thesis using Some by (simp add: sqlite3_complete_def CompleteLoop_tokens Let_def)
qed (simp add: sqlite3_complete_def CompleteLoop_tokens)

end
