(* ===== verification/Utf.thy ===== *)
theory Utf
  imports Text_Util
begin

text \<open>
  Character encodings, from utf.c: reading and writing single characters, the translation of
  a text value between UTF-8 and the two UTF-16 encodings, byte-order marks and character
  counts.  Code points are the 32-bit values of the source.

  A text value is the part of the structure \<^verbatim>\<open>Mem\<close> these functions use: the bytes of its
  buffer, its length in bytes, its encoding and its flags, and whether the buffer is the one
  the value owns.  A text value never has the zero-filled tail that \<^verbatim>\<open>ExpandBlob\<close> expands.  The
  input of a translation is read only up to the length; the output is the list of bytes
  written, and that the allocated block is long enough for it is a property proved below.
\<close>

subsection \<open>Single characters\<close>

definition sqlite3Utf8Trans1 :: "u8 list" where
  "sqlite3Utf8Trans1 =
    [0x00, 0x01, 0x02, 0x03, 0x04, 0x05, 0x06, 0x07,
     0x08, 0x09, 0x0a, 0x0b, 0x0c, 0x0d, 0x0e, 0x0f,
     0x10, 0x11, 0x12, 0x13, 0x14, 0x15, 0x16, 0x17,
     0x18, 0x19, 0x1a, 0x1b, 0x1c, 0x1d, 0x1e, 0x1f,
     0x00, 0x01, 0x02, 0x03, 0x04, 0x05, 0x06, 0x07,
     0x08, 0x09, 0x0a, 0x0b, 0x0c, 0x0d, 0x0e, 0x0f,
     0x00, 0x01, 0x02, 0x03, 0x04, 0x05, 0x06, 0x07,
     0x00, 0x01, 0x02, 0x03, 0x00, 0x01, 0x00, 0x00]"

definition WRITE_UTF8 :: "u32 \<Rightarrow> u8 list" where
  "WRITE_UTF8 c =
     (if c < 0x80 then [ucast (c AND 0xFF)]
      else if c < 0x800 then [0xC0 + ucast (drop_bit 6 c AND 0x1F), 0x80 + ucast (c AND 0x3F)]
      else if c < 0x10000 then
        [0xE0 + ucast (drop_bit 12 c AND 0x0F), 0x80 + ucast (drop_bit 6 c AND 0x3F), 0x80 + ucast (c AND 0x3F)]
      else
        [0xF0 + ucast (drop_bit 18 c AND 0x07), 0x80 + ucast (drop_bit 12 c AND 0x3F),
         0x80 + ucast (drop_bit 6 c AND 0x3F), 0x80 + ucast (c AND 0x3F)])"

definition WRITE_UTF16LE :: "u32 \<Rightarrow> u8 list" where
  "WRITE_UTF16LE c =
     (if c \<le> 0xFFFF then [ucast (c AND 0x00FF), ucast (drop_bit 8 c AND 0x00FF)]
      else
        [ucast ((drop_bit 10 c AND 0x003F) + (drop_bit 10 (c - 0x10000) AND 0x00C0)),
         ucast (0x00D8 + (drop_bit 18 (c - 0x10000) AND 0x03)),
         ucast (c AND 0x00FF), ucast (0x00DC + (drop_bit 8 c AND 0x03))])"

definition WRITE_UTF16BE :: "u32 \<Rightarrow> u8 list" where
  "WRITE_UTF16BE c =
     (if c \<le> 0xFFFF then [ucast (drop_bit 8 c AND 0x00FF), ucast (c AND 0x00FF)]
      else
        [ucast (0x00D8 + (drop_bit 18 (c - 0x10000) AND 0x03)),
         ucast ((drop_bit 10 c AND 0x003F) + (drop_bit 10 (c - 0x10000) AND 0x00C0)),
         ucast (0x00DC + (drop_bit 8 c AND 0x03)), ucast (c AND 0x00FF)])"

text \<open>\<^verbatim>\<open>zOut\<close> after the call, and the number of bytes.\<close>

definition sqlite3AppendOneUtf8Character :: "mem \<Rightarrow> u32 \<Rightarrow> mem \<times> nat" where
  "sqlite3AppendOneUtf8Character zOut v =
     (if v < 0x80 then (zOut(0 := ucast (v AND 0xff)), 1)
      else if v < 0x800 then
        (zOut(0 := 0xc0 + ucast (drop_bit 6 v AND 0x1f), 1 := 0x80 + ucast (v AND 0x3f)), 2)
      else if v < 0x10000 then
        (zOut(0 := 0xe0 + ucast (drop_bit 12 v AND 0x0f), 1 := 0x80 + ucast (drop_bit 6 v AND 0x3f),
          2 := 0x80 + ucast (v AND 0x3f)), 3)
      else
        (zOut(0 := 0xf0 + ucast (drop_bit 18 v AND 0x07), 1 := 0x80 + ucast (drop_bit 12 v AND 0x3f),
          2 := 0x80 + ucast (drop_bit 6 v AND 0x3f), 3 := 0x80 + ucast (v AND 0x3f)), 4))"

text \<open>The loop over continuation bytes, and the replacement of the values it may not give.\<close>

fun utf8Loop :: "u32 \<Rightarrow> u8 list \<Rightarrow> u32 \<times> u8 list" where
  "utf8Loop c [] = (c, [])"
| "utf8Loop c (b # z) =
     (if b AND 0xc0 = 0x80 then utf8Loop (push_bit 6 c + ucast (0x3f AND b)) z else (c, b # z))"

definition utf8Valid :: "u32 \<Rightarrow> u32" where
  "utf8Valid c =
     (if c < 0x80 \<or> c AND 0xFFFFF800 = 0xD800 \<or> c AND 0xFFFFFFFE = 0xFFFE then 0xFFFD else c)"

text \<open>
  \<^verbatim>\<open>READ_UTF8\<close> on the bytes from \<^verbatim>\<open>zIn\<close> to \<^verbatim>\<open>zTerm\<close>, which are not empty, and \<^verbatim>\<open>sqlite3Utf8Read\<close> on
  a zero-terminated string, where the terminator ends the loop in the same way.
\<close>

definition READ_UTF8 :: "u8 list \<Rightarrow> u32 \<times> u8 list" where
  "READ_UTF8 zIn =
     (let c = zIn ! 0; zIn = drop 1 zIn in
      if c \<ge> 0xc0 then
        (case utf8Loop (ucast (sqlite3Utf8Trans1 ! unat (c - 0xc0))) zIn of (c, zIn) \<Rightarrow> (utf8Valid c, zIn))
      else (ucast c, zIn))"

definition sqlite3Utf8Read :: "cstring \<Rightarrow> u32 \<times> cstring" where
  "sqlite3Utf8Read z = (if z = [] then (0, []) else READ_UTF8 z)"

fun utf8LimitedLoop :: "nat \<Rightarrow> nat \<Rightarrow> u32 \<Rightarrow> u8 list \<Rightarrow> u32 \<times> nat" where
  "utf8LimitedLoop i n c [] = (c, i)"
| "utf8LimitedLoop i n c (b # z) =
     (if i < n \<and> b AND 0xc0 = 0x80 then utf8LimitedLoop (i + 1) n (push_bit 6 c + ucast (0x3f AND b)) z
      else (c, i))"

definition sqlite3Utf8ReadLimited :: "u8 list \<Rightarrow> nat \<Rightarrow> u32 \<times> nat" where
  "sqlite3Utf8ReadLimited z n =
     (let c = z ! 0 in
      if c \<ge> 0xc0 then utf8LimitedLoop 1 (if n > 4 then 4 else n) (ucast (sqlite3Utf8Trans1 ! unat (c - 0xc0))) (drop 1 z)
      else (ucast c, 1))"

definition SQLITE_SKIP_UTF8 :: "cstring \<Rightarrow> cstring" where
  "SQLITE_SKIP_UTF8 z =
     (if chr z \<ge> 0xc0 then dropWhile (\<lambda>b. b AND 0xc0 = 0x80) (drop 1 z) else drop 1 z)"

subsection \<open>Text values\<close>

datatype encoding = SQLITE_UTF8 | SQLITE_UTF16LE | SQLITE_UTF16BE

record Mem =
  mz :: "u8 list"
  mn :: nat
  menc :: encoding
  mflags :: u16
  mowned :: bool

definition MEM_Null :: u16 where "MEM_Null = 0x0001"
definition MEM_Str :: u16 where "MEM_Str = 0x0002"
definition MEM_AffMask :: u16 where "MEM_AffMask = 0x003f"
definition MEM_Term :: u16 where "MEM_Term = 0x0200"
definition MEM_Subtype :: u16 where "MEM_Subtype = 0x0800"
definition MEM_Dyn :: u16 where "MEM_Dyn = 0x1000"
definition MEM_Static :: u16 where "MEM_Static = 0x2000"
definition MEM_Ephem :: u16 where "MEM_Ephem = 0x4000"

text \<open>
  A buffer of its own for the value, with three zero bytes after the text.  When the
  allocation fails the value becomes NULL.
\<close>

definition vdbeMemAddTerminator :: "Mem \<Rightarrow> mallocs \<Rightarrow> rc \<times> Mem \<times> mallocs" where
  "vdbeMemAddTerminator p ms =
     (if malloc_ok ms then
        (SQLITE_OK, p\<lparr>mz := take (mn p) (mz p) @ [0, 0, 0], mowned := True,
           mflags := (mflags p AND NOT (MEM_Dyn OR MEM_Ephem OR MEM_Static)) OR MEM_Term\<rparr>, malloc_rest ms)
      else (SQLITE_NOMEM, p\<lparr>mz := [], mowned := False, mflags := MEM_Null\<rparr>, malloc_rest ms))"

definition sqlite3VdbeMemMakeWriteable :: "Mem \<Rightarrow> mallocs \<Rightarrow> rc \<times> Mem \<times> mallocs" where
  "sqlite3VdbeMemMakeWriteable p ms =
     (let (rc, p, ms) = (if mowned p then (SQLITE_OK, p, ms) else vdbeMemAddTerminator p ms)
      in if rc \<noteq> SQLITE_OK then (rc, p, ms)
         else (SQLITE_OK, p\<lparr>mflags := mflags p AND NOT MEM_Ephem\<rparr>, ms))"

subsection \<open>Translation\<close>

fun swapBytes :: "u8 list \<Rightarrow> u8 list" where
  "swapBytes (a # b # z) = b # a # swapBytes z"
| "swapBytes z = z"

lemma utf8Loop_length: "length (snd (utf8Loop c z)) \<le> length z"
  by (induction c z rule: utf8Loop.induct) auto

lemma READ_UTF8_shrinks: "READ_UTF8 z = (c, z') \<Longrightarrow> z \<noteq> [] \<Longrightarrow> length z' < length z"
  using utf8Loop_length [of "ucast (sqlite3Utf8Trans1 ! unat (z ! 0 - 0xc0))" "drop 1 z"]
  by (cases z) (auto simp: READ_UTF8_def Let_def split: if_splits prod.splits)

function utf8to16Loop :: "(u32 \<Rightarrow> u8 list) \<Rightarrow> u8 list \<Rightarrow> u8 list" where
  "utf8to16Loop write zIn =
     (if zIn = [] then [] else case READ_UTF8 zIn of (c, zIn) \<Rightarrow> write c @ utf8to16Loop write zIn)"
  by pat_completeness auto
termination
  by (relation "measure (\<lambda>(w, z). length z)") (auto simp: READ_UTF8_shrinks [OF sym])

declare utf8to16Loop.simps [simp del]

definition utf16LE :: "u8 \<Rightarrow> u8 \<Rightarrow> u32" where
  "utf16LE a b = ucast a + push_bit 8 (ucast b)"

definition utf16BE :: "u8 \<Rightarrow> u8 \<Rightarrow> u32" where
  "utf16BE a b = push_bit 8 (ucast a) + ucast b"

definition utf16Pair :: "u32 \<Rightarrow> u32 \<Rightarrow> u32" where
  "utf16Pair c c2 = (c2 AND 0x03FF) + push_bit 10 (c AND 0x003F) + push_bit 10 ((c AND 0x03C0) + 0x0040)"

text \<open>The loop that reads UTF-16; the input has an even number of bytes.\<close>

function utf16to8Loop :: "(u8 \<Rightarrow> u8 \<Rightarrow> u32) \<Rightarrow> u8 list \<Rightarrow> u8 list" where
  "utf16to8Loop unit zIn =
     (case zIn of a # b # zIn \<Rightarrow>
        (let c = unit a b in
         if 0xd800 \<le> c \<and> c < 0xe000 then
           (case zIn of a2 # b2 # zIn' \<Rightarrow> WRITE_UTF8 (utf16Pair c (unit a2 b2)) @ utf16to8Loop unit zIn'
            | _ \<Rightarrow> WRITE_UTF8 c)
         else WRITE_UTF8 c @ utf16to8Loop unit zIn)
      | _ \<Rightarrow> [])"
  by pat_completeness auto
termination
  by (relation "measure (\<lambda>(u, z). length z)") auto

declare utf16to8Loop.simps [simp del]

definition translateText :: "encoding \<Rightarrow> encoding \<Rightarrow> u8 list \<Rightarrow> u8 list" where
  "translateText enc desiredEnc zIn =
     (if enc = SQLITE_UTF8 then
        utf8to16Loop (if desiredEnc = SQLITE_UTF16LE then WRITE_UTF16LE else WRITE_UTF16BE) zIn
      else utf16to8Loop (if enc = SQLITE_UTF16LE then utf16LE else utf16BE) zIn)"

text \<open>The number of bytes allocated for the result of a translation of \<open>n\<close> bytes.\<close>

definition translateLen :: "encoding \<Rightarrow> nat \<Rightarrow> nat" where
  "translateLen desiredEnc n = (if desiredEnc = SQLITE_UTF8 then 2 * n + 1 else 2 * n + 2)"

definition sqlite3VdbeMemTranslate :: "Mem \<Rightarrow> encoding \<Rightarrow> mallocs \<Rightarrow> rc \<times> Mem \<times> mallocs" where
  "sqlite3VdbeMemTranslate p desiredEnc ms =
     (if menc p \<noteq> SQLITE_UTF8 \<and> desiredEnc \<noteq> SQLITE_UTF8 then
        (case sqlite3VdbeMemMakeWriteable p ms of (rc, p, ms) \<Rightarrow>
           if rc \<noteq> SQLITE_OK then (SQLITE_NOMEM, p, ms)
           else let k = mn p - mn p mod 2 in
             (SQLITE_OK, p\<lparr>mz := swapBytes (take k (mz p)) @ drop k (mz p), menc := desiredEnc\<rparr>, ms))
      else
        let p = (if desiredEnc = SQLITE_UTF8 then p\<lparr>mn := mn p - mn p mod 2\<rparr> else p) in
        if \<not> malloc_ok ms then (SQLITE_NOMEM, p, malloc_rest ms)
        else
          let z = translateText (menc p) desiredEnc (take (mn p) (mz p)) in
          (SQLITE_OK,
           p\<lparr>mz := z @ (if desiredEnc = SQLITE_UTF8 then [0] else [0, 0]), mn := length z, menc := desiredEnc,
             mflags := MEM_Str OR MEM_Term OR (mflags p AND (MEM_AffMask OR MEM_Subtype)), mowned := True\<rparr>,
           malloc_rest ms))"

definition sqlite3VdbeMemHandleBom :: "Mem \<Rightarrow> mallocs \<Rightarrow> rc \<times> Mem \<times> mallocs" where
  "sqlite3VdbeMemHandleBom p ms =
     (let b1 = mz p ! 0; b2 = mz p ! 1;
          bom = (if mn p > 1 \<and> b1 = 0xFE \<and> b2 = 0xFF then Some SQLITE_UTF16BE
                 else if mn p > 1 \<and> b1 = 0xFF \<and> b2 = 0xFE then Some SQLITE_UTF16LE else None)
      in case bom of None \<Rightarrow> (SQLITE_OK, p, ms)
         | Some e \<Rightarrow>
             (case sqlite3VdbeMemMakeWriteable p ms of (rc, p, ms) \<Rightarrow>
                if rc \<noteq> SQLITE_OK then (rc, p, ms)
                else let n = mn p - 2 in
                  (SQLITE_OK, p\<lparr>mn := n, mz := take n (drop 2 (mz p)) @ [0, 0] @ drop (n + 2) (mz p),
                     mflags := mflags p OR MEM_Term, menc := e\<rparr>, ms)))"

subsection \<open>Counting characters\<close>

text \<open>\<open>i\<close> is the distance from the start and \<open>lim\<close> that of \<^verbatim>\<open>zTerm\<close>, \<open>None\<close> for the last address.\<close>

lemma SKIP_UTF8_shrinks: "z \<noteq> [] \<Longrightarrow> length (SQLITE_SKIP_UTF8 z) < length z"
  using length_dropWhile_le [of "\<lambda>b. b AND 0xc0 = 0x80" "drop 1 z"]
  by (cases z) (auto simp: SQLITE_SKIP_UTF8_def)

function utf8CharLenLoop :: "cstring \<Rightarrow> nat \<Rightarrow> nat option \<Rightarrow> nat" where
  "utf8CharLenLoop z i lim =
     (if z \<noteq> [] \<and> (case lim of None \<Rightarrow> True | Some n \<Rightarrow> i < n) then
        let z' = SQLITE_SKIP_UTF8 z in 1 + utf8CharLenLoop z' (i + (length z - length z')) lim
      else 0)"
  by pat_completeness auto
termination
  by (relation "measure (\<lambda>(z, i, lim). length z)") (auto simp: SKIP_UTF8_shrinks)

declare utf8CharLenLoop.simps [simp del]

definition sqlite3Utf8CharLen :: "cstring \<Rightarrow> int \<Rightarrow> nat" where
  "sqlite3Utf8CharLen zIn nByte = utf8CharLenLoop zIn 0 (if nByte \<ge> 0 then Some (nat nByte) else None)"

text \<open>\<open>p\<close> is the index of the byte \<^verbatim>\<open>z\<close> points to and \<open>k\<close> the characters still to count.\<close>

fun utf16ByteLenLoop :: "u8 list \<Rightarrow> nat \<Rightarrow> nat \<Rightarrow> nat \<Rightarrow> nat" where
  "utf16ByteLenLoop zIn nByte p 0 = p"
| "utf16ByteLenLoop zIn nByte p (Suc k) =
     (if p < nByte then
        let c = zIn ! p; p = p + 2;
            p = (if 0xd8 \<le> c \<and> c < 0xdc \<and> p < nByte \<and> 0xdc \<le> zIn ! p \<and> zIn ! p < 0xe0 then p + 2 else p)
        in utf16ByteLenLoop zIn nByte p k
      else p)"

definition sqlite3Utf16ByteLen :: "bool \<Rightarrow> u8 list \<Rightarrow> nat \<Rightarrow> nat \<Rightarrow> nat" where
  "sqlite3Utf16ByteLen le zIn nByte nChar =
     (let d = (if le then 1 else 0) in utf16ByteLenLoop zIn nByte d nChar - d)"

subsection \<open>Characters as numbers\<close>

lemma ucast_mask: "ucast (x AND mask n) = of_nat (unat x mod 2 ^ n)"
  by (metis of_nat_unat unat_and_mask)

lemmas low_masks = ucast_mask [where n = 2, simplified mask_eq_exp_minus_1, simplified]
  ucast_mask [where n = 3, simplified mask_eq_exp_minus_1, simplified]
  ucast_mask [where n = 4, simplified mask_eq_exp_minus_1, simplified]
  ucast_mask [where n = 5, simplified mask_eq_exp_minus_1, simplified]
  ucast_mask [where n = 6, simplified mask_eq_exp_minus_1, simplified]
  ucast_mask [where n = 8, simplified mask_eq_exp_minus_1, simplified]

lemma WRITE_UTF8_ref:
  assumes "unat c \<le> 0x10FFFF"
  shows "WRITE_UTF8 c = utf8_ref (unat c)"
  using assms unfolding WRITE_UTF8_def utf8_ref_def word_less_nat_alt
  by (simp add: low_masks unat_drop_bit_div div_less_iff_less_mult)

lemma trans1_nth:
  "x < 32 \<Longrightarrow> sqlite3Utf8Trans1 ! x = of_nat x"
  "x < 16 \<Longrightarrow> sqlite3Utf8Trans1 ! (32 + x) = of_nat x"
  "x < 8 \<Longrightarrow> sqlite3Utf8Trans1 ! (48 + x) = of_nat x"
proof -
  have "list_all (\<lambda>x. sqlite3Utf8Trans1 ! x = of_nat x) [0..<32]"
    "list_all (\<lambda>x. sqlite3Utf8Trans1 ! (32 + x) = of_nat x) [0..<16]"
    "list_all (\<lambda>x. sqlite3Utf8Trans1 ! (48 + x) = of_nat x) [0..<8]"
    by code_simp+
  then show "x < 32 \<Longrightarrow> sqlite3Utf8Trans1 ! x = of_nat x"
    "x < 16 \<Longrightarrow> sqlite3Utf8Trans1 ! (32 + x) = of_nat x" "x < 8 \<Longrightarrow> sqlite3Utf8Trans1 ! (48 + x) = of_nat x"
    by (simp_all add: list_all_iff)
qed

lemma cont_bytes:
  assumes "k < 64"
  shows "(of_nat (0x80 + k) :: u8) AND 0xc0 = 0x80" "(0x3f :: u8) AND of_nat (0x80 + k) = of_nat k"
proof -
  have "list_all (\<lambda>k. (of_nat (0x80 + k) :: u8) AND 0xc0 = 0x80 \<and> (0x3f :: u8) AND of_nat (0x80 + k) = of_nat k) [0..<64]"
    by code_simp
  with assms show "(of_nat (0x80 + k) :: u8) AND 0xc0 = 0x80" "(0x3f :: u8) AND of_nat (0x80 + k) = of_nat k"
    by (simp_all add: list_all_iff)
qed

lemma utf8Loop_cont:
  assumes "k < 64"
  shows "utf8Loop (of_nat m) (of_nat (0x80 + k) # z) = utf8Loop (of_nat (64 * m + k)) z"
proof -
  have "push_bit 6 (of_nat m :: u32) + ucast (of_nat k :: u8) = of_nat (64 * m + k)"
    using assms by (simp add: push_bit_eq_mult unsigned_of_nat take_bit_nat_eq_self mult.commute)
  then show ?thesis using cont_bytes [OF assms] by simp
qed

definition starts_cont :: "u8 list \<Rightarrow> bool" where
  "starts_cont z \<longleftrightarrow> z \<noteq> [] \<and> hd z AND 0xc0 = 0x80"

lemma utf8Loop_stop: "\<not> starts_cont z \<Longrightarrow> utf8Loop c z = (c, z)"
  by (cases z) (auto simp: starts_cont_def)

text \<open>What is read for a number that is not a character.\<close>

definition utf8_value :: "nat \<Rightarrow> nat" where
  "utf8_value c = (if 0xD800 \<le> c \<and> c \<le> 0xDFFF \<or> c = 0xFFFE \<or> c = 0xFFFF then 0xFFFD else c)"

lemma high_bits: "unat (c AND NOT (mask n)) = unat c div 2 ^ n * 2 ^ n"
proof -
  have "(c AND NOT (mask n)) AND (c AND mask n) = 0" by (rule bit_word_eqI) (auto simp: bit_simps)
  then have "(c AND NOT (mask n)) + (c AND mask n) = (c AND NOT (mask n)) OR (c AND mask n)"
    by (rule disjunctive_add_eq_or)
  also have "\<dots> = c" by (rule bit_word_eqI) (auto simp: bit_simps)
  finally have "c AND NOT (mask n) = c - (c AND mask n)" by (simp add: eq_diff_eq)
  moreover have "c AND mask n \<le> c" by (simp add: word_le_nat_alt unat_and_mask)
  ultimately have "unat (c AND NOT (mask n)) = unat c - unat c mod 2 ^ n" by (simp add: unat_sub unat_and_mask)
  then show ?thesis by (simp add: minus_mod_eq_div_mult)
qed

lemma utf8Valid_value:
  assumes "0x80 \<le> m" and "m < 2 ^ 32"
  shows "utf8Valid (of_nat m) = of_nat (utf8_value m)"
proof -
  have m: "unat (of_nat m :: u32) = m" using assms(2) by (simp add: unat_of_nat take_bit_nat_eq_self)
  have e: "(0xFFFFF800 :: u32) = NOT (mask 11)" "(0xFFFFFFFE :: u32) = NOT (mask 1)"
    by (simp_all add: mask_eq_exp_minus_1)
  have "(of_nat m :: u32) AND 0xFFFFF800 = 0xD800 \<longleftrightarrow> m div 2048 * 2048 = 0xD800"
    unfolding e word_unat_eq_iff high_bits m by simp
  moreover have "(of_nat m :: u32) AND 0xFFFFFFFE = 0xFFFE \<longleftrightarrow> m div 2 * 2 = 0xFFFE"
    unfolding e word_unat_eq_iff high_bits m by simp
  moreover have "m div 2048 * 2048 = 0xD800 \<longleftrightarrow> 0xD800 \<le> m \<and> m \<le> 0xDFFF" by auto
  moreover have "m div 2 * 2 = 0xFFFE \<longleftrightarrow> m = 0xFFFE \<or> m = 0xFFFF" by auto
  moreover have "\<not> (of_nat m :: u32) < 0x80" using assms(1) by (simp add: word_less_nat_alt m)
  ultimately show ?thesis by (simp add: utf8Valid_def utf8_value_def)
qed

lemma lead_bytes:
  "x < 32 \<Longrightarrow> READ_UTF8 (of_nat (0xC0 + x) # z) =
    (case utf8Loop (of_nat x) z of (c, z) \<Rightarrow> (utf8Valid c, z))"
  "x < 16 \<Longrightarrow> READ_UTF8 (of_nat (0xE0 + x) # z) =
    (case utf8Loop (of_nat x) z of (c, z) \<Rightarrow> (utf8Valid c, z))"
  "x < 8 \<Longrightarrow> READ_UTF8 (of_nat (0xF0 + x) # z) =
    (case utf8Loop (of_nat x) z of (c, z) \<Rightarrow> (utf8Valid c, z))"
proof -
  have *: "READ_UTF8 (of_nat (0xC0 + y) # z) =
      (case utf8Loop (ucast (sqlite3Utf8Trans1 ! y)) z of (c, z) \<Rightarrow> (utf8Valid c, z))" if "y < 64" for y
  proof -
    have y: "unat (of_nat y :: u8) = y" "unat (of_nat (0xC0 + y) :: u8) = 0xC0 + y"
      using that by (simp_all add: unat_of_nat take_bit_nat_eq_self del: of_nat_add)
    then have "(0xc0 :: u8) \<le> of_nat (0xC0 + y)" by (simp add: word_le_nat_alt)
    with y show ?thesis by (simp add: READ_UTF8_def Let_def)
  qed
  have u: "ucast (of_nat x :: u8) = (of_nat x :: u32)" if "x < 64"
    using that by (simp add: unsigned_of_nat take_bit_nat_eq_self)
  show "x < 32 \<Longrightarrow> READ_UTF8 (of_nat (0xC0 + x) # z) = (case utf8Loop (of_nat x) z of (c, z) \<Rightarrow> (utf8Valid c, z))"
    using * [of x] u trans1_nth(1) by simp
  show "x < 16 \<Longrightarrow> READ_UTF8 (of_nat (0xE0 + x) # z) = (case utf8Loop (of_nat x) z of (c, z) \<Rightarrow> (utf8Valid c, z))"
    using * [of "32 + x"] u trans1_nth(2) by simp
  show "x < 8 \<Longrightarrow> READ_UTF8 (of_nat (0xF0 + x) # z) = (case utf8Loop (of_nat x) z of (c, z) \<Rightarrow> (utf8Valid c, z))"
    using * [of "48 + x"] u trans1_nth(3) by simp
qed

lemma READ_UTF8_ascii: "c < 0x80 \<Longrightarrow> READ_UTF8 (of_nat c # z) = (of_nat c, z)"
  by (simp add: READ_UTF8_def Let_def word_le_nat_alt unat_of_nat unsigned_of_nat take_bit_nat_eq_self)

lemma utf8Loop_conts:
  assumes "\<not> starts_cont z" and "k1 < 64" and "k2 < 64" and "k3 < 64"
  shows "utf8Loop (of_nat m) (of_nat (0x80 + k1) # z) = (of_nat (64 * m + k1), z)"
    "utf8Loop (of_nat m) (of_nat (0x80 + k1) # of_nat (0x80 + k2) # z) = (of_nat (64 * (64 * m + k1) + k2), z)"
    "utf8Loop (of_nat m) (of_nat (0x80 + k1) # of_nat (0x80 + k2) # of_nat (0x80 + k3) # z) =
      (of_nat (64 * (64 * (64 * m + k1) + k2) + k3), z)"
  using assms by (simp_all only: utf8Loop_cont utf8Loop_stop not_False_eq_True)

lemma base64_digits:
  fixes c :: nat
  shows "64 * (64 * (c div 4096) + c div 64 mod 64) + c mod 64 = c"
    "64 * (64 * (64 * (c div 262144) + c div 4096 mod 64) + c div 64 mod 64) + c mod 64 = c"
proof -
  have "c div 4096 = c div 64 div 64" "c div 262144 = c div 64 div 64 div 64" by (simp_all flip: div_mult2_eq)
  then show "64 * (64 * (c div 4096) + c div 64 mod 64) + c mod 64 = c"
    "64 * (64 * (64 * (c div 262144) + c div 4096 mod 64) + c div 64 mod 64) + c mod 64 = c"
    by (simp_all only: mult_div_mod_eq)
qed

lemma READ_UTF8_ref:
  assumes "c \<le> 0x10FFFF" and "\<not> starts_cont rest"
  shows "READ_UTF8 (utf8_ref c @ rest) = (of_nat (utf8_value c), rest)"
proof -
  have m: "k mod 64 < 64" for k :: nat by simp
  note loops = utf8Loop_conts [OF assms(2) m m m]
  consider "c < 0x80" | "0x80 \<le> c" "c < 0x800" | "0x800 \<le> c" "c < 0x10000" | "0x10000 \<le> c" by linarith
  then show ?thesis
  proof cases
    case 1
    then show ?thesis by (simp add: utf8_ref_def READ_UTF8_ascii utf8_value_def)
  next
    case 2
    then have "utf8_ref c = [of_nat (0xC0 + c div 64), of_nat (0x80 + c mod 64)]" and "c div 64 < 32"
      by (simp_all add: utf8_ref_def)
    with 2 show ?thesis by (simp only: append.simps lead_bytes loops mult_div_mod_eq case_prod_conv) (simp add: utf8Valid_value)
  next
    case 3
    then have "utf8_ref c = [of_nat (0xE0 + c div 4096), of_nat (0x80 + c div 64 mod 64), of_nat (0x80 + c mod 64)]"
      and "c div 4096 < 16" by (simp_all add: utf8_ref_def)
    with 3 show ?thesis by (simp only: append.simps lead_bytes loops base64_digits case_prod_conv) (simp add: utf8Valid_value)
  next
    case 4
    then have "utf8_ref c = [of_nat (0xF0 + c div 262144), of_nat (0x80 + c div 4096 mod 64),
        of_nat (0x80 + c div 64 mod 64), of_nat (0x80 + c mod 64)]" and "c div 262144 < 8"
      using assms(1) by (simp_all add: utf8_ref_def)
    with 4 assms(1) show ?thesis
      by (simp only: append.simps lead_bytes loops base64_digits case_prod_conv) (simp add: utf8Valid_value)
  qed
qed

subsection \<open>UTF-16\<close>

text \<open>The code units of a character and their bytes, as the standard defines them.\<close>

definition utf16_units :: "nat \<Rightarrow> nat list" where
  "utf16_units c = (if c < 0x10000 then [c] else [0xD800 + (c - 0x10000) div 1024, 0xDC00 + (c - 0x10000) mod 1024])"

definition unit_bytes :: "encoding \<Rightarrow> nat \<Rightarrow> u8 list" where
  "unit_bytes e u = (if e = SQLITE_UTF16LE then [of_nat (u mod 256), of_nat (u div 256)]
     else [of_nat (u div 256), of_nat (u mod 256)])"

definition utf16_ref :: "encoding \<Rightarrow> nat \<Rightarrow> u8 list" where
  "utf16_ref e c = concat (map (unit_bytes e) (utf16_units c))"

lemma and_C0: "unat (y AND 0xC0 :: u32) = unat y mod 256 div 64 * 64"
proof -
  have "y AND 0xC0 = (y AND mask 8) AND NOT (mask 6)"
    by (rule bit_word_eq_upt) (simp add: upt_32 bit_simps)
  then show ?thesis by (simp only: high_bits unat_and_mask) simp
qed

lemma ucast_sum:
  "unat x + unat y < 2 ^ 32 \<Longrightarrow> ucast (x + y :: u32) = (of_nat (unat x + unat y) :: u8)"
proof -
  assume "unat x + unat y < 2 ^ 32"
  then have "unat (x + y) = unat x + unat y" using unat_add_lem [of x y] by simp
  then show ?thesis by (metis of_nat_unat)
qed

lemma high_pair_bytes:
  assumes "0x10000 \<le> unat c" and "unat c \<le> 0x10FFFF"
  defines "d \<equiv> unat c - 0x10000"
  shows "ucast ((drop_bit 10 c AND 0x003F) + (drop_bit 10 (c - 0x10000) AND 0x00C0) :: u32) =
      (of_nat ((0xD800 + d div 1024) mod 256) :: u8)"
    "ucast (0x00D8 + (drop_bit 18 (c - 0x10000) AND 0x03) :: u32) = (of_nat ((0xD800 + d div 1024) div 256) :: u8)"
proof -
  have d: "unat (c - 0x10000) = d" using assms(1) by (simp add: d_def unat_sub word_le_nat_alt)
  have m: "(0x3F :: u32) = mask 6" "(0x03 :: u32) = mask 2" by (simp_all add: mask_eq_exp_minus_1)
  have c: "unat c div 1024 = d div 1024 + 64" using assms by (simp add: d_def)
  have "unat (drop_bit 10 c AND 0x3F) = d div 1024 mod 64" unfolding m unat_and_mask unat_drop_bit_div by (simp add: c)
  moreover have "unat (drop_bit 10 (c - 0x10000) AND 0x00C0) = d div 1024 mod 256 div 64 * 64"
    by (simp add: and_C0 unat_drop_bit_div d)
  moreover have "k mod 64 + k mod 256 div 64 * 64 = k mod 256" for k :: nat
    using div_mult_mod_eq [of "k mod 256" 64] mod_mod_cancel [of 64 256 k] by simp
  moreover have "(0xD800 + d div 1024) mod 256 = d div 1024 mod 256"
    using mod_mult_self3 [of 216 256 "d div 1024"] by simp
  ultimately show "ucast ((drop_bit 10 c AND 0x003F) + (drop_bit 10 (c - 0x10000) AND 0x00C0) :: u32) =
      (of_nat ((0xD800 + d div 1024) mod 256) :: u8)"
    by (subst ucast_sum) (auto intro: order_less_trans [OF mod_less_divisor])
  have "unat (drop_bit 18 (c - 0x10000) AND 0x03) = d div 262144 mod 4"
    unfolding m unat_and_mask unat_drop_bit_div d by simp
  moreover have "(0xD800 + d div 1024) div 256 = 0xD8 + d div 262144" by (simp add: div_mult2_eq [symmetric])
  moreover have "d div 262144 < 4" using assms by (simp add: d_def)
  ultimately show "ucast (0x00D8 + (drop_bit 18 (c - 0x10000) AND 0x03) :: u32) =
      (of_nat ((0xD800 + d div 1024) div 256) :: u8)" by (subst ucast_sum) auto
qed

lemma low_pair_bytes:
  assumes "0x10000 \<le> unat c" and "unat c \<le> 0x10FFFF"
  defines "d \<equiv> unat c - 0x10000"
  shows "ucast (c AND 0x00FF) = (of_nat ((0xDC00 + d mod 1024) mod 256) :: u8)"
    "ucast (0x00DC + (drop_bit 8 c AND 0x03) :: u32) = (of_nat ((0xDC00 + d mod 1024) div 256) :: u8)"
proof -
  have m: "(0xFF :: u32) = mask 8" "(0x03 :: u32) = mask 2" by (simp_all add: mask_eq_exp_minus_1)
  obtain e where e: "unat c = 0x10000 + e" "d = e" using assms by (metis le_add_diff_inverse)
  have "(0xDC00 + e mod 1024) mod 256 = e mod 256" using mod_mult_self3 [of 220 256 "e mod 1024"] by (simp add: mod_mod_cancel)
  then show "ucast (c AND 0x00FF) = (of_nat ((0xDC00 + d mod 1024) mod 256) :: u8)"
    unfolding m ucast_mask using mod_mult_self3 [of 256 256 e] by (simp add: e)
  have "unat (drop_bit 8 c AND 0x03) = e div 256 mod 4"
    unfolding m unat_and_mask unat_drop_bit_div e
    using div_mult_self3 [of 256 256 e] mod_mult_self3 [of 64 4 "e div 256"] by simp
  moreover have "(0xDC00 + e mod 1024) div 256 = 0xDC + e div 256 mod 4"
    using mod_mult2_eq [of e 256 4] div_mult_self3 [of 256 "220 + e div 256 mod 4" "e mod 256"]
    by (simp add: algebra_simps)
  ultimately show "ucast (0x00DC + (drop_bit 8 c AND 0x03) :: u32) = (of_nat ((0xDC00 + d mod 1024) div 256) :: u8)"
    unfolding e by (subst ucast_sum) auto
qed

lemma WRITE_UTF16_ref:
  assumes "unat c \<le> 0x10FFFF"
  shows "WRITE_UTF16LE c = utf16_ref SQLITE_UTF16LE (unat c)" "WRITE_UTF16BE c = utf16_ref SQLITE_UTF16BE (unat c)"
proof -
  have m: "(0xFF :: u32) = mask 8" by (simp add: mask_eq_exp_minus_1)
  have "unat c < 0x10000 \<Longrightarrow> ucast (drop_bit 8 c AND 0x00FF) = (of_nat (unat c div 256) :: u8)"
    "ucast (c AND 0x00FF) = (of_nat (unat c mod 256) :: u8)"
    unfolding m ucast_mask unat_drop_bit_div by simp_all
  then show "WRITE_UTF16LE c = utf16_ref SQLITE_UTF16LE (unat c)" "WRITE_UTF16BE c = utf16_ref SQLITE_UTF16BE (unat c)"
    using high_pair_bytes [of c] low_pair_bytes [of c] assms
    by (auto simp: WRITE_UTF16LE_def WRITE_UTF16BE_def utf16_ref_def utf16_units_def unit_bytes_def word_le_nat_alt)
qed

lemma unit_read:
  assumes "u < 0x10000"
  shows "utf16LE (of_nat (u mod 256)) (of_nat (u div 256)) = of_nat u"
    "utf16BE (of_nat (u div 256)) (of_nat (u mod 256)) = of_nat u"
proof -
  have "ucast (of_nat x :: u8) = (of_nat x :: u32)" if "x < 256" for x
    using that by (simp add: unsigned_of_nat take_bit_nat_eq_self)
  moreover have "push_bit 8 (of_nat x :: u32) = of_nat (256 * x)" for x by (simp add: push_bit_eq_mult)
  moreover have "u div 256 < 256" using assms by simp
  moreover have "u = u mod 256 + 256 * (u div 256)" by simp
  ultimately show "utf16LE (of_nat (u mod 256)) (of_nat (u div 256)) = of_nat u"
    "utf16BE (of_nat (u div 256)) (of_nat (u mod 256)) = of_nat u"
    unfolding utf16LE_def utf16BE_def by (metis (no_types) add.commute mod_less_divisor of_nat_add zero_less_numeral)+
qed

lemma pair_read:
  assumes "h < 1024" and "l < 1024"
  shows "utf16Pair (of_nat (0xD800 + h)) (of_nat (0xDC00 + l)) = of_nat (0x10000 + 1024 * h + l)"
proof -
  have u: "unat (of_nat x :: u32) = x" if "x < 0x10000" for x
    using that by (simp add: unat_of_nat take_bit_nat_eq_self)
  have m: "(0x3FF :: u32) = mask 10" "(0x3F :: u32) = mask 6" "(0x3C0 :: u32) = mask 10 AND NOT (mask 6)"
    by (simp_all add: mask_eq_exp_minus_1)
  have w: "w AND mask n = of_nat (unat w mod 2 ^ n)" for w :: u32 and n by (simp flip: unat_and_mask)
  have l: "(of_nat (0xDC00 + l) :: u32) AND 0x3FF = of_nat l"
    unfolding m w using assms mod_mult_self3 [of 55 1024 l] by (simp add: u del: of_nat_add)
  have h1: "(of_nat (0xD800 + h) :: u32) AND 0x3F = of_nat (h mod 64)"
    unfolding m w using assms mod_mult_self3 [of 864 64 h] by (simp add: u del: of_nat_add)
  have "(of_nat (0xD800 + h) :: u32) AND 0x3C0 = of_nat h AND NOT (mask 6)"
    unfolding m and.assoc [symmetric] w using assms mod_mult_self3 [of 54 1024 h] by (simp add: u del: of_nat_add)
  moreover have "unat (of_nat h AND NOT (mask 6) :: u32) = h div 64 * 64"
    unfolding high_bits using assms by (simp add: u)
  ultimately have h2: "(of_nat (0xD800 + h) :: u32) AND 0x3C0 = of_nat (h div 64 * 64)"
    by (metis of_nat_unat ucast_id)
  have p: "push_bit 10 (of_nat x :: u32) = of_nat (1024 * x)" "of_nat x + (0x40 :: u32) = of_nat (x + 0x40)" for x
    by (simp_all add: push_bit_eq_mult)
  have "utf16Pair (of_nat (0xD800 + h)) (of_nat (0xDC00 + l)) =
      of_nat (l + 1024 * (h mod 64) + 1024 * (h div 64 * 64 + 0x40))"
    unfolding utf16Pair_def l h1 h2 p of_nat_add [symmetric] ..
  also have "l + 1024 * (h mod 64) + 1024 * (h div 64 * 64 + 0x40) = 0x10000 + 1024 * h + l"
  proof -
    have "l + 1024 * r + 1024 * (q * 64 + 0x40) = 0x10000 + 1024 * h + l" if "q * 64 + r = h" for q r
      using that by auto
    from this [OF div_mult_mod_eq] show ?thesis .
  qed
  finally show ?thesis .
qed

subsection \<open>Whole texts\<close>

text \<open>The characters every encoding can carry: what \<^verbatim>\<open>sqlite3UtfSelfTest\<close> reads back unchanged.\<close>

definition character :: "nat \<Rightarrow> bool" where
  "character c \<longleftrightarrow> c \<le> 0x10FFFF \<and> utf8_value c = c"

definition utf8_text :: "nat list \<Rightarrow> u8 list" where
  "utf8_text cs = concat (map utf8_ref cs)"

definition utf16_text :: "encoding \<Rightarrow> nat list \<Rightarrow> u8 list" where
  "utf16_text e cs = concat (map (utf16_ref e) cs)"

definition text_in :: "encoding \<Rightarrow> nat list \<Rightarrow> u8 list" where
  "text_in e cs = (if e = SQLITE_UTF8 then utf8_text cs else utf16_text e cs)"

lemma unat_character: "character c \<Longrightarrow> unat (of_nat c :: u32) = c"
  by (simp add: character_def unat_of_nat take_bit_nat_eq_self)

lemma no_cont_nat:
  assumes "n < 0x80 \<or> 0xC0 \<le> n \<and> n < 0x100"
  shows "(of_nat n :: u8) AND 0xc0 \<noteq> 0x80"
proof -
  have "list_all (\<lambda>n. (of_nat n :: u8) AND 0xc0 \<noteq> 0x80) [0..<0x80]"
    "list_all (\<lambda>n. (of_nat n :: u8) AND 0xc0 \<noteq> 0x80) [0xC0..<0x100]" by code_simp+
  with assms show ?thesis unfolding list_all_iff set_upt by auto
qed

lemma WRITE_UTF8_character: "character c \<Longrightarrow> WRITE_UTF8 (of_nat c) = utf8_ref c"
  using WRITE_UTF8_ref [of "of_nat c"] unat_character [of c] by (simp add: character_def)

lemma utf8_ref_start:
  assumes "c \<le> 0x10FFFF"
  shows "\<not> starts_cont (utf8_ref c @ z)" "utf8_ref c \<noteq> []"
proof -
  have "\<exists>n zs. utf8_ref c = of_nat n # zs \<and> (n < 0x80 \<or> 0xC0 \<le> n \<and> n < 0x100)"
  proof -
    consider "c < 0x80" | "0x80 \<le> c" "c < 0x800" | "0x800 \<le> c" "c < 0x10000" | "0x10000 \<le> c" by linarith
    then show ?thesis
    proof cases
      case 1 then show ?thesis by (auto simp: utf8_ref_def)
    next
      case 2 then show ?thesis by (intro exI [of _ "0xC0 + c div 64"]) (simp add: utf8_ref_def)
    next
      case 3 then show ?thesis by (intro exI [of _ "0xE0 + c div 4096"]) (simp add: utf8_ref_def)
    next
      case 4 then show ?thesis using assms by (intro exI [of _ "0xF0 + c div 262144"]) (simp add: utf8_ref_def)
    qed
  qed
  then obtain n zs where n: "utf8_ref c = of_nat n # zs" "n < 0x80 \<or> 0xC0 \<le> n \<and> n < 0x100" by blast
  show "\<not> starts_cont (utf8_ref c @ z)" using no_cont_nat [OF n(2)] by (simp add: starts_cont_def n(1))
  show "utf8_ref c \<noteq> []" using n(1) by simp
qed

lemma utf8_text_start: "\<forall>c \<in> set cs. character c \<Longrightarrow> \<not> starts_cont (utf8_text cs)"
  by (cases cs) (auto simp: utf8_text_def character_def utf8_ref_start starts_cont_def [of "[]"])

lemma utf8to16_text:
  assumes "\<forall>c \<in> set cs. character c" and "\<And>c. character c \<Longrightarrow> W (of_nat c) = utf16_ref e c"
  shows "utf8to16Loop W (utf8_text cs) = utf16_text e cs"
  using assms(1)
proof (induction cs)
  case (Cons c cs)
  then have c: "c \<le> 0x10FFFF" "utf8_value c = c" "\<not> starts_cont (utf8_text cs)"
    by (auto simp: character_def utf8_text_start)
  have "READ_UTF8 (utf8_text (c # cs)) = (of_nat c, utf8_text cs)"
    using READ_UTF8_ref [OF c(1,3)] c(2) by (simp add: utf8_text_def)
  moreover have "utf8_text (c # cs) \<noteq> []" using utf8_ref_start(2) [OF c(1)] by (simp add: utf8_text_def)
  ultimately show ?case using Cons assms(2) by (subst utf8to16Loop.simps) (simp add: utf16_text_def)
qed (simp add: utf8_text_def utf16_text_def utf8to16Loop.simps)

lemma unit_bytes_read:
  assumes "u < 0x10000" and "e \<noteq> SQLITE_UTF8"
  shows "\<exists>a b. unit_bytes e u = [a, b] \<and> (if e = SQLITE_UTF16LE then utf16LE else utf16BE) a b = of_nat u"
  using assms unit_read [OF assms(1)] by (cases e) (auto simp: unit_bytes_def)

lemma utf16to8_char:
  assumes "character c" and "e \<noteq> SQLITE_UTF8"
  defines "unit \<equiv> if e = SQLITE_UTF16LE then utf16LE else utf16BE"
  shows "utf16to8Loop unit (utf16_ref e c @ z) = utf8_ref c @ utf16to8Loop unit z"
proof (cases "c < 0x10000")
  case True
  then obtain a b where ab: "unit_bytes e c = [a, b]" "unit a b = of_nat c"
    using unit_bytes_read [OF True assms(2)] by (auto simp: unit_def)
  have "\<not> (0xd800 \<le> (of_nat c :: u32) \<and> (of_nat c :: u32) < 0xe000)"
    using assms(1) by (auto simp: word_le_nat_alt word_less_nat_alt unat_character character_def utf8_value_def split: if_splits)
  with ab True assms(1) show ?thesis
    by (subst utf16to8Loop.simps)
      (auto simp: utf16_ref_def utf16_units_def WRITE_UTF8_character Let_def)
next
  case False
  define h l where "h = (c - 0x10000) div 1024" and "l = (c - 0x10000) mod 1024"
  have hl: "h < 1024" "l < 1024" "0x10000 + 1024 * h + l = c"
    using False assms(1) by (auto simp: h_def l_def character_def)
  obtain a b a2 b2 where ab: "unit_bytes e (0xD800 + h) = [a, b]" "unit a b = of_nat (0xD800 + h)"
    "unit_bytes e (0xDC00 + l) = [a2, b2]" "unit a2 b2 = of_nat (0xDC00 + l)"
    using unit_bytes_read [of "0xD800 + h" e] unit_bytes_read [of "0xDC00 + l" e] hl assms(2) by (auto simp: unit_def)
  have "unat (of_nat (0xD800 + h) :: u32) = 0xD800 + h" using hl(1) by (simp add: unat_of_nat take_bit_nat_eq_self del: of_nat_add)
  then have "0xd800 \<le> (of_nat (0xD800 + h) :: u32) \<and> (of_nat (0xD800 + h) :: u32) < 0xe000"
    using hl(1) by (simp add: word_le_nat_alt word_less_nat_alt del: of_nat_add)
  with ab pair_read [OF hl(1,2)] hl(3) False assms(1) show ?thesis
    by (subst utf16to8Loop.simps)
      (simp add: utf16_ref_def utf16_units_def h_def [symmetric] l_def [symmetric] WRITE_UTF8_character Let_def
        del: of_nat_add)
qed

lemma utf16to8_text:
  assumes "\<forall>c \<in> set cs. character c" and "e \<noteq> SQLITE_UTF8"
  shows "utf16to8Loop (if e = SQLITE_UTF16LE then utf16LE else utf16BE) (utf16_text e cs) = utf8_text cs"
  using assms(1)
proof (induction cs)
  case (Cons c cs)
  then show ?case using utf16to8_char [of c e "utf16_text e cs"] assms(2) by (simp add: utf16_text_def utf8_text_def)
qed (simp add: utf16_text_def utf8_text_def utf16to8Loop.simps)

lemma translateText_text:
  assumes "\<forall>c \<in> set cs. character c" and "e \<noteq> e'" and "e = SQLITE_UTF8 \<or> e' = SQLITE_UTF8"
  shows "translateText e e' (text_in e cs) = text_in e' cs"
proof -
  have "W (of_nat c) = utf16_ref e' c" if "character c" and "W = (if e' = SQLITE_UTF16LE then WRITE_UTF16LE else WRITE_UTF16BE)"
    and "e' \<noteq> SQLITE_UTF8" for W c
    using that WRITE_UTF16_ref [of "of_nat c"] by (cases e') (auto simp: unat_character, auto simp: character_def)
  then show ?thesis using assms utf8to16_text [OF assms(1)] utf16to8_text [OF assms(1)]
    by (auto simp: translateText_def text_in_def)
qed

lemma even_utf16_text: "e \<noteq> SQLITE_UTF8 \<Longrightarrow> even (length (utf16_text e cs))"
  by (induction cs) (auto simp: utf16_text_def utf16_ref_def utf16_units_def unit_bytes_def)

lemma swap_unit: "swapBytes (unit_bytes e u @ z) = unit_bytes (if e = SQLITE_UTF16LE then SQLITE_UTF16BE else SQLITE_UTF16LE) u @ swapBytes z"
  by (simp add: unit_bytes_def)

lemma swap_text:
  assumes "{e, e'} = {SQLITE_UTF16LE, SQLITE_UTF16BE}"
  shows "swapBytes (utf16_text e cs) = utf16_text e' cs"
proof -
  have e': "e' = (if e = SQLITE_UTF16LE then SQLITE_UTF16BE else SQLITE_UTF16LE)" using assms by (auto simp: doubleton_eq_iff)
  have "swapBytes (utf16_ref e c @ z) = utf16_ref e' c @ swapBytes z" for c z
    by (simp add: utf16_ref_def utf16_units_def swap_unit e')
  then show ?thesis by (induction cs) (simp_all add: utf16_text_def)
qed

subsection \<open>The space for a translation\<close>

lemma utf8Loop_consumed: "utf8Loop c z = (c', z') \<Longrightarrow> length z' < length z \<or> c' = c \<and> z' = z"
  using utf8Loop_length [of "push_bit 6 c + ucast (0x3f AND hd z)" "tl z"]
  by (cases z) (auto split: if_splits)

lemma trans1_less:
  assumes "x < 64"
  shows "sqlite3Utf8Trans1 ! x < 0x80"
proof -
  have "list_all (\<lambda>x. sqlite3Utf8Trans1 ! x < 0x80) [0..<64]" by code_simp
  with assms show ?thesis by (simp add: list_all_iff)
qed

lemma READ_UTF8_space:
  assumes "READ_UTF8 z = (c, z')" and "z \<noteq> []"
  shows "(if c \<le> 0xFFFF then 2 else 4) \<le> 2 * (length z - length z')"
proof -
  obtain b y where z: "z = b # y" using assms(2) by (cases z) auto
  show ?thesis
  proof (cases "b \<ge> 0xc0")
    case False
    then have "c = ucast b" "z' = y" using assms(1) z by (auto simp: READ_UTF8_def Let_def)
    then show ?thesis using order_less_trans [OF unat_u8_less [of b], of 65536] by (simp add: z word_le_nat_alt unat_ucast_up)
  next
    case True
    then have "unat (b - 0xc0) = unat b - 0xc0" by (simp add: unat_sub word_le_nat_alt)
    then have "unat (b - 0xc0) < 64" using unat_u8_less [of b] by linarith
    then have t: "sqlite3Utf8Trans1 ! unat (b - 0xc0) < 0x80" by (rule trans1_less)
    obtain d where d: "utf8Loop (ucast (sqlite3Utf8Trans1 ! unat (b - 0xc0))) y = (d, z')" "c = utf8Valid d"
      using assms(1) z True by (auto simp: READ_UTF8_def Let_def split: prod.splits)
    from utf8Loop_consumed [OF d(1)] show ?thesis
    proof
      assume "d = ucast (sqlite3Utf8Trans1 ! unat (b - 0xc0)) \<and> z' = y"
      then have "d < 0x80" using t by (simp add: word_less_nat_alt unat_ucast_up)
      moreover have "z' = y" using \<open>_ \<and> z' = y\<close> ..
      ultimately show ?thesis using d(2) by (simp add: utf8Valid_def z)
    qed (auto simp: z)
  qed
qed

lemma WRITE_UTF16_length:
  "length (WRITE_UTF16LE c) = (if c \<le> 0xFFFF then 2 else 4)" "length (WRITE_UTF16BE c) = (if c \<le> 0xFFFF then 2 else 4)"
  by (simp_all add: WRITE_UTF16LE_def WRITE_UTF16BE_def)

lemma utf8to16_space:
  assumes "\<And>c. length (W c) = (if c \<le> 0xFFFF then 2 else 4)"
  shows "length (utf8to16Loop W z) \<le> 2 * length z"
proof (induction z rule: length_induct)
  case (1 z)
  show ?case
  proof (cases "z = []")
    case False
    obtain c z' where r: "READ_UTF8 z = (c, z')" by force
    have "length (W c) \<le> 2 * (length z - length z')" using READ_UTF8_space [OF r False] assms by simp
    moreover have "length z' < length z" using READ_UTF8_shrinks [OF r False] .
    moreover from this have "length (utf8to16Loop W z') \<le> 2 * length z'" using 1 by blast
    ultimately show ?thesis using r False by (subst utf8to16Loop.simps) simp
  qed (simp add: utf8to16Loop.simps)
qed

lemma WRITE_UTF8_length: "length (WRITE_UTF8 c) \<le> 4" "c \<le> 0xFFFF \<Longrightarrow> length (WRITE_UTF8 c) \<le> 3"
  by (auto simp: WRITE_UTF8_def word_le_nat_alt word_less_nat_alt)

lemma utf16to8_space: "length (utf16to8Loop unit z) \<le> 2 * length z"
proof (induction z rule: length_induct)
  case (1 z)
  show ?case
  proof (cases "\<exists>a b y. z = a # b # y")
    case True
    then obtain a b y where z: "z = a # b # y" by blast
    have y: "length (utf16to8Loop unit y) \<le> 2 * length y" using 1 z by simp
    have y': "length (utf16to8Loop unit y') \<le> 2 * length y'" if "y = a2 # b2 # y'" for a2 b2 y' using 1 z that by simp
    have w: "length (WRITE_UTF8 c @ zs) \<le> 2 * length z" if "length zs \<le> 2 * length y" for c zs
      using WRITE_UTF8_length(1) [of c] that by (simp add: z)
    have "\<exists>c zs. utf16to8Loop unit z = WRITE_UTF8 c @ zs \<and> length zs \<le> 2 * length y"
    proof (cases "\<exists>a2 b2 y'. y = a2 # b2 # y'")
      case True
      then obtain a2 b2 y' where "y = a2 # b2 # y'" by blast
      moreover from this y' have "length (utf16to8Loop unit y') \<le> 2 * length y" by fastforce
      ultimately show ?thesis using y unfolding z by (subst utf16to8Loop.simps) (auto simp: Let_def)
    next
      case False
      then show ?thesis using y unfolding z
        by (intro exI [of _ "unit a b"] exI [of _ "if 0xd800 \<le> unit a b \<and> unit a b < 0xe000 then [] else utf16to8Loop unit y"])
          (subst utf16to8Loop.simps, auto simp: Let_def split: list.splits)
    qed
    then show ?thesis using w by auto
  next
    case False
    then have "utf16to8Loop unit z = []" by (subst utf16to8Loop.simps) (auto split: list.splits)
    then show ?thesis by simp
  qed
qed

lemma translate_space: "length (translateText e e' z) \<le> 2 * length z"
  unfolding translateText_def using utf8to16_space WRITE_UTF16_length utf16to8_space by simp

subsection \<open>Properties\<close>

text \<open>
  C36: writing a code point in UTF-8 and reading it back with \<^verbatim>\<open>sqlite3Utf8Read\<close>, before anything
  that is not a continuation byte, uses exactly the bytes written and gives the code point, or
  U+FFFD for a surrogate, 0xFFFE and 0xFFFF.
\<close>

theorem utf8_char_roundtrip:
  assumes "unat c \<le> 0x10FFFF" and "\<not> starts_cont rest"
  shows "sqlite3Utf8Read (WRITE_UTF8 c @ rest) =
    (if 0xD800 \<le> c \<and> c \<le> 0xDFFF \<or> c = 0xFFFE \<or> c = 0xFFFF then 0xFFFD else c, rest)"
proof -
  have "sqlite3Utf8Read (WRITE_UTF8 c @ rest) = (of_nat (utf8_value (unat c)), rest)"
    using READ_UTF8_ref [OF assms] utf8_ref_start(2) [OF assms(1)] WRITE_UTF8_ref [OF assms(1)]
    by (simp add: sqlite3Utf8Read_def)
  moreover have "of_nat (utf8_value (unat c)) =
      (if 0xD800 \<le> c \<and> c \<le> 0xDFFF \<or> c = 0xFFFE \<or> c = 0xFFFF then 0xFFFD else c)"
    by (simp add: utf8_value_def word_le_nat_alt word_unat_eq_iff)
  ultimately show ?thesis by simp
qed

lemma utf8_char_roundtrip_witness: "sqlite3Utf8Read (WRITE_UTF8 0x1F600 @ [65]) = (0x1F600, [65])"
  using utf8_char_roundtrip [of "0x1F600" "[65]"] by (simp add: starts_cont_def)

text \<open>
  C37: translating a text between any two encodings gives the same characters in the other
  encoding, terminated and owned by the value, and so translating back restores it.
\<close>

theorem MemTranslate_text:
  assumes "\<forall>c \<in> set cs. character c" and "menc p \<noteq> e" and "take (mn p) (mz p) = text_in (menc p) cs"
    and "mn p \<le> length (mz p)" and "malloc_ok ms"
  shows "\<exists>q ms'. sqlite3VdbeMemTranslate p e ms = (SQLITE_OK, q, ms') \<and> menc q = e \<and>
    take (mn q) (mz q) = text_in e cs \<and> mn q \<le> length (mz q) \<and> mowned q"
proof -
  have n: "mn p = length (text_in (menc p) cs)" using assms(3,4) by (metis length_take min.absorb2)
  have ev: "menc p \<noteq> SQLITE_UTF8 \<Longrightarrow> mn p - mn p mod 2 = mn p"
    using even_utf16_text n by (simp add: text_in_def)
  show ?thesis
  proof (cases "menc p = SQLITE_UTF8 \<or> e = SQLITE_UTF8")
    case True
    with assms ev translateText_text [OF assms(1,2) True] show ?thesis
      by (auto simp: sqlite3VdbeMemTranslate_def Let_def)
  next
    case False
    then have "{menc p, e} = {SQLITE_UTF16LE, SQLITE_UTF16BE}" using assms(2) by (cases "menc p"; cases e) auto
    then have "swapBytes (take (mn p) (mz p)) = text_in e cs" using swap_text False assms(3) by (simp add: text_in_def)
    moreover have "length (swapBytes z) = length z" for z by (induction z rule: swapBytes.induct) auto
    moreover from calculation n have "length (text_in e cs) = length (text_in (menc p) cs)"
      using assms(3) by metis
    ultimately show ?thesis using False assms ev n
      by (auto simp: sqlite3VdbeMemTranslate_def sqlite3VdbeMemMakeWriteable_def vdbeMemAddTerminator_def Let_def
          split: if_splits)
  qed
qed

text \<open>
  C38: a successful translation to or from UTF-8, of any bytes, stays within the block that was
  allocated for it, terminator included.
\<close>

theorem MemTranslate_fits:
  assumes "sqlite3VdbeMemTranslate p e ms = (SQLITE_OK, q, ms')" and "menc p = SQLITE_UTF8 \<or> e = SQLITE_UTF8"
    and "menc p \<noteq> e" and "mn p \<le> length (mz p)"
  shows "length (mz q) \<le> translateLen e (if e = SQLITE_UTF8 then mn p - mn p mod 2 else mn p) \<and>
    mn q + (if e = SQLITE_UTF8 then 1 else 2) = length (mz q) \<and> drop (mn q) (mz q) = (if e = SQLITE_UTF8 then [0] else [0, 0])"
proof -
  let ?n = "if e = SQLITE_UTF8 then mn p - mn p mod 2 else mn p"
  let ?z = "translateText (menc p) e (take ?n (mz p))"
  have q: "mz q = ?z @ (if e = SQLITE_UTF8 then [0] else [0, 0])" "mn q = length ?z"
    using assms(1-3) by (auto simp: sqlite3VdbeMemTranslate_def Let_def split: if_splits)
  have "length ?z \<le> 2 * length (take ?n (mz p))" by (rule translate_space)
  also have "length (take ?n (mz p)) = ?n" using assms(4) by simp
  finally show ?thesis by (cases "e = SQLITE_UTF8") (simp_all add: q translateLen_def)
qed

definition sample_text :: Mem where
  "sample_text = \<lparr>mz = [0x41, 0xC3, 0xA9], mn = 3, menc = SQLITE_UTF8, mflags = MEM_Str, mowned = False\<rparr>"

lemma MemTranslate_text_witness:
  "\<exists>q ms'. sqlite3VdbeMemTranslate sample_text SQLITE_UTF16LE [] = (SQLITE_OK, q, ms') \<and>
     take (mn q) (mz q) = [0x41, 0, 0xE9, 0]"
proof -
  have "\<forall>c \<in> set [0x41, 0xE9]. character c" by (simp add: character_def utf8_value_def)
  moreover have "text_in SQLITE_UTF8 [0x41, 0xE9] = [0x41, 0xC3, 0xA9]" "text_in SQLITE_UTF16LE [0x41, 0xE9] = [0x41, 0, 0xE9, 0]"
    by (simp_all add: text_in_def utf8_text_def utf16_text_def utf8_ref_def utf16_ref_def utf16_units_def unit_bytes_def)
  ultimately show ?thesis
    using MemTranslate_text [of "[0x41, 0xE9]" sample_text SQLITE_UTF16LE "[]"] by (auto simp: sample_text_def)
qed

lemma MemTranslate_fits_witness:
  "\<exists>q ms'. sqlite3VdbeMemTranslate sample_text SQLITE_UTF16LE [] = (SQLITE_OK, q, ms') \<and> length (mz q) \<le> 8"
proof -
  obtain q ms' where q: "sqlite3VdbeMemTranslate sample_text SQLITE_UTF16LE [] = (SQLITE_OK, q, ms')"
    by (simp add: sqlite3VdbeMemTranslate_def sample_text_def Let_def)
  with MemTranslate_fits [OF q] show ?thesis by (auto simp: sample_text_def translateLen_def)
qed

end
