(* ===== verification/Like.thy ===== *)
theory Like
  imports Utf
begin

text \<open>
  Pattern matching of the LIKE and GLOB operators, from func.c: \<^verbatim>\<open>patternCompare\<close>, its two
  public entry points and the SQL function that calls it.

  The matcher works on the bytes of the pattern and of the string.  After a wildcard it
  searches for the next literal character and calls itself from there; a result
  \<open>SQLITE_NOWILDCARDMATCH\<close> of such a call ends the search of every caller.  The specification
  reads both texts as lists of characters, parses the pattern into items and says which
  lists of characters they match; the main result is that the matcher decides it, early
  exits included.
\<close>

subsection \<open>The matcher\<close>

record compareInfo =
  matchAll :: u8
  matchOne :: u8
  matchSet :: u8
  noCase :: bool

definition globInfo :: compareInfo where
  "globInfo = \<lparr>matchAll = 42, matchOne = 63, matchSet = 91, noCase = False\<rparr>"

definition likeInfoNorm :: compareInfo where
  "likeInfoNorm = \<lparr>matchAll = 37, matchOne = 95, matchSet = 0, noCase = True\<rparr>"

definition likeInfoAlt :: compareInfo where
  "likeInfoAlt = \<lparr>matchAll = 37, matchOne = 95, matchSet = 0, noCase = False\<rparr>"

datatype mres = SQLITE_MATCH | SQLITE_NOMATCH | SQLITE_NOWILDCARDMATCH

definition Utf8Read :: "cstring \<Rightarrow> u32 \<times> cstring" where
  "Utf8Read z = (if chr z < 0x80 then (ucast (chr z), drop 1 z) else sqlite3Utf8Read z)"

lemma Utf8Read_eq: "Utf8Read z = sqlite3Utf8Read z"
proof (cases z)
  case (Cons c cs)
  have "c < 0x80 \<Longrightarrow> \<not> 0xc0 \<le> c" by (simp add: word_less_nat_alt word_le_nat_alt)
  with Cons show ?thesis by (simp add: Utf8Read_def sqlite3Utf8Read_def READ_UTF8_def Let_def)
qed (simp add: Utf8Read_def sqlite3Utf8Read_def)

lemma Utf8Read_shrinks: "sqlite3Utf8Read z = (c, z') \<Longrightarrow> z \<noteq> [] \<Longrightarrow> length z' < length z"
  by (simp add: sqlite3Utf8Read_def READ_UTF8_shrinks)

lemma Utf8Read_measure: "sqlite3Utf8Read z = (c, z') \<Longrightarrow> length z' + (if c \<noteq> 0 then 1 else 0) \<le> length z"
  using Utf8Read_shrinks [of z c z'] by (cases "z = []") (auto simp: sqlite3Utf8Read_def)

lemma Utf8Read_less: "sqlite3Utf8Read z = (c, z') \<Longrightarrow> c \<noteq> 0 \<Longrightarrow> length z' < length z"
  using Utf8Read_measure [of z c z'] by simp

text \<open>
  The inner loop after a wildcard skips wildcards and, for each single-character wildcard,
  one character of the string; \<open>None\<close> when the string ends.  It is entered only when
  \<^verbatim>\<open>matchAll\<close> is not zero, and then the end of the pattern ends it.
\<close>

function patternSkip :: "u32 \<Rightarrow> u32 \<Rightarrow> cstring \<Rightarrow> cstring \<Rightarrow> (u32 \<times> cstring \<times> cstring) option" where
  "patternSkip mAll mOne zPattern zString =
     (case Utf8Read zPattern of (c, zPattern') \<Rightarrow>
        if zPattern \<noteq> [] \<and> (c = mAll \<or> (c = mOne \<and> mOne \<noteq> 0)) then
          if c = mOne then
            (case sqlite3Utf8Read zString of (c2, zString') \<Rightarrow>
               if c2 = 0 then None else patternSkip mAll mOne zPattern' zString')
          else patternSkip mAll mOne zPattern' zString
        else Some (c, zPattern', zString))"
  by pat_completeness auto
termination
  by (relation "measure (\<lambda>(a, b, z, s). length z)") (auto simp: Utf8Read_eq dest: Utf8Read_shrinks [OF sym])

declare patternSkip.simps [simp del]

text \<open>The loop over a set \<^verbatim>\<open>[...]\<close>: the character that ended it, whether \<open>c\<close> was seen, the rest.\<close>

function setLoop :: "u32 \<Rightarrow> u32 \<Rightarrow> u32 \<Rightarrow> bool \<Rightarrow> cstring \<Rightarrow> u32 \<times> bool \<times> cstring" where
  "setLoop c c2 prior_c seen zPattern =
     (if c2 \<noteq> 0 \<and> c2 \<noteq> 93 then
        if c2 = 45 \<and> chr zPattern \<noteq> 93 \<and> chr zPattern \<noteq> 0 \<and> prior_c > 0 then
          (case sqlite3Utf8Read zPattern of (c2, zPattern) \<Rightarrow>
             (case sqlite3Utf8Read zPattern of (c2', zPattern') \<Rightarrow>
                setLoop c c2' 0 (seen \<or> (prior_c \<le> c \<and> c \<le> c2)) zPattern'))
        else
          (case sqlite3Utf8Read zPattern of (c2', zPattern') \<Rightarrow>
             setLoop c c2' c2 (seen \<or> c = c2) zPattern')
      else (c2, seen, zPattern))"
  by pat_completeness auto
termination
  by (relation "measure (\<lambda>(c, c2, p, s, z). length z + (if c2 \<noteq> 0 then 1 else 0))")
    (auto dest!: Utf8Read_measure [OF sym] split: if_splits)

declare setLoop.simps [simp del]

definition setMatch :: "cstring \<Rightarrow> cstring \<Rightarrow> (cstring \<times> cstring) option" where
  "setMatch zPattern zString =
     (case sqlite3Utf8Read zString of (c, zString) \<Rightarrow>
        if c = 0 then None
        else
          let (c2, zPattern) = sqlite3Utf8Read zPattern;
              invert = (c2 = 94);
              (c2, zPattern) = (if invert then sqlite3Utf8Read zPattern else (c2, zPattern));
              seen = (c2 = 93 \<and> c = 93);
              (c2, zPattern) = (if c2 = 93 then sqlite3Utf8Read zPattern else (c2, zPattern));
              (c2, seen, zPattern) = setLoop c c2 0 seen zPattern
          in if c2 = 0 \<or> seen = invert then None else Some (zPattern, zString))"

text \<open>
  The three searches after a wildcard; \<open>rec\<close> is the recursive call on the rest of the pattern.
  The first tries every position, the second every occurrence of a byte of \<^verbatim>\<open>zStop\<close>, the third
  every occurrence of a character beyond ASCII.
\<close>

function setSearch :: "(cstring \<Rightarrow> mres) \<Rightarrow> cstring \<Rightarrow> mres" where
  "setSearch rec zString =
     (if zString \<noteq> [] then
        let bMatch = rec zString in
        if bMatch \<noteq> SQLITE_NOMATCH then bMatch else setSearch rec (SQLITE_SKIP_UTF8 zString)
      else SQLITE_NOWILDCARDMATCH)"
  by pat_completeness auto
termination
  by (relation "measure (\<lambda>(r, z). length z)") (auto simp: SKIP_UTF8_shrinks)

function stopSearch :: "(cstring \<Rightarrow> mres) \<Rightarrow> u8 list \<Rightarrow> cstring \<Rightarrow> mres" where
  "stopSearch rec zStop zString =
     (case dropWhile (\<lambda>b. b \<notin> set zStop) zString of
        [] \<Rightarrow> SQLITE_NOWILDCARDMATCH
      | _ # zString' \<Rightarrow>
          let bMatch = rec zString' in
          if bMatch \<noteq> SQLITE_NOMATCH then bMatch else stopSearch rec zStop zString')"
  by pat_completeness auto
termination
  by (relation "measure (\<lambda>(r, t, z). length z)") (auto dest: dropWhile_shrinks)

function charSearch :: "(cstring \<Rightarrow> mres) \<Rightarrow> u32 \<Rightarrow> cstring \<Rightarrow> mres" where
  "charSearch rec c zString =
     (case Utf8Read zString of (c2, zString') \<Rightarrow>
        if c2 \<noteq> 0 then
          if c2 \<noteq> c then charSearch rec c zString'
          else let bMatch = rec zString' in
            if bMatch \<noteq> SQLITE_NOMATCH then bMatch else charSearch rec c zString'
        else SQLITE_NOWILDCARDMATCH)"
  by pat_completeness auto
termination
  by (relation "measure (\<lambda>(r, c, z). length z)") (auto simp: Utf8Read_eq split: prod.splits intro: Utf8Read_less Utf8Read_less [OF sym])

declare setSearch.simps [simp del] stopSearch.simps [simp del] charSearch.simps [simp del]

definition caseStop :: "bool \<Rightarrow> u32 \<Rightarrow> u8 list" where
  "caseStop nc c = (if nc then [sqlite3Toupper (ucast c), sqlite3Tolower (ucast c)] else [ucast c])"

definition charMatch :: "bool \<Rightarrow> u32 \<Rightarrow> u32 \<Rightarrow> bool" where
  "charMatch nc c c2 \<longleftrightarrow> c = c2 \<or>
     (nc \<and> sqlite3Tolower (ucast c) = sqlite3Tolower (ucast c2) \<and> c < 0x80 \<and> c2 < 0x80)"

lemma Utf8Read_length: "sqlite3Utf8Read z = (c, z') \<Longrightarrow> length z' \<le> length z"
  using Utf8Read_measure [of z c z'] by simp

lemma setLoop_length: "setLoop c c2 p s z = (d, t, z') \<Longrightarrow> length z' \<le> length z"
proof (induction c c2 p s z rule: setLoop.induct)
  case (1 c c2 p s z)
  obtain c3 z3 where r3: "sqlite3Utf8Read z = (c3, z3)" by force
  obtain c4 z4 where r4: "sqlite3Utf8Read z3 = (c4, z4)" by force
  note le = Utf8Read_length [OF r3] Utf8Read_length [OF r4]
  consider (stop) "\<not> (c2 \<noteq> 0 \<and> c2 \<noteq> 93)"
    | (range) "c2 \<noteq> 0 \<and> c2 \<noteq> 93" "c2 = 45 \<and> chr z \<noteq> 93 \<and> chr z \<noteq> 0 \<and> p > 0"
    | (single) "c2 \<noteq> 0 \<and> c2 \<noteq> 93" "\<not> (c2 = 45 \<and> chr z \<noteq> 93 \<and> chr z \<noteq> 0 \<and> p > 0)" by blast
  then show ?case
  proof cases
    case stop
    with "1.prems" show ?thesis by (subst (asm) setLoop.simps) auto
  next
    case range
    then have "setLoop c c4 0 (s \<or> (p \<le> c \<and> c \<le> c3)) z4 = (d, t, z')"
      using "1.prems" r3 r4 by (subst (asm) setLoop.simps) auto
    from "1.IH"(1) [OF range r3 [symmetric] r4 [symmetric] this] le show ?thesis by simp
  next
    case single
    then have "setLoop c c3 c2 (s \<or> c = c2) z3 = (d, t, z')"
      using "1.prems" r3 by (subst (asm) setLoop.simps) auto
    from "1.IH"(2) [OF single r3 [symmetric] this] le show ?thesis by simp
  qed
qed

lemma setMatch_shrinks: "setMatch zP zS = Some (zP', zS') \<Longrightarrow> length zP' \<le> length zP"
  unfolding setMatch_def Let_def
  by (auto split: prod.splits if_splits dest!: Utf8Read_length setLoop_length)

lemma patternSkip_measure: "patternSkip a o' zP zS = Some (c, zP', zS') \<Longrightarrow> length zP' + (if c \<noteq> 0 then 1 else 0) \<le> length zP"
proof (induction a o' zP zS rule: patternSkip.induct)
  case (1 a o' zP zS)
  obtain d zP1 where d: "Utf8Read zP = (d, zP1)" by force
  note m = Utf8Read_measure [of zP d zP1] Utf8Read_eq [of zP]
  show ?case
  proof (cases "zP \<noteq> [] \<and> (d = a \<or> d = o' \<and> o' \<noteq> 0)")
    case True
    have "length zP' + (if c \<noteq> 0 then 1 else 0) \<le> length zP1"
      using 1(3) True d 1(1) [OF d [symmetric] True] 1(2) [OF d [symmetric] True]
      by (subst (asm) patternSkip.simps) (auto split: if_splits prod.splits)
    with m d show ?thesis by (auto split: if_splits)
  next
    case False
    with 1(3) d m show ?thesis by (subst (asm) patternSkip.simps) auto
  qed
qed

text \<open>
  One turn of the outer loop per call.  An escaped character is compared literally; \<^verbatim>\<open>zEscaped\<close>
  equals \<^verbatim>\<open>zPattern\<close> only in the turn that set it.
\<close>

function patternCompare :: "compareInfo \<Rightarrow> u32 \<Rightarrow> cstring \<Rightarrow> cstring \<Rightarrow> mres" where
  "patternCompare pInfo matchOther zPattern zString =
     (let mOne = ucast (matchOne pInfo); mAll = ucast (matchAll pInfo); (c, zPattern1) = Utf8Read zPattern in
      if c = 0 then (if zString = [] then SQLITE_MATCH else SQLITE_NOMATCH)
      else if c = mAll then
        (case patternSkip mAll mOne zPattern1 zString of
           None \<Rightarrow> SQLITE_NOWILDCARDMATCH
         | Some (c, zPattern2, zString2) \<Rightarrow>
             if c = 0 then SQLITE_MATCH
             else if c = matchOther \<and> matchSet pInfo \<noteq> 0 then
               setSearch (\<lambda>s. patternCompare pInfo matchOther (ucast matchOther # zPattern2) s) zString2
             else
               let (c, zPattern3) = (if c = matchOther then sqlite3Utf8Read zPattern2 else (c, zPattern2)) in
               if c = 0 then SQLITE_NOWILDCARDMATCH
               else if c < 0x80 then
                 stopSearch (\<lambda>s. patternCompare pInfo matchOther zPattern3 s) (caseStop (noCase pInfo) c) zString2
               else charSearch (\<lambda>s. patternCompare pInfo matchOther zPattern3 s) c zString2)
      else if c = matchOther \<and> matchSet pInfo \<noteq> 0 then
        (case setMatch zPattern1 zString of
           None \<Rightarrow> SQLITE_NOMATCH
         | Some (zPattern2, zString2) \<Rightarrow> patternCompare pInfo matchOther zPattern2 zString2)
      else
        let escaped = (c = matchOther);
            (c, zPattern2) = (if escaped then sqlite3Utf8Read zPattern1 else (c, zPattern1)) in
        if c = 0 then SQLITE_NOMATCH
        else
          let (c2, zString2) = Utf8Read zString in
          if charMatch (noCase pInfo) c c2 \<or> (c = mOne \<and> \<not> escaped \<and> c2 \<noteq> 0)
          then patternCompare pInfo matchOther zPattern2 zString2
          else SQLITE_NOMATCH)"
  by pat_completeness auto
termination
proof (relation "measure (\<lambda>(i, m, z, s). length z)", goal_cases)
  case 1
  then show ?case by simp
next
  case 2
  then show ?case
    by (auto simp: Utf8Read_eq dest!: Utf8Read_less [OF sym] patternSkip_measure)
next
  case 3
  then show ?case
    by (auto simp: Utf8Read_eq split: if_splits dest!: Utf8Read_less [OF sym] patternSkip_measure)
next
  case 4
  then show ?case
    by (auto simp: Utf8Read_eq split: if_splits dest!: Utf8Read_less [OF sym] patternSkip_measure)
next
  case 5
  then show ?case by (auto simp: Utf8Read_eq dest!: Utf8Read_less [OF sym] setMatch_shrinks)
next
  case 6
  then show ?case by (auto simp: Utf8Read_eq split: if_splits dest!: Utf8Read_less [OF sym])
qed

declare patternCompare.simps [simp del]

subsection \<open>Entry points\<close>

definition mres_code :: "mres \<Rightarrow> int" where
  "mres_code r = (case r of SQLITE_MATCH \<Rightarrow> 0 | SQLITE_NOMATCH \<Rightarrow> 1 | SQLITE_NOWILDCARDMATCH \<Rightarrow> 2)"

definition sqlite3_strglob :: "cstring option \<Rightarrow> cstring option \<Rightarrow> int" where
  "sqlite3_strglob zGlobPattern zString =
     (case (zString, zGlobPattern) of
        (None, p) \<Rightarrow> (if p = None then 0 else 1)
      | (Some s, None) \<Rightarrow> 1
      | (Some s, Some p) \<Rightarrow> mres_code (patternCompare globInfo 91 p s))"

definition sqlite3_strlike :: "cstring option \<Rightarrow> cstring option \<Rightarrow> u32 \<Rightarrow> int" where
  "sqlite3_strlike zPattern zStr esc =
     (case (zStr, zPattern) of
        (None, p) \<Rightarrow> (if p = None then 0 else 1)
      | (Some s, None) \<Rightarrow> 1
      | (Some s, Some p) \<Rightarrow> mres_code (patternCompare likeInfoNorm esc p s))"

text \<open>
  The SQL function, called with the texts of its arguments (\<open>None\<close> for NULL), the number of
  bytes of the pattern and its limit; the outer option of \<open>zEsc\<close> says whether there is a third
  argument.
\<close>

datatype like_result = LikeError | LikeNull | LikeBool bool

definition likeFunc ::
  "compareInfo \<Rightarrow> nat \<Rightarrow> nat \<Rightarrow> cstring option \<Rightarrow> cstring option \<Rightarrow> cstring option option \<Rightarrow> like_result" where
  "likeFunc pInfo limit nPat zB zA zEsc =
     (if nPat > limit then LikeError
      else
        let go = (\<lambda>pInfo escape. case (zA, zB) of
                    (Some a, Some b) \<Rightarrow> LikeBool (patternCompare pInfo escape b a = SQLITE_MATCH)
                  | _ \<Rightarrow> LikeNull)
        in case zEsc of
             None \<Rightarrow> go pInfo (ucast (matchSet pInfo))
           | Some None \<Rightarrow> LikeNull
           | Some (Some e) \<Rightarrow>
               if sqlite3Utf8CharLen e (- 1) \<noteq> 1 then LikeError
               else
                 let escape = fst (sqlite3Utf8Read e);
                     info = (if escape = ucast (matchAll pInfo) then pInfo\<lparr>matchAll := 0\<rparr> else pInfo);
                     info = (if escape = ucast (matchOne info) then info\<lparr>matchOne := 0\<rparr> else info)
                 in go info escape)"

subsection \<open>What a pattern matches\<close>

function chars :: "cstring \<Rightarrow> u32 list" where
  "chars z = (if z = [] then [] else case sqlite3Utf8Read z of (c, z') \<Rightarrow> c # chars z')"
  by pat_completeness auto
termination
  by (relation "measure length") (auto intro: Utf8Read_shrinks [OF sym])

declare chars.simps [simp del]

datatype pitem = PAll | POne | PChar u32 | PSet bool "(u32 \<times> u32) list" | PBad

text \<open>The members of a set as ranges, up to the closing bracket.\<close>

fun set_ranges :: "u32 \<Rightarrow> u32 list \<Rightarrow> ((u32 \<times> u32) list \<times> u32 list) option" where
  "set_ranges prior [] = None"
| "set_ranges prior (c # cs) =
     (if c = 93 then Some ([], cs)
      else case cs of
        d # ds \<Rightarrow>
          if c = 45 \<and> d \<noteq> 93 \<and> prior > 0
          then map_option (\<lambda>(rs, r). ((prior, d) # rs, r)) (set_ranges 0 ds)
          else map_option (\<lambda>(rs, r). ((c, c) # rs, r)) (set_ranges c cs)
      | [] \<Rightarrow> None)"

definition set_parse :: "u32 list \<Rightarrow> (bool \<times> (u32 \<times> u32) list \<times> u32 list) option" where
  "set_parse cs =
     (let invert = (cs \<noteq> [] \<and> hd cs = 94); cs = (if invert then tl cs else cs)
      in map_option (\<lambda>(rs, r). (invert, rs, r))
           (if cs \<noteq> [] \<and> hd cs = 93 then map_option (\<lambda>(rs, r). ((93, 93) # rs, r)) (set_ranges 0 (tl cs))
            else set_ranges 0 cs))"

lemma set_ranges_length: "set_ranges p cs = Some (rs, r) \<Longrightarrow> length r < length cs"
proof (induction p cs arbitrary: rs r rule: set_ranges.induct)
  case (2 p c cs)
  show ?case
  proof (cases cs)
    case Nil
    with 2(3) show ?thesis by (auto split: if_splits)
  next
    case (Cons d ds)
    consider "c = 93" | (range) "c \<noteq> 93" "c = 45 \<and> d \<noteq> 93 \<and> p > 0"
      | (single) "c \<noteq> 93" "\<not> (c = 45 \<and> d \<noteq> 93 \<and> p > 0)" by blast
    then show ?thesis
    proof cases
      case 1
      with 2(3) show ?thesis by simp
    next
      case range
      then obtain rs' where "set_ranges 0 ds = Some (rs', r)"
        using 2(3) Cons by (auto simp del: set_ranges.simps simp: set_ranges.simps(2) [of p])
      with 2(1) [OF range(1) Cons range(2)] Cons show ?thesis by fastforce
    next
      case single
      then obtain rs' where "set_ranges c cs = Some (rs', r)"
        using 2(3) Cons by (auto simp del: set_ranges.simps simp: set_ranges.simps(2) [of p])
      with 2(2) [OF single(1) Cons single(2)] Cons show ?thesis by fastforce
    qed
  qed
qed simp

lemma set_parse_length: "set_parse cs = Some (i, rs, r) \<Longrightarrow> length r < length cs"
  using set_ranges_length [of 0 cs] set_ranges_length [of 0 "tl cs"] set_ranges_length [of 0 "tl (tl cs)"]
  by (cases cs; cases "tl cs") (auto simp: set_parse_def Let_def split: if_splits simp del: set_ranges.simps)

function items :: "compareInfo \<Rightarrow> u32 \<Rightarrow> u32 list \<Rightarrow> pitem list" where
  "items pInfo matchOther [] = []"
| "items pInfo matchOther (c # cs) =
     (if c = ucast (matchAll pInfo) then PAll # items pInfo matchOther cs
      else if c = matchOther \<and> matchSet pInfo \<noteq> 0 then
        (case set_parse cs of None \<Rightarrow> [PBad]
         | Some (i, rs, cs') \<Rightarrow> PSet i rs # items pInfo matchOther cs')
      else if c = matchOther then
        (case cs of [] \<Rightarrow> [PBad] | d # ds \<Rightarrow> PChar d # items pInfo matchOther ds)
      else (if c = ucast (matchOne pInfo) then POne else PChar c) # items pInfo matchOther cs)"
  by pat_completeness auto
termination
  by (relation "measure (\<lambda>(i, m, cs). length cs)") (auto dest!: set_parse_length)

fun pmatch :: "bool \<Rightarrow> pitem list \<Rightarrow> u32 list \<Rightarrow> bool" where
  "pmatch nc [] s \<longleftrightarrow> s = []"
| "pmatch nc (PAll # ps) s \<longleftrightarrow> (\<exists>k \<le> length s. pmatch nc ps (drop k s))"
| "pmatch nc (POne # ps) s \<longleftrightarrow> (case s of [] \<Rightarrow> False | _ # t \<Rightarrow> pmatch nc ps t)"
| "pmatch nc (PChar c # ps) s \<longleftrightarrow> (case s of [] \<Rightarrow> False | d # t \<Rightarrow> charMatch nc c d \<and> pmatch nc ps t)"
| "pmatch nc (PSet i rs # ps) s \<longleftrightarrow>
     (case s of [] \<Rightarrow> False | d # t \<Rightarrow> (\<exists>(lo, hi) \<in> set rs. lo \<le> d \<and> d \<le> hi) \<noteq> i \<and> pmatch nc ps t)"
| "pmatch nc (PBad # ps) s \<longleftrightarrow> False"

declare set_ranges.simps [simp del]

subsection \<open>Characters and bytes\<close>

lemma cstr_simps [simp]: "cstr []" "cstr (b # z) \<longleftrightarrow> b \<noteq> 0 \<and> cstr z"
  by (auto simp: cstr_def)

lemma utf8Loop_split:
  "\<exists>ys. z = ys @ snd (utf8Loop c z) \<and> (\<forall>b \<in> set ys. b AND 0xc0 = 0x80) \<and> \<not> starts_cont (snd (utf8Loop c z))"
proof (induction c z rule: utf8Loop.induct)
  case (2 c b z)
  show ?case
  proof (cases "b AND 0xc0 = 0x80")
    case True
    with 2 obtain ys where "z = ys @ snd (utf8Loop (push_bit 6 c + ucast (0x3f AND b)) z)"
      "\<forall>b \<in> set ys. b AND 0xc0 = 0x80" "\<not> starts_cont (snd (utf8Loop (push_bit 6 c + ucast (0x3f AND b)) z))" by auto
    with True show ?thesis by (intro exI [of _ "b # ys"]) auto
  qed (simp add: starts_cont_def)
qed (simp add: starts_cont_def)

lemma cont_high: "(b :: u8) AND 0xc0 = 0x80 \<Longrightarrow> 0x80 \<le> b"
  using no_cont_nat [of "unat b"] by (force simp: word_le_nat_alt)

text \<open>The first character of a string: an ASCII byte, or a byte from 0x80 on with its continuation.\<close>

lemma Utf8Read_cases:
  assumes "sqlite3Utf8Read (b # z) = (c, z')"
  shows "b < 0x80 \<and> c = ucast b \<and> z' = z \<or>
    0x80 \<le> b \<and> 0x80 \<le> c \<and> (\<exists>ys. z = ys @ z' \<and> (\<forall>y \<in> set ys. 0x80 \<le> y)) \<and> SQLITE_SKIP_UTF8 (b # z) = z'"
proof -
  have skip: "dropWhile (\<lambda>b. b AND 0xc0 = 0x80) z = snd (utf8Loop d z)" for d :: u32
  proof -
    obtain ys where ys: "z = ys @ snd (utf8Loop d z)" "\<forall>b \<in> set ys. b AND 0xc0 = 0x80"
      "\<not> starts_cont (snd (utf8Loop d z))" using utf8Loop_split [of z d] by blast
    have "dropWhile (\<lambda>b. b AND 0xc0 = 0x80) (ys @ w) = w" if "\<not> starts_cont w" for w
      using ys(2) that by (cases w) (auto simp: starts_cont_def dropWhile_append2 dropWhile_eq_Nil_conv)
    from this [OF ys(3)] ys(1) show ?thesis by simp
  qed
  have v: "0x80 \<le> utf8Valid d" for d by (auto simp: utf8Valid_def not_less)
  show ?thesis
  proof (cases "0xc0 \<le> b")
    case True
    let ?d = "ucast (sqlite3Utf8Trans1 ! unat (b - 0xc0)) :: u32"
    have "c = utf8Valid (fst (utf8Loop ?d z))" "z' = snd (utf8Loop ?d z)"
      using assms True by (auto simp: sqlite3Utf8Read_def READ_UTF8_def Let_def split: prod.splits)
    moreover have "0x80 \<le> b" using True by (simp add: word_le_nat_alt)
    moreover obtain ys where "z = ys @ snd (utf8Loop ?d z)" "\<forall>b \<in> set ys. b AND 0xc0 = 0x80"
      using utf8Loop_split [of z ?d] by blast
    moreover from this have "\<forall>y \<in> set ys. 0x80 \<le> y" using cont_high by blast
    moreover have "SQLITE_SKIP_UTF8 (b # z) = snd (utf8Loop ?d z)" using True skip [of ?d] by (simp add: SQLITE_SKIP_UTF8_def)
    ultimately show ?thesis using v by blast
  next
    case False
    then have c: "c = ucast b" "z' = z" using assms by (auto simp: sqlite3Utf8Read_def READ_UTF8_def Let_def)
    with False show ?thesis
      by (auto simp: SQLITE_SKIP_UTF8_def word_le_nat_alt word_less_nat_alt unat_ucast_up not_less)
  qed
qed

lemma chars_Nil [simp]: "chars [] = []" "chars z = [] \<longleftrightarrow> z = []"
  by (subst chars.simps, simp split: prod.splits)+

lemma Utf8Read_chars:
  assumes "sqlite3Utf8Read z = (c, z')" and "z \<noteq> []" and "cstr z"
  shows "c \<noteq> 0" "cstr z'" "chars z = c # chars z'" "SQLITE_SKIP_UTF8 z = z'"
proof -
  obtain b y where z: "z = b # y" using assms(2) by (cases z) auto
  note r = Utf8Read_cases [OF assms(1) [unfolded z]]
  have "\<exists>ys. y = ys @ z'" using r by auto
  then show "cstr z'" using assms(3) z by (auto simp: cstr_def)
  show "c \<noteq> 0" using r assms(3) z by (auto simp: word_unat_eq_iff unat_ucast_up word_le_nat_alt)
  show "chars z = c # chars z'" using assms(1,2) by (subst chars.simps) simp
  show "SQLITE_SKIP_UTF8 z = z'"
    using r z by (auto simp: SQLITE_SKIP_UTF8_def word_le_nat_alt word_less_nat_alt)
qed

lemma Utf8Read_end [simp]: "sqlite3Utf8Read [] = (0, [])"
  by (simp add: sqlite3Utf8Read_def)

lemma chars_ascii: "b < 0x80 \<Longrightarrow> chars (b # z) = ucast b # chars z"
  by (subst chars.simps) (simp add: sqlite3Utf8Read_def READ_UTF8_def word_le_nat_alt word_less_nat_alt)

lemma chr_chars:
  assumes "cstr z" and "b < 0x80" and "b \<noteq> 0"
  shows "chr z = b \<longleftrightarrow> (\<exists>cs. chars z = ucast b # cs)"
proof (cases z)
  case (Cons d y)
  obtain c z' where r: "sqlite3Utf8Read (d # y) = (c, z')" by force
  have "ucast d = (ucast b :: u32) \<longleftrightarrow> d = b" by (simp add: word_unat_eq_iff unat_ucast_up)
  moreover have "0x80 \<le> c \<Longrightarrow> c \<noteq> ucast b" using assms(2) by (auto simp: word_le_nat_alt word_less_nat_alt unat_ucast_up)
  ultimately show ?thesis using Utf8Read_cases [OF r] Utf8Read_chars(3) [OF r] assms Cons by auto
qed (use assms(3) in auto)

lemma chr_end: "cstr z \<Longrightarrow> chr z = 0 \<longleftrightarrow> chars z = []"
  by (cases z) auto

lemma ucast_back [simp]: "ucast (ucast b :: u32) = (b :: u8)"
  by (rule bit_word_eqI) (simp add: bit_unsigned_iff)

text \<open>Searching for ASCII bytes is searching for ASCII characters.\<close>

lemma chars_dropWhile:
  assumes "\<forall>b \<in> set stops. b < 0x80"
  shows "chars (dropWhile (\<lambda>b. b \<notin> set stops) z) = dropWhile (\<lambda>c. \<not> (c < 0x80 \<and> ucast c \<in> set stops)) (chars z)"
proof (induction z rule: chars.induct)
  case (1 z)
  show ?case
  proof (cases z)
    case (Cons b y)
    obtain c z' where r: "sqlite3Utf8Read z = (c, z')" by force
    have c: "chars z = c # chars z'" using r Cons by (subst chars.simps) simp
    have IH: "chars (dropWhile (\<lambda>b. b \<notin> set stops) z') = dropWhile (\<lambda>c. \<not> (c < 0x80 \<and> ucast c \<in> set stops)) (chars z')"
      using 1 r Cons by auto
    from Utf8Read_cases [OF r [unfolded Cons]] show ?thesis
    proof (elim disjE conjE exE)
      assume "b < 0x80" "c = ucast b" "z' = y"
      moreover have "(ucast b :: u32) < 0x80 \<longleftrightarrow> b < 0x80" by (simp add: unat_ucast_up word_less_nat_alt)
      ultimately show ?thesis using IH c Cons by (auto simp: chars_ascii)
    next
      fix ys assume h: "0x80 \<le> b" "0x80 \<le> c" "y = ys @ z'" "\<forall>y \<in> set ys. 0x80 \<le> y"
      have no: "d \<notin> set stops" if "0x80 \<le> d" for d using assms that by (auto simp: not_less [symmetric])
      have "dropWhile (\<lambda>b. b \<notin> set stops) z = dropWhile (\<lambda>b. b \<notin> set stops) z'"
        using h no by (simp add: Cons dropWhile_append2)
      with IH c h(2) show ?thesis by (simp add: not_less)
    qed
  qed simp
qed

subsection \<open>Sets\<close>

text \<open>The characters from the current one on; 0 is the terminator.\<close>

definition ahead :: "u32 \<Rightarrow> cstring \<Rightarrow> u32 list" where
  "ahead c z = (if c = 0 then [] else c # chars z)"

lemma ahead_read:
  assumes "sqlite3Utf8Read z = (c, z')" and "cstr z"
  shows "ahead c z' = chars z" "cstr z'" "c = 0 \<longrightarrow> z' = []"
proof -
  show "ahead c z' = chars z" "cstr z'" "c = 0 \<longrightarrow> z' = []"
    using assms Utf8Read_chars [OF assms(1) _ assms(2)] by (cases "z = []"; auto simp: ahead_def)+
qed

definition in_ranges :: "u32 \<Rightarrow> (u32 \<times> u32) list \<Rightarrow> bool" where
  "in_ranges c rs \<longleftrightarrow> (\<exists>(lo, hi) \<in> set rs. lo \<le> c \<and> c \<le> hi)"

lemma in_ranges_simps [simp]: "\<not> in_ranges c []" "in_ranges c ((lo, hi) # rs) \<longleftrightarrow> lo \<le> c \<and> c \<le> hi \<or> in_ranges c rs"
  by (auto simp: in_ranges_def)

lemma setLoop_ranges:
  assumes "cstr z" and "c2 = 0 \<longrightarrow> z = []" and "setLoop c c2 p s z = (d, t, z')"
  shows "case set_ranges p (ahead c2 z) of None \<Rightarrow> d = 0
    | Some (rs, r) \<Rightarrow> d \<noteq> 0 \<and> r = chars z' \<and> cstr z' \<and> t = (s \<or> in_ranges c rs)"
  using assms
proof (induction c c2 p s z rule: setLoop.induct)
  case (1 c c2 p s z)
  note z = "1.prems"(1,2)
  obtain c3 z3 where r3: "sqlite3Utf8Read z = (c3, z3)" by force
  obtain c4 z4 where r4: "sqlite3Utf8Read z3 = (c4, z4)" by force
  note a3 = ahead_read [OF r3 z(1)]
  note a4 = ahead_read [OF r4 a3(2)]
  have 93: "chr z = 93 \<longleftrightarrow> (\<exists>cs. chars z = 93 # cs)" using chr_chars [OF z(1), of 93] by simp
  consider (stop) "\<not> (c2 \<noteq> 0 \<and> c2 \<noteq> 93)"
    | (range) "c2 \<noteq> 0 \<and> c2 \<noteq> 93" "c2 = 45 \<and> chr z \<noteq> 93 \<and> chr z \<noteq> 0 \<and> p > 0"
    | (single) "c2 \<noteq> 0 \<and> c2 \<noteq> 93" "\<not> (c2 = 45 \<and> chr z \<noteq> 93 \<and> chr z \<noteq> 0 \<and> p > 0)" by blast
  then show ?case
  proof cases
    case stop
    then show ?thesis using "1.prems"(1,3) by (subst (asm) setLoop.simps) (auto simp: ahead_def set_ranges.simps)
  next
    case range
    then have s: "setLoop c c4 0 (s \<or> (p \<le> c \<and> c \<le> c3)) z4 = (d, t, z')"
      using "1.prems"(3) r3 r4 by (subst (asm) setLoop.simps) auto
    have "chars z = c3 # chars z3" "c3 \<noteq> 93" using range chr_end [OF z(1)] a3(1) [symmetric] 93 by (auto simp: ahead_def split: if_splits)
    then have "set_ranges p (ahead c2 z) = map_option (\<lambda>(rs, r). ((p, c3) # rs, r)) (set_ranges 0 (chars z3))"
      using range by (simp add: ahead_def set_ranges.simps(2) [of p])
    with "1.IH"(1) [OF range r3 [symmetric] r4 [symmetric] a4(2,3) s] a4(1) show ?thesis
      by (auto split: option.splits)
  next
    case single
    then have s: "setLoop c c3 c2 (s \<or> c = c2) z3 = (d, t, z')"
      using "1.prems"(3) r3 by (subst (asm) setLoop.simps) auto
    have "set_ranges p (ahead c2 z) = map_option (\<lambda>(rs, r). ((c2, c2) # rs, r)) (set_ranges c2 (chars z))"
      using single 93 chr_end [OF z(1)] by (cases "chars z") (auto simp: ahead_def set_ranges.simps(2) [of p] set_ranges.simps(1))
    with "1.IH"(2) [OF single r3 [symmetric] a3(2,3) s] a3(1) show ?thesis
      by (auto split: option.splits)
  qed
qed

lemma setMatch_parse:
  assumes "cstr zP" and "cstr zS"
  shows "case setMatch zP zS of
      None \<Rightarrow> (case (set_parse (chars zP), chars zS) of (Some (i, rs, r), c # cs) \<Rightarrow> in_ranges c rs = i | _ \<Rightarrow> True)
    | Some (zP', zS') \<Rightarrow> cstr zP' \<and> cstr zS' \<and>
        (\<exists>i rs c. set_parse (chars zP) = Some (i, rs, chars zP') \<and> chars zS = c # chars zS' \<and> in_ranges c rs \<noteq> i)"
proof -
  obtain c zS1 where c: "sqlite3Utf8Read zS = (c, zS1)" by force
  note s = ahead_read [OF c assms(2)]
  obtain c1 z1 where r1: "sqlite3Utf8Read zP = (c1, z1)" by force
  note a1 = ahead_read [OF r1 assms(1)]
  obtain c2 z2 where r2: "(if c1 = 94 then sqlite3Utf8Read z1 else (c1, z1)) = (c2, z2)" by force
  have a2: "ahead c2 z2 = (if c1 = 94 then chars z1 else chars zP)" "cstr z2" "c2 = 0 \<longrightarrow> z2 = []"
    using r2 a1 ahead_read [of z1 c2 z2] by (auto split: if_splits)
  obtain c3 z3 where r3: "(if c2 = 93 then sqlite3Utf8Read z2 else (c2, z2)) = (c3, z3)" by force
  have a3: "ahead c3 z3 = (if c2 = 93 then chars z2 else ahead c2 z2)" "cstr z3" "c3 = 0 \<longrightarrow> z3 = []"
    using r3 a2 ahead_read [of z2 c3 z3] by (auto split: if_splits)
  obtain d t z' where l: "setLoop c c3 0 (c2 = 93 \<and> c = 93) z3 = (d, t, z')" by (metis prod_cases3)
  note sl = setLoop_ranges [OF a3(2,3) l]
  have inv: "chars zP \<noteq> [] \<and> hd (chars zP) = 94 \<longleftrightarrow> c1 = 94" "c1 = 94 \<Longrightarrow> tl (chars zP) = chars z1"
    using a1(1) [symmetric] by (auto simp: ahead_def split: if_splits simp del: chars_Nil)
  have first: "ahead c2 z2 \<noteq> [] \<and> hd (ahead c2 z2) = 93 \<longleftrightarrow> c2 = 93" "c2 = 93 \<Longrightarrow> tl (ahead c2 z2) = chars z2"
    by (auto simp: ahead_def)
  have sp: "set_parse (chars zP) = map_option (\<lambda>(rs, r). (c1 = 94, rs, r))
      (if c2 = 93 then map_option (\<lambda>(rs, r). ((93, 93) # rs, r)) (set_ranges 0 (ahead c3 z3)) else set_ranges 0 (ahead c3 z3))"
    unfolding set_parse_def Let_def inv using first inv(2) a2(1) a3(1) by auto
  have m: "setMatch zP zS = (if c = 0 then None else if d = 0 \<or> t = (c1 = 94) then None else Some (z', zS1))"
    unfolding setMatch_def using c r1 r2 r3 l by (auto simp: Let_def)
  show ?thesis
  proof (cases "c = 0")
    case True
    then have "chars zS = []" using s(1) by (simp add: ahead_def)
    moreover have "setMatch zP zS = None" using True by (simp add: m)
    ultimately show ?thesis by (simp split: option.splits)
  next
    case False
    then have zS: "chars zS = c # chars zS1" using s(1) by (simp add: ahead_def)
    show ?thesis
    proof (cases "set_ranges 0 (ahead c3 z3)")
      case None
      with sl False show ?thesis by (simp add: m sp)
    next
      case (Some rr)
      obtain rs r where rr: "rr = (rs, r)" by force
      have "d \<noteq> 0" "r = chars z'" "cstr z'" "t = (c2 = 93 \<and> c = 93 \<or> in_ranges c rs)" using sl Some rr by auto
      moreover have "(93 \<le> c \<and> c \<le> 93) = (c = 93)" by auto
      ultimately show ?thesis using Some rr False zS s(2) by (cases "c2 = 93") (auto simp: m sp)
    qed
  qed
qed

subsection \<open>Searching after a wildcard\<close>

text \<open>What a result of the matcher says about the string and its suffixes.\<close>

definition found :: "(u32 list \<Rightarrow> bool) \<Rightarrow> u32 list \<Rightarrow> bool" where
  "found Q s \<longleftrightarrow> (\<exists>k. Q (drop k s))"

definition decides :: "(u32 list \<Rightarrow> bool) \<Rightarrow> u32 list \<Rightarrow> mres \<Rightarrow> bool" where
  "decides P s r \<longleftrightarrow> (r = SQLITE_MATCH \<longleftrightarrow> P s) \<and> (r = SQLITE_NOWILDCARDMATCH \<longrightarrow> \<not> found P s)"

definition searches :: "(u32 list \<Rightarrow> bool) \<Rightarrow> u32 list \<Rightarrow> mres \<Rightarrow> bool" where
  "searches Q s r \<longleftrightarrow> r = (if found Q s then SQLITE_MATCH else SQLITE_NOWILDCARDMATCH)"

text \<open>One character with property \<open>M\<close>, then \<open>P\<close>.\<close>

definition after :: "(u32 \<Rightarrow> bool) \<Rightarrow> (u32 list \<Rightarrow> bool) \<Rightarrow> u32 list \<Rightarrow> bool" where
  "after M P s \<longleftrightarrow> (case s of [] \<Rightarrow> False | d # t \<Rightarrow> M d \<and> P t)"

lemma after_simps [simp]: "\<not> after M P []" "after M P (d # t) \<longleftrightarrow> M d \<and> P t"
  by (simp_all add: after_def)

lemma found_Nil: "found Q [] \<longleftrightarrow> Q []"
  by (simp add: found_def)

lemma found_Cons: "found Q (c # s) \<longleftrightarrow> Q (c # s) \<or> found Q s"
proof
  assume "found Q (c # s)"
  then obtain k where "Q (drop k (c # s))" by (auto simp: found_def)
  then show "Q (c # s) \<or> found Q s" unfolding found_def by (cases k) auto
next
  assume "Q (c # s) \<or> found Q s"
  then show "found Q (c # s)" unfolding found_def by (metis drop0 drop_Suc_Cons)
qed

lemma found_here: "Q s \<Longrightarrow> found Q s"
  unfolding found_def by (metis drop0)

lemma found_drop: "found Q (drop k s) \<Longrightarrow> found Q s"
  by (auto simp: found_def)

lemma found_after: "found (after M P) s \<Longrightarrow> found P s"
  by (induction s) (auto simp: found_Nil found_Cons intro: found_here)

lemma found_dropWhile: "found (after M P) s = found (after M P) (dropWhile (\<lambda>c. \<not> M c) s)"
  by (induction s) (auto simp: found_Cons)

lemma search_step:
  assumes "decides P t r" and "searches (after M P) t r'"
  shows "searches (after M P) (d # t) (if M d \<and> r \<noteq> SQLITE_NOMATCH then r else r')"
  using assms found_after [of M P t] by (cases r) (auto simp: searches_def decides_def found_Cons)

lemma setSearch_finds:
  assumes "\<And>s. cstr s \<Longrightarrow> decides P (chars s) (rec s)" and "\<not> P []"
  shows "cstr z \<Longrightarrow> searches P (chars z) (setSearch rec z)"
proof (induction "length z" arbitrary: z rule: less_induct)
  case less
  show ?case
  proof (cases "z = []")
    case True
    then show ?thesis using assms(2) by (subst setSearch.simps) (simp add: searches_def found_Nil)
  next
    case False
    obtain c z' where r: "sqlite3Utf8Read z = (c, z')" by force
    note c = Utf8Read_chars [OF r False less(2)]
    have "searches P (chars z') (setSearch rec z')" using less(1) Utf8Read_shrinks [OF r False] c(2) by blast
    then show ?thesis using assms(1) [OF less(2)] False c
      by (subst setSearch.simps) (cases "rec z", auto simp: searches_def decides_def Let_def found_Cons)
  qed
qed

lemma charSearch_finds:
  assumes "\<And>s. cstr s \<Longrightarrow> decides P (chars s) (rec s)"
  shows "cstr z \<Longrightarrow> searches (after (\<lambda>d. d = c) P) (chars z) (charSearch rec c z)"
proof (induction "length z" arbitrary: z rule: less_induct)
  case less
  show ?case
  proof (cases "z = []")
    case True
    then show ?thesis by (subst charSearch.simps) (simp add: searches_def found_Nil Utf8Read_eq)
  next
    case False
    obtain d z' where r: "sqlite3Utf8Read z = (d, z')" by force
    note d = Utf8Read_chars [OF r False less(2)]
    have "searches (after (\<lambda>d. d = c) P) (chars z') (charSearch rec c z')"
      using less(1) Utf8Read_shrinks [OF r False] d(2) by blast
    from search_step [OF assms [OF d(2)] this, of d] show ?thesis using r d(1,3)
      by (subst charSearch.simps) (auto simp: Let_def Utf8Read_eq split: if_splits)
  qed
qed

lemma stopSearch_finds:
  assumes "\<And>s. cstr s \<Longrightarrow> decides P (chars s) (rec s)" and "\<forall>b \<in> set stops. b < 0x80"
  shows "cstr z \<Longrightarrow> searches (after (\<lambda>c. c < 0x80 \<and> ucast c \<in> set stops) P) (chars z) (stopSearch rec stops z)"
proof (induction "length z" arbitrary: z rule: less_induct)
  case less
  let ?M = "\<lambda>c. c < 0x80 \<and> ucast c \<in> set stops" and ?z = "dropWhile (\<lambda>b. b \<notin> set stops) z"
  have f: "found (after ?M P) (chars z) = found (after ?M P) (chars ?z)"
    unfolding chars_dropWhile [OF assms(2)] by (rule found_dropWhile)
  show ?case
  proof (cases ?z)
    case Nil
    have "stopSearch rec stops z = SQLITE_NOWILDCARDMATCH" by (subst stopSearch.simps, subst Nil) simp
    moreover have "\<not> found (after ?M P) (chars z)" unfolding f Nil by (simp add: found_Nil)
    ultimately show ?thesis by (simp add: searches_def)
  next
    case (Cons b z')
    have b: "b \<in> set stops" using Cons by (metis (mono_tags) dropWhile_eq_Cons_conv)
    then have c: "chars ?z = ucast b # chars z'" using assms(2) by (simp add: Cons chars_ascii)
    have z': "cstr z'" using less(2) set_dropWhileD [of _ "\<lambda>b. b \<notin> set stops" z] Cons by (auto simp: cstr_def)
    have "searches (after ?M P) (chars z') (stopSearch rec stops z')"
      using less(1) dropWhile_shrinks [OF Cons] z' by blast
    from search_step [OF assms(1) [OF z'] this, of "ucast b"] b assms(2) c f Cons show ?thesis
      by (subst stopSearch.simps) (auto simp: Let_def searches_def word_less_nat_alt unat_ucast_up)
  qed
qed

subsection \<open>The matcher decides the specification\<close>

lemma Toupper_table:
  "unat (sqlite3Toupper c) = (if 97 \<le> unat c \<and> unat c \<le> 122 then unat c - 32 else unat c)"
proof -
  have "list_all (\<lambda>n. unat (sqlite3Toupper (of_nat n)) = (if 97 \<le> n \<and> n \<le> 122 then n - 32 else n)) [0..<256]"
    by code_simp
  then have "unat (sqlite3Toupper (of_nat (unat c))) = (if 97 \<le> unat c \<and> unat c \<le> 122 then unat c - 32 else unat c)"
    unfolding list_all_iff by (rule bspec) simp
  then show ?thesis by simp
qed

lemma unat_ascii: "e < 0x80 \<Longrightarrow> unat (ucast (e :: u32) :: u8) = unat e"
  by (simp add: word_less_nat_alt unsigned_ucast_eq take_bit_nat_eq_self)

lemma caseStop_match:
  assumes "c < 0x80"
  shows "d < 0x80 \<and> ucast d \<in> set (caseStop nc c) \<longleftrightarrow> charMatch nc c d" "\<forall>b \<in> set (caseStop nc c). b < 0x80"
proof -
  note c = unat_ascii [OF assms]
  have "ucast d \<in> set (caseStop nc c) \<longleftrightarrow> c = d \<or> nc \<and> sqlite3Tolower (ucast c) = sqlite3Tolower (ucast d)"
    if d: "d < 0x80"
    unfolding word_unat_eq_iff [of c d]
    using c unat_ascii [OF d] Toupper_table [of "ucast c"] UpperToLower_table [of "ucast c"] UpperToLower_table [of "ucast d"]
    by (auto simp: caseStop_def word_unat_eq_iff)
  then show "d < 0x80 \<and> ucast d \<in> set (caseStop nc c) \<longleftrightarrow> charMatch nc c d"
    using assms by (auto simp: charMatch_def)
  show "\<forall>b \<in> set (caseStop nc c). b < 0x80"
    using c assms Toupper_table [of "ucast c"] UpperToLower_table [of "ucast c"]
    by (auto simp: caseStop_def word_less_nat_alt)
qed

lemma drop_le_found: "(\<exists>k \<le> length s. Q (drop k s)) \<longleftrightarrow> found Q s"
proof
  assume "found Q s"
  then obtain k where "Q (drop k s)" by (auto simp: found_def)
  then show "\<exists>k \<le> length s. Q (drop k s)" by (cases "k \<le> length s") (auto intro: exI [of _ "length s"])
qed (auto simp: found_def)

lemma pmatch_items:
  "pmatch nc (PAll # ps) = found (pmatch nc ps)"
  "pmatch nc (POne # ps) = after (\<lambda>_. True) (pmatch nc ps)"
  "pmatch nc (PChar c # ps) = after (charMatch nc c) (pmatch nc ps)"
  "pmatch nc (PSet i rs # ps) = after (\<lambda>d. in_ranges d rs \<noteq> i) (pmatch nc ps)"
  by (simp_all add: fun_eq_iff drop_le_found after_def in_ranges_def split: list.splits)

lemma found_found: "found (found P) s = found P s"
  using found_here [of "found P" s] by (auto simp: found_def)

text \<open>A single-character wildcard after a wildcard takes the first character.\<close>

lemma found_after_any: "found (after (\<lambda>_. True) P) s \<longleftrightarrow> s \<noteq> [] \<and> found P (tl s)"
proof (induction s)
  case (Cons c s)
  then show ?case by (cases s) (simp_all add: found_Nil found_Cons)
qed (simp add: found_Nil)

lemma patternSkip_found:
  fixes i mo nc
  defines "mAll \<equiv> ucast (matchAll i)" and "mOne \<equiv> ucast (matchOne i)"
  assumes "mAll \<noteq> 0" and "mo \<noteq> mOne" and "cstr zP" and "cstr zS" and "mAll \<noteq> mOne"
  shows "case patternSkip mAll mOne zP zS of
      None \<Rightarrow> \<not> found (pmatch nc (items i mo (chars zP))) (chars zS)
    | Some (c, zP2, zS2) \<Rightarrow> cstr zP2 \<and> cstr zS2 \<and> (c = 0 \<longrightarrow> zP2 = []) \<and> c \<noteq> mAll \<and> (c = mOne \<longrightarrow> c = 0) \<and>
        found (pmatch nc (items i mo (chars zP))) (chars zS) = found (pmatch nc (items i mo (ahead c zP2))) (chars zS2)"
  using assms(5,6)
proof (induction "length zP" arbitrary: zP zS rule: less_induct)
  case less
  obtain c zP1 where r: "sqlite3Utf8Read zP = (c, zP1)" by force
  note a = ahead_read [OF r less(2)]
  note step = patternSkip.simps [of mAll mOne zP zS, unfolded Utf8Read_eq r prod.case]
  show ?case
  proof (cases "zP \<noteq> [] \<and> (c = mAll \<or> c = mOne \<and> mOne \<noteq> 0)")
    case True
    then have sh: "length zP1 < length zP" and c: "chars zP = c # chars zP1" "c \<noteq> 0"
      using Utf8Read_shrinks [OF r] Utf8Read_chars [OF r _ less(2)] by auto
    show ?thesis
    proof (cases "c = mOne")
      case one: True
      obtain d zS1 where s: "sqlite3Utf8Read zS = (d, zS1)" by force
      note sa = ahead_read [OF s less(3)]
      have "items i mo (chars zP) = POne # items i mo (chars zP1)"
        using one assms(4,7) by (simp add: c(1) mAll_def mOne_def)
      then have f: "found (pmatch nc (items i mo (chars zP))) (chars zS) \<longleftrightarrow>
          d \<noteq> 0 \<and> found (pmatch nc (items i mo (chars zP1))) (chars zS1)"
        using sa(1) [symmetric] by (simp add: pmatch_items found_after_any ahead_def)
      show ?thesis
      proof (cases "d = 0")
        case True
        then show ?thesis using \<open>zP \<noteq> [] \<and> _\<close> one s f by (subst step) simp
      next
        case False
        with less(1) [OF sh a(2) sa(2)] one \<open>zP \<noteq> [] \<and> _\<close> s f show ?thesis
          by (subst step) (auto split: option.splits)
      qed
    next
      case False
      then have "items i mo (chars zP) = PAll # items i mo (chars zP1)" using True by (simp add: c(1) mAll_def)
      then have "found (pmatch nc (items i mo (chars zP))) = found (pmatch nc (items i mo (chars zP1)))"
        by (simp add: fun_eq_iff pmatch_items found_found)
      with less(1) [OF sh a(2) less(3)] False True show ?thesis by (subst step) (auto split: option.splits)
    qed
  next
    case False
    then have "c \<noteq> mAll \<and> (c = mOne \<longrightarrow> c = 0)" using assms(3) r by auto
    with False a less(3) show ?thesis by (subst step) auto
  qed
qed

lemma charMatch_end: "c \<noteq> 0 \<Longrightarrow> \<not> charMatch nc c 0"
proof -
  have "sqlite3Tolower (ucast c) \<noteq> 0" if "c \<noteq> 0" "c < 0x80"
  proof -
    have "ucast c \<noteq> (0 :: u8)" using that unat_ascii [OF that(2)] by (auto simp: word_unat_eq_iff)
    then show ?thesis by simp
  qed
  then show "c \<noteq> 0 \<Longrightarrow> \<not> charMatch nc c 0" by (auto simp: charMatch_def)
qed

lemma decides_after: "decides P t r \<Longrightarrow> M d \<Longrightarrow> decides (after M P) (d # t) r"
  using found_here [of P t] found_after [of M P t] by (auto simp: decides_def found_Cons)

lemma decides_nomatch: "\<not> P s \<Longrightarrow> decides P s SQLITE_NOMATCH"
  by (simp add: decides_def)

lemma searches_decides: "searches Q s2 r \<Longrightarrow> found P s = found Q s2 \<Longrightarrow> decides (found P) s r"
  by (simp add: searches_def decides_def found_found)

lemma literal_search:
  assumes "\<And>s. cstr s \<Longrightarrow> decides P (chars s) (rec s)" and "cstr z"
  shows "searches (after (charMatch nc c) P) (chars z)
    (if c < 0x80 then stopSearch rec (caseStop nc c) z else charSearch rec c z)"
proof (cases "c < 0x80")
  case True
  have "(\<lambda>d. d < 0x80 \<and> ucast d \<in> set (caseStop nc c)) = charMatch nc c"
    by (simp add: fun_eq_iff caseStop_match(1) [OF True])
  with stopSearch_finds [OF assms(1) caseStop_match(2) [OF True] assms(2), where nc1 = nc] True show ?thesis by simp
next
  case False
  then have "(\<lambda>d. d = c) = charMatch nc c" by (auto simp: fun_eq_iff charMatch_def)
  with charSearch_finds [OF assms, of c] False show ?thesis by simp
qed

text \<open>The wildcards of a pattern are different characters, and a set starts with an ASCII character.\<close>

definition info_ok :: "compareInfo \<Rightarrow> u32 \<Rightarrow> bool" where
  "info_ok i mo \<longleftrightarrow> matchAll i \<noteq> matchOne i \<and> mo \<noteq> ucast (matchOne i) \<and> (matchSet i \<noteq> 0 \<longrightarrow> mo < 0x80)"

lemma wildcard_decides:
  assumes i: "info_ok i mo" and cs: "cstr zP1" "cstr zS" and m0: "ucast (matchAll i) \<noteq> (0 :: u32)"
    and IH: "\<And>zP zS. length zP \<le> length zP1 \<Longrightarrow> cstr zP \<Longrightarrow> cstr zS \<Longrightarrow>
      decides (pmatch (noCase i) (items i mo (chars zP))) (chars zS) (patternCompare i mo zP zS)"
  shows "decides (found (pmatch (noCase i) (items i mo (chars zP1)))) (chars zS)
    (case patternSkip (ucast (matchAll i)) (ucast (matchOne i)) zP1 zS of
           None \<Rightarrow> SQLITE_NOWILDCARDMATCH
         | Some (c, zPattern2, zString2) \<Rightarrow>
             if c = 0 then SQLITE_MATCH
             else if c = mo \<and> matchSet i \<noteq> 0 then
               setSearch (\<lambda>s. patternCompare i mo (ucast mo # zPattern2) s) zString2
             else
               let (c, zPattern3) = (if c = mo then sqlite3Utf8Read zPattern2 else (c, zPattern2)) in
               if c = 0 then SQLITE_NOWILDCARDMATCH
               else if c < 0x80 then
                 stopSearch (\<lambda>s. patternCompare i mo zPattern3 s) (caseStop (noCase i) c) zString2
               else charSearch (\<lambda>s. patternCompare i mo zPattern3 s) c zString2)"
    (is "decides (found ?P) ?s ?r")
proof -
  let ?pm = "\<lambda>ps. pmatch (noCase i) (items i mo ps)"
  have "ucast (matchAll i) \<noteq> (ucast (matchOne i) :: u32)" using i by (simp add: info_ok_def word_unat_eq_iff unat_ucast_up)
  note sk = patternSkip_found [OF m0 _ cs this, of mo "noCase i"]
  show ?thesis
  proof (cases "patternSkip (ucast (matchAll i)) (ucast (matchOne i)) zP1 zS")
    case None
    with sk i show ?thesis by (simp add: decides_def found_found info_ok_def)
  next
    case (Some t)
    obtain c zP2 zS2 where t: "t = (c, zP2, zS2)" by (metis prod_cases3)
    have k: "cstr zP2" "cstr zS2" "c = 0 \<longrightarrow> zP2 = []" "c \<noteq> ucast (matchAll i)" "c = ucast (matchOne i) \<longrightarrow> c = 0"
      "found ?P ?s = found (?pm (ahead c zP2)) (chars zS2)" using sk Some t i by (auto simp: info_ok_def)
    note le = patternSkip_measure [OF Some [unfolded t]]
    consider (all) "c = 0" | (set) "c \<noteq> 0" "c = mo" "matchSet i \<noteq> 0" | (lit) "c \<noteq> 0" "\<not> (c = mo \<and> matchSet i \<noteq> 0)" by blast
    then show ?thesis
    proof cases
      case all
      have "found (pmatch nc []) s" for nc s using found_def by force
      with all Some t k show ?thesis by (simp add: decides_def ahead_def)
    next
      case set
      have mo: "mo < 0x80" "mo \<noteq> 0" using i set by (auto simp: info_ok_def)
      then have m: "ucast mo < (0x80 :: u8)" "ucast mo \<noteq> (0 :: u8)" "ucast (ucast mo :: u8) = mo"
        using unat_ascii [OF mo(1)] by (auto simp: word_less_nat_alt word_unat_eq_iff unat_ucast_up)
      have ch: "chars (ucast mo # zP2) = ahead c zP2" using m set by (simp add: chars_ascii ahead_def)
      have "searches (?pm (ahead c zP2)) (chars zS2) (setSearch (\<lambda>s. patternCompare i mo (ucast mo # zP2) s) zS2)"
      proof (rule setSearch_finds [OF _ _ k(2)])
        show "decides (?pm (ahead c zP2)) (chars s) (patternCompare i mo (ucast mo # zP2) s)" if "cstr s" for s
          using IH [of "ucast mo # zP2" s] le set k(1) m that by (simp add: ch)
        show "\<not> ?pm (ahead c zP2) []" using set k(4) by (auto simp: ahead_def split: option.splits)
      qed
      from searches_decides [OF this k(6)] show ?thesis using set Some t by simp
    next
      case lit
      obtain c3 zP3 where c3: "(if c = mo then sqlite3Utf8Read zP2 else (c, zP2)) = (c3, zP3)" by force
      have z3: "cstr zP3" "length zP3 \<le> length zP2" "c3 = 0 \<longrightarrow> c = mo \<and> zP2 = []"
      proof -
        have "cstr zP3 \<and> length zP3 \<le> length zP2 \<and> (c3 = 0 \<longrightarrow> zP2 = [])" if "sqlite3Utf8Read zP2 = (c3, zP3)"
          using ahead_read(2) [OF that k(1)] Utf8Read_length [OF that] Utf8Read_chars(1) [OF that _ k(1)] by blast
        with c3 k(1) lit(1) show "cstr zP3" "length zP3 \<le> length zP2" "c3 = 0 \<longrightarrow> c = mo \<and> zP2 = []"
          by (auto split: if_splits)
      qed
      have it: "items i mo (ahead c zP2) = (if c3 = 0 then [PBad] else PChar c3 # items i mo (chars zP3))"
        using lit k(4,5) c3 ahead_read(1) [of zP2 c3 zP3] k(1)
        by (cases "c = mo") (auto simp: ahead_def split: list.splits if_splits)
      have rec: "decides (?pm (chars zP3)) (chars s) (patternCompare i mo zP3 s)" if "cstr s" for s
        using IH [OF _ z3(1) that] z3(2) le by simp
      show ?thesis
      proof (cases "c3 = 0")
        case True
        then have "\<not> found ?P ?s" using k(6) it by (simp add: found_def)
        with True lit Some t c3 show ?thesis by (auto simp: decides_def found_found)
      next
        case False
        then have "found ?P ?s = found (after (charMatch (noCase i) c3) (?pm (chars zP3))) (chars zS2)"
          using k(6) it by (simp add: pmatch_items)
        from searches_decides [OF literal_search [OF rec k(2)] this] show ?thesis
          using lit Some t c3 False by (simp split: if_splits)
      qed
    qed
  qed
qed

lemma set_decides:
  assumes "cstr zP1" and "cstr zS"
    and "\<And>zP zS. length zP \<le> length zP1 \<Longrightarrow> cstr zP \<Longrightarrow> cstr zS \<Longrightarrow>
      decides (pmatch nc (items i mo (chars zP))) (chars zS) (rec zP zS)"
  shows "decides (pmatch nc (case set_parse (chars zP1) of None \<Rightarrow> [PBad]
      | Some (neg, rs, cs') \<Rightarrow> PSet neg rs # items i mo cs')) (chars zS)
    (case setMatch zP1 zS of None \<Rightarrow> SQLITE_NOMATCH | Some (zP2, zS2) \<Rightarrow> rec zP2 zS2)"
proof (cases "setMatch zP1 zS")
  case None
  have "\<not> pmatch nc (case set_parse (chars zP1) of None \<Rightarrow> [PBad]
      | Some (neg, rs, cs') \<Rightarrow> PSet neg rs # items i mo cs') (chars zS)"
    using setMatch_parse [OF assms(1,2)] None
    by (cases "chars zS") (auto simp: pmatch_items split: option.splits)
  with None show ?thesis by (simp add: decides_nomatch)
next
  case (Some t)
  obtain zP2 zS2 where t: "t = (zP2, zS2)" by force
  obtain neg rs c where p: "cstr zP2" "cstr zS2" "set_parse (chars zP1) = Some (neg, rs, chars zP2)"
    "chars zS = c # chars zS2" "in_ranges c rs \<noteq> neg"
    using setMatch_parse [OF assms(1,2)] Some t by auto
  have "length zP2 \<le> length zP1" using setMatch_shrinks Some t by blast
  from decides_after [where M = "\<lambda>d. in_ranges d rs \<noteq> neg" and d = c, OF assms(3) [OF this p(1,2)] p(5)]
  show ?thesis by (simp add: p Some t pmatch_items)
qed

text \<open>A literal, an escaped character or a single-character wildcard against one character.\<close>

lemma one_decides:
  assumes i: "info_ok i mo" and cs: "cstr zP1" "cstr zS" and c: "c \<noteq> 0" "c \<noteq> ucast (matchAll i)" "\<not> (c = mo \<and> matchSet i \<noteq> 0)"
    and IH: "\<And>zP zS. length zP \<le> length zP1 \<Longrightarrow> cstr zP \<Longrightarrow> cstr zS \<Longrightarrow>
      decides (pmatch (noCase i) (items i mo (chars zP))) (chars zS) (rec zP zS)"
    and c3: "(if c = mo then sqlite3Utf8Read zP1 else (c, zP1)) = (c3, zP3)"
    and d: "sqlite3Utf8Read zS = (d, zS2)"
  shows "decides (pmatch (noCase i) (items i mo (c # chars zP1))) (chars zS)
    (if c3 = 0 then SQLITE_NOMATCH
     else if charMatch (noCase i) c3 d \<or> (c3 = ucast (matchOne i) \<and> c \<noteq> mo \<and> d \<noteq> 0) then rec zP3 zS2
     else SQLITE_NOMATCH)"
proof -
  have z3: "cstr zP3" "length zP3 \<le> length zP1"
    using c3 cs(1) ahead_read [of zP1 c3 zP3] Utf8Read_length [of zP1 c3 zP3] by (auto split: if_splits)
  let ?M = "if c \<noteq> mo \<and> c = ucast (matchOne i) then (\<lambda>_. True) else charMatch (noCase i) c3"
  have it: "pmatch (noCase i) (items i mo (c # chars zP1)) =
      (if c3 = 0 then (\<lambda>_. False) else after ?M (pmatch (noCase i) (items i mo (chars zP3))))"
  proof (cases "c = mo")
    case True
    then have "chars zP1 = ahead c3 zP3" using c3 ahead_read(1) [of zP1 c3 zP3] cs(1) by simp
    with True c show ?thesis by (auto simp: ahead_def pmatch_items fun_eq_iff)
  next
    case False
    with c c3 show ?thesis by (auto simp: pmatch_items)
  qed
  have s: "chars zS = ahead d zS2" "cstr zS2" using ahead_read [OF d cs(2)] by auto
  have M: "charMatch (noCase i) c3 d \<or> (c3 = ucast (matchOne i) \<and> c \<noteq> mo \<and> d \<noteq> 0) \<longleftrightarrow> d \<noteq> 0 \<and> ?M d" if "c3 \<noteq> 0"
    using charMatch_end [OF that] c3 by (cases "d = 0") (auto split: if_splits)
  consider "c3 = 0" | "c3 \<noteq> 0" "d \<noteq> 0" "?M d" | "c3 \<noteq> 0" "\<not> (d \<noteq> 0 \<and> ?M d)" by blast
  then show ?thesis
  proof cases
    case 1
    then show ?thesis unfolding it by (simp add: decides_nomatch)
  next
    case 2
    have "decides (after ?M (pmatch (noCase i) (items i mo (chars zP3)))) (d # chars zS2) (rec zP3 zS2)"
      by (rule decides_after [where M = ?M, OF IH [OF z3(2,1) s(2)] 2(3)])
    with 2 M show ?thesis unfolding it s(1) ahead_def by (simp only: if_True if_False simp_thms)
  next
    case 3
    then have "\<not> after ?M (pmatch (noCase i) (items i mo (chars zP3))) (chars zS)" by (auto simp: s(1) ahead_def)
    with 3 M [OF 3(1)] show ?thesis unfolding it by (simp only: if_False simp_thms decides_nomatch)
  qed
qed

lemma patternCompare_decides:
  assumes "info_ok i mo"
  shows "cstr zP \<Longrightarrow> cstr zS \<Longrightarrow>
    decides (pmatch (noCase i) (items i mo (chars zP))) (chars zS) (patternCompare i mo zP zS)"
proof (induction "length zP" arbitrary: zP zS rule: less_induct)
  case less
  let ?pm = "\<lambda>ps. pmatch (noCase i) (items i mo ps)"
  obtain c zP1 where r: "sqlite3Utf8Read zP = (c, zP1)" by force
  note a = ahead_read [OF r less(2)]
  have sh: "c \<noteq> 0 \<Longrightarrow> length zP1 < length zP" using Utf8Read_less [OF r] by blast
  have IH: "decides (?pm (chars z)) (chars s) (patternCompare i mo z s)"
    if "c \<noteq> 0" "length z \<le> length zP1" "cstr z" "cstr s" for z s
    using less(1) [of z s] that sh by simp
  note step = patternCompare.simps [of i mo zP zS, unfolded Utf8Read_eq r Let_def prod.case]
  consider (end_of) "c = 0" | (all) "c \<noteq> 0" "c = ucast (matchAll i)"
    | (set) "c \<noteq> 0" "c \<noteq> ucast (matchAll i)" "c = mo" "matchSet i \<noteq> 0"
    | (one) "c \<noteq> 0" "c \<noteq> ucast (matchAll i)" "\<not> (c = mo \<and> matchSet i \<noteq> 0)" by blast
  then show ?case
  proof cases
    case end_of
    then have "chars zP = []" using a(1) by (simp add: ahead_def)
    with end_of show ?thesis by (subst step) (simp add: decides_def)
  next
    case all
    have "chars zP = c # chars zP1" using a(1) all by (simp add: ahead_def)
    then have "?pm (chars zP) = found (?pm (chars zP1))" using all by (simp add: pmatch_items)
    with wildcard_decides [OF assms a(2) less(3) _ IH [OF all(1)], unfolded Let_def] all
    show ?thesis by (subst step) simp
  next
    case set
    have "chars zP = c # chars zP1" using a(1) set by (simp add: ahead_def)
    with set_decides [OF a(2) less(3) IH [OF set(1)]] set show ?thesis by (subst step) simp
  next
    case one
    obtain c3 zP3 where c3: "(if c = mo then sqlite3Utf8Read zP1 else (c, zP1)) = (c3, zP3)" by force
    obtain d zS2 where d: "sqlite3Utf8Read zS = (d, zS2)" by force
    have "chars zP = c # chars zP1" using a(1) one by (simp add: ahead_def)
    moreover have "patternCompare i mo zP zS =
        (if c3 = 0 then SQLITE_NOMATCH
         else if charMatch (noCase i) c3 d \<or> (c3 = ucast (matchOne i) \<and> c \<noteq> mo \<and> d \<noteq> 0)
           then patternCompare i mo zP3 zS2 else SQLITE_NOMATCH)"
      using one c3 d by (subst step) auto
    ultimately show ?thesis using one_decides [OF assms a(2) less(3) one IH [OF one(1)] c3 d] by (simp only:)
  qed
qed

text \<open>\<^verbatim>\<open>sqlite3Utf8CharLen\<close> counts the characters.\<close>

lemma CharLen_chars: "cstr z \<Longrightarrow> utf8CharLenLoop z i None = length (chars z)"
proof (induction "length z" arbitrary: z i rule: less_induct)
  case less
  show ?case
  proof (cases "z = []")
    case False
    obtain c z' where r: "sqlite3Utf8Read z = (c, z')" by force
    note c = Utf8Read_chars [OF r False less(2)]
    with less(1) [OF Utf8Read_shrinks [OF r False] c(2)] False show ?thesis
      by (subst utf8CharLenLoop.simps) (simp add: Let_def)
  qed (simp add: utf8CharLenLoop.simps)
qed

subsection \<open>Properties\<close>

text \<open>
  C35: the matcher returns \<open>SQLITE_MATCH\<close> exactly when the characters of the string match the
  items of the pattern, for every pattern and string of valid or invalid UTF-8, and it
  returns \<open>SQLITE_NOWILDCARDMATCH\<close> only when no suffix of the string matches either, which is
  what makes it right for a search to stop there.
\<close>

theorem patternCompare_correct:
  assumes "info_ok pInfo matchOther" and "cstr zPattern" and "cstr zString"
  shows "(patternCompare pInfo matchOther zPattern zString = SQLITE_MATCH \<longleftrightarrow>
      pmatch (noCase pInfo) (items pInfo matchOther (chars zPattern)) (chars zString)) \<and>
    (patternCompare pInfo matchOther zPattern zString = SQLITE_NOWILDCARDMATCH \<longrightarrow>
      (\<forall>k. \<not> pmatch (noCase pInfo) (items pInfo matchOther (chars zPattern)) (drop k (chars zString))))"
  using patternCompare_decides [OF assms] by (simp add: decides_def found_def)

lemma patternCompare_correct_witness:
  "patternCompare globInfo 91 [42, 91, 97, 45, 99, 93] [120, 98] = SQLITE_MATCH"
proof -
  have "items globInfo 91 (chars [42, 91, 97, 45, 99, 93]) = [PAll, PSet False [(97, 97), (97, 99)]]"
    by (simp add: chars_ascii globInfo_def set_parse_def set_ranges.simps)
  moreover have "pmatch False [PAll, PSet False [(97, 97), (97, 99)]] (chars [120, 98])"
    by (simp add: chars_ascii, rule exI [of _ 1], simp)
  ultimately show ?thesis
    using patternCompare_correct [of globInfo 91 "[42, 91, 97, 45, 99, 93]" "[120, 98]"]
    by (simp add: info_ok_def globInfo_def)
qed

text \<open>
  The LIKE operator with an escape character.  An escape text of more or less than one
  character is an error; otherwise the answer is the specified match of a pattern in which
  the escape character protects the next one and is itself no wildcard, even when it is
  \<^verbatim>\<open>%\<close> or \<^verbatim>\<open>_\<close>.
\<close>

theorem likeFunc_escape:
  assumes "nPat \<le> limit" and "cstr b" and "cstr a" and "cstr e"
  defines "info \<equiv> \<lambda>c. likeInfoNorm\<lparr>matchAll := if c = 37 then 0 else 37, matchOne := if c = 95 then 0 else 95\<rparr>"
  shows "likeFunc likeInfoNorm limit nPat (Some b) (Some a) (Some (Some e)) =
    (case chars e of [c] \<Rightarrow> LikeBool (pmatch True (items (info c) c (chars b)) (chars a)) | _ \<Rightarrow> LikeError)"
proof -
  show ?thesis
  proof (cases "length (chars e) = 1")
    case True
    then obtain c where c: "chars e = [c]" by (metis One_nat_def length_0_conv length_Suc_conv)
    obtain c' e' where r: "sqlite3Utf8Read e = (c', e')" by force
    have "e \<noteq> []" using c by auto
    with Utf8Read_chars [OF r _ assms(4)] c have e: "c' = c" "c \<noteq> 0" by auto
    have i: "info_ok (info c) c" using e by (auto simp: info_ok_def info_def likeInfoNorm_def)
    have n: "noCase (info c) = True" by (simp add: info_def likeInfoNorm_def)
    have "likeFunc likeInfoNorm limit nPat (Some b) (Some a) (Some (Some e)) =
        LikeBool (patternCompare (info c) c b a = SQLITE_MATCH)"
      using assms(1) True CharLen_chars [OF assms(4)] r e by (auto simp: likeFunc_def sqlite3Utf8CharLen_def Let_def info_def likeInfoNorm_def)
    with patternCompare_decides [OF i assms(2,3)] c n show ?thesis by (simp add: decides_def)
  next
    case False
    then have "(case chars e of [c] \<Rightarrow> X c | _ \<Rightarrow> LikeError) = LikeError" for X by (auto split: list.splits)
    with False assms(1) CharLen_chars [OF assms(4)] show ?thesis by (simp add: likeFunc_def sqlite3Utf8CharLen_def)
  qed
qed

lemma likeFunc_escape_witness:
  "likeFunc likeInfoNorm 100 3 (Some [37, 92, 37]) (Some [97, 37]) (Some (Some [92])) = LikeBool True"
proof -
  have "pmatch True [PAll, PChar 37] (chars [97, 37])"
    by (simp add: chars_ascii, rule exI [of _ 1], simp add: charMatch_def)
  then show ?thesis using likeFunc_escape [of 3 100 "[37, 92, 37]" "[97, 37]" "[92]"]
    by (simp add: chars_ascii likeInfoNorm_def)
qed

end
