(* ===== verification/Record_Format.thy ===== *)
theory Record_Format
  imports Varint
begin

text \<open>
  The record format of tables and indexes: the opcode \<^verbatim>\<open>OP_MakeRecord\<close> of vdbe.c, which writes
  a record, and \<^verbatim>\<open>sqlite3VdbeSerialGet\<close> and \<^verbatim>\<open>sqlite3VdbeRecordUnpack\<close> of vdbeaux.c, which read
  one.  A record is a header (its own size and one serial type per field, as varints)
  followed by the data of the fields.

  A value is what the flags of a \<^verbatim>\<open>Mem\<close> distinguish; a real number is its 64 bits, and a blob
  may have a tail of zero bytes that is not stored yet.  The opcode is modelled from the
  point where column affinities have been applied; an allocation that turns out not to be
  needed counts as one that succeeds.
\<close>

subsection \<open>Values and serial types\<close>

datatype rval =
    RNull
  | RNoChange
  | RInt int
  | RIntReal int
  | RReal u64
  | RStr "u8 list"
  | RBlob "u8 list" "nat option"

definition IsNaN :: "u64 \<Rightarrow> bool" where
  "IsNaN x \<longleftrightarrow> x AND 0x7ff0000000000000 = 0x7ff0000000000000 \<and> x AND 0x000fffffffffffff \<noteq> 0"

definition sqlite3SmallTypeSizes :: "nat list" where
  "sqlite3SmallTypeSizes =
    [0,  1,  2,  3,  4,  6,  8,  8,  0,  0,
     0,  0,  0,  0,  1,  1,  2,  2,  3,  3,
     4,  4,  5,  5,  6,  6,  7,  7,  8,  8,
     9,  9, 10, 10, 11, 11, 12, 12, 13, 13,
    14, 14, 15, 15, 16, 16, 17, 17, 18, 18,
    19, 19, 20, 20, 21, 21, 22, 22, 23, 23,
    24, 24, 25, 25, 26, 26, 27, 27, 28, 28,
    29, 29, 30, 30, 31, 31, 32, 32, 33, 33,
    34, 34, 35, 35, 36, 36, 37, 37, 38, 38,
    39, 39, 40, 40, 41, 41, 42, 42, 43, 43,
    44, 44, 45, 45, 46, 46, 47, 47, 48, 48,
    49, 49, 50, 50, 51, 51, 52, 52, 53, 53,
    54, 54, 55, 55, 56, 56, 57, 57]"

definition sqlite3VdbeSerialTypeLen :: "u32 \<Rightarrow> nat" where
  "sqlite3VdbeSerialTypeLen serial_type =
     (if serial_type \<ge> 128 then unat (serial_type - 12) div 2 else sqlite3SmallTypeSizes ! unat serial_type)"

definition sqlite3VdbeOneByteSerialTypeLen :: "u8 \<Rightarrow> nat" where
  "sqlite3VdbeOneByteSerialTypeLen serial_type = sqlite3SmallTypeSizes ! unat serial_type"

subsection \<open>Reading one value\<close>

definition ONE_BYTE_INT :: "mem \<Rightarrow> int" where
  "ONE_BYTE_INT x = sint (x 0)"

definition TWO_BYTE_INT :: "mem \<Rightarrow> int" where
  "TWO_BYTE_INT x = (256 * sint (x 0)) OR uint (x 1)"

definition THREE_BYTE_INT :: "mem \<Rightarrow> int" where
  "THREE_BYTE_INT x = (65536 * sint (x 0)) OR push_bit 8 (uint (x 1)) OR uint (x 2)"

definition FOUR_BYTE_UINT :: "mem \<Rightarrow> u32" where
  "FOUR_BYTE_UINT x = push_bit 24 (ucast (x 0)) OR push_bit 16 (ucast (x 1)) OR push_bit 8 (ucast (x 2)) OR ucast (x 3)"

definition FOUR_BYTE_INT :: "mem \<Rightarrow> int" where
  "FOUR_BYTE_INT x = (16777216 * sint (x 0)) OR push_bit 16 (uint (x 1)) OR push_bit 8 (uint (x 2)) OR uint (x 3)"

definition serialGet :: "mem \<Rightarrow> u32 \<Rightarrow> rval" where
  "serialGet buf serial_type =
     (let x = push_bit 32 (ucast (FOUR_BYTE_UINT buf)) + ucast (FOUR_BYTE_UINT (ptr buf 4)) :: u64
      in if serial_type = 6 then RInt (sint x) else if IsNaN x then RNull else RReal x)"

definition serialGet7 :: "mem \<Rightarrow> bool \<times> rval" where
  "serialGet7 buf =
     (let x = push_bit 32 (ucast (FOUR_BYTE_UINT buf)) + ucast (FOUR_BYTE_UINT (ptr buf 4)) :: u64
      in if IsNaN x then (True, RNull) else (False, RReal x))"

definition sqlite3VdbeSerialGet :: "mem \<Rightarrow> u32 \<Rightarrow> rval" where
  "sqlite3VdbeSerialGet buf serial_type =
     (if serial_type = 10 then RNoChange
      else if serial_type = 11 \<or> serial_type = 0 then RNull
      else if serial_type = 1 then RInt (ONE_BYTE_INT buf)
      else if serial_type = 2 then RInt (TWO_BYTE_INT buf)
      else if serial_type = 3 then RInt (THREE_BYTE_INT buf)
      else if serial_type = 4 then RInt (FOUR_BYTE_INT buf)
      else if serial_type = 5 then RInt (uint (FOUR_BYTE_UINT (ptr buf 2)) + 2 ^ 32 * TWO_BYTE_INT buf)
      else if serial_type = 6 \<or> serial_type = 7 then serialGet buf serial_type
      else if serial_type = 8 \<or> serial_type = 9 then RInt (uint (serial_type - 8))
      else
        let z = map buf [0..<unat (serial_type - 12) div 2]
        in if even (unat serial_type) then RBlob z None else RStr z)"

text \<open>The decoder of integer fields used when keys are compared.\<close>

definition vdbeRecordDecodeInt :: "u32 \<Rightarrow> mem \<Rightarrow> int" where
  "vdbeRecordDecodeInt serial_type aKey =
     (if serial_type = 0 \<or> serial_type = 1 then ONE_BYTE_INT aKey
      else if serial_type = 2 then TWO_BYTE_INT aKey
      else if serial_type = 3 then THREE_BYTE_INT aKey
      else if serial_type = 4 then sint (FOUR_BYTE_UINT aKey)
      else if serial_type = 5 then uint (FOUR_BYTE_UINT (ptr aKey 2)) + 2 ^ 32 * TWO_BYTE_INT aKey
      else if serial_type = 6 then
        sint (push_bit 32 (ucast (FOUR_BYTE_UINT aKey)) OR ucast (FOUR_BYTE_UINT (ptr aKey 4)) :: u64)
      else uint (serial_type - 8))"

subsection \<open>Reading a record\<close>

text \<open>
  The loop over the fields; the first argument is how many fields may still be stored.  The code tests its limit after
  a field is stored, so one field is stored also with the limit zero.
\<close>

fun recordUnpackLoop :: "nat \<Rightarrow> mem \<Rightarrow> nat \<Rightarrow> nat \<Rightarrow> nat \<Rightarrow> nat \<Rightarrow> rval list \<times> nat" where
  "recordUnpackLoop 0 aKey nKey szHdr idx d = ([], d)"
| "recordUnpackLoop (Suc k) aKey nKey szHdr idx d =
     (if idx < szHdr \<and> d \<le> nKey then
        let (n, serial_type) = getVarint32 (ptr aKey idx);
            v = sqlite3VdbeSerialGet (ptr aKey d) serial_type;
            (vs, d') = recordUnpackLoop k aKey nKey szHdr ((idx + n) mod 2 ^ 32)
                         ((d + sqlite3VdbeSerialTypeLen serial_type) mod 2 ^ 32)
        in (v # vs, d')
      else ([], d))"

definition sqlite3VdbeRecordUnpack :: "nat \<Rightarrow> nat \<Rightarrow> mem \<Rightarrow> rval list" where
  "sqlite3VdbeRecordUnpack nField nKey aKey =
     (let (idx, szHdr) = getVarint32 aKey;
          (vs, d) = recordUnpackLoop (max nField 1) aKey nKey (unat szHdr) idx (unat szHdr)
      in if d > nKey \<and> vs \<noteq> [] then butlast vs @ [RNull] else vs)"

subsection \<open>Writing a record\<close>

text \<open>
  The conversion of an integer to the nearest double, ties to even: \<open>e\<close> is the exponent and \<open>q\<close>
  the mantissa with its leading one.
\<close>

fun floor_log2 :: "nat \<Rightarrow> nat" where
  "floor_log2 n = (if n < 2 then 0 else floor_log2 (n div 2) + 1)"

declare floor_log2.simps [simp del]

definition double_of_int :: "int \<Rightarrow> u64" where
  "double_of_int i =
     (let m = nat \<bar>i\<bar>; e = floor_log2 m; k = e - 52;
          q = (if e \<le> 52 then m * 2 ^ (52 - e) else m div 2 ^ k); r = (if e \<le> 52 then 0 else m mod 2 ^ k);
          q = (if e > 52 \<and> (2 * r > 2 ^ k \<or> 2 * r = 2 ^ k \<and> odd q) then q + 1 else q);
          (q, e) = (if q = 2 ^ 53 then (2 ^ 52, e + 1) else (q, e))
      in if m = 0 then 0
         else of_nat ((if i < 0 then 2 ^ 63 else 0) + (e + 1023) * 2 ^ 52 + (q - 2 ^ 52)))"

text \<open>The serial type of an integer; \<open>f4\<close> says that the file format is at least 4.\<close>

definition intSerialType :: "bool \<Rightarrow> int \<Rightarrow> u32" where
  "intSerialType f4 i =
     (let uu = (if i < 0 then - i - 1 else i) in
      if uu \<le> 127 then (if (i = 0 \<or> i = 1) \<and> f4 then 8 + word_of_int uu else 1)
      else if uu \<le> 32767 then 2
      else if uu \<le> 8388607 then 3
      else if uu \<le> 2147483647 then 4
      else if uu \<le> 140737488355327 then 5
      else 6)"

text \<open>
  The loop from the last field to the first.  For each field the value (a blob may be
  expanded, a large integer that stands for a real becomes one) and its serial type; then the
  bytes of the header without its size, of the data, and of the zero tail.
\<close>

definition recordSize1 ::
  "bool \<Rightarrow> rval \<Rightarrow> (rval \<times> u32) list \<times> nat \<times> nat \<times> nat \<times> mallocs \<Rightarrow> ((rval \<times> u32) list \<times> nat \<times> nat \<times> nat \<times> mallocs) option" where
  "recordSize1 f4 v st =
     (case st of (fs, nHdr, nData, nZero, ms) \<Rightarrow>
      (case v of
         RNull \<Rightarrow> Some ((v, 0) # fs, nHdr + 1, nData, nZero, ms)
       | RNoChange \<Rightarrow> Some ((v, 10) # fs, nHdr + 1, nData, nZero, ms)
       | RInt i \<Rightarrow>
           let t = intSerialType f4 i
           in Some ((v, t) # fs, nHdr + 1, nData + sqlite3SmallTypeSizes ! unat t, nZero, ms)
       | RIntReal i \<Rightarrow>
           let t = intSerialType f4 i
           in if t = 6 then Some ((RReal (double_of_int i), 7) # fs, nHdr + 1, nData + 8, nZero, ms)
              else Some ((v, t) # fs, nHdr + 1, nData + sqlite3SmallTypeSizes ! unat t, nZero, ms)
       | RReal r \<Rightarrow> Some ((v, 7) # fs, nHdr + 1, nData + 8, nZero, ms)
       | RStr z \<Rightarrow>
           let t = of_nat (length z * 2 + 12 + 1)
           in Some ((v, t) # fs, nHdr + sqlite3VarintLen (ucast t), nData + length z, nZero, ms)
       | RBlob z None \<Rightarrow>
           let t = of_nat (length z * 2 + 12)
           in Some ((v, t) # fs, nHdr + sqlite3VarintLen (ucast t), nData + length z, nZero, ms)
       | RBlob z (Some n) \<Rightarrow>
           let t = of_nat (length z * 2 + 12) + of_nat n * 2
           in if nData \<noteq> 0 then
                if malloc_ok ms then
                  Some ((RBlob (z @ replicate n 0) None, t) # fs, nHdr + sqlite3VarintLen (ucast t),
                    nData + length z + n, nZero, malloc_rest ms)
                else None
              else Some ((v, t) # fs, nHdr + sqlite3VarintLen (ucast t), nData + length z, nZero + n, ms)))"

fun recordSizes :: "bool \<Rightarrow> rval list \<Rightarrow> mallocs \<Rightarrow> ((rval \<times> u32) list \<times> nat \<times> nat \<times> nat \<times> mallocs) option" where
  "recordSizes f4 [] ms = Some ([], 0, 0, 0, ms)"
| "recordSizes f4 (v # vs) ms = (case recordSizes f4 vs ms of None \<Rightarrow> None | Some st \<Rightarrow> recordSize1 f4 v st)"

definition recordHdrSize :: "nat \<Rightarrow> nat" where
  "recordHdrSize nHdr =
     (if nHdr \<le> 126 then nHdr + 1
      else let nVarint = sqlite3VarintLen (of_nat nHdr); nHdr = nHdr + nVarint
           in if nVarint < sqlite3VarintLen (of_nat nHdr) then nHdr + 1 else nHdr)"

text \<open>The \<^verbatim>\<open>switch( len )\<close> that falls through: the low bytes of \<open>v\<close>, last byte first.\<close>

fun putBE :: "nat \<Rightarrow> u64 \<Rightarrow> mem \<Rightarrow> mem" where
  "putBE 0 v zPayload = zPayload"
| "putBE (Suc k) v zPayload = putBE k (drop_bit 8 v) (zPayload(k := ucast (v AND 0xff)))"

definition rval_bytes :: "rval \<Rightarrow> u8 list" where
  "rval_bytes v = (case v of RStr z \<Rightarrow> z | RBlob z _ \<Rightarrow> z | _ \<Rightarrow> [])"

definition rval_word :: "rval \<Rightarrow> u64" where
  "rval_word v = (case v of RReal r \<Rightarrow> r | RInt i \<Rightarrow> word_of_int i | RIntReal i \<Rightarrow> word_of_int i | _ \<Rightarrow> 0)"

fun recordWrite :: "(rval \<times> u32) list \<Rightarrow> nat \<Rightarrow> nat \<Rightarrow> mem \<Rightarrow> mem \<times> nat \<times> nat" where
  "recordWrite [] zHdr zPayload z = (z, zHdr, zPayload)"
| "recordWrite ((v, t) # fs) zHdr zPayload z =
     (if t \<le> 7 then
        let z = z(zHdr := ucast t) in
        if t = 0 then recordWrite fs (zHdr + 1) zPayload z
        else let len = sqlite3SmallTypeSizes ! unat t
             in recordWrite fs (zHdr + 1) (zPayload + len) (blit z zPayload (putBE len (rval_word v) (ptr z zPayload)))
      else if t < 0x80 then
        let z = z(zHdr := ucast t) in
        if t \<ge> 14 \<and> rval_bytes v \<noteq> [] then
          recordWrite fs (zHdr + 1) (zPayload + length (rval_bytes v)) (memcpy z zPayload (rval_bytes v))
        else recordWrite fs (zHdr + 1) zPayload z
      else
        let n = snd (sqlite3PutVarint (ptr z zHdr) (ucast t)); z = put_at sqlite3PutVarint zHdr (ucast t) z
        in recordWrite fs (zHdr + n) (zPayload + length (rval_bytes v)) (memcpy z zPayload (rval_bytes v)))"

datatype record_result = RecordTooBig | RecordNoMem | RecordBlob mem nat nat

text \<open>
  The opcode on the fields \<open>vs\<close>: \<open>z\<close> is the buffer of the output register, of \<open>szMalloc\<close> bytes.  The
  result has the buffer, the bytes written and the length of the zero tail.
\<close>

definition OP_MakeRecord :: "bool \<Rightarrow> nat \<Rightarrow> nat \<Rightarrow> mem \<Rightarrow> rval list \<Rightarrow> mallocs \<Rightarrow> record_result" where
  "OP_MakeRecord f4 limit szMalloc z vs ms =
     (case recordSizes f4 vs ms of None \<Rightarrow> RecordNoMem
      | Some (fs, nHdr, nData, nZero, ms) \<Rightarrow>
          let nHdr = recordHdrSize nHdr; nByte = nHdr + nData in
          if nByte + nZero > szMalloc \<and> nByte + nZero > limit then RecordTooBig
          else if nByte + nZero > szMalloc \<and> szMalloc < nByte \<and> \<not> malloc_ok ms then RecordNoMem
          else
            let z = (if nHdr < 0x80 then z(0 := of_nat nHdr) else put_at sqlite3PutVarint 0 (of_nat nHdr) z);
                n = (if nHdr < 0x80 then 1 else snd (sqlite3PutVarint z (of_nat nHdr)))
            in RecordBlob (fst (recordWrite fs n nHdr z)) nByte nZero)"

subsection \<open>What writing stores\<close>

definition vlen :: "u32 \<Rightarrow> nat" where
  "vlen t = snd (sqlite3PutVarint (\<lambda>_. 0) (ucast t))"

lemma PutVarint_vlen [simp]: "snd (sqlite3PutVarint p (ucast t)) = vlen t"
  by (simp add: vlen_def PutVarint_len)

definition be_bytes :: "nat \<Rightarrow> u64 \<Rightarrow> u8 list" where
  "be_bytes len v = map (\<lambda>k. ucast (drop_bit (8 * (len - 1 - k)) v)) [0..<len]"

text \<open>The bytes a field stores, and with the zero tail that follows them.\<close>

definition field_data :: "rval \<times> u32 \<Rightarrow> u8 list" where
  "field_data f = (case f of (v, t) \<Rightarrow>
     if t \<le> 7 then be_bytes (sqlite3SmallTypeSizes ! unat t) (rval_word v)
     else if t < 14 then [] else rval_bytes v)"

definition field_full :: "rval \<times> u32 \<Rightarrow> u8 list" where
  "field_full f = field_data f @ (case fst f of RBlob z (Some n) \<Rightarrow> replicate n 0 | _ \<Rightarrow> [])"

lemma length_be_bytes [simp]: "length (be_bytes n w) = n"
  by (simp add: be_bytes_def)

lemma memcpy_Nil [simp]: "memcpy q d [] = q"
  by (rule ext) (auto simp: memcpy_def)

lemma ucast_low_byte: "ucast (v AND 0xff :: u64) = (ucast v :: u8)"
  by (rule bit_word_eq_upt) (simp add: upt_8 bit_simps)

lemma putBE_eq: "putBE len v p i = (if i < len then ucast (drop_bit (8 * (len - 1 - i)) v) else p i)"
proof (induction len v p arbitrary: i rule: putBE.induct)
  case (2 k v p)
  have "8 * (k - 1 - i) + 8 = 8 * (k - i)" if "i < k" using that by simp
  then show ?case unfolding putBE.simps 2 by (auto simp: ucast_low_byte less_Suc_eq)
qed simp

lemma blit_putBE: "blit z d (putBE len v (ptr z d)) = memcpy z d (be_bytes len v)"
  by (rule ext) (auto simp: blit_def memcpy_def putBE_eq be_bytes_def ptr_apply)

lemma put_small:
  assumes "t < 0x80"
  shows "z(h := ucast t) = put_at sqlite3PutVarint h (ucast t) z" "vlen t = 1"
proof -
  have t: "(ucast t :: u64) \<le> 0x7f" using assms by (simp add: word_le_nat_alt word_less_nat_alt unat_ucast_up)
  have n: "unat t mod 256 = unat t" "unat t mod 128 = unat t" "unat t mod 18446744073709551616 = unat t"
    using assms by (simp_all add: word_less_nat_alt)
  have "unat (ucast (ucast t AND mask 7 :: u64) :: u8) = unat (ucast t :: u8)"
    by (simp only: unsigned_ucast_eq take_bit_eq_mod unat_and_mask) (simp add: n unat_ucast_up)
  then have "ucast (ucast t AND 0x7f :: u64) = (ucast t :: u8)" by (simp only: mask7_numeral word_unat_eq_iff)
  with t show "z(h := ucast t) = put_at sqlite3PutVarint h (ucast t) z"
    by (auto simp: put_at_def sqlite3PutVarint_def blit_def ptr_apply fun_eq_iff)
  show "vlen t = 1" using t by (simp add: vlen_def sqlite3PutVarint_def)
qed

lemma recordWrite_step:
  "recordWrite ((v, t) # fs) h d z =
    recordWrite fs (h + vlen t) (d + length (field_data (v, t)))
      (memcpy (put_at sqlite3PutVarint h (ucast t) z) d (field_data (v, t)))"
proof -
  consider (a) "t \<le> 7" | (b) "\<not> t \<le> 7" "t < 0x80" | (c) "\<not> t < 0x80" by blast
  then show ?thesis
  proof cases
    case a
    then have "t < 0x80" by (simp add: word_le_nat_alt word_less_nat_alt)
    with a put_small [of t] show ?thesis
      by (auto simp: Let_def field_data_def blit_putBE be_bytes_def sqlite3SmallTypeSizes_def)
  next
    case b
    with put_small [of t] show ?thesis by (auto simp: Let_def field_data_def not_less)
  next
    case c
    then have "\<not> t \<le> 7" "\<not> t < 14" by (auto simp: word_le_nat_alt word_less_nat_alt)
    with c show ?thesis by (simp add: Let_def field_data_def)
  qed
qed

lemmas recordWrite_simps = recordWrite.simps(1) recordWrite_step

abbreviation hdr_len :: "(rval \<times> u32) list \<Rightarrow> nat" where
  "hdr_len fs \<equiv> sum_list (map (\<lambda>f. vlen (snd f)) fs)"

abbreviation all_data :: "(rval \<times> u32) list \<Rightarrow> u8 list" where
  "all_data fs \<equiv> concat (map field_data fs)"

abbreviation all_full :: "(rval \<times> u32) list \<Rightarrow> u8 list" where
  "all_full fs \<equiv> concat (map field_full fs)"

lemma recordWrite_ends: "snd (recordWrite fs h d z) = (h + hdr_len fs, d + length (all_data fs))"
proof (induction fs arbitrary: h d z)
  case (Cons f fs)
  then show ?case by (cases f) (simp add: recordWrite_step del: recordWrite.simps)
qed simp

lemma recordWrite_frame:
  "h + hdr_len fs \<le> d \<Longrightarrow> i < h \<or> h + hdr_len fs \<le> i \<and> i < d \<or> d + length (all_data fs) \<le> i \<Longrightarrow>
   fst (recordWrite fs h d z) i = z i"
proof (induction fs arbitrary: h d z)
  case (Cons f fs)
  obtain v t where f: "f = (v, t)" by fastforce
  let ?z = "memcpy (put_at sqlite3PutVarint h (ucast t) z) d (field_data (v, t))"
  have "fst (recordWrite fs (h + vlen t) (d + length (field_data (v, t))) ?z) i = ?z i"
    using Cons.prems by (intro Cons.IH) (auto simp: f)
  also have "?z i = z i"
    using Cons.prems by (auto simp: f memcpy_outside vc.put_at_frame)
  finally show ?case by (simp add: f recordWrite_step del: recordWrite.simps)
qed simp

lemma recordWrite_data:
  "h + hdr_len fs \<le> d \<Longrightarrow> k < length (all_data fs) \<Longrightarrow>
   fst (recordWrite fs h d z) (d + k) = all_data fs ! k"
proof (induction fs arbitrary: h d z k)
  case (Cons f fs)
  obtain v t where f: "f = (v, t)" by fastforce
  let ?z = "memcpy (put_at sqlite3PutVarint h (ucast t) z) d (field_data (v, t))"
  let ?n = "length (field_data (v, t))"
  have "fst (recordWrite fs (h + vlen t) (d + ?n) ?z) (d + k) = all_data (f # fs) ! k"
  proof (cases "k < ?n")
    case True
    then have "fst (recordWrite fs (h + vlen t) (d + ?n) ?z) (d + k) = ?z (d + k)"
      using Cons.prems by (intro recordWrite_frame) (auto simp: f)
    with True show ?thesis by (simp add: f memcpy_inside nth_append)
  next
    case False
    then have "fst (recordWrite fs (h + vlen t) (d + ?n) ?z) (d + ?n + (k - ?n)) = all_data fs ! (k - ?n)"
      using Cons.prems by (intro Cons.IH) (auto simp: f)
    with False show ?thesis by (simp add: f nth_append)
  qed
  then show ?case by (simp add: f recordWrite_step del: recordWrite.simps)
qed simp

lemma recordWrite_header:
  "h + hdr_len fs \<le> d \<Longrightarrow>
   get_seq sqlite3GetVarint h (length fs) (fst (recordWrite fs h d z)) = (map (\<lambda>f. ucast (snd f)) fs, h + hdr_len fs)"
proof (induction fs arbitrary: h d z)
  case (Cons f fs)
  obtain v t where f: "f = (v, t)" by fastforce
  let ?z = "memcpy (put_at sqlite3PutVarint h (ucast t) z) d (field_data (v, t))"
  let ?r = "fst (recordWrite fs (h + vlen t) (d + length (field_data (v, t))) ?z)"
  have "sqlite3GetVarint (ptr (put_at sqlite3PutVarint h (ucast t) z) h) = (vlen t, ucast t)"
    by (simp add: vc.get_put_at)
  then have "sqlite3GetVarint (ptr ?r h) = (vlen t, ucast t)"
  proof (rule vc.get_local)
    fix i assume "i < vlen t"
    then have "?r (h + i) = ?z (h + i)" using Cons.prems by (intro recordWrite_frame) (auto simp: f)
    also have "\<dots> = put_at sqlite3PutVarint h (ucast t) z (h + i)"
      using \<open>i < vlen t\<close> Cons.prems by (simp add: f memcpy_outside)
    finally show "ptr ?r h i = ptr (put_at sqlite3PutVarint h (ucast t) z) h i" by (simp add: ptr_apply)
  qed
  moreover have "get_seq sqlite3GetVarint (h + vlen t) (length fs) ?r = (map (\<lambda>f. ucast (snd f)) fs, h + vlen t + hdr_len fs)"
    using Cons.prems by (intro Cons.IH) (auto simp: f)
  ultimately show ?case by (simp add: f recordWrite_step del: recordWrite.simps)
qed simp


subsection \<open>What reading one value finds\<close>

definition reads :: "mem \<Rightarrow> u8 list \<Rightarrow> bool" where
  "reads p bs \<longleftrightarrow> (\<forall>k < length bs. p k = bs ! k)"

lemma reads_be: "reads p (be_bytes n v) \<Longrightarrow> k < n \<Longrightarrow> p k = ucast (drop_bit (8 * (n - 1 - k)) v)"
  by (simp add: reads_def be_bytes_def)

lemma int_push_or: "0 \<le> b \<Longrightarrow> b < 2 ^ n \<Longrightarrow> (2 ^ n * a) OR b = 2 ^ n * a + (b :: int)"
proof -
  assume "0 \<le> b" "b < 2 ^ n"
  then have "take_bit n b = b" by (simp add: take_bit_int_eq_self)
  then have b: "\<not> bit b m" if "n \<le> m" for m using that by (metis bit_take_bit_iff leD)
  have "push_bit n a + b = push_bit n a OR b"
    by (rule disjunctive_add) (use b in \<open>auto simp: bit_simps\<close>)
  then show ?thesis by (simp add: push_bit_eq_mult mult.commute)
qed

lemma uint_drop_bit: "uint (drop_bit k w) = drop_bit k (uint (w :: 'a::len word))"
  by (rule bit_eqI) (auto simp: bit_simps dest: bit_imp_le_length)

lemma uint_be_byte:
  "k + 8 \<le> 64 \<Longrightarrow> uint (ucast (drop_bit k (word_of_int i :: u64)) :: u8) = i div 2 ^ k mod 256"
proof -
  assume "k + 8 \<le> 64"
  then have "take_bit 8 (drop_bit k (take_bit 64 i)) = take_bit 8 (drop_bit k i)"
    by (simp add: drop_bit_take_bit)
  moreover have "uint (ucast (drop_bit k (word_of_int i :: u64)) :: u8) = take_bit 8 (drop_bit k (take_bit 64 i))"
    by (simp add: unsigned_ucast_eq uint_drop_bit uint_word_of_int_eq)
  ultimately show ?thesis by (simp add: take_bit_eq_mod drop_bit_eq_div)
qed

lemma sint_be_byte:
  assumes "k + 8 \<le> 64" "- (2 ^ (k + 7)) \<le> i" "i < 2 ^ (k + 7)"
  shows "sint (ucast (drop_bit k (word_of_int i :: u64)) :: u8) = i div 2 ^ k"
proof -
  have "sint (ucast (drop_bit k (word_of_int i :: u64)) :: u8) = signed_take_bit 7 (take_bit 8 (i div 2 ^ k))"
    by (simp add: sint_uint uint_be_byte [OF assms(1)] take_bit_eq_mod)
  also have "\<dots> = signed_take_bit 7 (i div 2 ^ k)" by (simp add: signed_take_bit_take_bit)
  also have "\<dots> = i div 2 ^ k"
  proof -
    have "i div 2 ^ k * 2 ^ k \<le> i" by (simp add: minus_mod_eq_div_mult [symmetric])
    moreover have "i < 2 ^ 7 * 2 ^ k" using assms(3) by (simp add: power_add mult.commute)
    ultimately have "i div 2 ^ k * 2 ^ k < 2 ^ 7 * 2 ^ k" by (rule order.strict_trans1)
    then have "i div 2 ^ k < 2 ^ 7" by (rule mult_right_less_imp_less) simp
    moreover have "- (2 ^ 7) \<le> i div 2 ^ k"
    proof -
      have "- (2 ^ 7) * 2 ^ k \<le> i" using assms(2) by (simp add: power_add mult.commute)
      from zdiv_mono1 [OF this, of "2 ^ k"] show ?thesis by (simp only: nonzero_mult_div_cancel_right) simp
    qed
    ultimately show ?thesis by (simp add: signed_take_bit_int_eq_self_iff)
  qed
  finally show ?thesis .
qed

lemma TWO_BYTE_INT_sum: "TWO_BYTE_INT p = 256 * sint (p 0) + uint (p 1)"
  using int_push_or [of "uint (p 1)" 8 "sint (p 0)"] unsigned_less [of "p 1"] by (simp add: TWO_BYTE_INT_def)

lemma uint_u8_bounds: "0 \<le> uint (x :: u8)" "uint x < 256"
  using unsigned_less [of x] by simp_all

lemma THREE_BYTE_INT_sum: "THREE_BYTE_INT p = 65536 * sint (p 0) + 256 * uint (p 1) + uint (p 2)"
proof -
  have "(256 * uint (p 1)) OR uint (p 2) = 256 * uint (p 1) + uint (p 2)"
    using int_push_or [of "uint (p 2)" 8 "uint (p 1)"] uint_u8_bounds by simp
  then show ?thesis
    using int_push_or [of "256 * uint (p 1) + uint (p 2)" 16 "sint (p 0)"] uint_u8_bounds [of "p 1"] uint_u8_bounds [of "p 2"]
    by (simp add: THREE_BYTE_INT_def push_bit_eq_mult mult.commute [of _ 256] or.assoc)
qed

lemma FOUR_BYTE_low:
  "0 \<le> 65536 * uint (b :: u8) + 256 * uint (c :: u8) + uint (d :: u8) \<and>
   65536 * uint b + 256 * uint c + uint d < 16777216 \<and>
   (push_bit 16 (uint b) OR push_bit 8 (uint c) OR uint d) = 65536 * uint b + 256 * uint c + uint d"
proof -
  have "(256 * uint c) OR uint d = 256 * uint c + uint d"
    using int_push_or [of "uint d" 8 "uint c"] uint_u8_bounds by simp
  then show ?thesis
    using int_push_or [of "256 * uint c + uint d" 16 "uint b"] uint_u8_bounds [of b] uint_u8_bounds [of c] uint_u8_bounds [of d]
    by (simp add: push_bit_eq_mult mult.commute [of _ 256] mult.commute [of _ 65536])
qed

lemma FOUR_BYTE_INT_sum:
  "FOUR_BYTE_INT p = 16777216 * sint (p 0) + (65536 * uint (p 1) + 256 * uint (p 2) + uint (p 3))"
  using int_push_or [of "65536 * uint (p 1) + 256 * uint (p 2) + uint (p 3)" 24 "sint (p 0)"]
    FOUR_BYTE_low [of "p 1" "p 2" "p 3"]
  by (simp add: FOUR_BYTE_INT_def or.assoc)

lemma FOUR_BYTE_UINT_sum:
  "uint (FOUR_BYTE_UINT p) = 16777216 * uint (p 0) + (65536 * uint (p 1) + 256 * uint (p 2) + uint (p 3))"
proof -
  have "uint (FOUR_BYTE_UINT p) = (push_bit 24 (uint (p 0)) OR (push_bit 16 (uint (p 1)) OR push_bit 8 (uint (p 2)) OR uint (p 3)))"
    unfolding FOUR_BYTE_UINT_def by (rule bit_eqI) (auto simp: bit_simps dest: bit_imp_le_length)
  then show ?thesis
    using int_push_or [of "65536 * uint (p 1) + 256 * uint (p 2) + uint (p 3)" 24 "uint (p 0)"]
      FOUR_BYTE_low [of "p 1" "p 2" "p 3"]
    by (simp add: push_bit_eq_mult mult.commute)
qed

text \<open>An integer is the sum of its bytes, the first one signed.\<close>

lemma byte_digits:
  fixes i a b c d e :: int
  assumes "i = 256 * a + r0" "a = 256 * b + r1" "b = 256 * c + r2" "c = 256 * d + r3" "d = 256 * e + r4"
  shows "65536 * b + 256 * r1 + r0 = i" "16777216 * c + (65536 * r2 + 256 * r1 + r0) = i"
    "16777216 * r3 + (65536 * r2 + 256 * r1 + r0) + (1099511627776 * e + 4294967296 * r4) = i"
  using assms by simp_all

lemma div_step: "k = 256 * m \<Longrightarrow> 0 \<le> m \<Longrightarrow> i div m = 256 * (i div k) + i div m mod (256 :: int)"
  by (simp add: mult.commute [of 256] zdiv_zmult2_eq)

lemmas byte_sums = byte_digits
  [OF mult_div_mod_eq [symmetric] div_step [of 65536 256, simplified] div_step [of 16777216 65536, simplified]
    div_step [of 4294967296 16777216, simplified] div_step [of 1099511627776 4294967296, simplified]]

lemmas be_int = uint_be_byte uint_be_byte [of 0, simplified] sint_be_byte sint_be_byte [of 0, simplified] TWO_BYTE_INT_sum THREE_BYTE_INT_sum FOUR_BYTE_INT_sum FOUR_BYTE_UINT_sum
  ONE_BYTE_INT_def ptr_apply byte_sums

lemma eight_bytes:
  assumes "reads p (be_bytes 8 v)"
  shows "push_bit 32 (ucast (FOUR_BYTE_UINT p)) + ucast (FOUR_BYTE_UINT (ptr p 4)) = v"
proof -
  have "push_bit 32 (ucast (FOUR_BYTE_UINT p)) + ucast (FOUR_BYTE_UINT (ptr p 4)) =
    (push_bit 32 (ucast (FOUR_BYTE_UINT p)) OR ucast (FOUR_BYTE_UINT (ptr p 4)) :: u64)"
    by (rule disjunctive_add) (auto simp: bit_simps)
  also have "\<dots> = v"
    by (rule bit_word_eq_upt)
      (simp add: FOUR_BYTE_UINT_def ptr_apply reads_be [OF assms] upt_64 bit_simps)
  finally show ?thesis .
qed

lemma intSerialType_cases:
  obtains "f4" "i = 0 \<or> i = 1" "intSerialType f4 i = 8 + word_of_int i"
    | "- (2 ^ 7) \<le> i" "i < 2 ^ 7" "intSerialType f4 i = 1"
    | "- (2 ^ 15) \<le> i" "i < 2 ^ 15" "intSerialType f4 i = 2"
    | "- (2 ^ 23) \<le> i" "i < 2 ^ 23" "intSerialType f4 i = 3"
    | "- (2 ^ 31) \<le> i" "i < 2 ^ 31" "intSerialType f4 i = 4"
    | "- (2 ^ 47) \<le> i" "i < 2 ^ 47" "intSerialType f4 i = 5"
    | "intSerialType f4 i = 6"
proof -
  let ?u = "if i < 0 then - i - 1 else i"
  have u: "?u < n \<longleftrightarrow> - n \<le> i \<and> i < n" if "0 < n" for n using that by auto
  consider "f4" "i = 0 \<or> i = 1" | "\<not> (f4 \<and> (i = 0 \<or> i = 1))" "?u \<le> 127"
    | "\<not> ?u \<le> 127" "?u \<le> 32767" | "\<not> ?u \<le> 127" "\<not> ?u \<le> 32767" "?u \<le> 8388607"
    | "\<not> ?u \<le> 127" "\<not> ?u \<le> 32767" "\<not> ?u \<le> 8388607" "?u \<le> 2147483647"
    | "\<not> ?u \<le> 127" "\<not> ?u \<le> 32767" "\<not> ?u \<le> 8388607" "\<not> ?u \<le> 2147483647" "?u \<le> 140737488355327"
    | "\<not> ?u \<le> 127" "\<not> ?u \<le> 32767" "\<not> ?u \<le> 8388607" "\<not> ?u \<le> 2147483647" "\<not> ?u \<le> 140737488355327"
    by blast
  then show thesis
  proof cases
    case 1
    then show thesis by (intro that(1)) (auto simp: intSerialType_def)
  next
    case 2
    then have "- (2 ^ 7) \<le> i" "i < 2 ^ 7" using u [of "2 ^ 7"] by (auto split: if_splits)
    moreover have "intSerialType f4 i = 1" using 2 by (auto simp: intSerialType_def Let_def)
    ultimately show thesis by (rule that(2))
  next
    case 3
    then show thesis using u [of "2 ^ 15"] by (intro that(3)) (simp_all add: intSerialType_def Let_def)
  next
    case 4
    then show thesis using u [of "2 ^ 23"] by (intro that(4)) (simp_all add: intSerialType_def Let_def)
  next
    case 5
    then show thesis using u [of "2 ^ 31"] by (intro that(5)) (simp_all add: intSerialType_def Let_def)
  next
    case 6
    then show thesis using u [of "2 ^ 47"] by (intro that(6)) (simp_all add: intSerialType_def Let_def)
  next
    case 7
    then show thesis by (intro that(7)) (simp_all add: intSerialType_def Let_def)
  qed
qed

lemma SerialGet_int:
  assumes i: "- (2 ^ 63) \<le> i" "i < 2 ^ 63" and p: "reads p (be_bytes (sqlite3SmallTypeSizes ! unat (intSerialType f4 i)) (word_of_int i))"
  shows "sqlite3VdbeSerialGet p (intSerialType f4 i) = RInt i"
proof (cases rule: intSerialType_cases [of f4 i])
  case 1
  from 1(2) show ?thesis
  proof
    assume "i = 0"
    with 1 show ?thesis by (simp only: sqlite3VdbeSerialGet_def) simp
  next
    assume "i = 1"
    with 1 show ?thesis by (simp only: sqlite3VdbeSerialGet_def) simp
  qed
next
  case 2
  with p have "reads p (be_bytes 1 (word_of_int i))" by (simp add: sqlite3SmallTypeSizes_def)
  note p = reads_be [OF this]
  show ?thesis using 2 by (simp add: sqlite3VdbeSerialGet_def be_int p)
next
  case 3
  with p have "reads p (be_bytes 2 (word_of_int i))" by (simp add: sqlite3SmallTypeSizes_def)
  note p = reads_be [OF this]
  show ?thesis using 3 by (simp add: sqlite3VdbeSerialGet_def be_int p)
next
  case 4
  with p have "reads p (be_bytes 3 (word_of_int i))" by (simp add: sqlite3SmallTypeSizes_def)
  note p = reads_be [OF this]
  show ?thesis using 4 by (simp add: sqlite3VdbeSerialGet_def be_int p)
next
  case 5
  with p have "reads p (be_bytes 4 (word_of_int i))" by (simp add: sqlite3SmallTypeSizes_def)
  note p = reads_be [OF this]
  show ?thesis using 5 by (simp add: sqlite3VdbeSerialGet_def be_int p)
next
  case 6
  with p have "reads p (be_bytes 6 (word_of_int i))" by (simp add: sqlite3SmallTypeSizes_def)
  note p = reads_be [OF this]
  show ?thesis using 6 by (simp add: sqlite3VdbeSerialGet_def be_int p)
next
  case 7
  with p have "reads p (be_bytes 8 (word_of_int i))" by (simp add: sqlite3SmallTypeSizes_def)
  note e = eight_bytes [OF this]
  have "sint (word_of_int i :: u64) = i"
    using i by (simp add: sint_uint uint_word_of_int_eq signed_take_bit_take_bit signed_take_bit_int_eq_self_iff)
  then show ?thesis using 7 by (simp add: sqlite3VdbeSerialGet_def serialGet_def e)
qed

lemma SerialGet_real:
  "reads p (be_bytes 8 r) \<Longrightarrow> sqlite3VdbeSerialGet p 7 = (if IsNaN r then RNull else RReal r)"
  by (simp add: sqlite3VdbeSerialGet_def serialGet_def eight_bytes)

subsection \<open>What the size loop prepares\<close>

text \<open>
  The values a register can hold: 64-bit integers, and strings and blobs of at most
  \<^verbatim>\<open>SQLITE_MAX_LENGTH\<close> bytes.
\<close>

definition rval_ok :: "rval \<Rightarrow> bool" where
  "rval_ok v = (case v of
      RInt i \<Rightarrow> - (2 ^ 63) \<le> i \<and> i < 2 ^ 63
    | RIntReal i \<Rightarrow> - (2 ^ 63) \<le> i \<and> i < 2 ^ 63
    | RStr z \<Rightarrow> length z \<le> 1000000000
    | RBlob z None \<Rightarrow> length z \<le> 1000000000
    | RBlob z (Some n) \<Rightarrow> length z + n \<le> 1000000000
    | _ \<Rightarrow> True)"

text \<open>
  What a field holds once stored: a blob with its tail, an integer for an integer, and no
  value for a not-a-number.
\<close>

definition stored_real :: "u64 \<Rightarrow> rval" where
  "stored_real r = (if IsNaN r then RNull else RReal r)"

definition stored_value :: "rval \<Rightarrow> rval" where
  "stored_value v = (case v of
      RIntReal i \<Rightarrow> if intSerialType True i = 6 then stored_real (double_of_int i) else RInt i
    | RReal r \<Rightarrow> stored_real r
    | RBlob z (Some n) \<Rightarrow> RBlob (z @ replicate n 0) None
    | _ \<Rightarrow> v)"

text \<open>A prepared field is good for a value when any memory that holds its bytes reads as the value.\<close>

definition good_field :: "rval \<Rightarrow> rval \<times> u32 \<Rightarrow> bool" where
  "good_field v f \<longleftrightarrow> sqlite3VdbeSerialTypeLen (snd f) = length (field_full f) \<and>
     (\<forall>p. reads p (field_full f) \<longrightarrow> sqlite3VdbeSerialGet p (snd f) = stored_value v)"

lemma unat_of_nat_u32: "n < 4294967296 \<Longrightarrow> unat (of_nat n :: u32) = n"
  by (simp add: unat_of_nat take_bit_nat_eq_self)

lemma SmallTypeSizes_text: "n < 116 \<Longrightarrow> sqlite3SmallTypeSizes ! (n + 12) = n div 2"
proof -
  have "list_all (\<lambda>n. sqlite3SmallTypeSizes ! (n + 12) = n div 2) [0..<116]"
    by (simp add: sqlite3SmallTypeSizes_def upt_rec)
  then show "n < 116 \<Longrightarrow> ?thesis" by (simp add: list_all_iff)
qed

lemma text_type:
  assumes "n < 4294967284" and t: "t = (of_nat (n + 12) :: u32)"
  shows "unat t = n + 12" "unat (t - 12) = n" "sqlite3VdbeSerialTypeLen t = n div 2" "\<not> t \<le> 7"
    "t < 14 \<longleftrightarrow> n < 2" "t \<notin> {0, 1, 2, 3, 4, 5, 6, 7, 8, 9, 10, 11}"
proof -
  show u: "unat t = n + 12" using assms by (simp add: unat_of_nat_u32 del: of_nat_add)
  show w: "unat (t - 12) = n" using assms by (simp add: unat_of_nat_u32)
  show "sqlite3VdbeSerialTypeLen t = n div 2"
    using w u SmallTypeSizes_text [of n] by (simp add: sqlite3VdbeSerialTypeLen_def word_le_nat_alt)
  show "\<not> t \<le> 7" "t < 14 \<longleftrightarrow> n < 2" using u by (auto simp: word_le_nat_alt word_less_nat_alt)
  show "t \<notin> {0, 1, 2, 3, 4, 5, 6, 7, 8, 9, 10, 11}" using u by (auto simp: word_unat_eq_iff)
qed

lemma SerialGet_text:
  assumes "2 * length bs + b < 4294967284" "b < 2" and t: "t = (of_nat (2 * length bs + b + 12) :: u32)" and "reads p bs"
  shows "sqlite3VdbeSerialTypeLen t = length bs" "sqlite3VdbeSerialGet p t = (if b = 0 then RBlob bs None else RStr bs)"
proof -
  note tt = text_type [OF assms(1) t]
  have d: "(2 * length bs + b) div 2 = length bs" using assms(2) by simp
  then show "sqlite3VdbeSerialTypeLen t = length bs" using tt(3) by simp
  have "map p [0..<length bs] = bs" using assms(4) by (auto simp: reads_def intro: nth_equalityI)
  moreover have "even (unat t) \<longleftrightarrow> b = 0" using assms(2) by (simp only: tt(1)) auto
  ultimately show "sqlite3VdbeSerialGet p t = (if b = 0 then RBlob bs None else RStr bs)"
    using tt(6) by (simp add: sqlite3VdbeSerialGet_def tt(2) d Let_def)
qed

lemma good_text:
  assumes "2 * length bs + b < 4294967284" "b < 2" "t = (of_nat (2 * length bs + b + 12) :: u32)"
    and "field_full (w, t) = bs" "stored_value v = (if b = 0 then RBlob bs None else RStr bs)"
  shows "good_field v (w, t)"
proof -
  have "sqlite3VdbeSerialTypeLen t = length bs"
    using SerialGet_text(1) [OF assms(1,2,3), of "\<lambda>k. bs ! k"] by (simp add: reads_def)
  then show ?thesis using SerialGet_text(2) [OF assms(1,2,3)] by (simp add: good_field_def assms(4,5))
qed

lemma small_data:
  "t \<le> 7 \<Longrightarrow> field_data (w, t) = be_bytes (sqlite3SmallTypeSizes ! unat t) (rval_word w)"
  by (simp add: field_data_def)

lemma text_data:
  "n < 4294967284 \<Longrightarrow> t = (of_nat (n + 12) :: u32) \<Longrightarrow> (n < 2 \<Longrightarrow> rval_bytes w = []) \<Longrightarrow> field_data (w, t) = rval_bytes w"
  using text_type(4,5) [of n t] by (auto simp: field_data_def)

lemma intSerialType_le: "unat (intSerialType f4 i) \<le> 9"
  by (cases rule: intSerialType_cases [of f4 i]) auto

lemma intSerialType_8: "8 \<le> unat (intSerialType f4 i) \<Longrightarrow> sqlite3SmallTypeSizes ! unat (intSerialType f4 i) = 0"
proof -
  assume "8 \<le> unat (intSerialType f4 i)"
  with intSerialType_le [of f4 i] have "unat (intSerialType f4 i) = 8 \<or> unat (intSerialType f4 i) = 9" by linarith
  then show ?thesis by (auto simp: sqlite3SmallTypeSizes_def)
qed

lemma int_data:
  assumes "t = intSerialType f4 i" "rval_word w = word_of_int i"
  shows "field_data (w, t) = be_bytes (sqlite3SmallTypeSizes ! unat t) (word_of_int i)"
proof (cases "t \<le> 7")
  case False
  then have "8 \<le> unat t" "t < 14" using intSerialType_le [of f4 i] assms(1) by (auto simp: word_le_nat_alt word_less_nat_alt)
  with False show ?thesis using intSerialType_8 [of f4 i] assms(1) by (simp add: field_data_def be_bytes_def)
qed (simp add: field_data_def assms)

lemma intSerialType_6: "intSerialType f4 i = 6 \<longleftrightarrow> intSerialType True i = 6"
  by (auto simp: intSerialType_def Let_def)

lemma good_int:
  assumes "- (2 ^ 63) \<le> i" "i < 2 ^ 63" "t = intSerialType f4 i" "rval_word w = word_of_int i"
    "stored_value v = RInt i" "field_full (w, t) = field_data (w, t)"
  shows "good_field v (w, t)"
proof -
  have "sqlite3VdbeSerialTypeLen t = sqlite3SmallTypeSizes ! unat t"
    using intSerialType_le [of f4 i] assms(3) by (simp add: sqlite3VdbeSerialTypeLen_def word_le_nat_alt)
  with SerialGet_int [OF assms(1,2)] show ?thesis
    by (simp add: good_field_def assms(5,6) int_data [OF assms(3,4)]) (simp add: assms(3))
qed

lemma good_real: "field_full (RReal r, 7) = be_bytes 8 r \<and> good_field (RReal r) (RReal r, 7)"
proof -
  have "field_full (RReal r, 7) = be_bytes 8 r"
    by (simp add: field_full_def field_data_def rval_word_def sqlite3SmallTypeSizes_def)
  moreover have "sqlite3VdbeSerialTypeLen 7 = 8" by (simp add: sqlite3VdbeSerialTypeLen_def sqlite3SmallTypeSizes_def)
  ultimately show ?thesis
    using SerialGet_real [of _ r] by (simp add: good_field_def stored_value_def stored_real_def)
qed

text \<open>The sizes the loop keeps, for the fields prepared so far.\<close>

definition sized :: "(rval \<times> u32) list \<Rightarrow> nat \<Rightarrow> nat \<Rightarrow> nat \<Rightarrow> bool" where
  "sized fs nHdr nData nZero \<longleftrightarrow> nHdr = hdr_len fs \<and> nData = length (all_data fs) \<and>
     all_full fs = all_data fs @ replicate nZero 0"

lemma sized_plain:
  "sized fs nHdr nData nZero \<Longrightarrow> field_full f = field_data f \<Longrightarrow> h = nHdr + vlen (snd f) \<Longrightarrow> d = nData + length (field_data f) \<Longrightarrow>
   sized (f # fs) h d nZero"
  by (auto simp: sized_def)

lemma sized_zero:
  "sized fs nHdr 0 nZero \<Longrightarrow> field_full f = field_data f @ replicate n 0 \<Longrightarrow> h = nHdr + vlen (snd f) \<Longrightarrow> d = length (field_data f) \<Longrightarrow>
   sized (f # fs) h d (nZero + n)"
proof -
  assume s: "sized fs nHdr 0 nZero" and f: "field_full f = field_data f @ replicate n 0" "h = nHdr + vlen (snd f)" "d = length (field_data f)"
  from s have "all_data fs = []" by (simp add: sized_def)
  with s f show ?thesis by (simp add: sized_def add.commute [of nZero] replicate_add)
qed

lemma VarintLen_u32: "sqlite3VarintLen (ucast (t :: u32)) = vlen t"
proof -
  have "drop_bit 56 (ucast t :: u64) = 0"
    using unat_u32_less [of t] by (simp add: drop_bit_zero_iff unat_ucast_up del: unat_u32_less)
  then show ?thesis using PutVarint_len_le8 [of "ucast t"] by (simp add: VarintLen_buf vlen_def PutVarint_len)
qed

lemma vlen_small: "unat t < 128 \<Longrightarrow> vlen t = 1"
  by (rule put_small(2)) (simp add: word_less_nat_alt)

lemma Size1_int:
  assumes "sized fs nHdr nData nZero" "- (2 ^ 63) \<le> i" "i < 2 ^ 63" and t: "t = intSerialType f4 i" and w: "w = RInt i \<or> w = RIntReal i"
    and v: "stored_value v = RInt i"
  shows "good_field v (w, t) \<and> sized ((w, t) # fs) (nHdr + 1) (nData + sqlite3SmallTypeSizes ! unat t) nZero"
proof -
  have r: "rval_word w = word_of_int i" and f: "field_full (w, t) = field_data (w, t)"
    using w by (auto simp: rval_word_def field_full_def)
  have "length (field_data (w, t)) = sqlite3SmallTypeSizes ! unat t" by (simp only: int_data [OF t r] length_be_bytes)
  moreover have "vlen t = 1" using intSerialType_le [of f4 i] t by (intro vlen_small) simp
  ultimately have "sized ((w, t) # fs) (nHdr + 1) (nData + sqlite3SmallTypeSizes ! unat t) nZero"
    by (intro sized_plain [OF assms(1) f]) simp_all
  with good_int [OF assms(2,3) t r v f] show ?thesis by simp
qed

lemma Size1_null:
  assumes "sized fs nHdr nData nZero" "v = RNull \<and> t = 0 \<or> v = RNoChange \<and> t = 10"
  shows "good_field v (v, t) \<and> sized ((v, t) # fs) (nHdr + 1) nData nZero"
proof -
  have d: "field_data (v, t) = []" "field_full (v, t) = []" "vlen t = 1"
    using assms(2) by (auto simp: field_full_def field_data_def be_bytes_def sqlite3SmallTypeSizes_def vlen_small)
  then have "sized ((v, t) # fs) (nHdr + 1) nData nZero" by (intro sized_plain [OF assms(1)]) simp_all
  with assms(2) d show ?thesis
    by (auto simp: good_field_def sqlite3VdbeSerialTypeLen_def sqlite3SmallTypeSizes_def sqlite3VdbeSerialGet_def stored_value_def)
qed

lemma Size1_text:
  assumes "sized fs nHdr nData nZero" and t: "t = (of_nat (2 * length bs + b + 12) :: u32)"
    and b: "2 * length bs + b < 4294967284" "b < 2" and w: "w = RStr bs \<or> w = RBlob bs None"
    and v: "stored_value v = (if b = 0 then RBlob bs None else RStr bs)"
  shows "good_field v (w, t) \<and> sized ((w, t) # fs) (nHdr + sqlite3VarintLen (ucast t)) (nData + length bs) nZero"
proof -
  have r: "rval_bytes w = bs" using w by (auto simp: rval_bytes_def)
  have d: "field_data (w, t) = bs" using text_data [OF b(1) t, of w] r by (cases bs) auto
  have "field_full (w, t) = field_data (w, t)" using w by (auto simp: field_full_def)
  with d have f: "field_full (w, t) = bs" by simp
  have "sized ((w, t) # fs) (nHdr + sqlite3VarintLen (ucast t)) (nData + length bs) nZero"
    by (rule sized_plain [OF assms(1)]) (simp_all add: f d VarintLen_u32)
  with good_text [OF b t f v] show ?thesis by simp
qed

lemma Size1_zero:
  assumes "sized fs nHdr 0 nZero" and t: "t = (of_nat (2 * (length z + n) + 12) :: u32)" and b: "2 * (length z + n) < 4294967284"
  shows "good_field (RBlob z (Some n)) (RBlob z (Some n), t) \<and>
    sized ((RBlob z (Some n), t) # fs) (nHdr + sqlite3VarintLen (ucast t)) (length z) (nZero + n)"
proof -
  let ?f = "(RBlob z (Some n), t)"
  have d: "field_data ?f = z" using text_data [OF b t, of "RBlob z (Some n)"] by (cases z) (auto simp: rval_bytes_def)
  then have f: "field_full ?f = z @ replicate n 0" by (simp add: field_full_def)
  have "sized (?f # fs) (nHdr + sqlite3VarintLen (ucast t)) (length z) (nZero + n)"
    by (rule sized_zero [OF assms(1)]) (simp_all add: f d VarintLen_u32)
  with good_text [of "z @ replicate n 0" 0 t "RBlob z (Some n)" "RBlob z (Some n)"] b t f show ?thesis
    by (simp add: stored_value_def)
qed

lemma recordSize1_ok:
  assumes "recordSize1 f4 v (fs, nHdr, nData, nZero, ms) = Some (fs', nHdr', nData', nZero', ms')"
    and s: "sized fs nHdr nData nZero" and ok: "rval_ok v"
  shows "\<exists>f. fs' = f # fs \<and> good_field v f \<and> sized fs' nHdr' nData' nZero'"
proof (cases v)
  case RNull
  with assms(1) Size1_null [OF s, of v 0] show ?thesis by (auto simp: recordSize1_def)
next
  case RNoChange
  with assms(1) Size1_null [OF s, of v 10] show ?thesis by (auto simp: recordSize1_def)
next
  case (RInt i)
  with assms(1) ok Size1_int [OF s _ _ refl, of i "RInt i" v f4] show ?thesis
    by (auto simp: recordSize1_def rval_ok_def stored_value_def Let_def)
next
  case (RIntReal i)
  show ?thesis
  proof (cases "intSerialType f4 i = 6")
    case True
    then have g: "good_field v (RReal (double_of_int i), 7)"
      using good_real [of "double_of_int i"] RIntReal intSerialType_6 [of f4 i] by (simp add: good_field_def stored_value_def)
    have "sized ((RReal (double_of_int i), 7) # fs) (nHdr + 1) (nData + 8) nZero"
      using good_real [of "double_of_int i"] by (intro sized_plain [OF s]) (simp_all add: vlen_small field_full_def)
    with True g assms(1) RIntReal show ?thesis by (auto simp: recordSize1_def Let_def)
  next
    case False
    with RIntReal assms(1) ok Size1_int [OF s _ _ refl, of i "RIntReal i" v f4] intSerialType_6 [of f4 i] show ?thesis
      by (auto simp: recordSize1_def rval_ok_def stored_value_def Let_def)
  qed
next
  case (RReal r)
  have "sized ((RReal r, 7) # fs) (nHdr + 1) (nData + 8) nZero"
    using good_real [of r] by (intro sized_plain [OF s]) (simp_all add: vlen_small field_full_def)
  with RReal assms(1) good_real [of r] show ?thesis by (auto simp: recordSize1_def)
next
  case (RStr z)
  with assms(1) ok Size1_text [OF s refl, of z 1 "RStr z" v] show ?thesis
    by (auto simp: recordSize1_def rval_ok_def stored_value_def Let_def mult.commute)
next
  case (RBlob z x)
  show ?thesis
  proof (cases x)
    case None
    with RBlob assms(1) ok Size1_text [OF s refl, of z 0 "RBlob z None" v] show ?thesis
      by (auto simp: recordSize1_def rval_ok_def stored_value_def Let_def mult.commute)
  next
    case (Some n)
    have t: "of_nat (length z * 2 + 12) + of_nat n * 2 = (of_nat (2 * (length z + n) + 12) :: u32)"
      by (simp add: algebra_simps)
    have b: "2 * (length z + n) < 4294967284" using ok RBlob Some by (simp add: rval_ok_def)
    show ?thesis
    proof (cases "nData = 0")
      case True
      with s have "sized fs nHdr 0 nZero" by simp
      from Size1_zero [OF this refl b] True RBlob Some assms(1) show ?thesis
        by (auto simp: recordSize1_def Let_def t simp del: of_nat_add of_nat_mult)
    next
      case False
      with Size1_text [OF s refl, of "z @ replicate n 0" 0 "RBlob (z @ replicate n 0) None" v] b RBlob Some assms(1) show ?thesis
        by (auto simp: recordSize1_def Let_def t stored_value_def add.assoc simp del: of_nat_add of_nat_mult split: if_splits)
    qed
  qed
qed

lemma recordSizes_ok:
  "recordSizes f4 vs ms = Some (fs, nHdr, nData, nZero, ms') \<Longrightarrow> list_all rval_ok vs \<Longrightarrow>
   list_all2 good_field vs fs \<and> sized fs nHdr nData nZero"
proof (induction vs arbitrary: fs nHdr nData nZero ms')
  case Nil
  then show ?case by (auto simp: sized_def)
next
  case (Cons v vs)
  then obtain fs0 h d n m where r: "recordSizes f4 vs ms = Some (fs0, h, d, n, m)"
    and s: "recordSize1 f4 v (fs0, h, d, n, m) = Some (fs, nHdr, nData, nZero, ms')" by (auto split: option.splits)
  from Cons.IH [OF r] Cons.prems(2) have IH: "list_all2 good_field vs fs0" "sized fs0 h d n" by simp_all
  from recordSize1_ok [OF s IH(2)] IH(1) Cons.prems(2) show ?case by auto
qed

subsection \<open>The size of the header\<close>

lemma VarintLen_range:
  "unat v < 2 ^ (7 * sqlite3VarintLen v) \<and> (1 < sqlite3VarintLen v \<longrightarrow> 2 ^ (7 * (sqlite3VarintLen v - 1)) \<le> unat v)"
  using putVarint64_buf_len [of v] by (simp add: VarintLen_buf drop_bit_zero_iff not_less)

lemma VarintLen_le_iff: "1 \<le> k \<Longrightarrow> sqlite3VarintLen v \<le> k \<longleftrightarrow> unat v < 2 ^ (7 * k)"
proof
  assume "1 \<le> k" "sqlite3VarintLen v \<le> k"
  then have "(2 :: nat) ^ (7 * sqlite3VarintLen v) \<le> 2 ^ (7 * k)" by (intro power_increasing) auto
  with VarintLen_range [of v] show "unat v < 2 ^ (7 * k)" by linarith
next
  assume k: "1 \<le> k" and v: "unat v < 2 ^ (7 * k)"
  show "sqlite3VarintLen v \<le> k"
  proof (rule ccontr)
    assume n: "\<not> ?thesis"
    then have "(2 :: nat) ^ (7 * k) \<le> 2 ^ (7 * (sqlite3VarintLen v - 1))" by (intro power_increasing) auto
    with VarintLen_range [of v] k n v show False by linarith
  qed
qed

lemma VarintLen_nat: "v < 2 ^ 64 \<Longrightarrow> 1 \<le> k \<Longrightarrow> sqlite3VarintLen (of_nat v) \<le> k \<longleftrightarrow> v < 2 ^ (7 * k)"
  by (simp add: VarintLen_le_iff unat_of_nat take_bit_nat_eq_self)

lemma VarintLen_pos: "1 \<le> sqlite3VarintLen v"
  using buf_length_bounds(1) by (simp add: VarintLen_buf)

lemma VarintLen_grow:
  assumes "sqlite3VarintLen (of_nat h) = n" "h < 2 ^ 34" "h \<le> k" "k \<le> h + 6"
  shows "k < 2 ^ (7 * n) \<and> sqlite3VarintLen (of_nat k) = n \<or> 2 ^ (7 * n) \<le> k \<and> sqlite3VarintLen (of_nat k) = n + 1"
proof -
  have n: "1 \<le> n" using assms(1) VarintLen_pos by blast
  then have P: "(2 :: nat) ^ (7 * 1) \<le> 2 ^ (7 * n)" by (intro power_increasing) auto
  have h: "h < 2 ^ (7 * n)" using VarintLen_nat [of h n] assms(1,2) n by simp
  have "(2 :: nat) ^ (7 * (n + 1)) = 128 * 2 ^ (7 * n)" by (simp add: power_add)
  with h P assms(4) have "k < 2 ^ (7 * (n + 1))" by linarith
  then have up: "sqlite3VarintLen (of_nat k) \<le> n + 1" using VarintLen_nat [of k "n + 1"] assms(2,4) by simp
  have "n \<le> sqlite3VarintLen (of_nat k)"
  proof (cases "n = 1")
    case False
    with n have "1 \<le> n - 1" by linarith
    from VarintLen_nat [OF _ this, of h] VarintLen_nat [OF _ this, of k] False n assms show ?thesis by simp linarith
  qed (use VarintLen_pos [of "of_nat k"] in simp)
  with up VarintLen_nat [of k n] n assms(2,4) show ?thesis by simp linarith
qed

lemma recordHdrSize_len:
  assumes "h < 2 ^ 34"
  shows "sqlite3VarintLen (of_nat (recordHdrSize h)) + h = recordHdrSize h" "recordHdrSize h \<le> h + 6"
proof -
  let ?n = "sqlite3VarintLen (of_nat h)"
  have len5: "?n \<le> 5" using VarintLen_nat [of h 5] assms by simp
  note grow = VarintLen_grow [OF refl assms]
  have small: "sqlite3VarintLen (of_nat k) = 1 \<longleftrightarrow> k \<le> 127" if "k < 2 ^ 64" for k
    using VarintLen_nat [of k 1] VarintLen_pos [of "of_nat k"] that by auto
  have "(sqlite3VarintLen (of_nat (recordHdrSize h)) + h = recordHdrSize h) \<and> recordHdrSize h \<le> h + 6"
  proof (cases "h \<le> 126")
    case True
    then show ?thesis using small [of "h + 1"] by (simp add: recordHdrSize_def)
  next
    case False
    define k where "k = h + ?n"
    have "recordHdrSize h = (if ?n < sqlite3VarintLen (of_nat k) then k + 1 else k)"
      using False by (simp add: recordHdrSize_def Let_def k_def)
    moreover from grow [of k] grow [of "k + 1"] len5
    have "?n < sqlite3VarintLen (of_nat k) \<and> sqlite3VarintLen (of_nat (k + 1)) = ?n + 1 \<or> sqlite3VarintLen (of_nat k) = ?n"
      by (auto simp: k_def)
    ultimately show ?thesis using len5 by (auto simp: k_def)
  qed
  then show "sqlite3VarintLen (of_nat (recordHdrSize h)) + h = recordHdrSize h" "recordHdrSize h \<le> h + 6" by simp_all
qed

subsection \<open>Reading a record back\<close>

lemma vlen_pos: "1 \<le> vlen t"
  using VarintLen_pos [of "ucast t"] by (simp add: VarintLen_u32)

lemma reads_append: "reads p (xs @ ys) \<longleftrightarrow> reads p xs \<and> reads (ptr p (length xs)) ys"
proof
  assume a: "reads p (xs @ ys)"
  have "p k = xs ! k" if "k < length xs" for k
    using a that unfolding reads_def by (auto dest!: spec [of _ k] simp: nth_append)
  moreover have "p (length xs + k) = ys ! k" if "k < length ys" for k
    using a that unfolding reads_def by (auto dest!: spec [of _ "length xs + k"] simp: nth_append)
  ultimately show "reads p xs \<and> reads (ptr p (length xs)) ys" by (simp add: reads_def ptr_apply)
next
  assume b: "reads p xs \<and> reads (ptr p (length xs)) ys"
  show "reads p (xs @ ys)"
    unfolding reads_def
  proof (intro allI impI)
    fix k assume "k < length (xs @ ys)"
    with b show "p k = (xs @ ys) ! k"
      by (cases "k < length xs") (auto simp: reads_def ptr_apply nth_append dest: spec [of _ "k - length xs"])
  qed
qed

lemma recordUnpackLoop_ok:
  "list_all2 good_field vs fs \<Longrightarrow> length vs \<le> k \<Longrightarrow>
   get_seq sqlite3GetVarint h (length fs) m = (map (\<lambda>f. ucast (snd f)) fs, szHdr) \<Longrightarrow>
   reads (ptr m d) (all_full fs) \<Longrightarrow> d + length (all_full fs) \<le> nKey \<Longrightarrow> nKey < 2 ^ 32 \<Longrightarrow> szHdr < 2 ^ 32 \<Longrightarrow>
   recordUnpackLoop k m nKey szHdr h d = (map stored_value vs, d + length (all_full fs))"
proof (induction vs fs arbitrary: k h d rule: list_all2_induct)
  case Nil
  then show ?case by (cases k) auto
next
  case (Cons v vs f fs)
  obtain w t where f: "f = (w, t)" by fastforce
  obtain j where k: "k = Suc j" "length vs \<le> j" using Cons.prems(1) by (cases k) auto
  obtain n where g: "sqlite3GetVarint (ptr m h) = (n, ucast t)"
    and r: "get_seq sqlite3GetVarint (h + n) (length fs) m = (map (\<lambda>f. ucast (snd f)) fs, szHdr)"
    using Cons.prems(2) by (auto simp: f split: prod.splits)
  have n: "1 \<le> n" using varint_ref_local [of "ptr m h" 0 0 n "ucast t" "ptr m h"] g by (simp add: GetVarint_eq_ref)
  have le: "h + n \<le> szHdr" using vc.get_seq_local [OF r] by blast
  have g32: "getVarint32 (ptr m h) = (n, t)" using getVarint32_eq [OF g] by (simp add: ucast_u32_less)
  have rd: "reads (ptr m d) (field_full f)" "reads (ptr m (d + length (field_full f))) (all_full fs)"
    using Cons.prems(3) by (simp_all add: reads_append)
  have len: "sqlite3VdbeSerialTypeLen t = length (field_full f)" and val: "sqlite3VdbeSerialGet (ptr m d) t = stored_value v"
    using Cons.hyps(1) rd(1) by (simp_all add: good_field_def f)
  have "recordUnpackLoop j m nKey szHdr (h + n) (d + length (field_full f)) = (map stored_value vs, d + length (field_full f) + length (all_full fs))"
    using Cons.prems k by (intro Cons.IH [OF _ r rd(2)]) simp_all
  with Cons.prems le n show ?case by (simp add: k g32 len val)
qed

text \<open>The buffer before the fields are written, and what a successful run leaves.\<close>

definition hdr_start :: "nat \<Rightarrow> mem \<Rightarrow> mem" where
  "hdr_start H z = put_at sqlite3PutVarint 0 (of_nat H) z"

lemma hdr_size_put:
  assumes "H < 2 ^ 35"
  shows "snd (sqlite3PutVarint p (of_nat H)) = sqlite3VarintLen (of_nat H)"
    and "(if H < 0x80 then z(0 := of_nat H) else put_at sqlite3PutVarint 0 (of_nat H) z) = hdr_start H z"
    and "H < 0x80 \<Longrightarrow> sqlite3VarintLen (of_nat H) = 1"
proof -
  have "sqlite3VarintLen (of_nat H) \<le> 5" using VarintLen_nat [of H 5] assms by simp
  then show "snd (sqlite3PutVarint p (of_nat H)) = sqlite3VarintLen (of_nat H)"
    by (simp add: VarintLen_buf PutVarint_len)
  have small: "(of_nat H :: u32) < 0x80" "ucast (of_nat H :: u32) = (of_nat H :: u8)" "ucast (of_nat H :: u32) = (of_nat H :: u64)" if "H < 0x80"
  proof -
    have u: "unat (of_nat H :: u32) = H" "unat (of_nat H :: u8) = H" "unat (of_nat H :: u64) = H"
      using that by (simp_all add: unat_of_nat take_bit_nat_eq_self)
    show "(of_nat H :: u32) < 0x80" using that u by (simp add: word_less_nat_alt)
    show "ucast (of_nat H :: u32) = (of_nat H :: u8)" "ucast (of_nat H :: u32) = (of_nat H :: u64)"
      using that u by (simp_all add: word_unat_eq_iff unsigned_ucast_eq take_bit_nat_eq_self)
  qed
  show "(if H < 0x80 then z(0 := of_nat H) else put_at sqlite3PutVarint 0 (of_nat H) z) = hdr_start H z"
    using put_small(1) [of "of_nat H" z 0] small by (auto simp: hdr_start_def)
  show "H < 0x80 \<Longrightarrow> sqlite3VarintLen (of_nat H) = 1"
    using VarintLen_nat [of H 1] VarintLen_pos [of "of_nat H"] by simp
qed

lemma recordHdrSize_ge: "h \<le> recordHdrSize h"
  by (simp add: recordHdrSize_def Let_def)

lemma MakeRecord_cases:
  assumes "OP_MakeRecord f4 limit szMalloc z vs ms = RecordBlob z' nByte nZero"
    and "limit < 2 ^ 31" "szMalloc < 2 ^ 31" "list_all rval_ok vs"
  obtains fs d H n where "list_all2 good_field vs fs" "sized fs (H - n) d nZero" "nByte = H + d" "n + hdr_len fs = H"
    "n = snd (sqlite3PutVarint z (of_nat H))" "nByte + nZero < 2 ^ 31" "z' = fst (recordWrite fs n H (hdr_start H z))"
proof -
  from assms(1) obtain fs h d ms' where r: "recordSizes f4 vs ms = Some (fs, h, d, nZero, ms')"
    by (auto simp: OP_MakeRecord_def Let_def split: option.splits prod.splits if_splits)
  define H where "H = recordHdrSize h"
  let ?n = "if H < 0x80 then 1 else snd (sqlite3PutVarint (hdr_start H z) (of_nat H))"
  from assms(1) have e: "nByte = H + d" "nByte + nZero \<le> limit \<or> nByte + nZero \<le> szMalloc"
    and w: "z' = (let z = (if H < 0x80 then z(0 := of_nat H) else put_at sqlite3PutVarint 0 (of_nat H) z);
       n = (if H < 0x80 then 1 else snd (sqlite3PutVarint z (of_nat H))) in fst (recordWrite fs n H z))"
    by (auto simp: OP_MakeRecord_def r H_def [symmetric] Let_def not_le split: if_splits)
  have b: "nByte + nZero < 2 ^ 31" "H < 2 ^ 35" "h < 2 ^ 34" using e assms(2,3) recordHdrSize_ge [of h] by (auto simp: H_def)
  note p = hdr_size_put [OF b(2)]
  define n where "n = sqlite3VarintLen (of_nat H)"
  have nH: "n + h = H" using recordHdrSize_len [OF b(3)] by (simp add: H_def n_def)
  have ok: "list_all2 good_field vs fs" "sized fs h d nZero" using recordSizes_ok [OF r assms(4)] by simp_all
  show thesis
  proof (rule that [of fs H n d])
    show "z' = fst (recordWrite fs n H (hdr_start H z))" using w p(3) by (simp add: Let_def p(1,2) n_def split: if_splits)
    show "n + hdr_len fs = H" using ok(2) nH by (simp add: sized_def)
    have "H - n = h" using nH by simp
    with ok(2) show "sized fs (H - n) d nZero" by simp
  qed (use ok e b nH p(1) in \<open>auto simp: n_def\<close>)
qed

lemma sint_u8: "sint (x :: u8) = (if uint x < 128 then uint x else uint x - 256)"
proof (cases "uint x < 128")
  case True
  then have "(uint x + 128) mod 256 = uint x + 128" by (intro mod_pos_pos_trivial) (simp_all add: uint_u8_bounds)
  with True show ?thesis by (simp add: sint_uint signed_take_bit_eq_take_bit_shift take_bit_eq_mod)
next
  case False
  have "(uint x + 128) mod 256 = (uint x - 128 + 256) mod 256" by (simp add: add.commute)
  also have "\<dots> = uint x - 128" unfolding mod_add_self2
    using False uint_u8_bounds [of x] by (intro mod_pos_pos_trivial) linarith+
  finally show ?thesis using False by (simp add: sint_uint signed_take_bit_eq_take_bit_shift take_bit_eq_mod)
qed

lemma four_byte_sint: "sint (FOUR_BYTE_UINT p) = FOUR_BYTE_INT p"
proof -
  let ?b = "65536 * uint (p 1) + 256 * uint (p 2) + uint (p 3)"
  have "sint (FOUR_BYTE_UINT p) = signed_take_bit 31 (16777216 * uint (p 0) + ?b)"
    by (simp add: sint_uint FOUR_BYTE_UINT_sum)
  also have "\<dots> = signed_take_bit 31 (16777216 * sint (p 0) + ?b)"
  proof -
    have "sint (p 0) = uint (p 0) \<or> sint (p 0) = uint (p 0) - 256" by (simp add: sint_u8)
    then have "16777216 * sint (p 0) + ?b = 16777216 * uint (p 0) + ?b \<or>
        16777216 * sint (p 0) + ?b = 16777216 * uint (p 0) + ?b - 2 ^ Suc 31" by auto
    then have "take_bit (Suc 31) (16777216 * uint (p 0) + ?b) = take_bit (Suc 31) (16777216 * sint (p 0) + ?b)"
      by (elim disjE) (simp_all only: take_bit_eq_mod minus_mod_self2)
    then show ?thesis by (simp only: signed_take_bit_eq_iff_take_bit_eq)
  qed
  also have "\<dots> = 16777216 * sint (p 0) + ?b"
  proof -
    have "- 128 \<le> sint (p 0)" "sint (p 0) < 128"
      using sint_greater_eq [of "p 0"] sint_less [of "p 0"] by simp_all
    moreover have "0 \<le> ?b" "?b < 16777216" using FOUR_BYTE_low [of "p 1" "p 2" "p 3"] by blast+
    ultimately have "- 2147483648 \<le> 16777216 * sint (p 0) + ?b" "16777216 * sint (p 0) + ?b < 2147483648" by linarith+
    then show ?thesis by (intro signed_take_bit_int_eq_self) simp_all
  qed
  finally show ?thesis by (simp add: FOUR_BYTE_INT_sum)
qed

subsection \<open>Properties\<close>

text \<open>A record of an integer, a string, a null and a blob with a tail, for the witnesses.\<close>

definition sample_values :: "rval list" where
  "sample_values = [RInt (- 300), RStr [65, 66], RNull, RBlob [7] (Some 2)]"

lemma sample_record:
  "\<exists>z'. OP_MakeRecord True 1000 0 (\<lambda>_. 0) sample_values [] = RecordBlob z' 10 2"
proof -
  have "case OP_MakeRecord True 1000 0 (\<lambda>_. 0) sample_values [] of RecordBlob z' nByte nZero \<Rightarrow> nByte = 10 \<and> nZero = 2 | _ \<Rightarrow> False"
    by code_simp
  then show ?thesis by (auto split: record_result.splits)
qed

text \<open>
  C39: reading back what \<^verbatim>\<open>OP_MakeRecord\<close> wrote.  Whenever the opcode returns a record for values
  a register can hold, unpacking the record, with the zero tail it announces, gives the same
  values: integers of every size, strings, blobs with the tail filled in, and \<^verbatim>\<open>NULL\<close> for a
  not-a-number.
\<close>

theorem record_roundtrip:
  assumes "OP_MakeRecord f4 limit szMalloc z vs ms = RecordBlob z' nByte nZero"
    and "list_all rval_ok vs" and "limit < 2 ^ 31" and "szMalloc < 2 ^ 31" and "length vs \<le> nField"
    and "\<And>i. i < nByte \<Longrightarrow> m i = z' i" and "\<And>i. nByte \<le> i \<Longrightarrow> i < nByte + nZero \<Longrightarrow> m i = 0"
  shows "sqlite3VdbeRecordUnpack nField (nByte + nZero) m = map stored_value vs"
proof -
  obtain fs d H n where good: "list_all2 good_field vs fs" and sz: "sized fs (H - n) d nZero" and nb: "nByte = H + d"
    and nH: "n + hdr_len fs = H" and n: "n = snd (sqlite3PutVarint z (of_nat H))" and b: "nByte + nZero < 2 ^ 31"
    and z': "z' = fst (recordWrite fs n H (hdr_start H z))"
    by (rule MakeRecord_cases [OF assms(1,3,4,2)])
  have "sqlite3GetVarint (hdr_start H z) = (n, of_nat H)" using vc.get_put_at [of 0 "of_nat H" z] by (simp add: hdr_start_def n)
  then have "sqlite3GetVarint m = (n, of_nat H)"
    by (rule vc.get_local) (use assms(6) nb nH in \<open>simp add: z' recordWrite_frame\<close>)
  note g = getVarint32_eq [OF this]
  have u: "unat (of_nat H :: u32) = H" "unat (of_nat H :: u64) = H" using nb b by (simp_all add: unat_of_nat take_bit_nat_eq_self)
  then have "ucast (of_nat H :: u64) = (of_nat H :: u32)"
    using nb b by (simp only: word_unat_eq_iff unsigned_ucast_eq) (simp add: take_bit_nat_eq_self)
  with g u nb b have h: "getVarint32 m = (n, of_nat H)" by (simp add: word_less_nat_alt)
  have "get_seq sqlite3GetVarint n (length fs) z' = (map (\<lambda>f. ucast (snd f)) fs, H)"
    using recordWrite_header [of n fs H] nH by (simp add: z')
  from vc.get_seq_local [OF this, of m] have hdr: "get_seq sqlite3GetVarint n (length fs) m = (map (\<lambda>f. ucast (snd f)) fs, H)"
    using assms(6) nb by simp
  have full: "all_full fs = all_data fs @ replicate nZero 0" "d = length (all_data fs)" using sz by (simp_all add: sized_def)
  have "reads (ptr m H) (all_data fs)"
    unfolding reads_def using recordWrite_data [of n fs H] assms(6) nb nH full(2) by (simp add: ptr_apply z')
  moreover have "reads (ptr m (H + d)) (replicate nZero 0)"
    using assms(7) nb by (simp add: reads_def ptr_apply)
  ultimately have "reads (ptr m H) (all_full fs)" by (simp add: full reads_append)
  have "length vs \<le> max nField 1" using assms(5) by simp
  from recordUnpackLoop_ok [OF good this hdr \<open>reads (ptr m H) (all_full fs)\<close>] have
    "recordUnpackLoop (max nField 1) m (nByte + nZero) H n H = (map stored_value vs, nByte + nZero)"
    using nb b full by simp
  then show ?thesis by (simp add: sqlite3VdbeRecordUnpack_def h u)
qed

theorem record_roundtrip_witness:
  "\<exists>z'. OP_MakeRecord True 1000 0 (\<lambda>_. 0) sample_values [] = RecordBlob z' 10 2 \<and>
     sqlite3VdbeRecordUnpack 4 12 (\<lambda>i. if i < 10 then z' i else 0) = [RInt (- 300), RStr [65, 66], RNull, RBlob [7, 0, 0] None]"
proof -
  obtain z' where z: "OP_MakeRecord True 1000 0 (\<lambda>_. 0) sample_values [] = RecordBlob z' 10 2" using sample_record by blast
  have "sqlite3VdbeRecordUnpack 4 (10 + 2) (\<lambda>i. if i < 10 then z' i else 0) = map stored_value sample_values"
    by (rule record_roundtrip [OF z]) (simp_all add: sample_values_def rval_ok_def)
  with z show ?thesis by (auto simp: sample_values_def stored_value_def numeral_2_eq_2)
qed

text \<open>
  C40: the opcode writes its record into exactly the bytes it counted: the header ends where
  the payload starts, the payload ends at the reported length, and no byte from there on
  changes.
\<close>

theorem MakeRecord_fits:
  assumes "OP_MakeRecord f4 limit szMalloc z vs ms = RecordBlob z' nByte nZero"
    and "list_all rval_ok vs" and "limit < 2 ^ 31" and "szMalloc < 2 ^ 31" and "nByte \<le> i"
  shows "z' i = z i"
proof -
  obtain fs d H n where sz: "sized fs (H - n) d nZero" and nb: "nByte = H + d"
    and nH: "n + hdr_len fs = H" and n: "n = snd (sqlite3PutVarint z (of_nat H))"
    and z': "z' = fst (recordWrite fs n H (hdr_start H z))"
    by (rule MakeRecord_cases [OF assms(1,3,4,2)])
  have "z' i = hdr_start H z i"
    unfolding z' by (rule recordWrite_frame) (use nH nb sz assms(5) in \<open>auto simp: sized_def\<close>)
  also have "\<dots> = z i" unfolding hdr_start_def by (rule vc.put_at_frame) (use n nH nb assms(5) in simp)
  finally show ?thesis .
qed

theorem MakeRecord_fits_witness:
  "\<exists>z'. OP_MakeRecord True 1000 0 (\<lambda>_. 0) sample_values [] = RecordBlob z' 10 2 \<and> z' 10 = 0"
proof -
  obtain z' where z: "OP_MakeRecord True 1000 0 (\<lambda>_. 0) sample_values [] = RecordBlob z' 10 2" using sample_record by blast
  have "z' 10 = (\<lambda>_. 0) (10 :: nat)"
    by (rule MakeRecord_fits [OF z]) (simp_all add: sample_values_def rval_ok_def)
  with z show ?thesis by auto
qed

text \<open>
  The integer decoder used in key comparison agrees with the general reader on every
  integer serial type and every memory.
\<close>

theorem DecodeInt_agrees:
  assumes "t \<in> {1, 2, 3, 4, 5, 6, 8, 9}"
  shows "sqlite3VdbeSerialGet p t = RInt (vdbeRecordDecodeInt t p)"
proof -
  have "push_bit 32 (ucast (FOUR_BYTE_UINT p)) + ucast (FOUR_BYTE_UINT (ptr p 4)) =
    (push_bit 32 (ucast (FOUR_BYTE_UINT p)) OR ucast (FOUR_BYTE_UINT (ptr p 4)) :: u64)"
    by (rule disjunctive_add) (auto simp: bit_simps)
  with assms show ?thesis
    by (auto simp: sqlite3VdbeSerialGet_def vdbeRecordDecodeInt_def serialGet_def four_byte_sint)
qed

theorem DecodeInt_agrees_witness:
  "sqlite3VdbeSerialGet (\<lambda>_. 255) 4 = RInt (vdbeRecordDecodeInt 4 (\<lambda>_. 255)) \<and> vdbeRecordDecodeInt 4 (\<lambda>_. 255) = - 1"
  using DecodeInt_agrees [of 4 "\<lambda>_. 255"] by (simp add: vdbeRecordDecodeInt_def four_byte_sint FOUR_BYTE_INT_sum sint_u8)

end
