(* ===== verification/Wal_Index.thy ===== *)
theory Wal_Index
  imports Linear_Probe
begin

text \<open>
  The index of the write-ahead log (wal.c): shared pages that map a database page number to
  the last frame of the log that holds it.  Every index page has an array \<^verbatim>\<open>aPgno\<close> with the page
  numbers of up to 4096 frames (4062 on the first page, which also holds the header) and a hash
  table \<^verbatim>\<open>aHash\<close> of 8192 slots with linear probing.  Modelled are the lookup
  \<^verbatim>\<open>walFindFrame\<close>, the insertion \<^verbatim>\<open>walIndexAppend\<close>, the removal of frames after a rollback
  \<^verbatim>\<open>walCleanupHash\<close> and the operations that change \<^verbatim>\<open>mxFrame\<close>: rolling back to the last commit or to
  a savepoint.

  Frame numbers are natural numbers below \<^verbatim>\<open>2^32\<close>.  Mapping an index page (\<^verbatim>\<open>walIndexPage\<close>) asks the
  operating system for shared memory; its result code for each page is part of the state.
\<close>

subsection \<open>The state\<close>

abbreviation HASHTABLE_NPAGE :: nat where "HASHTABLE_NPAGE \<equiv> 4096"
abbreviation HASHTABLE_NSLOT :: nat where "HASHTABLE_NSLOT \<equiv> 8192"
abbreviation HASHTABLE_NPAGE_ONE :: nat where "HASHTABLE_NPAGE_ONE \<equiv> 4062"

record wal_table =
  aPgno :: "nat \<Rightarrow> u32"
  aHash :: "nat \<Rightarrow> nat"

record wal_index =
  apWiData :: "nat \<Rightarrow> wal_table"
  shmRc :: "nat \<Rightarrow> rc"
  mxFrame :: nat
  aFrameCksum :: "u32 \<times> u32"
  hdrFrame :: nat
  hdrCksum :: "u32 \<times> u32"
  iReCksum :: nat
  nCkpt :: u32
  minFrame :: nat
  readLock :: int
  bShmUnreliable :: bool

subsection \<open>Locating a frame\<close>

definition walHash :: "u32 \<Rightarrow> nat" where
  "walHash iPage = unat (iPage * 383 AND 8191)"

definition walNextHash :: "nat \<Rightarrow> nat" where
  "walNextHash iPriorHash = (iPriorHash + 1) AND 8191"

definition walFramePage :: "nat \<Rightarrow> nat" where
  "walFramePage iFrame =
     (iFrame + HASHTABLE_NPAGE - HASHTABLE_NPAGE_ONE - 1) mod 2 ^ 32 div HASHTABLE_NPAGE"

text \<open>\<^verbatim>\<open>walHashGet\<close>: the table, one less than its first frame, and how many frames it can index.\<close>

definition iZero :: "nat \<Rightarrow> nat" where
  "iZero iHash = (if iHash = 0 then 0 else HASHTABLE_NPAGE_ONE + (iHash - 1) * HASHTABLE_NPAGE)"

definition nEntry :: "nat \<Rightarrow> nat" where
  "nEntry iHash = (if iHash = 0 then HASHTABLE_NPAGE_ONE else HASHTABLE_NPAGE)"

definition walHashGet :: "wal_index \<Rightarrow> nat \<Rightarrow> rc + wal_table \<times> nat" where
  "walHashGet s iHash =
     (if shmRc s iHash = SQLITE_OK then Inr (apWiData s iHash, iZero iHash) else Inl (shmRc s iHash))"

definition walFramePgno :: "wal_index \<Rightarrow> nat \<Rightarrow> u32" where
  "walFramePgno s iFrame =
     (let iHash = walFramePage iFrame in
      if iHash = 0 then aPgno (apWiData s 0) (iFrame - 1)
      else aPgno (apWiData s iHash) ((iFrame - 1 - HASHTABLE_NPAGE_ONE) mod HASHTABLE_NPAGE))"

subsection \<open>Changing the index\<close>

definition set_table :: "wal_index \<Rightarrow> nat \<Rightarrow> wal_table \<Rightarrow> wal_index" where
  "set_table s h t = s\<lparr>apWiData := (apWiData s)(h := t)\<rparr>"

definition walCleanupHash :: "wal_index \<Rightarrow> wal_index" where
  "walCleanupHash s =
     (if mxFrame s = 0 then s
      else let h = walFramePage (mxFrame s) in
        case walHashGet s h of Inl _ \<Rightarrow> s
        | Inr (t, z) \<Rightarrow>
            let iLimit = mxFrame s - z
            in set_table s h
                 (t\<lparr>aHash := (\<lambda>i. if i < HASHTABLE_NSLOT \<and> aHash t i > iLimit then 0 else aHash t i),
                    aPgno := (\<lambda>i. if iLimit \<le> i \<and> i < nEntry h then 0 else aPgno t i)\<rparr>))"

text \<open>The search for a free slot; \<open>None\<close> is the return of \<^verbatim>\<open>SQLITE_CORRUPT\<close> after too many collisions.\<close>

fun walAppendProbe :: "nat \<Rightarrow> (nat \<Rightarrow> nat) \<Rightarrow> nat \<Rightarrow> nat option" where
  "walAppendProbe nCollide H iKey =
     (if H iKey = 0 then Some iKey
      else case nCollide of 0 \<Rightarrow> None | Suc n \<Rightarrow> walAppendProbe n H (walNextHash iKey))"

declare walAppendProbe.simps [simp del]

definition zero_table :: "nat \<Rightarrow> wal_table \<Rightarrow> wal_table" where
  "zero_table h t = t\<lparr>aPgno := (\<lambda>i. if i < nEntry h then 0 else aPgno t i),
     aHash := (\<lambda>i. if i < HASHTABLE_NSLOT then 0 else aHash t i)\<rparr>"

definition walIndexAppend :: "wal_index \<Rightarrow> nat \<Rightarrow> u32 \<Rightarrow> rc \<times> wal_index" where
  "walIndexAppend s iFrame iPage =
     (let h = walFramePage iFrame in
      case walHashGet s h of Inl rc \<Rightarrow> (rc, s)
      | Inr (t, z) \<Rightarrow>
          let idx = iFrame - z;
              s = (if idx = 1 then set_table s h (zero_table h t) else s);
              s = (if aPgno (apWiData s h) (idx - 1) \<noteq> 0 then walCleanupHash s else s);
              t = apWiData s h
          in case walAppendProbe idx (aHash t) (walHash iPage) of None \<Rightarrow> (SQLITE_CORRUPT, s)
             | Some iKey \<Rightarrow>
                 (SQLITE_OK, set_table s h
                    (t\<lparr>aPgno := (aPgno t)((idx - 1) AND 4095 := iPage), aHash := (aHash t)(iKey := idx)\<rparr>)))"

text \<open>
  The loop of \<^verbatim>\<open>walFrames\<close> that indexes the frames just written, and the updates of \<^verbatim>\<open>mxFrame\<close> that
  follow it; a commit also publishes the header.
\<close>

fun appendLoop :: "wal_index \<Rightarrow> nat \<Rightarrow> u32 list \<Rightarrow> rc \<times> wal_index \<times> nat" where
  "appendLoop s iFrame [] = (SQLITE_OK, s, iFrame)"
| "appendLoop s iFrame (p # ps) =
     (case walIndexAppend s (iFrame + 1) p of (rc, s) \<Rightarrow>
        if rc = SQLITE_OK then appendLoop s (iFrame + 1) ps else (rc, s, iFrame + 1))"

definition walFramesIndex :: "wal_index \<Rightarrow> u32 list \<Rightarrow> bool \<Rightarrow> rc \<times> wal_index" where
  "walFramesIndex s ps isCommit =
     (case appendLoop s (mxFrame s) ps of (rc, s, iFrame) \<Rightarrow>
        if rc = SQLITE_OK then
          (rc, if isCommit then s\<lparr>mxFrame := iFrame, hdrFrame := iFrame, hdrCksum := aFrameCksum s\<rparr>
               else s\<lparr>mxFrame := iFrame\<rparr>)
        else (rc, s))"

fun undoLoop :: "(u32 \<Rightarrow> 'c \<Rightarrow> rc \<times> 'c) \<Rightarrow> wal_index \<Rightarrow> nat list \<Rightarrow> 'c \<Rightarrow> rc \<times> 'c" where
  "undoLoop xUndo s [] c = (SQLITE_OK, c)"
| "undoLoop xUndo s (f # fs) c =
     (case xUndo (walFramePgno s f) c of (rc, c) \<Rightarrow>
        if rc = SQLITE_OK then undoLoop xUndo s fs c else (rc, c))"

definition sqlite3WalUndo :: "(u32 \<Rightarrow> 'c \<Rightarrow> rc \<times> 'c) \<Rightarrow> wal_index \<Rightarrow> 'c \<Rightarrow> rc \<times> wal_index \<times> 'c" where
  "sqlite3WalUndo xUndo s c =
     (let iMax = mxFrame s; s = s\<lparr>mxFrame := hdrFrame s, aFrameCksum := hdrCksum s\<rparr>;
          (rc, c) = undoLoop xUndo s [mxFrame s + 1..<iMax + 1] c;
          s = (if iMax \<noteq> mxFrame s then walCleanupHash s else s)
      in (rc, s\<lparr>iReCksum := 0\<rparr>, c))"

type_synonym wal_savepoint = "nat \<times> (u32 \<times> u32) \<times> u32"

definition sqlite3WalSavepoint :: "wal_index \<Rightarrow> wal_savepoint" where
  "sqlite3WalSavepoint s = (mxFrame s, aFrameCksum s, nCkpt s)"

definition sqlite3WalSavepointUndo :: "wal_index \<Rightarrow> wal_savepoint \<Rightarrow> wal_index \<times> wal_savepoint" where
  "sqlite3WalSavepointUndo s aWalData =
     (let (m, cksum, n) = aWalData;
          (m, n) = (if n \<noteq> nCkpt s then (0, nCkpt s) else (m, n));
          s = (if m < mxFrame s then
                 let s = walCleanupHash (s\<lparr>mxFrame := m, aFrameCksum := cksum\<rparr>)
                 in if iReCksum s > mxFrame s then s\<lparr>iReCksum := 0\<rparr> else s
               else s)
      in (s, (m, cksum, n)))"

subsection \<open>Lookup\<close>

fun walFindLoop :: "nat \<Rightarrow> wal_index \<Rightarrow> wal_table \<Rightarrow> nat \<Rightarrow> u32 \<Rightarrow> nat \<Rightarrow> nat \<Rightarrow> nat option" where
  "walFindLoop nCollide s t z pgno iKey iRead =
     (let iH = aHash t iKey in
      if iH = 0 then Some iRead
      else
        let iFrame = iH + z;
            iRead = (if iFrame \<le> mxFrame s \<and> iFrame \<ge> minFrame s \<and> aPgno t ((iH - 1) AND 4095) = pgno
                     then iFrame else iRead)
        in case nCollide of 0 \<Rightarrow> None | Suc n \<Rightarrow> walFindLoop n s t z pgno (walNextHash iKey) iRead)"

declare walFindLoop.simps [simp del]

text \<open>The loop over the tables, from the one of the last frame down to \<^verbatim>\<open>iMinHash\<close>.\<close>

fun walFindTables :: "wal_index \<Rightarrow> u32 \<Rightarrow> nat \<Rightarrow> nat \<Rightarrow> rc \<times> nat" where
  "walFindTables s pgno iMinHash iHash =
     (if iHash < iMinHash then (SQLITE_OK, 0)
      else case walHashGet s iHash of Inl rc \<Rightarrow> (rc, 0)
      | Inr (t, z) \<Rightarrow>
          (case walFindLoop HASHTABLE_NSLOT s t z pgno (walHash pgno) 0 of None \<Rightarrow> (SQLITE_CORRUPT, 0)
           | Some iRead \<Rightarrow>
               if iRead \<noteq> 0 then (SQLITE_OK, iRead)
               else (case iHash of 0 \<Rightarrow> (SQLITE_OK, 0) | Suc h \<Rightarrow> walFindTables s pgno iMinHash h)))"

declare walFindTables.simps [simp del]

definition walFindFrame :: "wal_index \<Rightarrow> u32 \<Rightarrow> rc \<times> nat" where
  "walFindFrame s pgno =
     (if mxFrame s = 0 \<or> (readLock s = 0 \<and> \<not> bShmUnreliable s) then (SQLITE_OK, 0)
      else walFindTables s pgno (walFramePage (minFrame s)) (walFramePage (mxFrame s)))"

subsection \<open>Arithmetic of the tables\<close>

lemma walHash_less: "walHash p < HASHTABLE_NSLOT"
proof -
  have "iPage AND 8191 = iPage AND mask 13" for iPage :: u32 by (simp add: mask_eq_exp_minus_1)
  then show ?thesis by (simp add: walHash_def unat_and_mask)
qed

lemma nat_and_mask: "n AND 8191 = n mod 8192" "n AND 4095 = n mod (4096 :: nat)"
  using take_bit_eq_mask [of 13 n] take_bit_eq_mask [of 12 n] by (simp_all add: take_bit_eq_mod mask_eq_exp_minus_1)

lemma walNextHash_mod: "walNextHash k = (k + 1) mod HASHTABLE_NSLOT"
  by (simp add: walNextHash_def nat_and_mask)

lemma iZero_Suc: "iZero (Suc h) = iZero h + nEntry h"
  by (cases h) (simp_all add: iZero_def nEntry_def)

lemma iZero_mono: "h \<le> k \<Longrightarrow> iZero h \<le> iZero k"
  by (induction rule: dec_induct) (simp_all add: iZero_Suc)

lemma nEntry_bounds: "0 < nEntry h" "nEntry h \<le> 4096"
  by (simp_all add: nEntry_def)

lemma walFramePage_iff:
  assumes "0 < f" "f < 2 ^ 32 - 33"
  shows "walFramePage f = h \<longleftrightarrow> iZero h < f \<and> f \<le> iZero (Suc h)"
proof -
  have "walFramePage f = (f + 33) div 4096" using assms by (simp add: walFramePage_def)
  then show ?thesis using assms by (cases h) (auto simp: iZero_def)
qed

lemma walFramePage_bounds:
  "0 < f \<Longrightarrow> f < 2 ^ 32 - 33 \<Longrightarrow> iZero (walFramePage f) < f \<and> f \<le> iZero (walFramePage f) + nEntry (walFramePage f)"
  using walFramePage_iff [of f "walFramePage f"] by (simp add: iZero_Suc)

lemma walFramePage_mono: "f \<le> g \<Longrightarrow> g < 2 ^ 32 - 33 \<Longrightarrow> walFramePage f \<le> walFramePage g"
  by (simp add: walFramePage_def div_le_mono)

subsection \<open>One hash table\<close>

text \<open>
  A table holds the values \<open>1, ..., n\<close> once each, and the slots between the home of a value and
  its slot hold smaller values: it was stored after them.
\<close>

definition slot :: "nat \<Rightarrow> nat \<Rightarrow> nat" where
  "slot h d = (h + d) mod HASHTABLE_NSLOT"

definition hash_ok :: "(nat \<Rightarrow> nat) \<Rightarrow> (nat \<Rightarrow> nat) \<Rightarrow> nat \<Rightarrow> bool" where
  "hash_ok H home n \<longleftrightarrow>
     (\<forall>k < HASHTABLE_NSLOT. H k \<le> n) \<and>
     (\<forall>v. 0 < v \<and> v \<le> n \<longrightarrow> (\<exists>k < HASHTABLE_NSLOT. H k = v)) \<and>
     (\<forall>j < HASHTABLE_NSLOT. \<forall>k < HASHTABLE_NSLOT. H j \<noteq> 0 \<and> H j = H k \<longrightarrow> j = k) \<and>
     (\<forall>k < HASHTABLE_NSLOT. \<forall>d < dist HASHTABLE_NSLOT (home (H k)) k. H k \<noteq> 0 \<longrightarrow>
        0 < H (slot (home (H k)) d) \<and> H (slot (home (H k)) d) < H k)"

lemma slot_less [simp]: "slot h d < HASHTABLE_NSLOT"
  by (simp add: slot_def)

lemma slot_0: "h < HASHTABLE_NSLOT \<Longrightarrow> slot h 0 = h"
  by (simp add: slot_def)

lemma slot_next: "walNextHash (slot h d) = slot h (Suc d)"
  by (simp add: walNextHash_mod slot_def mod_simps)

lemma slot_dist: "h < HASHTABLE_NSLOT \<Longrightarrow> k < HASHTABLE_NSLOT \<Longrightarrow> slot h (dist HASHTABLE_NSLOT h k) = k"
  by (simp add: slot_def add_dist)

lemma dist_slot: "h < HASHTABLE_NSLOT \<Longrightarrow> d < HASHTABLE_NSLOT \<Longrightarrow> dist HASHTABLE_NSLOT h (slot h d) = d"
  by (simp add: slot_def dist_add)

lemma slot_inj: "h < HASHTABLE_NSLOT \<Longrightarrow> inj_on (slot h) {..<HASHTABLE_NSLOT}"
  by (rule inj_on_inverseI [of _ "dist HASHTABLE_NSLOT h"]) (simp add: dist_slot)

text \<open>The distance from \<open>h\<close> to the first free slot: at most the number of stored values.\<close>

lemma first_free:
  assumes "hash_ok H home n" "n < HASHTABLE_NSLOT" "h < HASHTABLE_NSLOT"
  obtains D where "D \<le> n" "H (slot h D) = 0" "\<And>d. d < D \<Longrightarrow> H (slot h d) \<noteq> 0"
proof -
  have "\<exists>d \<le> n. H (slot h d) = 0"
  proof (rule ccontr)
    assume a: "\<not> ?thesis"
    let ?f = "\<lambda>d. H (slot h d)"
    have "inj_on ?f {..n}"
    proof (rule inj_onI)
      fix x y assume xy: "x \<in> {..n}" "y \<in> {..n}" "?f x = ?f y"
      then have "slot h x = slot h y" using a assms(1) by (auto simp: hash_ok_def)
      with slot_inj [OF assms(3)] xy assms(2) show "x = y" by (auto dest: inj_onD)
    qed
    moreover have "?f ` {..n} \<subseteq> {1..n}" using a assms(1) by (auto simp: hash_ok_def Suc_le_eq)
    ultimately have "card {..n} \<le> card {1..n}" by (meson card_inj_on_le finite_atLeastAtMost)
    then show False by simp
  qed
  then obtain d where d: "d \<le> n" "H (slot h d) = 0" by blast
  let ?D = "LEAST d. H (slot h d) = 0"
  show thesis
  proof (rule that [of ?D])
    show "?D \<le> n" using Least_le [of "\<lambda>d. H (slot h d) = 0", OF d(2)] d(1) by simp
    show "H (slot h ?D) = 0" using d(2) by (rule LeastI)
    show "H (slot h d) \<noteq> 0" if "d < ?D" for d using not_less_Least [OF that] by simp
  qed
qed

lemma walAppendProbe_finds:
  assumes "H (slot h D) = 0" "\<And>e. e < D \<Longrightarrow> H (slot h e) \<noteq> 0" "d \<le> D" "D - d \<le> n"
  shows "walAppendProbe n H (slot h d) = Some (slot h D)"
  using assms(3,4)
proof (induction n arbitrary: d)
  case 0
  then show ?case using assms(1) by (simp add: walAppendProbe.simps)
next
  case (Suc n)
  show ?case
  proof (cases "d = D")
    case True
    then show ?thesis using assms(1) by (simp add: walAppendProbe.simps)
  next
    case False
    with Suc.prems have d: "d < D" by simp
    then have "walAppendProbe n H (slot h (Suc d)) = Some (slot h D)" using Suc by simp
    with assms(2) [OF d] show ?thesis by (simp add: walAppendProbe.simps [of "Suc n"] slot_next)
  qed
qed

lemma hash_ok_empty: "hash_ok (\<lambda>i. if i < HASHTABLE_NSLOT then 0 else H i) home 0"
  by (simp add: hash_ok_def)

lemma hash_ok_cong:
  assumes "hash_ok H home n" "\<And>v. 0 < v \<Longrightarrow> v \<le> n \<Longrightarrow> home' v = home v"
  shows "hash_ok H home' n"
proof -
  have "home' (H k) = home (H k)" if "k < HASHTABLE_NSLOT" "H k \<noteq> 0" for k
    using that assms by (auto simp: hash_ok_def)
  with assms(1) show ?thesis unfolding hash_ok_def by auto
qed

lemma hash_ok_insert:
  assumes ok: "hash_ok H home n" and D: "D < HASHTABLE_NSLOT" "H (slot (home (Suc n)) D) = 0"
    "\<And>d. d < D \<Longrightarrow> H (slot (home (Suc n)) d) \<noteq> 0" and h: "home (Suc n) < HASHTABLE_NSLOT"
  shows "hash_ok (H(slot (home (Suc n)) D := Suc n)) home (Suc n)"
proof -
  let ?k = "slot (home (Suc n)) D"
  let ?H = "H(?k := Suc n)"
  have le: "H k \<le> n" if "k < HASHTABLE_NSLOT" for k using ok that by (simp add: hash_ok_def)
  have path: "0 < ?H (slot (home (?H k)) d) \<and> ?H (slot (home (?H k)) d) < ?H k"
    if k: "k < HASHTABLE_NSLOT" "d < dist HASHTABLE_NSLOT (home (?H k)) k" "?H k \<noteq> 0" for k d
  proof (cases "k = ?k")
    case True
    then have d: "d < D" using k(2) D(1) h by (simp add: dist_slot)
    then have "slot (home (Suc n)) d \<noteq> ?k" using D(2,3) by metis
    with True D(3) [OF d] le [of "slot (home (Suc n)) d"] show ?thesis by simp
  next
    case False
    then have "0 < H (slot (home (H k)) d) \<and> H (slot (home (H k)) d) < H k"
      using ok k by (auto simp: hash_ok_def)
    moreover from this have "slot (home (H k)) d \<noteq> ?k" using D(2) by auto
    ultimately show ?thesis using False by simp
  qed
  have "\<exists>k < HASHTABLE_NSLOT. ?H k = v" if v: "0 < v" "v \<le> Suc n" for v
  proof (cases "v = Suc n")
    case False
    with v ok obtain k where "k < HASHTABLE_NSLOT" "H k = v" by (auto simp: hash_ok_def le_Suc_eq)
    with D(2) v show ?thesis by (intro exI [of _ k]) auto
  qed (auto intro: exI [of _ ?k])
  moreover have "j = k" if jk: "j < HASHTABLE_NSLOT" "k < HASHTABLE_NSLOT" "?H j \<noteq> 0" "?H j = ?H k" for j k
    using jk ok le [of j] le [of k] by (auto simp: hash_ok_def split: if_splits)
  moreover have "?H k \<le> Suc n" if "k < HASHTABLE_NSLOT" for k using le [OF that] by simp
  ultimately show ?thesis unfolding hash_ok_def using path by blast
qed

lemma hash_ok_cleanup:
  assumes "hash_ok H home n" "m \<le> n"
  shows "hash_ok (\<lambda>i. if i < HASHTABLE_NSLOT \<and> H i > m then 0 else H i) home m"
proof -
  let ?H = "\<lambda>i. if i < HASHTABLE_NSLOT \<and> H i > m then 0 else H i"
  have "\<exists>k < HASHTABLE_NSLOT. ?H k = v" if v: "0 < v" "v \<le> m" for v
  proof -
    from v assms obtain k where "k < HASHTABLE_NSLOT" "H k = v" by (auto simp: hash_ok_def)
    with v show ?thesis by (intro exI [of _ k]) auto
  qed
  moreover have "?H k \<le> m" if "k < HASHTABLE_NSLOT" for k using that by simp
  moreover have "j = k" if "j < HASHTABLE_NSLOT" "k < HASHTABLE_NSLOT" "?H j \<noteq> 0" "?H j = ?H k" for j k
    using that assms(1) by (auto simp: hash_ok_def split: if_splits)
  moreover have "0 < ?H (slot (home (?H k)) d) \<and> ?H (slot (home (?H k)) d) < ?H k"
    if k: "k < HASHTABLE_NSLOT" "d < dist HASHTABLE_NSLOT (home (?H k)) k" "?H k \<noteq> 0" for k d
  proof -
    have Hk: "?H k = H k" "H k \<le> m" using k by (auto split: if_splits)
    with k assms(1) have "0 < H (slot (home (H k)) d) \<and> H (slot (home (H k)) d) < H k" by (auto simp: hash_ok_def)
    with Hk show ?thesis by auto
  qed
  ultimately show ?thesis unfolding hash_ok_def by blast
qed

subsection \<open>The index of a log\<close>

text \<open>
  A table of capacity \<open>cap\<close> indexes the frames of the pages \<open>ps\<close>; an index represents a log,
  the list of the page numbers of its frames, when every table up to the one of the last
  frame indexes its part of the log.  Later tables may hold anything.
\<close>

definition table_ok :: "nat \<Rightarrow> wal_table \<Rightarrow> u32 list \<Rightarrow> bool" where
  "table_ok cap t ps \<longleftrightarrow> length ps \<le> cap \<and> cap \<le> 4096 \<and> 0 \<notin> set ps \<and>
     (\<forall>i < cap. aPgno t i = (if i < length ps then ps ! i else 0)) \<and>
     hash_ok (aHash t) (\<lambda>v. walHash (ps ! (v - 1))) (length ps)"

definition segment :: "nat \<Rightarrow> u32 list \<Rightarrow> u32 list" where
  "segment h L = take (nEntry h) (drop (iZero h) L)"

definition index_ok :: "wal_index \<Rightarrow> u32 list \<Rightarrow> bool" where
  "index_ok s L \<longleftrightarrow> length L < 2 ^ 32 - 33 \<and> 0 \<notin> set L \<and>
     (L \<noteq> [] \<longrightarrow> (\<forall>h \<le> walFramePage (length L). table_ok (nEntry h) (apWiData s h) (segment h L)))"

lemma table_append:
  assumes "table_ok cap t ps" "length ps < cap" "p \<noteq> 0"
  shows "\<exists>k. walAppendProbe (Suc (length ps)) (aHash t) (walHash p) = Some k \<and>
    table_ok cap (t\<lparr>aPgno := (aPgno t)(length ps := p), aHash := (aHash t)(k := Suc (length ps))\<rparr>) (ps @ [p])"
proof -
  let ?n = "length ps" and ?home = "\<lambda>v. walHash ((ps @ [p]) ! (v - 1))"
  have n: "?n < HASHTABLE_NSLOT" using assms(1,2) by (simp add: table_ok_def)
  have "hash_ok (aHash t) (\<lambda>v. walHash (ps ! (v - 1))) ?n" using assms(1) unfolding table_ok_def by blast
  then have ok: "hash_ok (aHash t) ?home ?n" by (rule hash_ok_cong) (auto simp: nth_append)
  have h: "?home (Suc ?n) = walHash p" by simp
  obtain D where D: "D \<le> ?n" "aHash t (slot (walHash p) D) = 0" "\<And>d. d < D \<Longrightarrow> aHash t (slot (walHash p) d) \<noteq> 0"
    using first_free [OF ok n walHash_less] by metis
  have "walAppendProbe (Suc ?n) (aHash t) (slot (walHash p) 0) = Some (slot (walHash p) D)"
    using D by (intro walAppendProbe_finds) simp_all
  then have probe: "walAppendProbe (Suc ?n) (aHash t) (walHash p) = Some (slot (walHash p) D)"
    by (simp add: slot_0 walHash_less)
  have "hash_ok ((aHash t)(slot (?home (Suc ?n)) D := Suc ?n)) ?home (Suc ?n)"
    by (rule hash_ok_insert [OF ok]) (use D n in \<open>simp_all add: h walHash_less\<close>)
  then have H: "hash_ok ((aHash t)(slot (walHash p) D := Suc ?n)) ?home (length (ps @ [p]))" by (simp add: h)
  have "table_ok cap (t\<lparr>aPgno := (aPgno t)(?n := p), aHash := (aHash t)(slot (walHash p) D := Suc ?n)\<rparr>) (ps @ [p])"
    unfolding table_ok_def
    by (intro conjI) (use assms H in \<open>auto simp: table_ok_def nth_append less_Suc_eq\<close>)
  with probe show ?thesis by blast
qed

lemma table_zero: "table_ok (nEntry h) (zero_table h t) []"
  using nEntry_bounds(2) [of h] by (simp add: table_ok_def zero_table_def hash_ok_empty)

lemma table_cleanup:
  assumes "table_ok (nEntry h) t ps" "m \<le> length ps"
  shows "table_ok (nEntry h) (t\<lparr>aHash := (\<lambda>i. if i < HASHTABLE_NSLOT \<and> aHash t i > m then 0 else aHash t i),
     aPgno := (\<lambda>i. if m \<le> i \<and> i < nEntry h then 0 else aPgno t i)\<rparr>) (take m ps)"
proof -
  have "hash_ok (\<lambda>i. if i < HASHTABLE_NSLOT \<and> aHash t i > m then 0 else aHash t i) (\<lambda>v. walHash (take m ps ! (v - 1))) m"
  proof -
    have "hash_ok (aHash t) (\<lambda>v. walHash (ps ! (v - 1))) (length ps)" using assms(1) unfolding table_ok_def by blast
    from hash_ok_cleanup [OF this assms(2)] show ?thesis by (rule hash_ok_cong) simp
  qed
  then have H: "hash_ok (\<lambda>i. if i < HASHTABLE_NSLOT \<and> aHash t i > m then 0 else aHash t i) (\<lambda>v. walHash (take m ps ! (v - 1)))
      (length (take m ps))" using assms(2) by simp
  show ?thesis
    unfolding table_ok_def wal_table.simps
    by (intro conjI) (use assms H in \<open>auto simp: table_ok_def dest: in_set_takeD\<close>)
qed

lemma segment_length: "length (segment h L) = min (nEntry h) (length L - iZero h)"
  by (simp add: segment_def min.commute)

lemma segment_full: "h < k \<Longrightarrow> iZero k \<le> n \<Longrightarrow> segment h (take n L) = segment h L"
proof -
  assume "h < k" "iZero k \<le> n"
  then have "iZero h + nEntry h \<le> n" using iZero_mono [of "Suc h" k] by (simp add: iZero_Suc)
  then show ?thesis by (simp add: segment_def drop_take)
qed

lemma segment_append: "h < k \<Longrightarrow> iZero k \<le> length L \<Longrightarrow> segment h (L @ M) = segment h L"
  using segment_full [of h k "length L" "L @ M"] by simp

lemma segment_take: "iZero h \<le> n \<Longrightarrow> segment h (take n L) = take (n - iZero h) (segment h L)"
  by (simp add: segment_def drop_take min.commute)

text \<open>Removing the frames after \<open>mxFrame\<close>.\<close>

lemma cleanup_ok:
  assumes ok: "index_ok s L" and m: "mxFrame s \<le> length L" and shm: "\<forall>h. shmRc s h = SQLITE_OK"
  shows "index_ok (walCleanupHash s) (take (mxFrame s) L)"
proof (cases "mxFrame s = 0")
  case True
  then show ?thesis using ok by (simp add: index_ok_def)
next
  case False
  let ?m = "mxFrame s"
  let ?h = "walFramePage ?m"
  have L: "length L < 2 ^ 32 - 33" using ok by (simp add: index_ok_def)
  have b: "iZero ?h < ?m" "?m \<le> iZero ?h + nEntry ?h" using walFramePage_bounds [of ?m] False L m by auto
  have le: "?h \<le> walFramePage (length L)" using m L by (intro walFramePage_mono) simp_all
  have tab: "table_ok (nEntry k) (apWiData s k) (segment k L)" if "k \<le> walFramePage (length L)" for k
    using ok that False m by (auto simp: index_ok_def)
  have "?m - iZero ?h \<le> length (segment ?h L)" unfolding segment_length using b m by linarith
  from table_cleanup [OF tab [OF le] this] b have top: "table_ok (nEntry ?h) (apWiData (walCleanupHash s) ?h) (segment ?h (take ?m L))"
    using shm False by (simp add: walCleanupHash_def walHashGet_def set_table_def Let_def segment_take)
  have "table_ok (nEntry k) (apWiData (walCleanupHash s) k) (segment k (take ?m L))" if "k \<le> ?h" for k
  proof (cases "k = ?h")
    case False
    with that have "k < ?h" by simp
    with tab [of k] le b segment_full [of k ?h ?m L] show ?thesis
      using shm by (simp add: walCleanupHash_def walHashGet_def set_table_def Let_def)
  qed (simp add: top)
  with ok m show ?thesis by (auto simp: index_ok_def dest: in_set_takeD)
qed

lemma append_core:
  assumes n: "n = length L" "n < 2 ^ 32 - 34" and L: "0 \<notin> set L" "p \<noteq> 0" and h: "h = walFramePage (Suc n)"
    and tabs: "\<And>k. k \<le> h \<Longrightarrow> table_ok (nEntry k) (apWiData s k) (segment k L)"
  shows "\<exists>k. walAppendProbe (Suc n - iZero h) (aHash (apWiData s h)) (walHash p) = Some k \<and>
    index_ok (set_table s h ((apWiData s h)\<lparr>aPgno := (aPgno (apWiData s h))((Suc n - iZero h - 1) AND 4095 := p),
      aHash := (aHash (apWiData s h))(k := Suc n - iZero h)\<rparr>)) (L @ [p])"
proof -
  let ?ps = "segment h L"
  have b: "iZero h \<le> n" "n < iZero h + nEntry h" using walFramePage_bounds [of "Suc n"] n(2) by (simp_all add: h less_Suc_eq_le Suc_le_eq)
  then have len: "length ?ps = n - iZero h" "n - iZero h < nEntry h" unfolding segment_length using n(1) by linarith+
  then have idx: "Suc n - iZero h = Suc (length ?ps)" "length ?ps AND 4095 = length ?ps"
    using b nEntry_bounds(2) [of h] by (simp_all add: nat_and_mask)
  from table_append [OF tabs [OF order_refl] _ L(2)] len
  obtain k where k: "walAppendProbe (Suc (length ?ps)) (aHash (apWiData s h)) (walHash p) = Some k"
    "table_ok (nEntry h) ((apWiData s h)\<lparr>aPgno := (aPgno (apWiData s h))(length ?ps := p),
      aHash := (aHash (apWiData s h))(k := Suc (length ?ps))\<rparr>) (?ps @ [p])" by auto
  have "segment h (L @ [p]) = ?ps @ [p]" using b n(1) by (simp add: segment_def)
  moreover have "segment j (L @ [p]) = segment j L" if "j < h" for j using that b n(1) by (intro segment_append [of j h]) simp_all
  ultimately show ?thesis
    using k tabs L n idx(2) unfolding idx(1) by (auto simp: index_ok_def set_table_def h le_less)
qed

text \<open>Adding a frame after the last one, or after \<open>mxFrame\<close> when frames of a lost writer follow it.\<close>

lemma append_ok:
  assumes ok: "index_ok s L" and n: "n \<le> length L" "n < 2 ^ 32 - 34" "n = length L \<or> n = mxFrame s" and p: "p \<noteq> 0"
    and shm: "\<forall>h. shmRc s h = SQLITE_OK"
  shows "\<exists>t. walIndexAppend s (Suc n) p = (SQLITE_OK, s\<lparr>apWiData := t\<rparr>) \<and> index_ok (s\<lparr>apWiData := t\<rparr>) (take n L @ [p])"
proof -
  let ?L = "take n L" and ?h = "walFramePage (Suc n)"
  have b: "iZero ?h \<le> n" "n < iZero ?h + nEntry ?h" using walFramePage_bounds [of "Suc n"] n(2) by (simp_all add: less_Suc_eq_le Suc_le_eq)
  have len: "length ?L = n" using n(1) by simp
  have L: "0 \<notin> set ?L" using ok by (auto simp: index_ok_def dest: in_set_takeD)
  have low: "table_ok (nEntry k) (apWiData s k) (segment k ?L)" if "k < ?h" for k
  proof -
    have z: "iZero (Suc k) \<le> n" using that b iZero_mono [of "Suc k" ?h] by simp
    then have "0 < n" using nEntry_bounds(1) [of k] by (simp add: iZero_Suc)
    with n(1) have "L \<noteq> []" by auto
    moreover have "k \<le> walFramePage (length L)"
    proof -
      have "walFramePage (iZero (Suc k)) = k" using z n(2) nEntry_bounds(1) [of k] by (subst walFramePage_iff) (simp_all add: iZero_Suc)
      moreover have "walFramePage (iZero (Suc k)) \<le> walFramePage (length L)"
        using z n ok by (intro walFramePage_mono) (simp_all add: index_ok_def)
      ultimately show ?thesis by simp
    qed
    ultimately show ?thesis using ok segment_full [OF that b(1)] by (auto simp: index_ok_def)
  qed
  consider (first) "iZero ?h = n" | (last) "iZero ?h < n" "n = length L" | (lost) "iZero ?h < n" "n = mxFrame s" "n < length L"
    using b n by linarith
  then show ?thesis
  proof cases
    case first
    let ?s = "set_table s ?h (zero_table ?h (apWiData s ?h))"
    have seg: "segment ?h ?L = []" using first by (simp add: segment_def)
    have "table_ok (nEntry k) (apWiData ?s k) (segment k ?L)" if "k \<le> ?h" for k
      using that low [of k] table_zero seg by (cases "k = ?h") (auto simp: set_table_def)
    from append_core [OF len [symmetric] n(2) L p refl this] first show ?thesis
      using nEntry_bounds(1) [of ?h] shm
      by (auto simp: walIndexAppend_def walHashGet_def Let_def set_table_def zero_table_def)
  next
    case last
    have h: "walFramePage n = ?h" using last(1) b n by (subst walFramePage_iff) (simp_all add: iZero_Suc)
    have tabs: "table_ok (nEntry k) (apWiData s k) (segment k ?L)" if "k \<le> ?h" for k
      using ok that last h by (auto simp: index_ok_def)
    have "aPgno (apWiData s ?h) (n - iZero ?h) = 0"
      using tabs [of ?h] last b by (simp add: table_ok_def segment_length len min_def split: if_splits)
    moreover have "Suc n - iZero ?h \<noteq> 1" "Suc n - iZero ?h - 1 = n - iZero ?h" using last(1) by simp_all
    ultimately show ?thesis using append_core [OF len [symmetric] n(2) L p refl tabs] shm
      by (auto simp: walIndexAppend_def walHashGet_def Let_def set_table_def)
  next
    case lost
    have h: "walFramePage n = ?h" using lost(1) b n by (subst walFramePage_iff) (simp_all add: iZero_Suc)
    let ?s = "walCleanupHash s"
    have clean: "index_ok ?s ?L" using cleanup_ok [OF ok _ shm] lost by simp
    have tabs: "table_ok (nEntry k) (apWiData ?s k) (segment k ?L)" if "k \<le> ?h" for k
      using clean that lost h len by (auto simp: index_ok_def)
    have "table_ok (nEntry ?h) (apWiData s ?h) (segment ?h L)"
      using ok lost h walFramePage_mono [of n "length L"] by (auto simp: index_ok_def)
    moreover have "n - iZero ?h < length (segment ?h L)" unfolding segment_length using lost b by linarith
    ultimately have "aPgno (apWiData s ?h) (n - iZero ?h) \<noteq> 0"
      by (auto simp: table_ok_def) (metis nth_mem order.strict_trans2)
    moreover have "Suc n - iZero ?h \<noteq> 1" "Suc n - iZero ?h - 1 = n - iZero ?h" using lost(1) by simp_all
    moreover have "\<exists>t. ?s = s\<lparr>apWiData := t\<rparr>"
      using shm by (auto simp: walCleanupHash_def walHashGet_def set_table_def Let_def intro: exI [of _ "apWiData s"])
    ultimately show ?thesis using append_core [OF len [symmetric] n(2) L p refl tabs] shm
      by (auto simp: walIndexAppend_def walHashGet_def Let_def set_table_def)
  qed
qed

subsection \<open>What a lookup returns\<close>

text \<open>The linear search of the debugging builds: the last frame of the page from \<open>lo\<close> on.\<close>

fun latest_frame :: "u32 list \<Rightarrow> nat \<Rightarrow> u32 \<Rightarrow> nat \<Rightarrow> nat" where
  "latest_frame L lo pgno 0 = 0"
| "latest_frame L lo pgno (Suc f) =
     (if Suc f < lo then 0 else if L ! f = pgno then Suc f else latest_frame L lo pgno f)"

definition hit :: "u32 list \<Rightarrow> nat \<Rightarrow> nat \<Rightarrow> u32 \<Rightarrow> nat \<Rightarrow> bool" where
  "hit L lo hi pgno f \<longleftrightarrow> 0 < f \<and> lo \<le> f \<and> f \<le> hi \<and> L ! (f - 1) = pgno"

lemma latest_frame_eqI:
  "(r = 0 \<and> (\<forall>f. \<not> hit L lo hi pgno f)) \<or> (hit L lo hi pgno r \<and> (\<forall>f > r. \<not> hit L lo hi pgno f)) \<Longrightarrow>
   latest_frame L lo pgno hi = r"
proof (induction hi arbitrary: r)
  case 0
  then show ?case by (auto simp: hit_def)
next
  case (Suc hi)
  show ?case
  proof (cases "lo \<le> Suc hi \<and> L ! hi = pgno")
    case True
    then have h: "hit L lo (Suc hi) pgno (Suc hi)" by (simp add: hit_def)
    with Suc.prems have r: "hit L lo (Suc hi) pgno r" "\<forall>f > r. \<not> hit L lo (Suc hi) pgno f" by blast+
    from r(2) h have "\<not> r < Suc hi" by blast
    moreover from r(1) have "r \<le> Suc hi" by (simp add: hit_def)
    ultimately have "r = Suc hi" by simp
    with True show ?thesis by simp
  next
    case False
    have eq: "hit L lo (Suc hi) pgno f \<longleftrightarrow> hit L lo hi pgno f" for f
      using False by (auto simp: hit_def le_Suc_eq)
    show ?thesis
    proof (cases "Suc hi < lo")
      case True
      then have "\<not> hit L lo (Suc hi) pgno f" for f by (auto simp: hit_def)
      with Suc.prems True show ?thesis by auto
    next
      case lo: False
      with False Suc.IH [of r] Suc.prems show ?thesis by (auto simp: eq)
    qed
  qed
qed

definition match :: "wal_index \<Rightarrow> wal_table \<Rightarrow> nat \<Rightarrow> u32 \<Rightarrow> nat \<Rightarrow> bool" where
  "match s t z pgno v \<longleftrightarrow> v + z \<le> mxFrame s \<and> minFrame s \<le> v + z \<and> aPgno t ((v - 1) AND 4095) = pgno"

text \<open>A loop over \<open>d, ..., D - 1\<close> that remembers the last element with a property.\<close>

definition picks :: "(nat \<Rightarrow> bool) \<Rightarrow> (nat \<Rightarrow> nat) \<Rightarrow> nat \<Rightarrow> nat \<Rightarrow> nat \<Rightarrow> nat \<Rightarrow> bool" where
  "picks P f d D r0 r \<longleftrightarrow> r = r0 \<and> (\<forall>e. d \<le> e \<and> e < D \<longrightarrow> \<not> P e) \<or>
     (\<exists>e. d \<le> e \<and> e < D \<and> r = f e \<and> P e \<and> (\<forall>e'. e < e' \<and> e' < D \<longrightarrow> \<not> P e'))"

lemma picks_step:
  assumes "picks P f (Suc d) D (if P d then f d else r0) r" "d < D"
  shows "picks P f d D r0 r"
  using assms(1) unfolding picks_def
proof (elim disjE exE conjE)
  assume r: "r = (if P d then f d else r0)" and none: "\<forall>e. Suc d \<le> e \<and> e < D \<longrightarrow> \<not> P e"
  show "r = r0 \<and> (\<forall>e. d \<le> e \<and> e < D \<longrightarrow> \<not> P e) \<or>
      (\<exists>e. d \<le> e \<and> e < D \<and> r = f e \<and> P e \<and> (\<forall>e'. e < e' \<and> e' < D \<longrightarrow> \<not> P e'))"
  proof (cases "P d")
    case True
    with r none assms(2) show ?thesis by (intro disjI2 exI [of _ d]) (simp add: Suc_le_eq)
  next
    case False
    have "\<not> P e" if "d \<le> e" "e < D" for e using that none False by (cases "e = d") simp_all
    with r False show ?thesis by simp
  qed
next
  fix e assume "Suc d \<le> e" "e < D" "r = f e" "P e" "\<forall>e'. e < e' \<and> e' < D \<longrightarrow> \<not> P e'"
  then show "r = r0 \<and> (\<forall>e. d \<le> e \<and> e < D \<longrightarrow> \<not> P e) \<or>
      (\<exists>e. d \<le> e \<and> e < D \<and> r = f e \<and> P e \<and> (\<forall>e'. e < e' \<and> e' < D \<longrightarrow> \<not> P e'))"
    by (intro disjI2 exI [of _ e]) simp
qed

lemma walFindLoop_result:
  assumes "aHash t (slot h D) = 0" "\<And>e. e < D \<Longrightarrow> aHash t (slot h e) \<noteq> 0" "d \<le> D" "D - d \<le> n"
  shows "\<exists>r. walFindLoop n s t z pgno (slot h d) r0 = Some r \<and>
    picks (\<lambda>e. match s t z pgno (aHash t (slot h e))) (\<lambda>e. aHash t (slot h e) + z) d D r0 r"
  using assms(3,4)
proof (induction n arbitrary: d r0)
  case 0
  then show ?case using assms(1) by (auto simp: walFindLoop.simps [of 0] picks_def)
next
  case (Suc n)
  show ?case
  proof (cases "d = D")
    case True
    then show ?thesis using assms(1) by (auto simp: walFindLoop.simps [of "Suc n"] picks_def)
  next
    case False
    with Suc.prems have d: "d < D" by simp
    let ?v = "aHash t (slot h d)"
    let ?r = "if match s t z pgno ?v then ?v + z else r0"
    have step: "walFindLoop (Suc n) s t z pgno (slot h d) r0 = walFindLoop n s t z pgno (slot h (Suc d)) ?r"
      using assms(2) [OF d] by (simp add: walFindLoop.simps [of "Suc n"] Let_def slot_next match_def)
    have "Suc d \<le> D" "D - Suc d \<le> n" using d Suc.prems by simp_all
    from Suc.IH [OF this, of ?r] show ?thesis
      unfolding step using picks_step [OF _ d, of "\<lambda>e. match s t z pgno (aHash t (slot h e))"] by blast
  qed
qed

text \<open>The search of one table: the largest matching frame it indexes.\<close>

lemma walFindLoop_table:
  assumes ok: "table_ok cap t ps" and n: "length ps < HASHTABLE_NSLOT"
  shows "\<exists>r. walFindLoop HASHTABLE_NSLOT s t z pgno (walHash pgno) 0 = Some r \<and>
    (r = 0 \<and> (\<forall>v. 0 < v \<and> v \<le> length ps \<longrightarrow> \<not> match s t z pgno v) \<or>
     (\<exists>v. 0 < v \<and> v \<le> length ps \<and> r = v + z \<and> match s t z pgno v \<and> (\<forall>w. v < w \<and> w \<le> length ps \<longrightarrow> \<not> match s t z pgno w)))"
proof -
  let ?h = "walHash pgno" and ?H = "aHash t" and ?n = "length ps"
  have H: "hash_ok ?H (\<lambda>v. walHash (ps ! (v - 1))) ?n" using ok unfolding table_ok_def by blast
  obtain D where D: "D \<le> ?n" "?H (slot ?h D) = 0" "\<And>d. d < D \<Longrightarrow> ?H (slot ?h d) \<noteq> 0"
    using first_free [OF H n walHash_less] by metis
  have home: "walHash (ps ! (v - 1)) = ?h" if "0 < v" "v \<le> ?n" "match s t z pgno v" for v
  proof -
    have "(v - 1) AND 4095 = v - 1" "v - 1 < cap" using that ok by (auto simp: nat_and_mask table_ok_def)
    with that ok show ?thesis by (auto simp: match_def table_ok_def)
  qed
  have path: "0 < ?H (slot ?h d) \<and> ?H (slot ?h d) < ?H k"
    if "k < HASHTABLE_NSLOT" "0 < ?H k" "match s t z pgno (?H k)" "d < dist HASHTABLE_NSLOT ?h k" for k d
    using H that home [of "?H k"] by (auto simp: hash_ok_def)
  have at: "\<exists>e < D. ?H (slot ?h e) = v" if v: "0 < v" "v \<le> ?n" "match s t z pgno v" for v
  proof -
    obtain k where k: "k < HASHTABLE_NSLOT" "?H k = v" using H v by (auto simp: hash_ok_def)
    have "slot ?h (dist HASHTABLE_NSLOT ?h k) = k" using k(1) by (intro slot_dist walHash_less)
    moreover have "\<not> D < dist HASHTABLE_NSLOT ?h k" using path [of k D] k v D(2) by auto
    ultimately show ?thesis using k v D(2) by (metis linorder_neqE_nat less_irrefl)
  qed
  let ?P = "\<lambda>e. match s t z pgno (?H (slot ?h e))"
  obtain r where r: "walFindLoop HASHTABLE_NSLOT s t z pgno (slot ?h 0) 0 = Some r"
    and c: "picks ?P (\<lambda>e. ?H (slot ?h e) + z) 0 D 0 r"
    using walFindLoop_result [of t ?h D 0 HASHTABLE_NSLOT s z pgno 0, OF D(2,3)] D(1) n by (meson le0 less_imp_le_nat order.trans diff_le_self)
  consider (none) "r = 0" "\<And>e. e < D \<Longrightarrow> \<not> ?P e"
    | (last) e where "e < D" "r = ?H (slot ?h e) + z" "?P e" "\<And>e'. e' < D \<Longrightarrow> e < e' \<Longrightarrow> \<not> ?P e'"
    using c unfolding picks_def by blast
  then have "r = 0 \<and> (\<forall>v. 0 < v \<and> v \<le> ?n \<longrightarrow> \<not> match s t z pgno v) \<or>
     (\<exists>v. 0 < v \<and> v \<le> ?n \<and> r = v + z \<and> match s t z pgno v \<and> (\<forall>w. v < w \<and> w \<le> ?n \<longrightarrow> \<not> match s t z pgno w))"
  proof cases
    case none
    then show ?thesis using at by blast
  next
    case e: (last e)
    let ?v = "?H (slot ?h e)"
    have v: "0 < ?v" "?v \<le> ?n" using D(3) [OF e(1)] H by (auto simp: hash_ok_def)
    have "\<not> match s t z pgno w" if w: "?v < w" "w \<le> ?n" for w
    proof
      assume m: "match s t z pgno w"
      with at [of w] w obtain e' where e': "e' < D" "?H (slot ?h e') = w" by auto
      from e(4) [OF e'(1)] m e' have "\<not> e < e'" by auto
      moreover have "e \<noteq> e'" using e' w by auto
      moreover have "dist HASHTABLE_NSLOT ?h (slot ?h e) = e" using e(1) D(1) n by (intro dist_slot walHash_less) simp
      ultimately show False using path [of "slot ?h e" e'] v e' e(3) w by auto
    qed
    with e v show ?thesis by blast
  qed
  with r show ?thesis by (simp add: slot_0 walHash_less)
qed

lemma latest_frame_skip:
  assumes "b \<le> a" "\<And>f. b < f \<Longrightarrow> \<not> hit L lo a pgno f"
  shows "latest_frame L lo pgno a = latest_frame L lo pgno b"
  using assms
proof (induction a)
  case (Suc a)
  show ?case
  proof (cases "b = Suc a")
    case False
    with Suc.prems(1) have le: "b \<le> a" by simp
    have no: "\<not> hit L lo (Suc a) pgno (Suc a)" using Suc.prems(2) le by simp
    have "latest_frame L lo pgno a = latest_frame L lo pgno b"
      using Suc.prems(2) by (intro Suc.IH le) (auto simp: hit_def)
    moreover have "latest_frame L lo pgno b = 0" if "Suc a < lo"
      by (rule latest_frame_eqI) (use that le in \<open>auto simp: hit_def\<close>)
    ultimately show ?thesis using no by (auto simp: hit_def)
  qed simp
qed simp

lemma table_search:
  assumes ok: "index_ok s L" "mxFrame s \<le> length L" and h: "h \<le> walFramePage (mxFrame s)" "0 < mxFrame s"
  defines "hi \<equiv> min (mxFrame s) (iZero (Suc h))"
  obtains r where "walFindLoop HASHTABLE_NSLOT s (apWiData s h) (iZero h) pgno (walHash pgno) 0 = Some r"
    and "r \<noteq> 0 \<Longrightarrow> latest_frame L (minFrame s) pgno hi = r"
    and "r = 0 \<Longrightarrow> latest_frame L (minFrame s) pgno hi = latest_frame L (minFrame s) pgno (min (mxFrame s) (iZero h))"
proof -
  let ?t = "apWiData s h" and ?z = "iZero h" and ?ps = "segment h L"
  have b: "mxFrame s < 2 ^ 32 - 33" using ok by (simp add: index_ok_def)
  have z: "?z < mxFrame s" using iZero_mono [OF h(1)] walFramePage_bounds [OF h(2) b] by simp
  have "h \<le> walFramePage (length L)" using h(1) walFramePage_mono [OF ok(2)] ok by (auto simp: index_ok_def intro: order.trans)
  with ok h(2) have t: "table_ok (nEntry h) ?t ?ps" by (auto simp: index_ok_def)
  have len: "length ?ps = min (nEntry h) (length L - ?z)" by (rule segment_length)
  then have n: "length ?ps < HASHTABLE_NSLOT" using nEntry_bounds(2) [of h] by simp
  have m: "match s ?t ?z pgno v \<longleftrightarrow> hit L (minFrame s) hi pgno (v + ?z)" if v: "0 < v" "v \<le> length ?ps" for v
  proof -
    have "v - 1 < nEntry h" "v - 1 < length L - ?z" "(v - 1) AND 4095 = v - 1"
      using v len nEntry_bounds(2) [of h] by (auto simp: nat_and_mask)
    then have "aPgno ?t ((v - 1) AND 4095) = L ! (v + ?z - 1)"
      using t v len by (simp add: table_ok_def segment_def add.commute)
    then show ?thesis using v len by (auto simp: match_def hit_def hi_def iZero_Suc)
  qed
  have rng: "0 < f - ?z \<and> f - ?z \<le> length ?ps \<and> f - ?z + ?z = f" if "?z < f" "f \<le> hi" for f
    using that ok(2) len by (auto simp: hi_def iZero_Suc)
  from walFindLoop_table [OF t n, of s ?z pgno] obtain r
    where r: "walFindLoop HASHTABLE_NSLOT s ?t ?z pgno (walHash pgno) 0 = Some r"
    and c: "r = 0 \<and> (\<forall>v. 0 < v \<and> v \<le> length ?ps \<longrightarrow> \<not> match s ?t ?z pgno v) \<or>
     (\<exists>v. 0 < v \<and> v \<le> length ?ps \<and> r = v + ?z \<and> match s ?t ?z pgno v \<and>
       (\<forall>w. v < w \<and> w \<le> length ?ps \<longrightarrow> \<not> match s ?t ?z pgno w))" by blast
  show thesis
  proof (rule that [OF r])
    assume "r \<noteq> 0"
    with c obtain v where v: "0 < v" "v \<le> length ?ps" "r = v + ?z" "match s ?t ?z pgno v"
      "\<And>w. v < w \<Longrightarrow> w \<le> length ?ps \<Longrightarrow> \<not> match s ?t ?z pgno w" by blast
    have "\<not> hit L (minFrame s) hi pgno f" if "r < f" for f
    proof
      assume a: "hit L (minFrame s) hi pgno f"
      then have "?z < f" "f \<le> hi" using that v(3) by (simp_all add: hit_def)
      note w = rng [OF this]
      have "v < f - ?z" using that v(3) by simp
      with w v(5) [of "f - ?z"] m [of "f - ?z"] a show False by auto
    qed
    moreover have "hit L (minFrame s) hi pgno r" using m v by simp
    ultimately show "latest_frame L (minFrame s) pgno hi = r" by (intro latest_frame_eqI) blast
  next
    assume "r = 0"
    then have none: "\<And>v. 0 < v \<Longrightarrow> v \<le> length ?ps \<Longrightarrow> \<not> match s ?t ?z pgno v" using c by auto
    show "latest_frame L (minFrame s) pgno hi = latest_frame L (minFrame s) pgno (min (mxFrame s) ?z)"
    proof (rule latest_frame_skip)
      show "min (mxFrame s) ?z \<le> hi" by (simp add: hi_def iZero_Suc)
      fix f assume "min (mxFrame s) ?z < f"
      with z have "?z < f" by simp
      then show "\<not> hit L (minFrame s) hi pgno f"
        using rng [of f] m [of "f - ?z"] none [of "f - ?z"] by (auto simp: hit_def)
    qed
  qed
qed

lemma below_first_table:
  assumes "h < walFramePage lo" "lo < 2 ^ 32 - 33" "a \<le> iZero (Suc h)"
  shows "latest_frame L lo pgno a = 0"
proof -
  have "0 < lo" using assms(1) by (cases lo) (simp_all add: walFramePage_def)
  then have "iZero (Suc h) < lo" using walFramePage_bounds [of lo] assms iZero_mono [of "Suc h" "walFramePage lo"] by simp
  then show ?thesis using assms(3) by (intro latest_frame_eqI) (auto simp: hit_def)
qed

lemma walFindTables_latest:
  assumes ok: "index_ok s L" "mxFrame s \<le> length L" "0 < mxFrame s" and shm: "\<forall>h. shmRc s h = SQLITE_OK"
    and lo: "minFrame s < 2 ^ 32 - 33"
  shows "h \<le> walFramePage (mxFrame s) \<Longrightarrow> walFindTables s pgno (walFramePage (minFrame s)) h =
    (SQLITE_OK, latest_frame L (minFrame s) pgno (min (mxFrame s) (iZero (Suc h))))"
proof (induction h)
  case 0
  obtain r where "walFindLoop HASHTABLE_NSLOT s (apWiData s 0) (iZero 0) pgno (walHash pgno) 0 = Some r"
    and "r \<noteq> 0 \<Longrightarrow> latest_frame L (minFrame s) pgno (min (mxFrame s) (iZero (Suc 0))) = r"
    and "r = 0 \<Longrightarrow> latest_frame L (minFrame s) pgno (min (mxFrame s) (iZero (Suc 0))) = latest_frame L (minFrame s) pgno (min (mxFrame s) (iZero 0))"
    using table_search [OF ok(1,2) 0 ok(3)] by metis
  moreover have "iZero 0 = 0" by (simp add: iZero_def)
  ultimately show ?case
    using shm below_first_table [OF _ lo, of 0]
    by (subst walFindTables.simps) (auto simp: walHashGet_def)
next
  case (Suc h)
  obtain r where "walFindLoop HASHTABLE_NSLOT s (apWiData s (Suc h)) (iZero (Suc h)) pgno (walHash pgno) 0 = Some r"
    and "r \<noteq> 0 \<Longrightarrow> latest_frame L (minFrame s) pgno (min (mxFrame s) (iZero (Suc (Suc h)))) = r"
    and "r = 0 \<Longrightarrow> latest_frame L (minFrame s) pgno (min (mxFrame s) (iZero (Suc (Suc h)))) =
      latest_frame L (minFrame s) pgno (min (mxFrame s) (iZero (Suc h)))"
    using table_search [OF ok(1,2) Suc.prems ok(3)] by metis
  with Suc show ?case
    using shm below_first_table [OF _ lo, of "Suc h"]
    by (subst walFindTables.simps) (auto simp: walHashGet_def)
qed

lemma walFindFrame_latest:
  assumes ok: "index_ok s L" "mxFrame s \<le> length L" and shm: "\<forall>h. shmRc s h = SQLITE_OK"
    and lo: "minFrame s < 2 ^ 32 - 33" and lock: "readLock s \<noteq> 0 \<or> bShmUnreliable s"
  shows "walFindFrame s pgno = (SQLITE_OK, latest_frame L (minFrame s) pgno (mxFrame s))"
proof (cases "mxFrame s = 0")
  case False
  have "mxFrame s < 2 ^ 32 - 33" using ok by (simp add: index_ok_def)
  with False walFramePage_bounds [of "mxFrame s"] have "mxFrame s \<le> iZero (Suc (walFramePage (mxFrame s)))" by (simp add: iZero_Suc)
  then show ?thesis using walFindTables_latest [OF ok _ shm lo order_refl] False lock
    by (auto simp: walFindFrame_def min_def)
qed (use lock in \<open>simp add: walFindFrame_def\<close>)

subsection \<open>Histories\<close>

text \<open>
  What happens to the index of one log: frames are written, as part of a transaction or
  completing it; the transaction is rolled back, entirely or to a savepoint; or the writer is
  lost and the next one starts from the published header.
\<close>

datatype wal_op = WFrames "u32 list" bool | WUndo | WSavepointUndo nat | WNewWriter

definition wal_exec :: "wal_op \<Rightarrow> wal_index \<Rightarrow> wal_index" where
  "wal_exec op s = (case op of
      WFrames ps isCommit \<Rightarrow> snd (walFramesIndex s ps isCommit)
    | WUndo \<Rightarrow> fst (snd (sqlite3WalUndo (\<lambda>_ c. (SQLITE_OK, c)) s ()))
    | WSavepointUndo m \<Rightarrow> fst (sqlite3WalSavepointUndo s (m, aFrameCksum s, nCkpt s))
    | WNewWriter \<Rightarrow> s\<lparr>mxFrame := hdrFrame s, aFrameCksum := hdrCksum s\<rparr>)"

text \<open>The log as a list of page numbers, with the number of committed frames.\<close>

definition wal_spec :: "wal_op \<Rightarrow> u32 list \<times> nat \<Rightarrow> u32 list \<times> nat" where
  "wal_spec op l = (case l of (L, c) \<Rightarrow> (case op of
      WFrames ps isCommit \<Rightarrow> (L @ ps, if isCommit then length (L @ ps) else c)
    | WUndo \<Rightarrow> (take c L, c)
    | WSavepointUndo m \<Rightarrow> (take m L, c)
    | WNewWriter \<Rightarrow> (take c L, c)))"

definition wal_allowed :: "wal_op \<Rightarrow> u32 list \<times> nat \<Rightarrow> bool" where
  "wal_allowed op l = (case l of (L, c) \<Rightarrow> (case op of
      WFrames ps isCommit \<Rightarrow> 0 \<notin> set ps \<and> length L + length ps < 2 ^ 32 - 34
    | WSavepointUndo m \<Rightarrow> c \<le> m \<and> m \<le> length L
    | _ \<Rightarrow> True))"

definition wal_repr :: "wal_index \<Rightarrow> u32 list \<times> nat \<Rightarrow> bool" where
  "wal_repr s l = (case l of (L, c) \<Rightarrow> (\<exists>M. index_ok s (L @ M)) \<and> mxFrame s = length L \<and> hdrFrame s = c \<and> c \<le> length L \<and>
     (\<forall>h. shmRc s h = SQLITE_OK))"

lemma appendLoop_ok:
  "index_ok s L \<Longrightarrow> n \<le> length L \<Longrightarrow> n = length L \<or> n = mxFrame s \<Longrightarrow> n + length ps < 2 ^ 32 - 34 \<Longrightarrow> 0 \<notin> set ps \<Longrightarrow>
   \<forall>h. shmRc s h = SQLITE_OK \<Longrightarrow>
   \<exists>t. appendLoop s n ps = (SQLITE_OK, s\<lparr>apWiData := t\<rparr>, n + length ps) \<and>
     (ps \<noteq> [] \<longrightarrow> index_ok (s\<lparr>apWiData := t\<rparr>) (take n L @ ps)) \<and> (ps = [] \<longrightarrow> t = apWiData s)"
proof (induction ps arbitrary: s L n)
  case Nil
  then show ?case by auto
next
  case (Cons p ps)
  obtain t where t: "walIndexAppend s (Suc n) p = (SQLITE_OK, s\<lparr>apWiData := t\<rparr>)" "index_ok (s\<lparr>apWiData := t\<rparr>) (take n L @ [p])"
    using append_ok [OF Cons.prems(1,2) _ Cons.prems(3), of p] Cons.prems by auto
  have len: "length (take n L @ [p]) = Suc n" using Cons.prems(2) by simp
  obtain t' where t': "appendLoop (s\<lparr>apWiData := t\<rparr>) (Suc n) ps = (SQLITE_OK, s\<lparr>apWiData := t'\<rparr>, Suc n + length ps)"
    "ps \<noteq> [] \<longrightarrow> index_ok (s\<lparr>apWiData := t'\<rparr>) (take (Suc n) (take n L @ [p]) @ ps)" "ps = [] \<longrightarrow> t' = t"
    using Cons.IH [OF t(2), of "Suc n"] Cons.prems len by auto
  have "index_ok (s\<lparr>apWiData := t'\<rparr>) (take n L @ p # ps)"
    using t' t(2) len by (cases "ps = []") simp_all
  with t(1) t'(1) show ?case by auto
qed

lemma undoLoop_trivial: "undoLoop (\<lambda>_ c. (SQLITE_OK, c)) s fs c = (SQLITE_OK, c)"
  by (induction fs) simp_all

lemma index_ok_update: "index_ok (s\<lparr>mxFrame := a, aFrameCksum := b\<rparr>) L \<longleftrightarrow> index_ok s L"
  "index_ok (s\<lparr>iReCksum := n\<rparr>) L \<longleftrightarrow> index_ok s L"
  "index_ok (s\<lparr>mxFrame := a\<rparr>) L \<longleftrightarrow> index_ok s L"
  "index_ok (s\<lparr>mxFrame := a, hdrFrame := a, hdrCksum := b\<rparr>) L \<longleftrightarrow> index_ok s L"
  by (simp_all add: index_ok_def)

lemma cleanup_frame: "mxFrame (walCleanupHash s) = mxFrame s" "hdrFrame (walCleanupHash s) = hdrFrame s"
  "shmRc (walCleanupHash s) = shmRc s"
  by (simp_all add: walCleanupHash_def set_table_def Let_def split: sum.splits prod.splits)

lemma wal_exec_ok:
  assumes "wal_repr s l" "wal_allowed op l"
  shows "wal_repr (wal_exec op s) (wal_spec op l)"
proof -
  obtain L c where l: "l = (L, c)" by fastforce
  obtain M where ok: "index_ok s (L @ M)" and mx: "mxFrame s = length L" and c: "hdrFrame s = c" "c \<le> length L"
    and shm: "\<forall>h. shmRc s h = SQLITE_OK" using assms(1) by (auto simp: wal_repr_def l)
  have cut: "\<exists>N. index_ok (walCleanupHash s') (take m L @ N)"
    if "index_ok s' (L @ M)" "mxFrame s' = m" "m \<le> length L" "shmRc s' = shmRc s" for s' m
    using cleanup_ok [OF that(1)] that shm by (intro exI [of _ "[]"]) simp
  have whole: "\<exists>N. index_ok s (take m L @ N)" for m
    using ok by (intro exI [of _ "drop m L @ M"]) (metis append.assoc append_take_drop_id)
  show ?thesis
  proof (cases op)
    case (WFrames ps isCommit)
    obtain t where t: "appendLoop s (length L) ps = (SQLITE_OK, s\<lparr>apWiData := t\<rparr>, length L + length ps)"
      "ps \<noteq> [] \<longrightarrow> index_ok (s\<lparr>apWiData := t\<rparr>) (L @ ps)" "ps = [] \<longrightarrow> t = apWiData s"
      using appendLoop_ok [OF ok, of "length L" ps] assms(2) mx shm by (auto simp: WFrames wal_allowed_def l)
    then have "\<exists>N. index_ok (s\<lparr>apWiData := t\<rparr>) ((L @ ps) @ N)" using ok by (cases "ps = []") (auto intro: exI [of _ "[]"])
    then show ?thesis using t(1) mx c shm
      by (auto simp: WFrames wal_exec_def walFramesIndex_def wal_spec_def wal_repr_def l index_ok_update)
  next
    case WUndo
    then show ?thesis using cut [of "s\<lparr>mxFrame := c, aFrameCksum := hdrCksum s\<rparr>" c] ok mx c shm whole
      by (auto simp: wal_exec_def sqlite3WalUndo_def Let_def undoLoop_trivial wal_spec_def wal_repr_def l index_ok_update cleanup_frame)
  next
    case (WSavepointUndo m)
    then show ?thesis using cut [of "s\<lparr>mxFrame := m\<rparr>" m] ok mx c shm whole assms(2)
      by (auto simp: wal_exec_def sqlite3WalSavepointUndo_def Let_def wal_spec_def wal_repr_def wal_allowed_def l index_ok_update cleanup_frame)
  next
    case WNewWriter
    then show ?thesis using ok mx c shm whole
      by (auto simp: wal_exec_def wal_spec_def wal_repr_def l index_ok_update)
  qed
qed

interpretation ws: simulation wal_exec wal_spec wal_allowed wal_repr
  by unfold_locales (rule wal_exec_ok)

lemma latest_frame_cong: "(\<And>i. i < hi \<Longrightarrow> L ! i = M ! i) \<Longrightarrow> latest_frame L lo pgno hi = latest_frame M lo pgno hi"
  by (induction hi) simp_all

text \<open>Committed frames stay.\<close>

lemma committed_stays:
  assumes "allowed_run wal_allowed wal_spec ops (L, c)" "c \<le> length L"
  shows "\<exists>L' c'. fold wal_spec ops (L, c) = (L', c') \<and> c \<le> c' \<and> c' \<le> length L' \<and> take c L' = take c L"
proof -
  let ?P = "\<lambda>l. c \<le> snd l \<and> snd l \<le> length (fst l) \<and> take c (fst l) = take c L"
  have "?P (fold wal_spec ops (L, c))"
    by (rule ws.run_keeps [OF _ assms(1)])
      (use assms(2) in \<open>auto simp: wal_spec_def wal_allowed_def min_def split: wal_op.splits prod.splits\<close>)
  then show ?thesis by (cases "fold wal_spec ops (L, c)") auto
qed

subsection \<open>Properties\<close>

definition wal_reader :: "nat \<Rightarrow> nat \<Rightarrow> wal_index \<Rightarrow> wal_index" where
  "wal_reader lo hi s = s\<lparr>minFrame := lo, mxFrame := hi, readLock := 1\<rparr>"

text \<open>
  C3: after any history of frames written, commits, rollbacks, savepoint rollbacks and lost
  writers, a lookup returns the last frame of the page in the part of the log the reader may
  use, or 0, and never reports corruption.
\<close>

theorem wal_history:
  assumes "\<forall>h. shmRc s h = SQLITE_OK" and "mxFrame s = 0" and "hdrFrame s = 0"
    and "allowed_run wal_allowed wal_spec ops ([], 0)" and "fold wal_spec ops ([], 0) = (L, c)" and "lo < 2 ^ 32 - 33"
  shows "walFindFrame (wal_reader lo (length L) (fold wal_exec ops s)) pgno = (SQLITE_OK, latest_frame L lo pgno (length L))"
proof -
  let ?s = "fold wal_exec ops s"
  have "wal_repr s ([], 0)" using assms(1,2,3) by (auto simp: wal_repr_def index_ok_def intro: exI [of _ "[]"])
  from ws.run [OF this assms(4)] obtain M where ok: "index_ok ?s (L @ M)" and shm: "\<forall>h. shmRc ?s h = SQLITE_OK"
    by (auto simp: wal_repr_def assms(5))
  have "walFindFrame (wal_reader lo (length L) ?s) pgno = (SQLITE_OK, latest_frame (L @ M) lo pgno (length L))"
    using walFindFrame_latest [of "wal_reader lo (length L) ?s" "L @ M" pgno] ok shm assms(6)
    by (simp add: wal_reader_def index_ok_def)
  also have "latest_frame (L @ M) lo pgno (length L) = latest_frame L lo pgno (length L)"
    by (rule latest_frame_cong) (simp add: nth_append)
  finally show ?thesis .
qed

text \<open>An index before its first use: the tables may hold anything.\<close>

definition fresh_index :: wal_index where
  "fresh_index = \<lparr>apWiData = (\<lambda>_. \<lparr>aPgno = (\<lambda>_. 17), aHash = (\<lambda>_. 23)\<rparr>), shmRc = (\<lambda>_. SQLITE_OK),
     mxFrame = 0, aFrameCksum = (0, 0), hdrFrame = 0, hdrCksum = (0, 0), iReCksum = 0, nCkpt = 0,
     minFrame = 0, readLock = 0, bShmUnreliable = False\<rparr>"

theorem wal_history_witness:
  "walFindFrame (wal_reader 1 4 (fold wal_exec [WFrames [5, 7, 5] True, WFrames [9] False, WUndo, WFrames [7] True] fresh_index)) 7
    = (SQLITE_OK, 4)"
proof -
  let ?ops = "[WFrames [5, 7, 5] True, WFrames [9] False, WUndo, WFrames [7] True]"
  have a: "allowed_run wal_allowed wal_spec ?ops ([], 0)" by (simp add: wal_allowed_def wal_spec_def)
  have f: "fold wal_spec ?ops ([], 0) = ([5, 7, 5, 7], 4)" by (simp add: wal_spec_def)
  have l: "latest_frame [5, 7, 5, 7] 1 7 4 = 4" "length [5, 7, 5, 7 :: u32] = 4" by (simp_all add: eval_nat_numeral)
  from wal_history [of fresh_index, OF _ _ _ a f, of 1 7] show ?thesis unfolding l by (simp add: fresh_index_def del: fold_simps)
qed

text \<open>
  C4: a reader keeps its snapshot.  A lookup limited to the frames committed when the reader
  started gives the same answer after the writers that follow have written, committed, rolled
  back or died.
\<close>

theorem wal_snapshot:
  assumes "wal_repr s (L, c)" and "m \<le> c" and "allowed_run wal_allowed wal_spec ops (L, c)" and "lo < 2 ^ 32 - 33"
  shows "walFindFrame (wal_reader lo m (fold wal_exec ops s)) pgno = (SQLITE_OK, latest_frame L lo pgno m)"
proof -
  let ?s = "fold wal_exec ops s"
  have c: "c \<le> length L" using assms(1) by (simp add: wal_repr_def)
  obtain L' c' where l: "fold wal_spec ops (L, c) = (L', c')" "c \<le> c'" "c' \<le> length L'" "take c L' = take c L"
    using committed_stays [OF assms(3) c] by blast
  from ws.run [OF assms(1,3)] obtain M where ok: "index_ok ?s (L' @ M)" and shm: "\<forall>h. shmRc ?s h = SQLITE_OK"
    by (auto simp: wal_repr_def l(1))
  have "walFindFrame (wal_reader lo m ?s) pgno = (SQLITE_OK, latest_frame (L' @ M) lo pgno m)"
    using walFindFrame_latest [of "wal_reader lo m ?s" "L' @ M" pgno] ok shm assms(2,4) l
    by (simp add: wal_reader_def index_ok_def)
  also have "latest_frame (L' @ M) lo pgno m = latest_frame L lo pgno m"
  proof (rule latest_frame_cong)
    fix i assume "i < m"
    with assms(2) l(2,3) have i: "i < c" "i < length L'" by simp_all
    have "L' ! i = take c L' ! i" using i by simp
    also have "\<dots> = L ! i" using i by (simp add: l(4))
    finally show "(L' @ M) ! i = L ! i" using i by (simp add: nth_append)
  qed
  finally show ?thesis .
qed

theorem wal_snapshot_witness:
  "walFindFrame (wal_reader 1 2 (fold wal_exec [WFrames [7] False, WUndo, WFrames [5] True] (wal_exec (WFrames [5, 7] True) fresh_index))) 5
    = (SQLITE_OK, 1)"
proof -
  have "wal_repr fresh_index ([], 0)" by (auto simp: wal_repr_def index_ok_def fresh_index_def intro: exI [of _ "[]"])
  then have "wal_repr (wal_exec (WFrames [5, 7] True) fresh_index) (wal_spec (WFrames [5, 7] True) ([], 0))"
    by (rule wal_exec_ok) (simp add: wal_allowed_def)
  moreover have "wal_spec (WFrames [5, 7] True) ([], 0) = ([5, 7], 2)" by (simp add: wal_spec_def)
  ultimately have r: "wal_repr (wal_exec (WFrames [5, 7] True) fresh_index) ([5, 7], 2)" by simp
  have "latest_frame [5, 7] 1 5 2 = 1" by (simp add: eval_nat_numeral)
  then show ?thesis using wal_snapshot [OF r, of 2 "[WFrames [7] False, WUndo, WFrames [5] True]" 1 5]
    by (simp add: wal_allowed_def wal_spec_def)
qed

text \<open>
  When an index page cannot be mapped, adding a frame and looking a page up in it return
  the error of the mapping and the index is unchanged.
\<close>

lemma wal_map_failure:
  assumes "shmRc s (walFramePage f) = rc" and "rc \<noteq> SQLITE_OK"
  shows "walIndexAppend s f p = (rc, s)"
    and "mxFrame s = f \<Longrightarrow> 0 < f \<Longrightarrow> readLock s \<noteq> 0 \<Longrightarrow> minFrame s \<le> f \<Longrightarrow> f < 2 ^ 32 - 33 \<Longrightarrow> walFindFrame s p = (rc, 0)"
proof -
  show "walIndexAppend s f p = (rc, s)" using assms by (simp add: walIndexAppend_def walHashGet_def)
  assume "mxFrame s = f" "0 < f" "readLock s \<noteq> 0" "minFrame s \<le> f" "f < 2 ^ 32 - 33"
  then show "walFindFrame s p = (rc, 0)"
    using assms walFramePage_mono [of "minFrame s" f]
    by (simp add: walFindFrame_def walFindTables.simps [of _ _ _ "walFramePage f"] walHashGet_def)
qed

end
