(* ===== verification/Wal_Frame.thy ===== *)
theory Wal_Frame
  imports Varint Wal_Index
begin

text \<open>
  The file of the write-ahead log (wal.c): the running checksum \<^verbatim>\<open>walChecksumBytes\<close>, the frame headers
  \<^verbatim>\<open>walEncodeFrame\<close> and \<^verbatim>\<open>walDecodeFrame\<close>, and \<^verbatim>\<open>walIndexRecover\<close>, which rebuilds the index from the file.

  The byte order of the machine (\<^verbatim>\<open>SQLITE_BIGENDIAN\<close>) is an argument.  A file is its bytes and its
  size; the result codes of reads, of the allocation and of the locks are arguments as well.
\<close>

subsection \<open>Checksums\<close>

definition BYTESWAP32 :: "u32 \<Rightarrow> u32" where
  "BYTESWAP32 x = push_bit 24 (x AND 0x000000FF) + push_bit 8 (x AND 0x0000FF00) +
     drop_bit 8 (x AND 0x00FF0000) + drop_bit 24 (x AND 0xFF000000)"

text \<open>A 32-bit word of memory, in the byte order of the machine.\<close>

definition read32 :: "bool \<Rightarrow> mem \<Rightarrow> nat \<Rightarrow> u32" where
  "read32 be a k =
     (if be then sqlite3Get4byte (ptr a (4 * k))
      else ucast (a (4 * k)) OR push_bit 8 (ucast (a (4 * k + 1))) OR push_bit 16 (ucast (a (4 * k + 2)))
        OR push_bit 24 (ucast (a (4 * k + 3))))"

text \<open>The loop over pairs of words, and the one that handles sixteen words in a round.\<close>

fun cksumLoop :: "(nat \<Rightarrow> u32) \<Rightarrow> nat \<Rightarrow> nat \<Rightarrow> u32 \<Rightarrow> u32 \<Rightarrow> u32 \<times> u32" where
  "cksumLoop aData k 0 s1 s2 = (s1, s2)"
| "cksumLoop aData k (Suc n) s1 s2 =
     (let s1 = s1 + (aData k + s2); s2 = s2 + (aData (k + 1) + s1) in cksumLoop aData (k + 2) n s1 s2)"

fun cksumLoop16 :: "(nat \<Rightarrow> u32) \<Rightarrow> nat \<Rightarrow> nat \<Rightarrow> u32 \<Rightarrow> u32 \<Rightarrow> u32 \<times> u32" where
  "cksumLoop16 aData k 0 s1 s2 = (s1, s2)"
| "cksumLoop16 aData k (Suc n) s1 s2 =
     (let s1 = s1 + (aData k + s2); s2 = s2 + (aData (k + 1) + s1);
          s1 = s1 + (aData (k + 2) + s2); s2 = s2 + (aData (k + 3) + s1);
          s1 = s1 + (aData (k + 4) + s2); s2 = s2 + (aData (k + 5) + s1);
          s1 = s1 + (aData (k + 6) + s2); s2 = s2 + (aData (k + 7) + s1);
          s1 = s1 + (aData (k + 8) + s2); s2 = s2 + (aData (k + 9) + s1);
          s1 = s1 + (aData (k + 10) + s2); s2 = s2 + (aData (k + 11) + s1);
          s1 = s1 + (aData (k + 12) + s2); s2 = s2 + (aData (k + 13) + s1);
          s1 = s1 + (aData (k + 14) + s2); s2 = s2 + (aData (k + 15) + s1)
      in cksumLoop16 aData (k + 16) n s1 s2)"

definition walChecksumBytes :: "bool \<Rightarrow> bool \<Rightarrow> mem \<Rightarrow> nat \<Rightarrow> u32 \<times> u32 \<Rightarrow> u32 \<times> u32" where
  "walChecksumBytes be nativeCksum a nByte aIn =
     (case aIn of (s1, s2) \<Rightarrow>
      if \<not> nativeCksum then cksumLoop (\<lambda>k. BYTESWAP32 (read32 be a k)) 0 (nByte div 8) s1 s2
      else if nByte mod 64 = 0 then cksumLoop16 (read32 be a) 0 (nByte div 64) s1 s2
      else cksumLoop (read32 be a) 0 (nByte div 8) s1 s2)"

subsection \<open>Frames\<close>

abbreviation WAL_MAX_VERSION :: u32 where "WAL_MAX_VERSION \<equiv> 3007000"
abbreviation WAL_HDRSIZE :: nat where "WAL_HDRSIZE \<equiv> 32"
abbreviation WAL_FRAME_HDRSIZE :: nat where "WAL_FRAME_HDRSIZE \<equiv> 24"
abbreviation WAL_MAGIC :: u32 where "WAL_MAGIC \<equiv> 0x377f0682"

text \<open>
  A connection.  The header that it caches (\<^verbatim>\<open>pWal->hdr\<close>) has \<open>mxFrame\<close> and \<open>aFrameCksum\<close> in the index and the other
  fields here; of the shared header in the index, \<open>hdrFrame\<close> and \<open>hdrCksum\<close> are in the index and
  \<open>liveHdr\<close> holds the other fields.  The marks and the checksum of a header follow from these fields.
\<close>

type_synonym hdr_fields = "u8 list \<times> bool \<times> u32 \<times> u16 \<times> u32"

record wal =
  wi :: wal_index
  aSalt :: "u8 list"
  bigEndCksum :: bool
  szPage :: nat
  nPage :: u32
  hdrSzPage :: u16
  iChange :: u32
  iCallback :: nat
  truncateOnCommit :: bool
  mxWalSize :: int
  liveHdr :: hdr_fields

text \<open>The page size as the index header stores it in 16 bits, and back.\<close>

definition szPageCode :: "nat \<Rightarrow> u16" where
  "szPageCode sz = of_nat ((sz AND 0xff00) OR drop_bit 16 sz)"

definition szPageDecode :: "u16 \<Rightarrow> nat" where
  "szPageDecode c = (let sz = unat c in (sz AND 0xfe00) + push_bit 16 (sz AND 1))"

definition walFrameOffset :: "nat \<Rightarrow> nat \<Rightarrow> nat" where
  "walFrameOffset iFrame sz = WAL_HDRSIZE + (iFrame - 1) * (sz + WAL_FRAME_HDRSIZE)"

definition set_cksum :: "u32 \<times> u32 \<Rightarrow> wal \<Rightarrow> wal" where
  "set_cksum c w = w\<lparr>wi := (wi w)\<lparr>aFrameCksum := c\<rparr>\<rparr>"

definition hdr_fields :: "wal \<Rightarrow> hdr_fields" where
  "hdr_fields w = (aSalt w, bigEndCksum w, nPage w, hdrSzPage w, iChange w)"

definition walIndexWriteHdr :: "wal \<Rightarrow> wal" where
  "walIndexWriteHdr w = w\<lparr>wi := (wi w)\<lparr>hdrFrame := mxFrame (wi w), hdrCksum := aFrameCksum (wi w)\<rparr>, liveHdr := hdr_fields w\<rparr>"

definition walEncodeFrame :: "bool \<Rightarrow> wal \<Rightarrow> u32 \<Rightarrow> u32 \<Rightarrow> mem \<Rightarrow> mem \<Rightarrow> wal \<times> mem" where
  "walEncodeFrame be w iPage nTruncate aData aFrame =
     (let aFrame = put_at (\<lambda>p v. (sqlite3Put4byte p v, 4)) 0 iPage aFrame;
          aFrame = put_at (\<lambda>p v. (sqlite3Put4byte p v, 4)) 4 nTruncate aFrame
      in if iReCksum (wi w) = 0 then
           let aFrame = memcpy aFrame 8 (aSalt w);
               nativeCksum = (bigEndCksum w = be);
               aCksum = walChecksumBytes be nativeCksum aFrame 8 (aFrameCksum (wi w));
               aCksum = walChecksumBytes be nativeCksum aData (szPage w) aCksum;
               aFrame = put_at (\<lambda>p v. (sqlite3Put4byte p v, 4)) 16 (fst aCksum) aFrame;
               aFrame = put_at (\<lambda>p v. (sqlite3Put4byte p v, 4)) 20 (snd aCksum) aFrame
           in (set_cksum aCksum w, aFrame)
         else (w, memcpy aFrame 8 (replicate 16 0)))"

definition walDecodeFrame :: "bool \<Rightarrow> wal \<Rightarrow> mem \<Rightarrow> mem \<Rightarrow> wal \<times> (u32 \<times> u32) option" where
  "walDecodeFrame be w aData aFrame =
     (if aSalt w \<noteq> map aFrame [8..<16] then (w, None)
      else
        let pgno = sqlite3Get4byte aFrame in
        if pgno = 0 then (w, None)
        else
          let nativeCksum = (bigEndCksum w = be);
              aCksum = walChecksumBytes be nativeCksum aFrame 8 (aFrameCksum (wi w));
              aCksum = walChecksumBytes be nativeCksum aData (szPage w) aCksum;
              w = set_cksum aCksum w
          in if fst aCksum \<noteq> sqlite3Get4byte (ptr aFrame 16) \<or> snd aCksum \<noteq> sqlite3Get4byte (ptr aFrame 20)
             then (w, None)
             else (w, Some (pgno, sqlite3Get4byte (ptr aFrame 4))))"

subsection \<open>Recovery\<close>

text \<open>The part of the index header that belongs to checkpoints and readers.\<close>

record wal_ckpt_info =
  nBackfill :: nat
  nBackfillAttempted :: nat
  aReadMark :: "nat list"

abbreviation READMARK_NOT_USED :: nat where "READMARK_NOT_USED \<equiv> 0xffffffff"

text \<open>
  The loop over the frames of one index page.  The result says whether all frames were read;
  \<open>cs\<close> is \<^verbatim>\<open>aFrameCksum\<close>, the checksum after the last commit.
\<close>

fun recoverFrames :: "bool \<Rightarrow> (nat \<Rightarrow> rc) \<Rightarrow> mem \<Rightarrow> wal \<Rightarrow> u32 \<times> u32 \<Rightarrow> nat list \<Rightarrow> rc \<times> wal \<times> (u32 \<times> u32) \<times> bool" where
  "recoverFrames be readRc file w cs [] = (SQLITE_OK, w, cs, True)"
| "recoverFrames be readRc file w cs (iFrame # fs) =
     (let iOffset = walFrameOffset iFrame (szPage w) in
      if readRc iOffset \<noteq> SQLITE_OK then (readRc iOffset, w, cs, False)
      else case walDecodeFrame be w (ptr file (iOffset + WAL_FRAME_HDRSIZE)) (ptr file iOffset) of
          (w, None) \<Rightarrow> (SQLITE_OK, w, cs, False)
        | (w, Some (pgno, nTruncate)) \<Rightarrow>
            (case walIndexAppend (wi w) iFrame pgno of (rc, s) \<Rightarrow>
               let w = w\<lparr>wi := s\<rparr> in
               if rc \<noteq> SQLITE_OK then (rc, w, cs, False)
               else if nTruncate \<noteq> 0 then
                 recoverFrames be readRc file (w\<lparr>wi := s\<lparr>mxFrame := iFrame\<rparr>, nPage := nTruncate, hdrSzPage := szPageCode (szPage w)\<rparr>) (aFrameCksum s) fs
               else recoverFrames be readRc file w cs fs))"

text \<open>
  The loop over the index pages.  Each page is filled in a private buffer, which holds
  anything at first (\<open>priv\<close>), and copied to the shared page.
\<close>

fun recoverPages ::
  "bool \<Rightarrow> (nat \<Rightarrow> rc) \<Rightarrow> (nat \<Rightarrow> wal_table) \<Rightarrow> mem \<Rightarrow> nat \<Rightarrow> wal \<Rightarrow> u32 \<times> u32 \<Rightarrow> nat list \<Rightarrow> rc \<times> wal \<times> (u32 \<times> u32)" where
  "recoverPages be readRc priv file iLastFrame w cs [] = (SQLITE_OK, w, cs)"
| "recoverPages be readRc priv file iLastFrame w cs (iPg # pgs) =
     (let iLast = min iLastFrame (HASHTABLE_NPAGE_ONE + iPg * HASHTABLE_NPAGE);
          iFirst = 1 + (if iPg = 0 then 0 else HASHTABLE_NPAGE_ONE + (iPg - 1) * HASHTABLE_NPAGE)
      in if shmRc (wi w) iPg \<noteq> SQLITE_OK then (shmRc (wi w) iPg, w, cs)
         else case recoverFrames be readRc file (w\<lparr>wi := set_table (wi w) iPg (priv iPg)\<rparr>) cs [iFirst..<iLast + 1] of
           (rc, w, cs, complete) \<Rightarrow>
             if complete then recoverPages be readRc priv file iLastFrame w cs pgs else (rc, w, cs))"

text \<open>The loop that resets the read marks; a lock on a mark may be refused.\<close>

fun recoverMarks :: "(nat \<Rightarrow> rc) \<Rightarrow> nat \<Rightarrow> wal_ckpt_info \<Rightarrow> rc \<Rightarrow> nat list \<Rightarrow> rc \<times> wal_ckpt_info" where
  "recoverMarks lockRc mx info rc [] = (rc, info)"
| "recoverMarks lockRc mx info rc (i # is) =
     (if lockRc i = SQLITE_OK then
        recoverMarks lockRc mx
          (info\<lparr>aReadMark := (aReadMark info)[i := (if i = 1 \<and> mx \<noteq> 0 then mx else READMARK_NOT_USED)]\<rparr>)
          SQLITE_OK is
      else if lockRc i \<noteq> SQLITE_BUSY then (lockRc i, info)
      else recoverMarks lockRc mx info SQLITE_BUSY is)"

text \<open>Reading the header of the log and its frames: up to the label \<^verbatim>\<open>finished\<close>.\<close>

definition recoverLog ::
  "bool \<Rightarrow> (nat \<Rightarrow> rc) \<Rightarrow> (nat \<Rightarrow> wal_table) \<Rightarrow> mallocs \<Rightarrow> mem \<Rightarrow> nat \<Rightarrow> wal \<Rightarrow> rc \<times> wal \<times> (u32 \<times> u32)" where
  "recoverLog be readRc priv ms file nSize w =
     (if nSize \<le> WAL_HDRSIZE then (SQLITE_OK, w, (0, 0))
      else if readRc 0 \<noteq> SQLITE_OK then (readRc 0, w, (0, 0))
      else
        let magic = sqlite3Get4byte file; sz = unat (sqlite3Get4byte (ptr file 8)) in
        if magic AND 0xFFFFFFFE \<noteq> WAL_MAGIC \<or> sz AND (sz - 1) \<noteq> 0 \<or> sz > 65536 \<or> sz < 512 then (SQLITE_OK, w, (0, 0))
        else
          let big = (magic AND 1 = 1);
              w = w\<lparr>bigEndCksum := big, szPage := sz, aSalt := map file [16..<24],
                    wi := (wi w)\<lparr>nCkpt := sqlite3Get4byte (ptr file 12),
                                 aFrameCksum := walChecksumBytes be (big = be) file (WAL_HDRSIZE - 8) (0, 0)\<rparr>\<rparr>
          in if fst (aFrameCksum (wi w)) \<noteq> sqlite3Get4byte (ptr file 24) \<or>
                snd (aFrameCksum (wi w)) \<noteq> sqlite3Get4byte (ptr file 28) then (SQLITE_OK, w, (0, 0))
             else if sqlite3Get4byte (ptr file 4) \<noteq> WAL_MAX_VERSION then (SQLITE_CANTOPEN, w, (0, 0))
             else if \<not> malloc_ok ms then (SQLITE_NOMEM, w, (0, 0))
             else
               let szFrame = sz + WAL_FRAME_HDRSIZE; iLastFrame = (nSize - WAL_HDRSIZE) div szFrame mod 2 ^ 32
               in recoverPages be readRc priv file iLastFrame w (0, 0) [0..<walFramePage iLastFrame + 1])"

definition walIndexRecover ::
  "bool \<Rightarrow> rc \<Rightarrow> (nat \<Rightarrow> rc) \<Rightarrow> rc \<Rightarrow> (nat \<Rightarrow> rc) \<Rightarrow> (nat \<Rightarrow> wal_table) \<Rightarrow> mallocs \<Rightarrow> mem \<Rightarrow> nat \<Rightarrow> wal \<Rightarrow> wal_ckpt_info \<Rightarrow>
   rc \<times> wal \<times> wal_ckpt_info" where
  "walIndexRecover be lockRc markRc sizeRc readRc priv ms file nSize w info =
     (if lockRc \<noteq> SQLITE_OK then (lockRc, w, info)
      else
        let w = w\<lparr>wi := (wi w)\<lparr>mxFrame := 0, aFrameCksum := (0, 0)\<rparr>, aSalt := replicate 8 0, bigEndCksum := False, nPage := 0, hdrSzPage := 0, iChange := 0\<rparr> in
        if sizeRc \<noteq> SQLITE_OK then (sizeRc, w, info)
        else case recoverLog be readRc priv ms file nSize w of (rc, w, cs) \<Rightarrow>
          if rc \<noteq> SQLITE_OK then (rc, w, info)
          else
            let w = walIndexWriteHdr (set_cksum cs w);
                info = info\<lparr>nBackfill := 0, nBackfillAttempted := mxFrame (wi w), aReadMark := (aReadMark info)[0 := 0]\<rparr>;
                (rc, info) = recoverMarks markRc (mxFrame (wi w)) info rc [1..<5]
            in (rc, w, info))"

subsection \<open>Writing the log\<close>

text \<open>
  The header that \<^verbatim>\<open>walFrames\<close> writes before the first frame: the bytes, the checksum and the state
  of the connection after it.  \<open>rnd\<close> are the eight bytes of \<^verbatim>\<open>sqlite3_randomness\<close>.
\<close>

definition walHeader :: "bool \<Rightarrow> nat \<Rightarrow> u8 list \<Rightarrow> wal \<Rightarrow> wal \<times> mem" where
  "walHeader be sz rnd w =
     (let aWalHdr = put_at (\<lambda>p v. (sqlite3Put4byte p v, 4)) 0 (WAL_MAGIC OR (if be then 1 else 0)) (\<lambda>_. 0);
          aWalHdr = put_at (\<lambda>p v. (sqlite3Put4byte p v, 4)) 4 WAL_MAX_VERSION aWalHdr;
          aWalHdr = put_at (\<lambda>p v. (sqlite3Put4byte p v, 4)) 8 (of_nat sz) aWalHdr;
          aWalHdr = put_at (\<lambda>p v. (sqlite3Put4byte p v, 4)) 12 (nCkpt (wi w)) aWalHdr;
          w = (if nCkpt (wi w) = 0 then w\<lparr>aSalt := rnd\<rparr> else w);
          aWalHdr = memcpy aWalHdr 16 (aSalt w);
          aCksum = walChecksumBytes be True aWalHdr (WAL_HDRSIZE - 8) (0, 0);
          aWalHdr = put_at (\<lambda>p v. (sqlite3Put4byte p v, 4)) 24 (fst aCksum) aWalHdr;
          aWalHdr = put_at (\<lambda>p v. (sqlite3Put4byte p v, 4)) 28 (snd aCksum) aWalHdr
      in (set_cksum aCksum (w\<lparr>szPage := sz, bigEndCksum := be, truncateOnCommit := True\<rparr>), aWalHdr))"

text \<open>
  Writing to the file: \<open>writeRc\<close> gives the result of a write at an offset and \<open>syncRc\<close> that of a sync;
  a write that fails is taken to leave the file as it was.
\<close>

definition osWrite :: "(nat \<Rightarrow> rc) \<Rightarrow> u8 list \<Rightarrow> nat \<Rightarrow> mem \<Rightarrow> rc \<times> mem" where
  "osWrite writeRc bs iOffset file =
     (if writeRc iOffset = SQLITE_OK then (SQLITE_OK, memcpy file iOffset bs) else (writeRc iOffset, file))"

definition walWriteToLog :: "(nat \<Rightarrow> rc) \<Rightarrow> rc \<Rightarrow> nat \<Rightarrow> u8 list \<Rightarrow> nat \<Rightarrow> mem \<Rightarrow> rc \<times> mem" where
  "walWriteToLog writeRc syncRc iSyncPoint bs iOffset file =
     (if iOffset < iSyncPoint \<and> iOffset + length bs \<ge> iSyncPoint then
        let iFirstAmt = iSyncPoint - iOffset in
        case osWrite writeRc (take iFirstAmt bs) iOffset file of (rc, file) \<Rightarrow>
          if rc \<noteq> SQLITE_OK then (rc, file)
          else if length bs - iFirstAmt = 0 \<or> syncRc \<noteq> SQLITE_OK then (syncRc, file)
          else osWrite writeRc (drop iFirstAmt bs) (iOffset + iFirstAmt) file
      else osWrite writeRc bs iOffset file)"

definition walWriteOneFrame ::
  "bool \<Rightarrow> (nat \<Rightarrow> rc) \<Rightarrow> rc \<Rightarrow> nat \<Rightarrow> u32 \<Rightarrow> u8 list \<Rightarrow> u32 \<Rightarrow> nat \<Rightarrow> wal \<Rightarrow> mem \<Rightarrow> rc \<times> wal \<times> mem" where
  "walWriteOneFrame be writeRc syncRc iSyncPoint pgno pData nTruncate iOffset w file =
     (case walEncodeFrame be w pgno nTruncate (\<lambda>i. pData ! i) (\<lambda>_. 0) of (w, aFrame) \<Rightarrow>
        case walWriteToLog writeRc syncRc iSyncPoint (map aFrame [0..<WAL_FRAME_HDRSIZE]) iOffset file of (rc, file) \<Rightarrow>
          if rc \<noteq> SQLITE_OK then (rc, w, file)
          else case walWriteToLog writeRc syncRc iSyncPoint pData (iOffset + WAL_FRAME_HDRSIZE) file of (rc, file) \<Rightarrow>
            (rc, w, file))"

text \<open>The loop of \<^verbatim>\<open>walRewriteChecksums\<close>, over the frames \<open>iRead, ..., iLast\<close>.\<close>

fun rewriteLoop :: "bool \<Rightarrow> (nat \<Rightarrow> rc) \<Rightarrow> (nat \<Rightarrow> rc) \<Rightarrow> nat list \<Rightarrow> wal \<Rightarrow> mem \<Rightarrow> rc \<times> wal \<times> mem" where
  "rewriteLoop be readRc writeRc [] w file = (SQLITE_OK, w, file)"
| "rewriteLoop be readRc writeRc (iRead # is) w file =
     (let iOff = walFrameOffset iRead (szPage w) in
      if readRc iOff \<noteq> SQLITE_OK then (readRc iOff, w, file)
      else
        let aBuf = ptr file iOff; iPgno = sqlite3Get4byte aBuf; nDbSize = sqlite3Get4byte (ptr aBuf 4) in
        case walEncodeFrame be w iPgno nDbSize (ptr aBuf WAL_FRAME_HDRSIZE) (\<lambda>_. 0) of (w, aFrame) \<Rightarrow>
          case osWrite writeRc (map aFrame [0..<WAL_FRAME_HDRSIZE]) iOff file of (rc, file) \<Rightarrow>
            if rc \<noteq> SQLITE_OK then (rc, w, file) else rewriteLoop be readRc writeRc is w file)"

definition walRewriteChecksums ::
  "bool \<Rightarrow> (nat \<Rightarrow> rc) \<Rightarrow> (nat \<Rightarrow> rc) \<Rightarrow> mallocs \<Rightarrow> nat \<Rightarrow> wal \<Rightarrow> mem \<Rightarrow> rc \<times> wal \<times> mem" where
  "walRewriteChecksums be readRc writeRc ms iLast w file =
     (if \<not> malloc_ok ms then (SQLITE_NOMEM, w, file)
      else
        let iCksumOff = (if iReCksum (wi w) = 1 then 24 else walFrameOffset (iReCksum (wi w) - 1) (szPage w) + 16);
            c = (sqlite3Get4byte (ptr file iCksumOff), sqlite3Get4byte (ptr file (iCksumOff + 4)));
            iRead = iReCksum (wi w);
            w = w\<lparr>wi := (wi w)\<lparr>aFrameCksum := c, iReCksum := 0\<rparr>\<rparr>
        in if readRc iCksumOff \<noteq> SQLITE_OK then (readRc iCksumOff, w, file)
           else rewriteLoop be readRc writeRc [iRead..<iLast + 1] w file)"

text \<open>
  The loop of \<^verbatim>\<open>walFrames\<close> over the dirty pages.  A page that the transaction already wrote to the
  log (its frame is at least \<open>iFirst\<close>) is overwritten in place, which makes the checksums from
  there on stale; the other pages get new frames, the last one of a commit with the size of
  the database.  The last component lists the pages with new frames.
\<close>

fun framesLoop ::
  "bool \<Rightarrow> (nat \<Rightarrow> rc) \<Rightarrow> rc \<Rightarrow> bool \<Rightarrow> u32 \<Rightarrow> nat \<Rightarrow> (u32 \<times> u8 list) list \<Rightarrow> nat \<Rightarrow> wal \<Rightarrow> mem \<Rightarrow> rc \<times> wal \<times> mem \<times> nat \<times> u32 list" where
  "framesLoop be writeRc syncRc isCommit nTruncate iFirst [] iFrame w file = (SQLITE_OK, w, file, iFrame, [])"
| "framesLoop be writeRc syncRc isCommit nTruncate iFirst ((pgno, pData) # ps) iFrame w file =
     (let iWrite = (if iFirst \<noteq> 0 \<and> (ps \<noteq> [] \<or> \<not> isCommit) then snd (walFindFrame (wi w) pgno) else 0) in
      if iFirst \<noteq> 0 \<and> (ps \<noteq> [] \<or> \<not> isCommit) \<and> iWrite \<ge> iFirst then
        let w = (if iReCksum (wi w) = 0 \<or> iWrite < iReCksum (wi w) then w\<lparr>wi := (wi w)\<lparr>iReCksum := iWrite\<rparr>\<rparr> else w) in
        case osWrite writeRc pData (walFrameOffset iWrite (szPage w) + WAL_FRAME_HDRSIZE) file of (rc, file) \<Rightarrow>
          if rc \<noteq> SQLITE_OK then (rc, w, file, iFrame, [])
          else framesLoop be writeRc syncRc isCommit nTruncate iFirst ps iFrame w file
      else
        let nDbSize = (if isCommit \<and> ps = [] then nTruncate else 0) in
        case walWriteOneFrame be writeRc syncRc 0 pgno pData nDbSize (walFrameOffset (iFrame + 1) (szPage w)) w file of (rc, w, file) \<Rightarrow>
          if rc \<noteq> SQLITE_OK then (rc, w, file, iFrame + 1, [])
          else case framesLoop be writeRc syncRc isCommit nTruncate iFirst ps (iFrame + 1) w file of (rc, w, file, n, qs) \<Rightarrow>
            (rc, w, file, n, pgno # qs))"

subsection \<open>The checksum does not depend on the machine\<close>

lemma add_idx: "k + numeral a + numeral b = k + (numeral (a + b) :: nat)" "k + numeral a + 1 = k + (numeral (a + num.One) :: nat)"
  by (simp_all only: add.assoc numeral_plus_numeral numeral_plus_one)

lemma cksumLoop16_eq: "cksumLoop16 a k n s1 s2 = cksumLoop a k (8 * n) s1 s2"
proof (induction n arbitrary: k s1 s2)
  case (Suc n)
  have e: "8 * Suc n = Suc (Suc (Suc (Suc (Suc (Suc (Suc (Suc (8 * n))))))))" by simp
  show ?case
    unfolding e cksumLoop.simps cksumLoop16.simps Let_def Suc.IH by (simp only: add_idx add_num_simps)
qed simp

lemma read32_swap: "BYTESWAP32 (read32 be a k) = read32 (\<not> be) a k"
proof -
  have b: "BYTESWAP32 x = (push_bit 24 (x AND 0xFF) OR push_bit 8 (x AND 0xFF00) OR drop_bit 8 (x AND 0xFF0000) OR drop_bit 24 (x AND 0xFF000000))" for x
  proof -
    have m: "(0xFF :: u32) = mask 8" "(0xFF00 :: u32) = push_bit 8 (mask 8)" "(0xFF0000 :: u32) = push_bit 16 (mask 8)"
      "(0xFF000000 :: u32) = push_bit 24 (mask 8)" by (simp_all add: mask_eq_exp_minus_1)
    let ?a = "push_bit 24 (x AND 0xFF)" and ?b = "push_bit 8 (x AND 0xFF00)" and ?c = "drop_bit 8 (x AND 0xFF0000)" and ?d = "drop_bit 24 (x AND 0xFF000000)"
    have "?a + ?b = (?a OR ?b)" unfolding m by (rule disjunctive_add) (auto simp: bit_simps)
    moreover have "(?a OR ?b) + ?c = ((?a OR ?b) OR ?c)" unfolding m by (rule disjunctive_add) (auto simp: bit_simps)
    moreover have "((?a OR ?b) OR ?c) + ?d = (((?a OR ?b) OR ?c) OR ?d)" unfolding m by (rule disjunctive_add) (auto simp: bit_simps)
    ultimately show ?thesis unfolding BYTESWAP32_def by (simp only: or.assoc)
  qed
  show ?thesis
    by (rule bit_word_eq_upt) (simp add: b read32_def sqlite3Get4byte_def ptr_apply upt_32 bit_simps)
qed

text \<open>The checksum of the format: words read in the byte order the log was created with.\<close>

definition cksum :: "bool \<Rightarrow> mem \<Rightarrow> nat \<Rightarrow> u32 \<times> u32 \<Rightarrow> u32 \<times> u32" where
  "cksum big a n c = cksumLoop (read32 big a) 0 (n div 8) (fst c) (snd c)"

lemma walChecksumBytes_eq: "walChecksumBytes be (big = be) a n c = cksum big a n c"
proof (cases "big = be")
  case True
  have "n mod 64 = 0 \<Longrightarrow> 8 * (n div 64) = n div 8" by (auto elim!: dvdE simp: mod_eq_0_iff_dvd)
  with True show ?thesis by (auto simp: walChecksumBytes_def cksum_def cksumLoop16_eq split: prod.splits)
next
  case False
  then have "(\<not> be) = big" by blast
  with False show ?thesis by (auto simp: walChecksumBytes_def cksum_def read32_swap split: prod.splits)
qed

lemma cksumLoop_cong: "(\<And>i. k \<le> i \<Longrightarrow> i < k + 2 * n \<Longrightarrow> f i = g i) \<Longrightarrow> cksumLoop f k n s1 s2 = cksumLoop g k n s1 s2"
  by (induction n arbitrary: k s1 s2) (simp_all add: Let_def)

lemma cksum_local: "(\<And>i. i < n \<Longrightarrow> a i = b i) \<Longrightarrow> cksum big a n c = cksum big b n c"
  unfolding cksum_def
  by (rule cksumLoop_cong) (auto simp: read32_def sqlite3Get4byte_def ptr_apply)

subsection \<open>Valid frames\<close>

text \<open>
  The frame at an offset of the file, read after frames with checksum \<open>c\<close>: its page number,
  its commit size and the checksum after it, when it is valid.
\<close>

definition frame_at :: "bool \<Rightarrow> u8 list \<Rightarrow> nat \<Rightarrow> u32 \<times> u32 \<Rightarrow> mem \<Rightarrow> mem \<Rightarrow> (u32 \<times> u32 \<times> u32 \<times> u32) option" where
  "frame_at big salt sz c aData aFrame =
     (let pgno = sqlite3Get4byte aFrame; c' = cksum big aData sz (cksum big aFrame 8 c) in
      if map aFrame [8..<16] = salt \<and> pgno \<noteq> 0 \<and>
         c' = (sqlite3Get4byte (ptr aFrame 16), sqlite3Get4byte (ptr aFrame 20))
      then Some (pgno, sqlite3Get4byte (ptr aFrame 4), c') else None)"

lemma decode_eq:
  "walDecodeFrame be w aData aFrame =
    (if aSalt w \<noteq> map aFrame [8..<16] \<or> sqlite3Get4byte aFrame = 0 then (w, None)
     else let c = cksum (bigEndCksum w) aData (szPage w) (cksum (bigEndCksum w) aFrame 8 (aFrameCksum (wi w)))
       in (set_cksum c w, if c = (sqlite3Get4byte (ptr aFrame 16), sqlite3Get4byte (ptr aFrame 20))
         then Some (sqlite3Get4byte aFrame, sqlite3Get4byte (ptr aFrame 4)) else None))"
  unfolding walDecodeFrame_def walChecksumBytes_eq Let_def by (auto simp: prod_eq_iff simp del: upt.simps upt_rec_numeral)

lemma set_cksum_same: "set_cksum (aFrameCksum (wi w)) w = w"
  by (simp add: set_cksum_def)

lemma set_cksum_twice: "set_cksum c (set_cksum c' w) = set_cksum c w"
  by (simp add: set_cksum_def)

lemma set_cksum_ex: "\<exists>c. w = set_cksum c w"
  using set_cksum_same [of w] by metis

lemma decode_invalid:
  assumes "frame_at (bigEndCksum w) (aSalt w) (szPage w) (aFrameCksum (wi w)) aData aFrame = None"
  shows "\<exists>c. walDecodeFrame be w aData aFrame = (set_cksum c w, None)"
proof (cases "aSalt w \<noteq> map aFrame [8..<16] \<or> sqlite3Get4byte aFrame = 0")
  case True
  then show ?thesis unfolding decode_eq by (intro exI [of _ "aFrameCksum (wi w)"]) (simp add: set_cksum_same)
next
  case False
  with assms show ?thesis
    unfolding decode_eq frame_at_def Let_def
    by (intro exI [of _ "cksum (bigEndCksum w) aData (szPage w) (cksum (bigEndCksum w) aFrame 8 (aFrameCksum (wi w)))"])
      (auto simp del: upt.simps upt_rec_numeral split: if_splits)
qed

lemma decode_valid:
  assumes "frame_at (bigEndCksum w) (aSalt w) (szPage w) (aFrameCksum (wi w)) aData aFrame = Some (p, n, c)"
  shows "walDecodeFrame be w aData aFrame = (set_cksum c w, Some (p, n))"
  using assms unfolding decode_eq frame_at_def Let_def by (auto simp del: upt.simps upt_rec_numeral split: if_splits)

lemma Get4byte_local: "(\<And>i. i < 4 \<Longrightarrow> a i = b i) \<Longrightarrow> sqlite3Get4byte a = sqlite3Get4byte b"
  by (simp add: sqlite3Get4byte_def)

lemma frame_at_local:
  assumes "\<And>i. i < 24 \<Longrightarrow> f i = g i" "\<And>i. i < sz \<Longrightarrow> a i = b i"
  shows "frame_at big salt sz c a f = frame_at big salt sz c b g"
proof -
  have "sqlite3Get4byte (ptr f k) = sqlite3Get4byte (ptr g k)" if "k \<le> 20" for k
    by (rule Get4byte_local) (use that assms(1) in \<open>simp add: ptr_apply\<close>)
  from this [of 0] this [of 4] this [of 16] this [of 20] show ?thesis
    using assms cksum_local [of 8 f g big c] cksum_local [of sz a b big] by (simp add: frame_at_def Let_def)
qed

lemma put4_simps:
  "put_at (\<lambda>p v. (sqlite3Put4byte p v, 4)) k v p i =
    (if k \<le> i \<and> i < k + 4 then ucast (drop_bit (8 * (3 - (i - k))) v) else p i)"
proof (cases "k \<le> i \<and> i < k + 4")
  case True
  then consider "i = k" | "i = k + 1" | "i = k + 2" | "i = k + 3" by linarith
  then show ?thesis by cases (simp_all add: put_at_def blit_def sqlite3Put4byte_def)
qed (auto simp: put_at_def blit_def sqlite3Put4byte_def ptr_apply)

lemma Get4_put4: "sqlite3Get4byte (ptr (put_at (\<lambda>p v. (sqlite3Put4byte p v, 4)) k v p) k) = v"
  using c4.get_put_at [of k v p] by simp

lemma Get4_put4_other:
  "j + 4 \<le> k \<or> k + 4 \<le> j \<Longrightarrow> sqlite3Get4byte (ptr (put_at (\<lambda>p v. (sqlite3Put4byte p v, 4)) k v p) j) = sqlite3Get4byte (ptr p j)"
  using c4.get_put_other [of p j 4 "sqlite3Get4byte (ptr p j)" k v] by simp

lemma Get4_memcpy_other: "j + 4 \<le> k \<or> k + length xs \<le> j \<Longrightarrow> sqlite3Get4byte (ptr (memcpy p k xs) j) = sqlite3Get4byte (ptr p j)"
  by (rule Get4byte_local) (auto simp: ptr_apply memcpy_def)

lemma encode_valid:
  assumes "iReCksum (wi w) = 0" "length (aSalt w) = 8" "iPage \<noteq> 0" "walEncodeFrame be w iPage nTruncate aData aFrame = (w', g)"
  shows "\<exists>c. frame_at (bigEndCksum w) (aSalt w) (szPage w) (aFrameCksum (wi w)) aData g = Some (iPage, nTruncate, c) \<and> w' = set_cksum c w"
proof -
  let ?put = "\<lambda>p v. (sqlite3Put4byte p v, 4 :: nat)"
  define f where "f = memcpy (put_at ?put 4 nTruncate (put_at ?put 0 iPage aFrame)) 8 (aSalt w)"
  define c where "c = cksum (bigEndCksum w) aData (szPage w) (cksum (bigEndCksum w) f 8 (aFrameCksum (wi w)))"
  have g: "g = put_at ?put 20 (snd c) (put_at ?put 16 (fst c) f)" and w': "w' = set_cksum c w"
    using assms(1,4) unfolding walEncodeFrame_def Let_def walChecksumBytes_eq f_def [symmetric] c_def [symmetric] by auto
  have low: "g i = f i" if "i < 16" for i using that by (simp add: g put4_simps)
  have "map g [8..<16] = map f [8..<16]" using low by simp
  also have "\<dots> = aSalt w" using assms(2) by (intro nth_equalityI) (simp_all add: f_def memcpy_def del: upt_rec_numeral)
  finally have salt: "map g [8..<16] = aSalt w" .
  have "cksum (bigEndCksum w) g 8 (aFrameCksum (wi w)) = cksum (bigEndCksum w) f 8 (aFrameCksum (wi w))"
    by (rule cksum_local) (simp add: low)
  then have c': "cksum (bigEndCksum w) aData (szPage w) (cksum (bigEndCksum w) g 8 (aFrameCksum (wi w))) = c" by (simp add: c_def)
  have "sqlite3Get4byte (ptr g 16) = fst c" "sqlite3Get4byte (ptr g 20) = snd c"
    by (simp_all add: g Get4_put4 Get4_put4_other)
  moreover have "sqlite3Get4byte (ptr g 0) = iPage" "sqlite3Get4byte (ptr g 4) = nTruncate"
    by (simp_all only: g f_def Get4_put4 Get4_put4_other Get4_memcpy_other) (simp_all add: Get4_put4 Get4_put4_other Get4_memcpy_other del: ptr_0)
  ultimately show ?thesis using salt c' w' assms(3)
    by (intro exI [of _ c]) (simp add: frame_at_def Let_def del: upt.simps upt_rec_numeral)
qed

subsection \<open>The valid part of a log\<close>

type_synonym frame = "u32 \<times> u32 \<times> u32 \<times> u32"

text \<open>The frames from number \<open>i\<close> on, at most \<open>k\<close> of them, up to the first that is not valid.\<close>

fun valid_log :: "bool \<Rightarrow> u8 list \<Rightarrow> nat \<Rightarrow> mem \<Rightarrow> u32 \<times> u32 \<Rightarrow> nat \<Rightarrow> nat \<Rightarrow> frame list" where
  "valid_log big salt sz file c i 0 = []"
| "valid_log big salt sz file c i (Suc k) =
     (case frame_at big salt sz c (ptr file (walFrameOffset i sz + WAL_FRAME_HDRSIZE)) (ptr file (walFrameOffset i sz)) of
        None \<Rightarrow> [] | Some (p, n, c') \<Rightarrow> (p, n, c') # valid_log big salt sz file c' (Suc i) k)"

definition log_end :: "u32 \<times> u32 \<Rightarrow> frame list \<Rightarrow> u32 \<times> u32" where
  "log_end c V = (if V = [] then c else snd (snd (last V)))"

text \<open>The last commit: its frame number, the database size and the checksum it records.\<close>

fun last_commit :: "nat \<Rightarrow> nat \<times> u32 \<times> u32 \<times> u32 \<Rightarrow> frame list \<Rightarrow> nat \<times> u32 \<times> u32 \<times> u32" where
  "last_commit i r [] = r"
| "last_commit i r ((p, n, c) # V) = last_commit (Suc i) (if n \<noteq> 0 then (i, n, c) else r) V"

abbreviation pages_of :: "frame list \<Rightarrow> u32 list" where
  "pages_of V \<equiv> map fst V"

lemma log_end_Cons: "log_end c ((p, n, c') # V) = log_end c' V"
  by (simp add: log_end_def)

lemma valid_log_length: "length (valid_log big salt sz file c i k) \<le> k"
  by (induction k arbitrary: c i) (auto split: option.splits)

lemma valid_log_nz: "0 \<notin> set (pages_of (valid_log big salt sz file c i k))"
  by (induction k arbitrary: c i) (auto simp: frame_at_def Let_def split: option.splits if_splits)

lemma valid_log_add:
  "valid_log big salt sz file c i (k + m) =
    (let V = valid_log big salt sz file c i k in
     if length V = k then V @ valid_log big salt sz file (log_end c V) (i + k) m else V)"
proof (induction k arbitrary: c i)
  case (Suc k)
  show ?case
  proof (cases "frame_at big salt sz c (ptr file (walFrameOffset i sz + WAL_FRAME_HDRSIZE)) (ptr file (walFrameOffset i sz))")
    case (Some f)
    obtain p n c' where f: "f = (p, n, c')" by (cases f) auto
    show ?thesis using Suc [of c' "Suc i"] by (simp add: Some f Let_def log_end_Cons)
  qed simp
qed (simp add: log_end_def)

lemma last_commit_append: "last_commit i r (V @ W) = last_commit (i + length V) (last_commit i r V) W"
  by (induction i r V rule: last_commit.induct) simp_all

subsection \<open>What recovery finds\<close>

definition same_log :: "wal \<Rightarrow> wal \<Rightarrow> bool" where
  "same_log w w' \<longleftrightarrow> aSalt w' = aSalt w \<and> bigEndCksum w' = bigEndCksum w \<and> szPage w' = szPage w \<and> shmRc (wi w') = shmRc (wi w)"

text \<open>The stored page size is right once there is a commit.\<close>

definition size_noted :: "wal \<Rightarrow> bool" where
  "size_noted w \<longleftrightarrow> (mxFrame (wi w) \<noteq> 0 \<longrightarrow> hdrSzPage w = szPageCode (szPage w))"

definition recovers :: "mem \<Rightarrow> u32 list \<Rightarrow> wal \<Rightarrow> u32 \<times> u32 \<Rightarrow> nat \<Rightarrow> wal \<Rightarrow> u32 \<times> u32 \<Rightarrow> bool \<Rightarrow> bool" where
  "recovers file L w cs n w' cs' complete \<longleftrightarrow>
     (let V = valid_log (bigEndCksum w) (aSalt w) (szPage w) file (aFrameCksum (wi w)) (Suc (length L)) n in
      complete = (length V = n) \<and> index_ok (wi w') (L @ pages_of V) \<and> same_log w w' \<and>
      (mxFrame (wi w'), nPage w', cs') = last_commit (Suc (length L)) (mxFrame (wi w), nPage w, cs) V \<and>
      (complete \<longrightarrow> aFrameCksum (wi w') = log_end (aFrameCksum (wi w)) V) \<and> (size_noted w \<longrightarrow> size_noted w'))"

lemma recoverFrames_ok:
  "index_ok (wi w) L \<Longrightarrow> \<forall>h. shmRc (wi w) h = SQLITE_OK \<Longrightarrow> \<forall>k. readRc k = SQLITE_OK \<Longrightarrow> length L + n < 2 ^ 32 - 34 \<Longrightarrow>
   \<exists>w' cs' b. recoverFrames be readRc file w cs [Suc (length L)..<Suc (length L) + n] = (SQLITE_OK, w', cs', b) \<and>
     recovers file L w cs n w' cs' b"
proof (induction n arbitrary: w L cs)
  case 0
  then show ?case by (auto simp: recovers_def same_log_def log_end_def)
next
  case (Suc n)
  let ?i = "Suc (length L)"
  let ?o = "walFrameOffset ?i (szPage w)"
  let ?f = "frame_at (bigEndCksum w) (aSalt w) (szPage w) (aFrameCksum (wi w)) (ptr file (?o + WAL_FRAME_HDRSIZE)) (ptr file ?o)"
  have l: "[?i..<?i + Suc n] = ?i # [Suc ?i..<Suc ?i + n]" by (simp add: upt_rec)
  show ?case
  proof (cases ?f)
    case None
    then obtain c where "walDecodeFrame be w (ptr file (?o + WAL_FRAME_HDRSIZE)) (ptr file ?o) = (set_cksum c w, None)"
      using decode_invalid by blast
    then have "recoverFrames be readRc file w cs [?i..<?i + Suc n] = (SQLITE_OK, set_cksum c w, cs, False)"
      unfolding l by (simp add: Let_def Suc.prems(3))
    moreover have "recovers file L w cs (Suc n) (set_cksum c w) cs False"
      using Suc.prems(1) by (simp add: recovers_def None same_log_def set_cksum_def index_ok_def size_noted_def)
    ultimately show ?thesis by blast
  next
    case (Some fr)
    obtain p m c where fr: "fr = (p, m, c)" by (cases fr) auto
    have d: "walDecodeFrame be w (ptr file (?o + WAL_FRAME_HDRSIZE)) (ptr file ?o) = (set_cksum c w, Some (p, m))"
      using decode_valid Some fr by blast
    have p: "p \<noteq> 0" using Some by (auto simp: fr frame_at_def Let_def split: if_splits)
    have "index_ok (wi (set_cksum c w)) L" using Suc.prems(1) by (simp add: set_cksum_def index_ok_def)
    then obtain t where t: "walIndexAppend (wi (set_cksum c w)) ?i p = (SQLITE_OK, wi (set_cksum c w)\<lparr>apWiData := t\<rparr>)"
      "index_ok (wi (set_cksum c w)\<lparr>apWiData := t\<rparr>) (take (length L) L @ [p])"
      using append_ok [of "wi (set_cksum c w)" L "length L" p] p Suc.prems by (auto simp: set_cksum_def)
    let ?w = "(set_cksum c w)\<lparr>wi := (wi (set_cksum c w))\<lparr>apWiData := t\<rparr>\<rparr>"
    let ?w2 = "if m \<noteq> 0 then ?w\<lparr>wi := (wi ?w)\<lparr>mxFrame := ?i\<rparr>, nPage := m, hdrSzPage := szPageCode (szPage ?w)\<rparr> else ?w" and ?cs2 = "if m \<noteq> 0 then c else cs"
    have rec: "recoverFrames be readRc file w cs [?i..<?i + Suc n] = recoverFrames be readRc file ?w2 ?cs2 [Suc ?i..<Suc ?i + n]"
      unfolding l using t(1) by (simp add: Let_def Suc.prems(3) d set_cksum_def)
    have ok2: "index_ok (wi ?w2) (L @ [p])" "\<forall>h. shmRc (wi ?w2) h = SQLITE_OK" "length (L @ [p]) + n < 2 ^ 32 - 34"
      using t(2) Suc.prems by (auto simp: index_ok_def set_cksum_def)
    from Suc.IH [OF ok2(1,2) Suc.prems(3) ok2(3), of ?cs2] obtain w' cs' b
      where r: "recoverFrames be readRc file ?w2 ?cs2 [Suc ?i..<Suc ?i + n] = (SQLITE_OK, w', cs', b)"
        and v: "recovers file (L @ [p]) ?w2 ?cs2 n w' cs' b" by auto
    have f: "aFrameCksum (wi ?w2) = c" "bigEndCksum ?w2 = bigEndCksum w" "aSalt ?w2 = aSalt w" "szPage ?w2 = szPage w" "shmRc (wi ?w2) = shmRc (wi w)"
      "(mxFrame (wi ?w2), nPage ?w2, ?cs2) = (if m \<noteq> 0 then (?i, m, c) else (mxFrame (wi w), nPage w, cs))"
      by (simp_all add: set_cksum_def)
    have sn: "size_noted w \<longrightarrow> size_noted ?w2" by (simp add: size_noted_def set_cksum_def)
    have "recovers file L w cs (Suc n) w' cs' b"
      using v sn unfolding recovers_def Let_def f same_log_def by (simp add: Some fr log_end_Cons f)
    with rec r show ?thesis by auto
  qed
qed

lemma recovers_stop:
  assumes "recovers file L w cs k w' cs' False"
  shows "recovers file L w cs (k + m) w' cs' False"
proof -
  let ?V = "valid_log (bigEndCksum w) (aSalt w) (szPage w) file (aFrameCksum (wi w)) (Suc (length L)) k"
  have n: "length ?V \<noteq> k" using assms by (simp add: recovers_def Let_def)
  moreover have "length ?V \<le> k" by (rule valid_log_length)
  ultimately have "length ?V \<noteq> k + m" by linarith
  with n assms show ?thesis by (simp add: recovers_def Let_def valid_log_add)
qed

lemma recovers_trans:
  assumes "recovers file L w cs k w' cs' True"
    and "recovers file (L @ pages_of (valid_log (bigEndCksum w) (aSalt w) (szPage w) file (aFrameCksum (wi w)) (Suc (length L)) k)) w' cs' m w'' cs'' b"
  shows "recovers file L w cs (k + m) w'' cs'' b"
proof -
  let ?V = "valid_log (bigEndCksum w) (aSalt w) (szPage w) file (aFrameCksum (wi w)) (Suc (length L)) k"
  have v: "length ?V = k" "same_log w w'" "aFrameCksum (wi w') = log_end (aFrameCksum (wi w)) ?V"
    "(mxFrame (wi w'), nPage w', cs') = last_commit (Suc (length L)) (mxFrame (wi w), nPage w, cs) ?V" "size_noted w \<longrightarrow> size_noted w'"
    using assms(1) by (simp_all add: recovers_def Let_def)
  have s: "bigEndCksum w' = bigEndCksum w" "aSalt w' = aSalt w" "szPage w' = szPage w" using v(2) by (simp_all add: same_log_def)
  let ?W = "valid_log (bigEndCksum w) (aSalt w) (szPage w) file (log_end (aFrameCksum (wi w)) ?V) (Suc (length L) + k) m"
  have "log_end (log_end c ?V) ?W = log_end c (?V @ ?W)" for c by (simp add: log_end_def)
  with assms(2) v(2,5) show ?thesis
    unfolding recovers_def Let_def s v(3) v(4) by (simp add: v(1) valid_log_add Let_def last_commit_append same_log_def)
qed

lemma index_ok_set_table:
  assumes "index_ok s L" "length L = iZero h"
  shows "index_ok (set_table s h t) L"
proof (cases h)
  case (Suc k)
  have "walFramePage (iZero h) = k"
    using assms nEntry_bounds(1) [of k] by (subst walFramePage_iff) (auto simp: Suc iZero_Suc index_ok_def)
  with assms Suc show ?thesis by (auto simp: index_ok_def set_table_def)
qed (use assms in \<open>simp add: index_ok_def iZero_def\<close>)

lemma page_step:
  assumes ix: "index_ok (wi w) L" "\<forall>k. shmRc (wi w) k = SQLITE_OK" "length L = iZero h" "iZero h \<le> iLast" "iLast < 2 ^ 32 - 34"
    and rd: "\<forall>k. readRc k = SQLITE_OK"
  obtains w' cs' b where "recovers file L w cs (min iLast (iZero (Suc h)) - iZero h) w' cs' b"
    and "recoverPages be readRc priv file iLast w cs (h # pgs) = (if b then recoverPages be readRc priv file iLast w' cs' pgs else (SQLITE_OK, w', cs'))"
proof -
  let ?w = "w\<lparr>wi := set_table (wi w) h (priv h)\<rparr>" and ?n = "min iLast (iZero (Suc h)) - iZero h"
  have ok: "index_ok (wi ?w) L" "\<forall>k. shmRc (wi ?w) k = SQLITE_OK"
    using index_ok_set_table [OF ix(1,3)] ix(2) by (simp_all add: set_table_def)
  have "length L + ?n < 2 ^ 32 - 34" using ix(3,4,5) by simp
  from recoverFrames_ok [OF ok rd this] obtain w' cs' b
    where r: "recoverFrames be readRc file ?w cs [Suc (length L)..<Suc (length L) + ?n] = (SQLITE_OK, w', cs', b)"
    and v: "recovers file L ?w cs ?n w' cs' b" by blast
  have "Suc (length L) + ?n = min iLast (HASHTABLE_NPAGE_ONE + h * HASHTABLE_NPAGE) + 1"
    using ix(3,4) by (cases h) (auto simp: iZero_def min_def)
  moreover have "Suc (length L) = 1 + (if h = 0 then 0 else HASHTABLE_NPAGE_ONE + (h - 1) * HASHTABLE_NPAGE)"
    using ix(3) by (simp add: iZero_def)
  ultimately have "recoverPages be readRc priv file iLast w cs (h # pgs) = (if b then recoverPages be readRc priv file iLast w' cs' pgs else (SQLITE_OK, w', cs'))"
    using r ix(2) unfolding recoverPages.simps Let_def by simp
  moreover have "recovers file L w cs ?n w' cs' b"
    using v by (simp add: recovers_def same_log_def set_table_def size_noted_def)
  ultimately show thesis by (rule that [rotated])
qed

lemma recoverPages_ok:
  assumes rd: "\<forall>k. readRc k = SQLITE_OK" and last: "iLast < 2 ^ 32 - 34" and H: "H = walFramePage iLast"
  shows "h \<le> H \<Longrightarrow> index_ok (wi w) L \<Longrightarrow> \<forall>h. shmRc (wi w) h = SQLITE_OK \<Longrightarrow> length L = iZero h \<Longrightarrow> iZero h \<le> iLast \<Longrightarrow>
    \<exists>w' cs' b. recoverPages be readRc priv file iLast w cs [h..<H + 1] = (SQLITE_OK, w', cs') \<and>
      recovers file L w cs (iLast - iZero h) w' cs' b"
proof (induction "H - h" arbitrary: h w L cs)
  case 0
  then have h: "h = H" "[h..<H + 1] = h # []" by simp_all
  have le: "iLast \<le> iZero (Suc h)"
    using walFramePage_bounds [of iLast] last H h by (cases "iLast = 0") (simp_all add: iZero_Suc)
  obtain w' cs' b where v: "recovers file L w cs (min iLast (iZero (Suc h)) - iZero h) w' cs' b"
    and r: "recoverPages be readRc priv file iLast w cs [h] = (if b then recoverPages be readRc priv file iLast w' cs' [] else (SQLITE_OK, w', cs'))"
    by (rule page_step [OF 0(3,4,5,6) last rd])
  from r have "recoverPages be readRc priv file iLast w cs [h] = (SQLITE_OK, w', cs')"
    by (cases b) (simp_all only: recoverPages.simps(1) if_True if_False)
  with v le show ?case unfolding h(2) by (intro exI conjI) (auto simp only: min_absorb1)
next
  case (Suc x)
  then have h: "h < H" "[h..<H + 1] = h # [Suc h..<H + 1]" by (simp_all add: upt_rec)
  have ge: "iZero (Suc h) \<le> iLast"
    using walFramePage_bounds [of iLast] iZero_mono [of "Suc h" H] last H h by (cases "iLast = 0") (simp_all add: walFramePage_def)
  let ?n = "min iLast (iZero (Suc h)) - iZero h"
  have n: "?n = nEntry h" using ge by (simp add: iZero_Suc)
  have sum: "iLast - iZero h = nEntry h + (iLast - iZero (Suc h))" using ge by (simp add: iZero_Suc)
  let ?V = "valid_log (bigEndCksum w) (aSalt w) (szPage w) file (aFrameCksum (wi w)) (Suc (length L)) (nEntry h)"
  obtain w' cs' b where v: "recovers file L w cs ?n w' cs' b"
    and r: "recoverPages be readRc priv file iLast w cs (h # [Suc h..<H + 1]) =
      (if b then recoverPages be readRc priv file iLast w' cs' [Suc h..<H + 1] else (SQLITE_OK, w', cs'))"
    by (rule page_step [OF Suc(4,5,6,7) last rd])
  show ?case
  proof (cases b)
    case True
    with v n have v': "recovers file L w cs (nEntry h) w' cs' True" by simp
    then have ok: "index_ok (wi w') (L @ pages_of ?V)" "length ?V = nEntry h" "shmRc (wi w') = shmRc (wi w)"
      by (simp_all add: recovers_def Let_def same_log_def)
    have len: "length (L @ pages_of ?V) = iZero (Suc h)" using ok(2) Suc(6) by (simp add: iZero_Suc)
    have x: "x = H - Suc h" "Suc h \<le> H" "\<forall>k. shmRc (wi w') k = SQLITE_OK" using Suc(2,5) ok(3) h(1) by simp_all
    from Suc(1) [OF x(1,2) ok(1) x(3) len ge, of cs'] obtain w'' cs'' b'
      where "recoverPages be readRc priv file iLast w' cs' [Suc h..<H + 1] = (SQLITE_OK, w'', cs'')"
      and "recovers file (L @ pages_of ?V) w' cs' (iLast - iZero (Suc h)) w'' cs'' b'" by blast
    with recovers_trans [OF v'] r True show ?thesis unfolding h(2) sum by (metis (full_types))
  next
    case False
    with r v n recovers_stop [of "file" L w cs "nEntry h"] show ?thesis unfolding h(2) sum by (metis (full_types))
  qed
qed

subsection \<open>What writing leaves\<close>

lemma memcpy_take_drop: "n \<le> length bs \<Longrightarrow> memcpy (memcpy p k (take n bs)) (k + n) (drop n bs) = memcpy p k bs"
  by (rule ext) (auto simp: memcpy_def)

lemma walWriteToLog_ok:
  assumes "walWriteToLog writeRc syncRc sp bs o' file = (SQLITE_OK, file')"
  shows "file' = memcpy file o' bs"
  using assms memcpy_take_drop [of "sp - o'" bs "file" o']
  by (auto simp: walWriteToLog_def osWrite_def Let_def split: if_splits)

text \<open>The bytes of frame \<open>i\<close> lie between its offset and that of the next frame.\<close>

lemma frame_span: "walFrameOffset (Suc (Suc i)) sz = walFrameOffset (Suc i) sz + WAL_FRAME_HDRSIZE + sz"
  by (simp add: walFrameOffset_def algebra_simps)

lemma walFrameOffset_mono: "0 < i \<Longrightarrow> i < j \<Longrightarrow> walFrameOffset i sz + WAL_FRAME_HDRSIZE + sz \<le> walFrameOffset j sz"
proof -
  assume "0 < i" "i < j"
  then have "(i - 1) * (sz + 24) + (sz + 24) \<le> (j - 1) * (sz + 24)"
    using mult_le_mono1 [of "i" "j - 1" "sz + 24"] by (cases i) (auto simp: algebra_simps)
  then show ?thesis by (simp add: walFrameOffset_def)
qed

lemma valid_log_local:
  assumes "\<And>j. walFrameOffset i sz \<le> j \<Longrightarrow> j < walFrameOffset (i + k) sz \<Longrightarrow> f j = g j" "0 < i"
  shows "valid_log big salt sz f c i k = valid_log big salt sz g c i k"
  using assms
proof (induction k arbitrary: c i)
  case (Suc k)
  have sp: "walFrameOffset (Suc i) sz = walFrameOffset i sz + WAL_FRAME_HDRSIZE + sz" using frame_span [of "i - 1" sz] Suc.prems(2) by simp
  have le: "walFrameOffset (Suc i) sz \<le> walFrameOffset (i + Suc k) sz"
    using walFrameOffset_mono [of "Suc i" "i + Suc k" sz] by (cases k) auto
  have "frame_at big salt sz c (ptr f (walFrameOffset i sz + WAL_FRAME_HDRSIZE)) (ptr f (walFrameOffset i sz)) =
    frame_at big salt sz c (ptr g (walFrameOffset i sz + WAL_FRAME_HDRSIZE)) (ptr g (walFrameOffset i sz))"
    by (rule frame_at_local) (use Suc.prems(1) sp le in \<open>auto simp: ptr_apply\<close>)
  moreover have "valid_log big salt sz f c' (Suc i) k = valid_log big salt sz g c' (Suc i) k" for c'
    using Suc.prems sp by (intro Suc.IH) auto
  ultimately show ?case by (simp split: option.splits)
qed simp

abbreviation frame_in :: "bool \<Rightarrow> u8 list \<Rightarrow> nat \<Rightarrow> u32 \<times> u32 \<Rightarrow> mem \<Rightarrow> nat \<Rightarrow> frame option" where
  "frame_in big salt sz c file i \<equiv>
     frame_at big salt sz c (ptr file (walFrameOffset i sz + WAL_FRAME_HDRSIZE)) (ptr file (walFrameOffset i sz))"

lemma encode_page:
  assumes "walEncodeFrame be w iPage nTruncate aData aFrame = (w', g)"
  shows "sqlite3Get4byte g = iPage" "sqlite3Get4byte (ptr g 4) = nTruncate"
proof -
  let ?put = "\<lambda>p v. (sqlite3Put4byte p v, 4 :: nat)"
  define f where "f = put_at ?put 4 nTruncate (put_at ?put 0 iPage aFrame)"
  have f: "sqlite3Get4byte (ptr f 0) = iPage" "sqlite3Get4byte (ptr f 4) = nTruncate"
    by (simp_all add: f_def Get4_put4 Get4_put4_other del: ptr_0)
  have "g i = f i" if "i < 8" for i
    using assms that unfolding walEncodeFrame_def Let_def f_def [symmetric]
    by (auto simp: put4_simps memcpy_outside split: if_splits)
  then have "sqlite3Get4byte (ptr g 0) = sqlite3Get4byte (ptr f 0)" "sqlite3Get4byte (ptr g 4) = sqlite3Get4byte (ptr f 4)"
    by (auto intro!: Get4byte_local simp: ptr_apply)
  with f show "sqlite3Get4byte g = iPage" "sqlite3Get4byte (ptr g 4) = nTruncate" by simp_all
qed

lemma encode_recksum: "iReCksum (wi w) \<noteq> 0 \<Longrightarrow> fst (walEncodeFrame be w iPage nTruncate aData aFrame) = w"
  by (simp add: walEncodeFrame_def Let_def)

text \<open>Writing one frame at its place.\<close>

lemma WriteOneFrame_ok:
  assumes "walWriteOneFrame be writeRc syncRc sp pgno pData nT (walFrameOffset i (szPage w)) w file = (SQLITE_OK, w', file')"
    and "length pData = szPage w" "length (aSalt w) = 8" "pgno \<noteq> 0"
  defines "ofs \<equiv> walFrameOffset i (szPage w)"
  shows "\<And>j. j < ofs \<or> ofs + WAL_FRAME_HDRSIZE + szPage w \<le> j \<Longrightarrow> file' j = file j"
    and "sqlite3Get4byte (ptr file' ofs) = pgno" "sqlite3Get4byte (ptr file' (ofs + 4)) = nT"
    and "iReCksum (wi w) = 0 \<Longrightarrow>
      \<exists>c. w' = set_cksum c w \<and> frame_in (bigEndCksum w) (aSalt w) (szPage w) (aFrameCksum (wi w)) file' i = Some (pgno, nT, c)"
    and "iReCksum (wi w) \<noteq> 0 \<Longrightarrow> w' = w"
    and "\<And>j. j < szPage w \<Longrightarrow> ptr file' (ofs + WAL_FRAME_HDRSIZE) j = pData ! j"
proof -
  obtain g where e: "walEncodeFrame be w pgno nT (\<lambda>i. pData ! i) (\<lambda>_. 0) = (w', g)"
    and f: "file' = memcpy (memcpy file ofs (map g [0..<WAL_FRAME_HDRSIZE])) (ofs + WAL_FRAME_HDRSIZE) pData"
    using assms(1) unfolding walWriteOneFrame_def ofs_def
    by (auto split: prod.splits if_splits dest!: walWriteToLog_ok simp del: upt_rec_numeral)
  show out: "file' j = file j" if "j < ofs \<or> ofs + WAL_FRAME_HDRSIZE + szPage w \<le> j" for j
    using that assms(2) by (auto simp: f memcpy_def simp del: upt_rec_numeral)
  have hdr: "ptr file' ofs j = g j" if "j < 24" for j
    using that by (simp add: f ptr_apply memcpy_def del: upt_rec_numeral)
  show dat: "ptr file' (ofs + WAL_FRAME_HDRSIZE) j = pData ! j" if "j < szPage w" for j
    using that assms(2) by (simp add: f ptr_apply memcpy_def)
  have "sqlite3Get4byte (ptr file' ofs) = sqlite3Get4byte g" by (rule Get4byte_local) (simp add: hdr)
  then show "sqlite3Get4byte (ptr file' ofs) = pgno" using encode_page [OF e] by simp
  have "sqlite3Get4byte (ptr file' (ofs + 4)) = sqlite3Get4byte (ptr g 4)"
    by (rule Get4byte_local) (use hdr in \<open>simp add: ptr_apply add.assoc\<close>)
  then show "sqlite3Get4byte (ptr file' (ofs + 4)) = nT" using encode_page [OF e] by simp
  show "\<exists>c. w' = set_cksum c w \<and> frame_in (bigEndCksum w) (aSalt w) (szPage w) (aFrameCksum (wi w)) file' i = Some (pgno, nT, c)"
    if "iReCksum (wi w) = 0"
  proof -
    have "frame_in (bigEndCksum w) (aSalt w) (szPage w) (aFrameCksum (wi w)) file' i =
      frame_at (bigEndCksum w) (aSalt w) (szPage w) (aFrameCksum (wi w)) (\<lambda>i. pData ! i) g"
      by (rule frame_at_local) (use hdr dat in \<open>simp_all add: ofs_def\<close>)
    with encode_valid [OF that assms(3,4) e] show ?thesis by auto
  qed
  show "w' = w" if "iReCksum (wi w) \<noteq> 0" using encode_recksum [OF that, of be pgno nT] e by (metis fst_conv)
qed

subsection \<open>The frames of a log\<close>

lemma valid_log_snoc:
  "length (valid_log big salt sz f c 1 m) = m \<Longrightarrow> frame_in big salt sz (log_end c (valid_log big salt sz f c 1 m)) f (Suc m) = Some fr \<Longrightarrow>
   valid_log big salt sz f c 1 (Suc m) = valid_log big salt sz f c 1 m @ [fr]"
  using valid_log_add [of big salt sz f c 1 m 1] by (cases fr) (simp add: Let_def)

lemma valid_log_prefix:
  assumes "length (valid_log big salt sz f c 1 m) = m" "k \<le> m"
  shows "length (valid_log big salt sz f c 1 k) = k \<and> valid_log big salt sz f c 1 k = take k (valid_log big salt sz f c 1 m)"
proof -
  let ?V = "valid_log big salt sz f c 1 k"
  have "length ?V \<le> k" by (rule valid_log_length)
  with valid_log_add [of big salt sz f c 1 k "m - k"] assms show ?thesis
    by (cases "length ?V = k") (auto simp: Let_def)
qed

text \<open>
  The file holds frames for the pages \<open>L\<close> with the commit sizes \<open>N\<close>, and the first \<open>m\<close> of them
  have correct salts and checksums.
\<close>

definition log_ok :: "bool \<Rightarrow> u8 list \<Rightarrow> nat \<Rightarrow> u32 \<times> u32 \<Rightarrow> mem \<Rightarrow> u32 list \<Rightarrow> u32 list \<Rightarrow> nat \<Rightarrow> bool" where
  "log_ok big salt sz c f L N m \<longleftrightarrow> length N = length L \<and> m \<le> length L \<and> 0 \<notin> set L \<and>
     (\<forall>i < length L. sqlite3Get4byte (ptr f (walFrameOffset (Suc i) sz)) = L ! i \<and>
        sqlite3Get4byte (ptr f (walFrameOffset (Suc i) sz + 4)) = N ! i) \<and>
     length (valid_log big salt sz f c 1 m) = m"

lemma frame_in_fields:
  "frame_in big salt sz c f i = Some (p, n, c') \<Longrightarrow>
   p = sqlite3Get4byte (ptr f (walFrameOffset i sz)) \<and> n = sqlite3Get4byte (ptr f (walFrameOffset i sz + 4))"
  by (auto simp: frame_at_def Let_def split: if_splits)

lemma valid_log_nth:
  "j < length (valid_log big salt sz f c i k) \<Longrightarrow>
   \<exists>c'. valid_log big salt sz f c i k ! j =
     (sqlite3Get4byte (ptr f (walFrameOffset (i + j) sz)), sqlite3Get4byte (ptr f (walFrameOffset (i + j) sz + 4)), c')"
proof (induction k arbitrary: c i j)
  case (Suc k)
  then obtain p n c' where fr: "frame_in big salt sz c f i = Some (p, n, c')" by (auto split: option.splits)
  show ?case
  proof (cases j)
    case 0
    with fr frame_in_fields [OF fr] show ?thesis by simp
  next
    case (Suc j')
    with Suc.prems fr Suc.IH [of j' c' "Suc i"] show ?thesis by simp
  qed
qed simp

lemma log_ok_pages:
  assumes "log_ok big salt sz c f L N m"
  shows "pages_of (valid_log big salt sz f c 1 m) = take m L" "map (fst \<circ> snd) (valid_log big salt sz f c 1 m) = take m N"
proof -
  let ?V = "valid_log big salt sz f c 1 m"
  have l: "length ?V = m" "m \<le> length L" "length N = length L" using assms by (simp_all add: log_ok_def)
  have "fst (?V ! j) = L ! j \<and> fst (snd (?V ! j)) = N ! j" if "j < m" for j
  proof -
    have "j < length ?V" using that l(1) by simp
    from valid_log_nth [OF this] obtain c' where
      "?V ! j = (sqlite3Get4byte (ptr f (walFrameOffset (1 + j) sz)), sqlite3Get4byte (ptr f (walFrameOffset (1 + j) sz + 4)), c')" by blast
    with assms that l(2) show ?thesis by (simp add: log_ok_def)
  qed
  with l show "pages_of ?V = take m L" "map (fst \<circ> snd) ?V = take m N" by (auto intro!: nth_equalityI)
qed

lemma frame_pos: "32 \<le> walFrameOffset i sz"
  by (simp add: walFrameOffset_def)

text \<open>A change of the file that keeps the page numbers and the first \<open>m'\<close> frames.\<close>

lemma log_ok_keep:
  assumes "log_ok big salt sz c f L N m" "m' \<le> m"
    and "\<And>i. i < length L \<Longrightarrow> sqlite3Get4byte (ptr g (walFrameOffset (Suc i) sz)) = L ! i \<and> sqlite3Get4byte (ptr g (walFrameOffset (Suc i) sz + 4)) = N ! i"
    and "\<And>j. 32 \<le> j \<Longrightarrow> j < walFrameOffset (Suc m') sz \<Longrightarrow> g j = f j"
  shows "log_ok big salt sz c g L N m'" "valid_log big salt sz g c 1 m' = valid_log big salt sz f c 1 m'"
proof -
  have "length (valid_log big salt sz f c 1 m) = m" using assms(1) by (simp add: log_ok_def)
  then have v: "length (valid_log big salt sz f c 1 m') = m'" using valid_log_prefix assms(2) by blast
  show e: "valid_log big salt sz g c 1 m' = valid_log big salt sz f c 1 m'"
    by (rule valid_log_local) (use assms(4) frame_pos [of 1 sz] in auto)
  with assms(1,2,3) v show "log_ok big salt sz c g L N m'" by (simp add: log_ok_def)
qed

lemma log_ok_change:
  assumes "log_ok big salt sz c f L N m" "m' \<le> m"
    and "\<And>i j. i < length L \<Longrightarrow> j < 8 \<Longrightarrow> g (walFrameOffset (Suc i) sz + j) = f (walFrameOffset (Suc i) sz + j)"
    and "\<And>j. 32 \<le> j \<Longrightarrow> j < walFrameOffset (Suc m') sz \<Longrightarrow> g j = f j"
  shows "log_ok big salt sz c g L N m'" "valid_log big salt sz g c 1 m' = valid_log big salt sz f c 1 m'"
proof -
  have "sqlite3Get4byte (ptr g (walFrameOffset (Suc i) sz)) = L ! i \<and> sqlite3Get4byte (ptr g (walFrameOffset (Suc i) sz + 4)) = N ! i"
    if i: "i < length L" for i
  proof -
    have "sqlite3Get4byte (ptr g (walFrameOffset (Suc i) sz + k)) = sqlite3Get4byte (ptr f (walFrameOffset (Suc i) sz + k))" if "k \<le> 4" for k
      by (rule Get4byte_local) (use that assms(3) [OF i, of "k + _"] in \<open>simp add: ptr_apply add.assoc\<close>)
    from this [of 0] this [of 4] assms(1) i show ?thesis by (simp add: log_ok_def)
  qed
  then show "log_ok big salt sz c g L N m'" "valid_log big salt sz g c 1 m' = valid_log big salt sz f c 1 m'"
    using log_ok_keep [OF assms(1,2) _ assms(4)] by blast+
qed

text \<open>The frames and the state of the writer that belongs to them.\<close>

definition log_state :: "u32 \<times> u32 \<Rightarrow> wal \<Rightarrow> mem \<Rightarrow> u32 list \<Rightarrow> u32 list \<Rightarrow> bool" where
  "log_state c w f L N \<longleftrightarrow> length (aSalt w) = 8 \<and>
     log_ok (bigEndCksum w) (aSalt w) (szPage w) c f L N (if iReCksum (wi w) = 0 then length L else iReCksum (wi w) - 1) \<and>
     (iReCksum (wi w) = 0 \<longrightarrow>
        aFrameCksum (wi w) = log_end c (valid_log (bigEndCksum w) (aSalt w) (szPage w) f c 1 (length L)))"

lemma log_ok_snoc:
  assumes "log_ok big salt sz c f L N m" "p \<noteq> 0" "\<And>j. j < walFrameOffset (Suc (length L)) sz \<Longrightarrow> g j = f j"
    and "sqlite3Get4byte (ptr g (walFrameOffset (Suc (length L)) sz)) = p" "sqlite3Get4byte (ptr g (walFrameOffset (Suc (length L)) sz + 4)) = n"
  shows "log_ok big salt sz c g (L @ [p]) (N @ [n]) m" "valid_log big salt sz g c 1 m = valid_log big salt sz f c 1 m"
proof -
  have m: "m \<le> length L" using assms(1) by (simp add: log_ok_def)
  have le: "walFrameOffset (Suc i) sz + WAL_FRAME_HDRSIZE \<le> walFrameOffset (Suc (length L)) sz" if "i < length L" for i
    using walFrameOffset_mono [of "Suc i" "Suc (length L)" sz] that by simp
  have keep: "g (walFrameOffset (Suc i) sz + j) = f (walFrameOffset (Suc i) sz + j)" if "i < length L" "j < 8" for i j
    using assms(3) le [OF that(1)] that(2) by simp
  have low: "g j = f j" if "j < walFrameOffset (Suc m) sz" for j
    using that assms(3) walFrameOffset_mono [of "Suc m" "Suc (length L)" sz] m by (cases "m = length L") auto
  show "valid_log big salt sz g c 1 m = valid_log big salt sz f c 1 m"
    by (rule log_ok_change(2) [OF assms(1) order_refl]) (use keep low in auto)
  have "log_ok big salt sz c g L N m" by (rule log_ok_change(1) [OF assms(1) order_refl]) (use keep low in auto)
  with assms(2,4,5) show "log_ok big salt sz c g (L @ [p]) (N @ [n]) m"
    by (auto simp: log_ok_def nth_append less_Suc_eq)
qed

lemma log_ok_extend:
  assumes "log_ok big salt sz c g L N m" "m < length L"
    and "frame_in big salt sz (log_end c (valid_log big salt sz g c 1 m)) g (Suc m) = Some (p, n, c')"
  shows "log_ok big salt sz c g L N (Suc m)" "log_end c (valid_log big salt sz g c 1 (Suc m)) = c'"
proof -
  have "length (valid_log big salt sz g c 1 m) = m" using assms(1) by (simp add: log_ok_def)
  from valid_log_snoc [OF this assms(3)] this assms(1,2)
  show "log_ok big salt sz c g L N (Suc m)" "log_end c (valid_log big salt sz g c 1 (Suc m)) = c'"
    by (simp_all add: log_ok_def log_end_def)
qed

lemma log_state_append:
  assumes st: "log_state c w f L N"
    and wr: "walWriteOneFrame be writeRc syncRc sp pgno pData nT (walFrameOffset (Suc (length L)) (szPage w)) w f = (SQLITE_OK, w', f')"
    and p: "length pData = szPage w" "pgno \<noteq> 0"
  shows "log_state c w' f' (L @ [pgno]) (N @ [nT])" "\<And>j. j < 32 \<Longrightarrow> f' j = f j" "\<exists>c'. w' = set_cksum c' w"
proof -
  have salt: "length (aSalt w) = 8" using st by (simp add: log_state_def)
  note W = WriteOneFrame_ok [OF wr p(1) salt p(2)]
  show out: "f' j = f j" if "j < 32" for j using W(1) [of j] that frame_pos [of "Suc (length L)" "szPage w"] by simp
  let ?big = "bigEndCksum w" and ?salt = "aSalt w" and ?sz = "szPage w" and ?n = "length L"
  let ?m = "if iReCksum (wi w) = 0 then ?n else iReCksum (wi w) - 1"
  have ok: "log_ok ?big ?salt ?sz c f L N ?m" using st by (simp add: log_state_def)
  have snoc: "log_ok ?big ?salt ?sz c f' (L @ [pgno]) (N @ [nT]) ?m" "valid_log ?big ?salt ?sz f' c 1 ?m = valid_log ?big ?salt ?sz f c 1 ?m"
    by (rule log_ok_snoc [OF ok p(2)]; use W(1,2,3) in simp)+
  show "\<exists>c'. w' = set_cksum c' w" using W(4,5) set_cksum_same [of w] by metis
  show "log_state c w' f' (L @ [pgno]) (N @ [nT])"
  proof (cases "iReCksum (wi w) = 0")
    case True
    with W(4) obtain c' where c': "w' = set_cksum c' w" "frame_in ?big ?salt ?sz (aFrameCksum (wi w)) f' (Suc ?n) = Some (pgno, nT, c')" by blast
    have "aFrameCksum (wi w) = log_end c (valid_log ?big ?salt ?sz f' c 1 ?n)" using st True snoc(2) by (simp add: log_state_def)
    with c'(2) log_ok_extend [of ?big ?salt ?sz c f' "L @ [pgno]" "N @ [nT]" ?n pgno nT c'] snoc(1) True salt show ?thesis
      by (simp add: log_state_def c'(1) set_cksum_def)
  next
    case False
    with W(5) snoc(1) salt show ?thesis by (simp add: log_state_def)
  qed
qed

lemma log_state_overwrite:
  assumes st: "log_state c w f L N" and i: "0 < i" "i \<le> length L" and d: "length pData = szPage w"
  defines "w' \<equiv> (if iReCksum (wi w) = 0 \<or> i < iReCksum (wi w) then w\<lparr>wi := (wi w)\<lparr>iReCksum := i\<rparr>\<rparr> else w)"
    and "g \<equiv> memcpy f (walFrameOffset i (szPage w) + WAL_FRAME_HDRSIZE) pData"
  shows "log_state c w' g L N"
proof -
  let ?big = "bigEndCksum w" and ?salt = "aSalt w" and ?sz = "szPage w"
  let ?m = "if iReCksum (wi w) = 0 then length L else iReCksum (wi w) - 1"
  have ok: "log_ok ?big ?salt ?sz c f L N ?m" using st by (simp add: log_state_def)
  define m where "m = iReCksum (wi w') - 1"
  have r: "iReCksum (wi w') \<noteq> 0" "m \<le> ?m" "m < i" using i by (auto simp: w'_def m_def)
  have "log_ok ?big ?salt ?sz c g L N m"
  proof (rule log_ok_change(1) [OF ok r(2)])
    fix k j :: nat assume k: "k < length L" "j < 8"
    have "walFrameOffset i ?sz + WAL_FRAME_HDRSIZE + ?sz \<le> walFrameOffset (Suc k) ?sz" if "i < Suc k" using that i by (intro walFrameOffset_mono)
    moreover have "walFrameOffset (Suc k) ?sz + WAL_FRAME_HDRSIZE + ?sz \<le> walFrameOffset i ?sz" if "Suc k < i" using that by (intro walFrameOffset_mono) simp
    ultimately show "g (walFrameOffset (Suc k) ?sz + j) = f (walFrameOffset (Suc k) ?sz + j)"
      using k d unfolding g_def by (intro memcpy_outside) (cases i "Suc k" rule: linorder_cases; simp)
  next
    fix j assume "j < walFrameOffset (Suc m) ?sz"
    moreover have "walFrameOffset (Suc m) ?sz \<le> walFrameOffset i ?sz"
      using r(3) walFrameOffset_mono [of "Suc m" i ?sz] by (cases "Suc m = i") auto
    ultimately show "g j = f j" unfolding g_def by (intro memcpy_outside) simp
  qed
  moreover have "bigEndCksum w' = ?big" "aSalt w' = ?salt" "szPage w' = ?sz" by (simp_all add: w'_def)
  ultimately show ?thesis using st r(1) by (simp add: log_state_def m_def)
qed

text \<open>Lookups do not depend on the checksum fields.\<close>

lemma walFindLoop_cong: "mxFrame s' = mxFrame s \<Longrightarrow> minFrame s' = minFrame s \<Longrightarrow> walFindLoop n s' t z p k r = walFindLoop n s t z p k r"
proof (induction n arbitrary: k r)
  case 0
  then show ?case by (simp add: walFindLoop.simps [of 0] Let_def)
next
  case (Suc n)
  then show ?case by (simp add: walFindLoop.simps [of "Suc n"] Let_def)
qed

lemma walFindTables_cong:
  "mxFrame s' = mxFrame s \<Longrightarrow> minFrame s' = minFrame s \<Longrightarrow> apWiData s' = apWiData s \<Longrightarrow> shmRc s' = shmRc s \<Longrightarrow>
   walFindTables s' p a h = walFindTables s p a h"
  by (induction h) (simp_all add: walFindTables.simps [of _ _ _ "Suc _"] walFindTables.simps [of _ _ _ 0] walFindLoop_cong [of s' s] walHashGet_def split: option.splits)

lemma walFindFrame_cksum: "walFindFrame (s\<lparr>aFrameCksum := c\<rparr>) = walFindFrame s" "walFindFrame (s\<lparr>iReCksum := i\<rparr>) = walFindFrame s"
  using walFindTables_cong [of "s\<lparr>aFrameCksum := c\<rparr>" s] walFindTables_cong [of "s\<lparr>iReCksum := i\<rparr>" s]
  by (auto simp: walFindFrame_def fun_eq_iff)

definition same_writer :: "wal \<Rightarrow> wal \<Rightarrow> bool" where
  "same_writer w w' \<longleftrightarrow> aSalt w' = aSalt w \<and> bigEndCksum w' = bigEndCksum w \<and> szPage w' = szPage w \<and> nPage w' = nPage w \<and>
     (\<exists>c i. wi w' = (wi w)\<lparr>aFrameCksum := c, iReCksum := i\<rparr>)"

lemma same_writerI: "same_writer w (w\<lparr>wi := (wi w)\<lparr>aFrameCksum := c, iReCksum := i\<rparr>\<rparr>)"
  unfolding same_writer_def by (intro conjI exI [where x = c] exI [where x = i]) simp_all

lemma same_writer_refl: "same_writer w w"
  using same_writerI [of w "iReCksum (wi w)" "aFrameCksum (wi w)"] by simp

lemma same_writer_trans: "same_writer w w' \<Longrightarrow> same_writer w' w'' \<Longrightarrow> same_writer w w''"
  unfolding same_writer_def by fastforce

lemma same_writer_cksum: "same_writer w (set_cksum c w)" "same_writer w (w\<lparr>wi := (wi w)\<lparr>iReCksum := i\<rparr>\<rparr>)"
  using same_writerI [of w "iReCksum (wi w)" c] same_writerI [of w i "aFrameCksum (wi w)"] by (simp_all add: set_cksum_def)

lemma same_writer_find: "same_writer w w' \<Longrightarrow> walFindFrame (wi w') = walFindFrame (wi w)"
  by (auto simp: same_writer_def walFindFrame_cksum)

definition commit_sizes :: "bool \<Rightarrow> u32 \<Rightarrow> nat \<Rightarrow> u32 list" where
  "commit_sizes isCommit nTruncate k = (if isCommit \<and> 0 < k then replicate (k - 1) 0 @ [nTruncate] else replicate k 0)"

lemma commit_sizes_simps: "commit_sizes b n 0 = []" "0 < k \<Longrightarrow> commit_sizes b n (Suc k) = 0 # commit_sizes b n k"
  "commit_sizes b n 1 = [if b then n else 0]"
  by (cases k; simp add: commit_sizes_def)+

lemma framesLoop_ok:
  "log_state c w f L N \<Longrightarrow> list_all (\<lambda>(p, d). p \<noteq> 0 \<and> length d = szPage w) ps \<Longrightarrow> \<forall>p. snd (walFindFrame (wi w) p) \<le> length L \<Longrightarrow>
   framesLoop be writeRc syncRc isCommit nTruncate iFirst ps (length L) w f = (SQLITE_OK, w', f', n, qs) \<Longrightarrow>
   log_state c w' f' (L @ qs) (N @ commit_sizes isCommit nTruncate (length qs)) \<and> n = length (L @ qs) \<and> same_writer w w' \<and>
   (\<forall>j < 32. f' j = f j) \<and> (isCommit \<and> ps \<noteq> [] \<longrightarrow> qs \<noteq> [])"
proof (induction ps arbitrary: w f L N w' f' n qs)
  case Nil
  then show ?case by (simp add: commit_sizes_simps same_writer_refl)
next
  case (Cons x ps)
  obtain pgno d where x: "x = (pgno, d)" by fastforce
  let ?i = "snd (walFindFrame (wi w) pgno)"
  have px: "pgno \<noteq> 0" "length d = szPage w" and pps: "list_all (\<lambda>(p, d). p \<noteq> 0 \<and> length d = szPage w) ps"
    using Cons.prems(2) by (simp_all add: x)
  show ?case
  proof (cases "iFirst \<noteq> 0 \<and> (ps \<noteq> [] \<or> \<not> isCommit) \<and> ?i \<ge> iFirst")
    case True
    let ?w = "if iReCksum (wi w) = 0 \<or> ?i < iReCksum (wi w) then w\<lparr>wi := (wi w)\<lparr>iReCksum := ?i\<rparr>\<rparr> else w"
    let ?o = "walFrameOffset ?i (szPage w) + WAL_FRAME_HDRSIZE"
    have sw: "same_writer w ?w" by (simp add: same_writer_refl same_writer_cksum)
    have sz: "szPage ?w = szPage w" by simp
    have rest: "framesLoop be writeRc syncRc isCommit nTruncate iFirst ps (length L) ?w (memcpy f ?o d) = (SQLITE_OK, w', f', n, qs)"
      using Cons.prems(4) True unfolding x framesLoop.simps Let_def
      by (auto simp: osWrite_def split: if_splits)
    have "log_state c ?w (memcpy f ?o d) L N"
      using True Cons.prems(3) px(2) by (intro log_state_overwrite [OF Cons.prems(1)]) auto
    from Cons.IH [OF this _ _ rest] pps Cons.prems(3) sz sw have
      ih: "log_state c w' f' (L @ qs) (N @ commit_sizes isCommit nTruncate (length qs)) \<and> n = length (L @ qs) \<and> same_writer ?w w' \<and>
       (\<forall>j < 32. f' j = memcpy f ?o d j) \<and> (isCommit \<and> ps \<noteq> [] \<longrightarrow> qs \<noteq> [])" by (simp add: same_writer_find [OF sw])
    moreover have "memcpy f ?o d j = f j" if "j < 32" for j
      using that frame_pos [of ?i "szPage w"] by (intro memcpy_outside) simp
    ultimately show ?thesis using True same_writer_trans [OF sw] by auto
  next
    case False
    let ?k = "if isCommit \<and> ps = [] then nTruncate else 0"
    obtain w1 f1 qs1 where wr: "walWriteOneFrame be writeRc syncRc 0 pgno d ?k (walFrameOffset (Suc (length L)) (szPage w)) w f = (SQLITE_OK, w1, f1)"
      and rest: "framesLoop be writeRc syncRc isCommit nTruncate iFirst ps (length (L @ [pgno])) w1 f1 = (SQLITE_OK, w', f', n, qs1)"
      and qs: "qs = pgno # qs1"
      using Cons.prems(4) False unfolding x framesLoop.simps Let_def by (auto split: if_splits prod.splits)
    note st = log_state_append [OF Cons.prems(1) wr px(2,1)]
    have sw: "same_writer w w1" using st(3) same_writer_cksum by auto
    have "szPage w1 = szPage w" using sw by (simp add: same_writer_def)
    with Cons.IH [OF st(1) _ _ rest] pps Cons.prems(3) have
      ih: "log_state c w' f' ((L @ [pgno]) @ qs1) ((N @ [?k]) @ commit_sizes isCommit nTruncate (length qs1)) \<and> n = length ((L @ [pgno]) @ qs1) \<and>
       same_writer w1 w' \<and> (\<forall>j < 32. f' j = f1 j) \<and> (isCommit \<and> ps \<noteq> [] \<longrightarrow> qs1 \<noteq> [])" by (simp add: same_writer_find [OF sw] le_SucI)
    have "[?k] @ commit_sizes isCommit nTruncate (length qs1) = commit_sizes isCommit nTruncate (length qs)"
    proof (cases "ps = []")
      case True
      then have "qs1 = []" using rest by simp
      with True show ?thesis by (simp add: qs commit_sizes_def)
    next
      case ne: False
      show ?thesis using ih ne by (cases qs1) (auto simp: qs commit_sizes_def)
    qed
    with ih st(2) same_writer_trans [OF sw] show ?thesis by (auto simp: qs)
  qed
qed

lemma rewrite_step:
  assumes st: "log_ok (bigEndCksum w) (aSalt w) (szPage w) c f L N m" "m < length L" "length (aSalt w) = 8" "iReCksum (wi w) = 0"
    and ck: "aFrameCksum (wi w) = log_end c (valid_log (bigEndCksum w) (aSalt w) (szPage w) f c 1 m)"
  defines "ofs \<equiv> walFrameOffset (Suc m) (szPage w)"
  assumes e: "walEncodeFrame be w (sqlite3Get4byte (ptr f ofs)) (sqlite3Get4byte (ptr (ptr f ofs) 4)) (ptr (ptr f ofs) WAL_FRAME_HDRSIZE) (\<lambda>_. 0) = (w', g)"
  defines "f' \<equiv> memcpy f ofs (map g [0..<WAL_FRAME_HDRSIZE])"
  shows "log_ok (bigEndCksum w) (aSalt w) (szPage w) c f' L N (Suc m)"
    and "\<exists>c'. w' = set_cksum c' w \<and> c' = log_end c (valid_log (bigEndCksum w) (aSalt w) (szPage w) f' c 1 (Suc m))"
proof -
  let ?big = "bigEndCksum w" and ?salt = "aSalt w" and ?sz = "szPage w"
  have p: "sqlite3Get4byte (ptr f ofs) = L ! m" "sqlite3Get4byte (ptr (ptr f ofs) 4) = N ! m" "L ! m \<noteq> 0"
    using st(1,2) by (auto simp: log_ok_def ofs_def in_set_conv_nth)
  from encode_valid [OF st(4,3) _ e] p obtain c'
    where c': "frame_at ?big ?salt ?sz (aFrameCksum (wi w)) (ptr (ptr f ofs) WAL_FRAME_HDRSIZE) g = Some (L ! m, N ! m, c')" "w' = set_cksum c' w" by auto
  have hdr: "f' (ofs + j) = g j" if "j < 24" for j using that by (simp add: f'_def memcpy_def del: upt_rec_numeral)
  have out: "f' j = f j" if "j < ofs \<or> ofs + 24 \<le> j" for j
    using that unfolding f'_def by (intro memcpy_outside) (simp del: upt_rec_numeral)
  have off: "walFrameOffset (Suc i) ?sz + WAL_FRAME_HDRSIZE \<le> ofs \<or> ofs + WAL_FRAME_HDRSIZE \<le> walFrameOffset (Suc i) ?sz" if "i \<noteq> m" for i
    using that walFrameOffset_mono [of "Suc i" "Suc m" ?sz] walFrameOffset_mono [of "Suc m" "Suc i" ?sz] by (auto simp: ofs_def linorder_neq_iff)
  have flds: "sqlite3Get4byte (ptr f' (walFrameOffset (Suc i) ?sz)) = L ! i \<and> sqlite3Get4byte (ptr f' (walFrameOffset (Suc i) ?sz + 4)) = N ! i"
    if i: "i < length L" for i
  proof (cases "i = m")
    case True
    have "sqlite3Get4byte (ptr f' ofs) = sqlite3Get4byte g" "sqlite3Get4byte (ptr f' (ofs + 4)) = sqlite3Get4byte (ptr g 4)"
      by (rule Get4byte_local; use hdr in \<open>simp add: ptr_apply add.assoc\<close>)+
    with True encode_page [OF e] p show ?thesis by (simp add: ofs_def)
  next
    case False
    have "sqlite3Get4byte (ptr f' (walFrameOffset (Suc i) ?sz + k)) = sqlite3Get4byte (ptr f (walFrameOffset (Suc i) ?sz + k))" if "k \<le> 4" for k
      by (rule Get4byte_local) (use that off [OF False] out in \<open>auto simp: ptr_apply\<close>)
    from this [of 0] this [of 4] st(1) i show ?thesis by (simp add: log_ok_def)
  qed
  have keep: "log_ok ?big ?salt ?sz c f' L N m" "valid_log ?big ?salt ?sz f' c 1 m = valid_log ?big ?salt ?sz f c 1 m"
    by (rule log_ok_keep [OF st(1) order_refl]; use flds out in \<open>simp add: ofs_def\<close>)+
  have "frame_in ?big ?salt ?sz (aFrameCksum (wi w)) f' (Suc m) = Some (L ! m, N ! m, c')"
    unfolding c'(1) [symmetric] ofs_def [symmetric]
    by (rule frame_at_local) (use hdr out in \<open>simp_all add: ptr_apply\<close>)
  then have "frame_in ?big ?salt ?sz (log_end c (valid_log ?big ?salt ?sz f' c 1 m)) f' (Suc m) = Some (L ! m, N ! m, c')"
    by (simp only: ck keep(2))
  note X = log_ok_extend [OF keep(1) st(2) this]
  show "log_ok ?big ?salt ?sz c f' L N (Suc m)" by (rule X(1))
  show "\<exists>c'. w' = set_cksum c' w \<and> c' = log_end c (valid_log ?big ?salt ?sz f' c 1 (Suc m))"
    unfolding X(2) using c'(2) by blast
qed

subsection \<open>Recovery as a whole\<close>

text \<open>The fields of the header of a log, and when recovery accepts it.\<close>

abbreviation log_big :: "mem \<Rightarrow> bool" where "log_big f \<equiv> sqlite3Get4byte f AND 1 = 1"
abbreviation log_sz :: "mem \<Rightarrow> nat" where "log_sz f \<equiv> unat (sqlite3Get4byte (ptr f 8))"
abbreviation log_salt :: "mem \<Rightarrow> u8 list" where "log_salt f \<equiv> map f [16..<24]"
abbreviation log_start :: "mem \<Rightarrow> u32 \<times> u32" where "log_start f \<equiv> (sqlite3Get4byte (ptr f 24), sqlite3Get4byte (ptr f 28))"

definition header_ok :: "mem \<Rightarrow> bool" where
  "header_ok f \<longleftrightarrow> sqlite3Get4byte f AND 0xFFFFFFFE = WAL_MAGIC \<and> log_sz f AND (log_sz f - 1) = 0 \<and> log_sz f \<le> 65536 \<and> 512 \<le> log_sz f \<and>
     cksum (log_big f) f 24 (0, 0) = log_start f \<and> sqlite3Get4byte (ptr f 4) = WAL_MAX_VERSION"

definition log_frames :: "mem \<Rightarrow> nat \<Rightarrow> frame list" where
  "log_frames f n = valid_log (log_big f) (log_salt f) (log_sz f) f (log_start f) 1 n"

text \<open>The header that \<^verbatim>\<open>walFrames\<close> writes is one that recovery accepts.\<close>

lemma walHeader_ok:
  assumes e: "walHeader be sz rnd w = (w', h)" and sz: "sz AND (sz - 1) = 0" "512 \<le> sz" "sz \<le> 65536"
    and salt: "length rnd = 8" "length (aSalt w) = 8" and f: "\<And>j. j < 32 \<Longrightarrow> f j = h j"
  shows "header_ok f" "log_big f = be" "log_sz f = sz" "log_salt f = aSalt w'" "log_start f = aFrameCksum (wi w')"
    and "bigEndCksum w' = be" "szPage w' = sz" "length (aSalt w') = 8" "\<exists>c. wi w' = (wi w)\<lparr>aFrameCksum := c\<rparr>"
proof -
  let ?put = "\<lambda>p v. (sqlite3Put4byte p v, 4 :: nat)"
  define s where "s = (if nCkpt (wi w) = 0 then rnd else aSalt w)"
  define g where "g = memcpy (put_at ?put 12 (nCkpt (wi w)) (put_at ?put 8 (of_nat sz) (put_at ?put 4 WAL_MAX_VERSION
    (put_at ?put 0 (WAL_MAGIC OR (if be then 1 else 0)) (\<lambda>_. 0))))) 16 s"
  define c where "c = walChecksumBytes be True g 24 (0, 0)"
  have h: "h = put_at ?put 28 (snd c) (put_at ?put 24 (fst c) g)"
    and w': "aSalt w' = s" "bigEndCksum w' = be" "szPage w' = sz" "wi w' = (wi w)\<lparr>aFrameCksum := c\<rparr>"
    using e unfolding walHeader_def Let_def by (auto simp: s_def g_def c_def set_cksum_def)
  have s: "length s = 8" using salt by (simp add: s_def)
  have G: "sqlite3Get4byte (ptr f k) = sqlite3Get4byte (ptr h k)" if "k \<le> 28" for k
    by (rule Get4byte_local) (use that f in \<open>simp add: ptr_apply\<close>)
  have fld: "sqlite3Get4byte (ptr f 0) = WAL_MAGIC OR (if be then 1 else 0)" "sqlite3Get4byte (ptr f 4) = WAL_MAX_VERSION"
    "sqlite3Get4byte (ptr f 8) = of_nat sz" "sqlite3Get4byte (ptr f 24) = fst c" "sqlite3Get4byte (ptr f 28) = snd c"
    using s by (simp_all add: G h g_def Get4_put4 Get4_put4_other Get4_memcpy_other del: ptr_0)
  note fld = fld [unfolded ptr_0]
  show z: "log_sz f = sz" using sz(3) by (simp add: fld unat_of_nat)
  show b: "log_big f = be" by (simp add: fld)
  have low: "f j = g j" if "j < 24" for j using that f by (simp add: h put4_simps)
  have "f j = s ! (j - 16)" if "j \<in> {16..<24}" for j using that s low by (simp add: g_def memcpy_def)
  then show "log_salt f = aSalt w'" by (intro nth_equalityI) (simp_all add: w' s del: upt_rec_numeral)
  show st: "log_start f = aFrameCksum (wi w')" by (simp add: fld w')
  have "cksum be f 24 (0, 0) = cksum be g 24 (0, 0)" by (rule cksum_local) (rule low)
  also have "\<dots> = c" using walChecksumBytes_eq [of be be g 24 "(0, 0)"] by (simp add: c_def)
  finally show "header_ok f" using sz z b st by (simp add: header_ok_def fld w')
  show "bigEndCksum w' = be" "szPage w' = sz" "length (aSalt w') = 8" using w' s by simp_all
  show "\<exists>c. wi w' = (wi w)\<lparr>aFrameCksum := c\<rparr>" using w'(4) by blast
qed

lemma recoverLog_ok:
  assumes h: "header_ok f" and rd: "\<forall>k. readRc k = SQLITE_OK" and m: "malloc_ok ms"
    and sh: "\<forall>h. shmRc (wi w) h = SQLITE_OK" and mx: "mxFrame (wi w) = 0" "nPage w = 0"
    and n: "WAL_HDRSIZE < nSize" "n = (nSize - WAL_HDRSIZE) div (log_sz f + WAL_FRAME_HDRSIZE)" "n < 2 ^ 32 - 34"
  shows "\<exists>w' cs. recoverLog be readRc priv ms f nSize w = (SQLITE_OK, w', cs) \<and> index_ok (wi w') (pages_of (log_frames f n)) \<and>
    (\<forall>h. shmRc (wi w') h = SQLITE_OK) \<and> (mxFrame (wi w'), nPage w', cs) = last_commit 1 (0, 0, 0, 0) (log_frames f n) \<and>
    size_noted w' \<and> szPage w' = log_sz f"
proof -
  let ?w = "w\<lparr>bigEndCksum := log_big f, szPage := log_sz f, aSalt := log_salt f,
    wi := (wi w)\<lparr>nCkpt := sqlite3Get4byte (ptr f 12), aFrameCksum := log_start f\<rparr>\<rparr>"
  have c: "walChecksumBytes be (log_big f = be) f (WAL_HDRSIZE - 8) (0, 0) = log_start f"
    using h by (simp add: walChecksumBytes_eq header_ok_def)
  have lt: "(nSize - WAL_HDRSIZE) div (log_sz f + WAL_FRAME_HDRSIZE) mod 2 ^ 32 = (nSize - WAL_HDRSIZE) div (log_sz f + WAL_FRAME_HDRSIZE)"
    using n(2,3) by (intro mod_less) linarith
  have "recoverLog be readRc priv ms f nSize w = recoverPages be readRc priv f n ?w (0, 0) [0..<walFramePage n + 1]"
    using h rd m n(1) lt unfolding recoverLog_def c Let_def n(2) by (simp add: header_ok_def)
  moreover have "index_ok (wi ?w) []" "length [] = iZero 0" "\<forall>h. shmRc (wi ?w) h = SQLITE_OK" "iZero 0 \<le> n"
    using sh by (simp_all add: index_ok_def iZero_def)
  ultimately obtain w' cs b where r: "recoverLog be readRc priv ms f nSize w = (SQLITE_OK, w', cs)"
    and v: "recovers f [] ?w (0, 0) (n - iZero 0) w' cs b"
    using recoverPages_ok [OF rd n(3) refl, of 0 ?w "[]" be priv f "(0, 0)"] by auto
  from v have "index_ok (wi w') (pages_of (log_frames f n)) \<and> same_log ?w w' \<and>
    (mxFrame (wi w'), nPage w', cs) = last_commit 1 (0, 0, 0, 0) (log_frames f n) \<and> size_noted w'"
    by (simp add: recovers_def Let_def log_frames_def mx iZero_def size_noted_def)
  with r sh show ?thesis by (auto simp: same_log_def)
qed

lemma recoverMarks_ok:
  assumes "\<forall>i. lockRc i = SQLITE_OK" "length (aReadMark info) = 5" "aReadMark info ! 0 = 0"
  shows "recoverMarks lockRc mx info SQLITE_OK [1..<5] =
     (SQLITE_OK, info\<lparr>aReadMark := [0, if mx \<noteq> 0 then mx else READMARK_NOT_USED, READMARK_NOT_USED, READMARK_NOT_USED, READMARK_NOT_USED]\<rparr>)"
proof -
  have "\<exists>a b c d e. aReadMark info = [a, b, c, d, e]" using assms(2) by (auto simp: length_Suc_conv eval_nat_numeral)
  then obtain b c d e where "aReadMark info = [0, b, c, d, e]" using assms(3) by auto
  moreover have "[1..<5] = [1, 2, 3, 4]" by (simp add: upt_rec)
  ultimately show ?thesis using assms(1) by simp
qed

lemma last_commit_bound: "i \<le> Suc m \<Longrightarrow> fst r \<le> m \<Longrightarrow> i + length V = Suc k \<Longrightarrow> m \<le> k \<Longrightarrow> fst (last_commit i r V) \<le> k"
proof (induction i r V arbitrary: m rule: last_commit.induct)
  case (2 i r p n c V)
  show ?case using 2(1) [of i] 2(2-) by (cases "n = 0") (use 2(1) [of "max i m"] in auto)
qed auto

lemma walIndexRecover_ok:
  assumes "header_ok f" "\<forall>k. readRc k = SQLITE_OK" "malloc_ok ms" "\<forall>h. shmRc (wi w) h = SQLITE_OK"
    and "\<forall>i. markRc i = SQLITE_OK" "length (aReadMark info) = 5"
    and "WAL_HDRSIZE < nSize" "n = (nSize - WAL_HDRSIZE) div (log_sz f + WAL_FRAME_HDRSIZE)" "n < 2 ^ 32 - 34"
    and "last_commit 1 (0, 0, 0, 0) (log_frames f n) = (mx, np, ck)"
  obtains w' where "walIndexRecover be SQLITE_OK markRc SQLITE_OK readRc priv ms f nSize w info =
      (SQLITE_OK, w', \<lparr>nBackfill = 0, nBackfillAttempted = mx,
        aReadMark = [0, if mx \<noteq> 0 then mx else READMARK_NOT_USED, READMARK_NOT_USED, READMARK_NOT_USED, READMARK_NOT_USED]\<rparr>)"
    and "mxFrame (wi w') = mx" "hdrFrame (wi w') = mx" "nPage w' = np" "aFrameCksum (wi w') = ck"
    and "index_ok (wi w') (pages_of (log_frames f n))" "\<forall>h. shmRc (wi w') h = SQLITE_OK" "mx \<le> length (log_frames f n)"
    and "mx \<noteq> 0 \<Longrightarrow> hdrSzPage w' = szPageCode (log_sz f)"
proof -
  let ?w = "w\<lparr>wi := (wi w)\<lparr>mxFrame := 0, aFrameCksum := (0, 0)\<rparr>, aSalt := replicate 8 0, bigEndCksum := False, nPage := 0, hdrSzPage := 0, iChange := 0\<rparr>"
  obtain w1 cs where r: "recoverLog be readRc priv ms f nSize ?w = (SQLITE_OK, w1, cs)"
    and ix: "index_ok (wi w1) (pages_of (log_frames f n))" "\<forall>h. shmRc (wi w1) h = SQLITE_OK"
    and lc: "mxFrame (wi w1) = mx" "nPage w1 = np" "cs = ck" "size_noted w1" "szPage w1 = log_sz f"
    using recoverLog_ok [OF assms(1,2,3) _ _ _ assms(7,8,9), of ?w be priv] assms(4,10) by auto
  let ?w2 = "walIndexWriteHdr (set_cksum cs w1)"
  let ?i = "info\<lparr>nBackfill := 0, nBackfillAttempted := mx, aReadMark := (aReadMark info)[0 := 0]\<rparr>"
  have i: "length (aReadMark ?i) = 5" "aReadMark ?i ! 0 = 0" using assms(6) by simp_all
  have "walIndexRecover be SQLITE_OK markRc SQLITE_OK readRc priv ms f nSize w info =
    (SQLITE_OK, ?w2, ?i\<lparr>aReadMark := [0, if mx \<noteq> 0 then mx else READMARK_NOT_USED, READMARK_NOT_USED, READMARK_NOT_USED, READMARK_NOT_USED]\<rparr>)"
    using r recoverMarks_ok [OF assms(5) i, of mx] by (simp add: walIndexRecover_def Let_def lc walIndexWriteHdr_def set_cksum_def)
  moreover have "mx \<le> length (log_frames f n)"
    using last_commit_bound [of 1 0 "(0, 0, 0, 0)" "log_frames f n" "length (log_frames f n)"] assms(10) by simp
  ultimately show thesis using ix lc by (intro that [of ?w2]) (simp_all add: index_ok_def size_noted_def walIndexWriteHdr_def set_cksum_def)
qed

lemma recovered_find:
  assumes "index_ok s L" "\<forall>h. shmRc s h = SQLITE_OK" "mx \<le> length L" "lo < 2 ^ 32 - 33"
  shows "walFindFrame (wal_reader lo mx s) pgno = (SQLITE_OK, latest_frame L lo pgno mx)"
  using walFindFrame_latest [of "wal_reader lo mx s" L pgno] assms by (simp add: wal_reader_def index_ok_def)

end
