(* ===== verification/Wal_Commit.thy ===== *)
theory Wal_Commit
  imports Wal_Frame
begin

text \<open>
  Writing a set of dirty pages to the write-ahead log (\<^verbatim>\<open>walFrames\<close> of wal.c): the restart of a log whose
  frames are all in the database, the header of a new log, the frames, the checksums of overwritten frames,
  and the index; and what recovery finds in the file afterwards.
\<close>

subsection \<open>Writing a set of pages\<close>

text \<open>The header, when these are the first frames of the log; \<open>hdrSync\<close> is the result of its sync.\<close>

definition walFramesHeader ::
  "bool \<Rightarrow> (nat \<Rightarrow> rc) \<Rightarrow> rc \<Rightarrow> u8 list \<Rightarrow> nat \<Rightarrow> wal \<Rightarrow> mem \<Rightarrow> rc \<times> wal \<times> mem" where
  "walFramesHeader be writeRc hdrSync rnd sz w file =
     (if mxFrame (wi w) = 0 then
        case walHeader be sz rnd w of (w, aWalHdr) \<Rightarrow>
          case osWrite writeRc (map aWalHdr [0..<WAL_HDRSIZE]) 0 file of (rc, file) \<Rightarrow>
            if rc \<noteq> SQLITE_OK then (rc, w, file) else (hdrSync, w, file)
      else (SQLITE_OK, w, file))"

text \<open>The checksums after the frames, for a commit.\<close>

definition walFramesCksum :: "bool \<Rightarrow> (nat \<Rightarrow> rc) \<Rightarrow> (nat \<Rightarrow> rc) \<Rightarrow> mallocs \<Rightarrow> bool \<Rightarrow> nat \<Rightarrow> wal \<Rightarrow> mem \<Rightarrow> rc \<times> wal \<times> mem" where
  "walFramesCksum be readRc writeRc ms isCommit iFrame w file =
     (if isCommit \<and> iReCksum (wi w) \<noteq> 0 then walRewriteChecksums be readRc writeRc ms iFrame w file else (SQLITE_OK, w, file))"

text \<open>
  The padding of a synced commit: the last frame is repeated until the next boundary of sectors,
  which \<open>sector\<close> gives when the device needs it.  The results are the number of extra frames and
  whether a sync is still to be done.
\<close>

function padLoop ::
  "bool \<Rightarrow> (nat \<Rightarrow> rc) \<Rightarrow> rc \<Rightarrow> nat \<Rightarrow> u32 \<Rightarrow> u8 list \<Rightarrow> u32 \<Rightarrow> nat \<Rightarrow> wal \<Rightarrow> mem \<Rightarrow> rc \<times> wal \<times> mem \<times> nat" where
  "padLoop be writeRc syncRc iSyncPoint pgno pData nTruncate iOffset w file =
     (if iOffset < iSyncPoint then
        case walWriteOneFrame be writeRc syncRc iSyncPoint pgno pData nTruncate iOffset w file of (rc, w1, file) \<Rightarrow>
          if rc \<noteq> SQLITE_OK then (rc, w1, file, 0)
          else case padLoop be writeRc syncRc iSyncPoint pgno pData nTruncate (iOffset + WAL_FRAME_HDRSIZE + szPage w) w1 file of
            (rc, w, file, nExtra) \<Rightarrow> (rc, w, file, nExtra + 1)
      else (SQLITE_OK, w, file, 0))"
  by pat_completeness auto
termination
  by (relation "measure (\<lambda>(be, writeRc, syncRc, sp, pgno, d, nT, k, w, f). sp - k)") auto

declare padLoop.simps [simp del]

definition walFramesPad ::
  "bool \<Rightarrow> (nat \<Rightarrow> rc) \<Rightarrow> rc \<Rightarrow> bool \<Rightarrow> nat option \<Rightarrow> u32 \<Rightarrow> u8 list \<Rightarrow> u32 \<Rightarrow> nat \<Rightarrow> wal \<Rightarrow> mem \<Rightarrow> rc \<times> wal \<times> mem \<times> nat \<times> bool" where
  "walFramesPad be writeRc syncRc doSync sector pgno pData nTruncate iOffset w file =
     (if \<not> doSync then (SQLITE_OK, w, file, 0, False)
      else case sector of
          None \<Rightarrow> (SQLITE_OK, w, file, 0, True)
        | Some sectorSize \<Rightarrow>
            let iSyncPoint = (iOffset + sectorSize - 1) div sectorSize * sectorSize in
            case padLoop be writeRc syncRc iSyncPoint pgno pData nTruncate iOffset w file of (rc, w, file, nExtra) \<Rightarrow>
              (rc, w, file, nExtra, iSyncPoint = iOffset))"

text \<open>
  The part of \<^verbatim>\<open>walFrames\<close> after \<^verbatim>\<open>walRestartLog\<close> has succeeded.  \<open>iFirst\<close> is the first frame that the
  transaction may overwrite, or zero.  The dirty pages are the pairs \<open>ps\<close>; \<open>doSync\<close> says whether a
  commit is synced, and \<open>syncRc\<close> is the result of syncs.  The page that is written last is the
  last of a commit, which is always appended.  \<^verbatim>\<open>walLimitSize\<close> only cuts the file after the frames.
\<close>

definition walFramesWrite ::
  "bool \<Rightarrow> (nat \<Rightarrow> rc) \<Rightarrow> (nat \<Rightarrow> rc) \<Rightarrow> rc \<Rightarrow> rc \<Rightarrow> mallocs \<Rightarrow> u8 list \<Rightarrow> nat \<Rightarrow> (u32 \<times> u8 list) list \<Rightarrow> u32 \<Rightarrow> bool \<Rightarrow> bool \<Rightarrow> nat option \<Rightarrow> nat \<Rightarrow>
   wal \<Rightarrow> mem \<Rightarrow> rc \<times> wal \<times> mem" where
  "walFramesWrite be readRc writeRc hdrSync syncRc ms rnd sz ps nTruncate isCommit doSync sector iFirst w file =
     (case walFramesHeader be writeRc hdrSync rnd sz w file of (rc, w, file) \<Rightarrow>
        if rc \<noteq> SQLITE_OK then (rc, w, file)
        else if szPage w \<noteq> sz then (SQLITE_CORRUPT, w, file)
        else case framesLoop be writeRc syncRc isCommit nTruncate iFirst ps (mxFrame (wi w)) w file of (rc, w, file, iFrame, qs) \<Rightarrow>
          if rc \<noteq> SQLITE_OK then (rc, w, file)
          else case walFramesCksum be readRc writeRc ms isCommit iFrame w file of (rc, w, file) \<Rightarrow>
            if rc \<noteq> SQLITE_OK then (rc, w, file)
            else case walFramesPad be writeRc syncRc (isCommit \<and> doSync) sector (fst (last ps)) (snd (last ps)) nTruncate
                        (walFrameOffset (iFrame + 1) sz) w file of (rc, w, file, nExtra, bSync) \<Rightarrow>
              if rc \<noteq> SQLITE_OK then (rc, w, file)
              else
                let rc = (if bSync then syncRc else SQLITE_OK);
                    w = (if isCommit \<and> truncateOnCommit w \<and> mxWalSize w \<ge> 0 then w\<lparr>truncateOnCommit := False\<rparr> else w)
                in if rc \<noteq> SQLITE_OK then (rc, w, file)
                   else case walFramesIndex (wi w) (qs @ replicate nExtra (fst (last ps))) isCommit of (rc, s) \<Rightarrow>
                     (rc,
                      if rc \<noteq> SQLITE_OK then w\<lparr>wi := s\<rparr>
                      else if isCommit then
                        (walIndexWriteHdr (w\<lparr>wi := s, hdrSzPage := szPageCode sz, nPage := nTruncate, iChange := iChange w + 1\<rparr>))\<lparr>iCallback := mxFrame s\<rparr>
                      else w\<lparr>wi := s, hdrSzPage := szPageCode sz\<rparr>,
                      file))"

subsection \<open>Restarting the log\<close>

text \<open>Whether the cached header differs from the shared one.\<close>

definition hdrChanged :: "wal \<Rightarrow> bool" where
  "hdrChanged w \<longleftrightarrow> mxFrame (wi w) \<noteq> hdrFrame (wi w) \<or> aFrameCksum (wi w) \<noteq> hdrCksum (wi w) \<or> hdr_fields w \<noteq> liveHdr w"

text \<open>The header of an empty log, with the first salt increased and the second one random.\<close>

definition walRestartHdr :: "u8 list \<Rightarrow> wal \<Rightarrow> wal_ckpt_info \<Rightarrow> wal \<times> wal_ckpt_info" where
  "walRestartHdr salt1 w info =
     (let a = (\<lambda>i. aSalt w ! i);
          a = memcpy (put_at (\<lambda>p v. (sqlite3Put4byte p v, 4)) 0 (1 + sqlite3Get4byte a) a) 4 salt1;
          w = walIndexWriteHdr (w\<lparr>wi := (wi w)\<lparr>nCkpt := nCkpt (wi w) + 1, mxFrame := 0\<rparr>, aSalt := map a [0..<8]\<rparr>)
      in (w, info\<lparr>nBackfill := 0, nBackfillAttempted := 0,
               aReadMark := fold (\<lambda>i m. m[i := READMARK_NOT_USED]) [2..<5] ((aReadMark info)[1 := 0])\<rparr>))"

text \<open>
  What the other connections do while a read mark is chosen: the results of the exclusive locks on
  the marks and of the shared lock, and the value that another connection has stored meanwhile in the chosen
  mark, if any.
\<close>

record read_attempt =
  exclRc :: "nat \<Rightarrow> rc"
  sharedRc :: rc
  stored :: "nat option"

definition markScan :: "nat \<Rightarrow> nat list \<Rightarrow> nat \<times> nat" where
  "markScan mx marks =
     fold (\<lambda>i (mark, mxI). if mark \<le> marks ! i \<and> marks ! i \<le> mx then (marks ! i, i) else (mark, mxI)) [1..<5] (0, 0)"

text \<open>Setting a free mark; the last component tells that the routine returns with an error.\<close>

fun markClaim :: "(nat \<Rightarrow> rc) \<Rightarrow> nat \<Rightarrow> nat list \<Rightarrow> nat \<times> nat \<Rightarrow> rc \<Rightarrow> nat list \<Rightarrow> rc \<times> nat list \<times> (nat \<times> nat) \<times> bool" where
  "markClaim lockRc mx marks best rc [] = (rc, marks, best, False)"
| "markClaim lockRc mx marks best rc (i # is) =
     (if lockRc i = SQLITE_OK then (SQLITE_OK, marks[i := mx], (mx, i), False)
      else if lockRc i \<noteq> SQLITE_BUSY then (lockRc i, marks, best, True)
      else markClaim lockRc mx marks best SQLITE_BUSY is)"

text \<open>\<^verbatim>\<open>walTryBeginRead\<close> for a writer (\<^verbatim>\<open>useWal\<close> is set); \<open>None\<close> is the result \<^verbatim>\<open>WAL_RETRY\<close>.\<close>

definition walTryBeginRead :: "read_attempt \<Rightarrow> wal \<Rightarrow> wal_ckpt_info \<Rightarrow> rc option \<times> wal \<times> wal_ckpt_info" where
  "walTryBeginRead a w info =
     (let mx = mxFrame (wi w); (mark, mxI) = markScan mx (aReadMark info);
          (rc, marks, (mark, mxI), failed) =
            (if mark < mx \<or> mxI = 0 then markClaim (exclRc a) mx (aReadMark info) (mark, mxI) SQLITE_OK [1..<5]
             else (SQLITE_OK, aReadMark info, (mark, mxI), False));
          info = info\<lparr>aReadMark := marks\<rparr>
      in if failed then (Some rc, w, info)
         else if mxI = 0 then (None, w, info)
         else if sharedRc a \<noteq> SQLITE_OK then (if sharedRc a = SQLITE_BUSY then None else Some (sharedRc a), w, info)
         else
           let info = (case stored a of None \<Rightarrow> info | Some v \<Rightarrow> info\<lparr>aReadMark := (aReadMark info)[mxI := v]\<rparr>);
               w = w\<lparr>wi := (wi w)\<lparr>minFrame := nBackfill info + 1\<rparr>\<rparr>
           in if aReadMark info ! mxI \<noteq> mark \<or> hdrChanged w then (None, w, info)
              else (Some SQLITE_OK, w\<lparr>wi := (wi w)\<lparr>readLock := int mxI\<rparr>\<rparr>, info))"

text \<open>The loop of attempts, which gives up after \<^verbatim>\<open>WAL_RETRY_PROTOCOL_LIMIT\<close> of them.\<close>

function beginReadLoop :: "(nat \<Rightarrow> read_attempt) \<Rightarrow> nat \<Rightarrow> wal \<Rightarrow> wal_ckpt_info \<Rightarrow> rc \<times> wal \<times> wal_ckpt_info" where
  "beginReadLoop env cnt w info =
     (if cnt + 1 > 100 then (SQLITE_PROTOCOL, w, info)
      else case walTryBeginRead (env (cnt + 1)) w info of
          (None, w, info) \<Rightarrow> beginReadLoop env (cnt + 1) w info
        | (Some rc, w, info) \<Rightarrow> (rc, w, info))"
  by pat_completeness auto
termination
  by (relation "measure (\<lambda>(env, cnt, w, info). 100 - cnt)") auto

declare beginReadLoop.simps [simp del]

text \<open>\<open>lockRc\<close> is the result of the lock on all read marks.\<close>

definition walRestartLog :: "rc \<Rightarrow> u8 list \<Rightarrow> (nat \<Rightarrow> read_attempt) \<Rightarrow> wal \<Rightarrow> wal_ckpt_info \<Rightarrow> rc \<times> wal \<times> wal_ckpt_info" where
  "walRestartLog lockRc salt1 env w info =
     (if readLock (wi w) = 0 then
        if nBackfill info > 0 \<and> lockRc \<noteq> SQLITE_OK \<and> lockRc \<noteq> SQLITE_BUSY then (lockRc, w, info)
        else
          let (w, info) = (if nBackfill info > 0 \<and> lockRc = SQLITE_OK then walRestartHdr salt1 w info else (w, info))
          in beginReadLoop env 0 (w\<lparr>wi := (wi w)\<lparr>readLock := - 1\<rparr>\<rparr>) info
      else (SQLITE_OK, w, info))"

definition walFrames ::
  "bool \<Rightarrow> rc \<Rightarrow> u8 list \<Rightarrow> (nat \<Rightarrow> read_attempt) \<Rightarrow> (nat \<Rightarrow> rc) \<Rightarrow> (nat \<Rightarrow> rc) \<Rightarrow> rc \<Rightarrow> rc \<Rightarrow> mallocs \<Rightarrow> u8 list \<Rightarrow> nat \<Rightarrow> (u32 \<times> u8 list) list \<Rightarrow> u32 \<Rightarrow> bool \<Rightarrow> bool \<Rightarrow> nat option \<Rightarrow>
   wal \<Rightarrow> wal_ckpt_info \<Rightarrow> mem \<Rightarrow> rc \<times> wal \<times> wal_ckpt_info \<times> mem" where
  "walFrames be lockRc salt1 env readRc writeRc hdrSync syncRc ms rnd sz ps nTruncate isCommit doSync sector w info file =
     (let iFirst = (if hdrChanged w then hdrFrame (wi w) + 1 else 0) in
      case walRestartLog lockRc salt1 env w info of (rc, w, info) \<Rightarrow>
        if rc \<noteq> SQLITE_OK then (rc, w, info, file)
        else case walFramesWrite be readRc writeRc hdrSync syncRc ms rnd sz ps nTruncate isCommit doSync sector iFirst w file of (rc, w, file) \<Rightarrow>
          (rc, w, info, file))"

text \<open>A rollback restores the whole cached header from the shared one.\<close>

definition walUndo :: "(u32 \<Rightarrow> 'c \<Rightarrow> rc \<times> 'c) \<Rightarrow> wal \<Rightarrow> 'c \<Rightarrow> rc \<times> wal \<times> 'c" where
  "walUndo xUndo w c =
     (case sqlite3WalUndo xUndo (wi w) c of (rc, s, c) \<Rightarrow>
        case liveHdr w of (salt, big, n, sz, ch) \<Rightarrow>
          (rc, w\<lparr>wi := s, aSalt := salt, bigEndCksum := big, nPage := n, hdrSzPage := sz, iChange := ch\<rparr>, c))"

text \<open>Reading the page in a frame into a buffer of \<open>nOut\<close> bytes.\<close>

definition sqlite3WalReadFrame :: "(nat \<Rightarrow> rc) \<Rightarrow> wal \<Rightarrow> nat \<Rightarrow> nat \<Rightarrow> mem \<Rightarrow> rc \<times> u8 list" where
  "sqlite3WalReadFrame readRc w iRead nOut file =
     (let sz = szPageDecode (hdrSzPage w); iOffset = walFrameOffset iRead sz + WAL_FRAME_HDRSIZE in
      if readRc iOffset = SQLITE_OK then (SQLITE_OK, map (ptr file iOffset) [0..<if nOut > sz then sz else nOut]) else (readRc iOffset, []))"

subsection \<open>Rewriting checksums\<close>

text \<open>The page image in a frame.\<close>

definition frame_data :: "mem \<Rightarrow> nat \<Rightarrow> nat \<Rightarrow> u8 list" where
  "frame_data f sz i = map (ptr f (walFrameOffset i sz + WAL_FRAME_HDRSIZE)) [0..<sz]"

lemma frame_data_cong:
  "(\<And>j. j < sz \<Longrightarrow> g (walFrameOffset i sz + WAL_FRAME_HDRSIZE + j) = f (walFrameOffset i sz + WAL_FRAME_HDRSIZE + j)) \<Longrightarrow>
   frame_data g sz i = frame_data f sz i"
  by (simp add: frame_data_def ptr_apply)

text \<open>Writing a header leaves the images alone.\<close>

lemma frame_data_header:
  assumes "length bs = WAL_FRAME_HDRSIZE" "0 < i" "0 < k"
  shows "frame_data (memcpy f (walFrameOffset k sz) bs) sz i = frame_data f sz i"
proof (rule frame_data_cong)
  fix j assume j: "j < sz"
  have "walFrameOffset i sz + WAL_FRAME_HDRSIZE + sz \<le> walFrameOffset k sz" if "i < k" using that assms by (intro walFrameOffset_mono)
  moreover have "walFrameOffset k sz + WAL_FRAME_HDRSIZE + sz \<le> walFrameOffset i sz" if "k < i" using that assms by (intro walFrameOffset_mono)
  ultimately show "memcpy f (walFrameOffset k sz) bs (walFrameOffset i sz + WAL_FRAME_HDRSIZE + j) = f (walFrameOffset i sz + WAL_FRAME_HDRSIZE + j)"
    using j assms(1) by (intro memcpy_outside) (cases i k rule: linorder_cases; simp)
qed

lemma rewriteLoop_ok:
  "log_ok (bigEndCksum w) (aSalt w) (szPage w) c f L N m \<Longrightarrow> length (aSalt w) = 8 \<Longrightarrow> iReCksum (wi w) = 0 \<Longrightarrow>
   aFrameCksum (wi w) = log_end c (valid_log (bigEndCksum w) (aSalt w) (szPage w) f c 1 m) \<Longrightarrow>
   rewriteLoop be readRc writeRc [Suc m..<Suc (length L)] w f = (SQLITE_OK, w', f') \<Longrightarrow>
   log_state c w' f' L N \<and> (\<exists>c'. w' = set_cksum c' w) \<and> (\<forall>j < walFrameOffset (Suc m) (szPage w). f' j = f j) \<and>
   (\<forall>i > 0. frame_data f' (szPage w) i = frame_data f (szPage w) i)"
proof (induction "length L - m" arbitrary: m w f)
  case 0
  then have m: "m = length L" by (simp add: log_ok_def)
  then have eq: "w' = w" "f' = f" using 0 by simp_all
  have "\<exists>c'. w' = set_cksum c' w" unfolding eq(1) by (rule set_cksum_ex)
  with 0 show ?case by (simp add: m log_state_def eq)
next
  case (Suc x)
  then have m: "m < length L" by simp
  then have l: "[Suc m..<Suc (length L)] = Suc m # [Suc (Suc m)..<Suc (length L)]" by (simp add: upt_rec)
  let ?o = "walFrameOffset (Suc m) (szPage w)"
  obtain w1 g where e: "walEncodeFrame be w (sqlite3Get4byte (ptr f ?o)) (sqlite3Get4byte (ptr (ptr f ?o) 4)) (ptr (ptr f ?o) WAL_FRAME_HDRSIZE) (\<lambda>_. 0) = (w1, g)"
    by fastforce
  let ?f = "memcpy f ?o (map g [0..<WAL_FRAME_HDRSIZE])"
  have rest: "rewriteLoop be readRc writeRc [Suc (Suc m)..<Suc (length L)] w1 ?f = (SQLITE_OK, w', f')"
    using Suc.prems(5) unfolding l rewriteLoop.simps Let_def e by (auto simp: osWrite_def split: if_splits)
  note st = rewrite_step [OF Suc.prems(1) m Suc.prems(2,3,4) e]
  from st(2) obtain c1 where c1: "w1 = set_cksum c1 w"
    "c1 = log_end c (valid_log (bigEndCksum w) (aSalt w) (szPage w) ?f c 1 (Suc m))" by blast
  have w1: "bigEndCksum w1 = bigEndCksum w" "aSalt w1 = aSalt w" "szPage w1 = szPage w" "iReCksum (wi w1) = 0"
    using Suc.prems(3) by (simp_all add: c1(1) set_cksum_def)
  have x: "x = length L - Suc m" using Suc(2) by simp
  have ck: "aFrameCksum (wi w1) = log_end c (valid_log (bigEndCksum w) (aSalt w) (szPage w) ?f c 1 (Suc m))"
    unfolding c1(2) [symmetric] by (simp add: c1(1) set_cksum_def)
  have ih: "log_state c w' f' L N \<and> (\<exists>c'. w' = set_cksum c' w1) \<and> (\<forall>j < walFrameOffset (Suc (Suc m)) (szPage w). f' j = ?f j) \<and>
    (\<forall>i > 0. frame_data f' (szPage w) i = frame_data ?f (szPage w) i)"
    using Suc(1) [OF x, of w1 ?f, unfolded w1, OF st(1) Suc.prems(2) refl ck rest] .
  have "?f j = f j" if "j < ?o" for j using that by (intro memcpy_outside) simp
  moreover have "?o \<le> walFrameOffset (Suc (Suc m)) (szPage w)" by (simp add: frame_span)
  moreover have "frame_data ?f (szPage w) i = frame_data f (szPage w) i" if "0 < i" for i
    using that by (intro frame_data_header) (simp_all del: upt_rec_numeral)
  ultimately show ?case using ih c1(1) by (auto simp: set_cksum_def)
qed

lemma frame_in_cksum:
  "frame_in big salt sz c f i = Some (p, n, c') \<Longrightarrow>
   c' = (sqlite3Get4byte (ptr f (walFrameOffset i sz + 16)), sqlite3Get4byte (ptr f (walFrameOffset i sz + 20)))"
  by (auto simp: frame_at_def Let_def split: if_splits)

lemma log_end_stored:
  assumes "length (valid_log big salt sz f c 1 m) = m" "0 < m"
  shows "log_end c (valid_log big salt sz f c 1 m) =
    (sqlite3Get4byte (ptr f (walFrameOffset m sz + 16)), sqlite3Get4byte (ptr f (walFrameOffset m sz + 20)))"
proof -
  obtain k where k: "m = k + 1" using assms(2) by (cases m) auto
  let ?V = "valid_log big salt sz f c 1 k"
  have "k \<le> m" by (simp add: k)
  from valid_log_prefix [OF assms(1) this] have len: "length ?V = k" by (rule conjunct1)
  have V: "valid_log big salt sz f c 1 (k + 1) = ?V @ valid_log big salt sz f (log_end c ?V) (1 + k) 1"
    by (simp only: valid_log_add Let_def len simp_thms if_True)
  have "length (valid_log big salt sz f (log_end c ?V) (1 + k) 1) = 1"
    using assms(1) unfolding k V length_append len by simp
  then obtain fr where fr: "frame_in big salt sz (log_end c ?V) f (1 + k) = Some fr" by (auto split: option.splits)
  obtain p n c' where "fr = (p, n, c')" by (cases fr) auto
  with fr frame_in_cksum [of big salt sz "log_end c ?V" f "1 + k" p n c'] show ?thesis unfolding k V by (simp add: log_end_def)
qed

lemma walRewriteChecksums_ok:
  assumes st: "log_state c w f L N" "iReCksum (wi w) \<noteq> 0" and c: "c = log_start f"
    and r: "walRewriteChecksums be readRc writeRc ms (length L) w f = (SQLITE_OK, w', f')"
  shows "log_state c w' f' L N \<and> (\<exists>c'. w' = set_cksum c' (w\<lparr>wi := (wi w)\<lparr>iReCksum := 0\<rparr>\<rparr>)) \<and>
   (\<forall>j < walFrameOffset (iReCksum (wi w)) (szPage w). f' j = f j) \<and> (\<forall>i > 0. frame_data f' (szPage w) i = frame_data f (szPage w) i)"
proof -
  obtain m where m: "iReCksum (wi w) = Suc m" using st(2) by (cases "iReCksum (wi w)") auto
  have ok: "log_ok (bigEndCksum w) (aSalt w) (szPage w) c f L N m" "length (aSalt w) = 8"
    using st(1) by (simp_all add: log_state_def m)
  let ?o = "if Suc m = 1 then 24 else walFrameOffset m (szPage w) + 16"
  let ?c = "(sqlite3Get4byte (ptr f ?o), sqlite3Get4byte (ptr f (?o + 4)))"
  let ?w = "w\<lparr>wi := (wi w)\<lparr>aFrameCksum := ?c, iReCksum := 0\<rparr>\<rparr>"
  have "length (valid_log (bigEndCksum w) (aSalt w) (szPage w) f c 1 m) = m" using ok(1) by (simp add: log_ok_def)
  then have ck: "aFrameCksum (wi ?w) = log_end c (valid_log (bigEndCksum w) (aSalt w) (szPage w) f c 1 m)"
    using log_end_stored [of "bigEndCksum w" "aSalt w" "szPage w" f c m] by (cases m) (simp_all add: c log_end_def add.assoc)
  have "rewriteLoop be readRc writeRc [Suc m..<Suc (length L)] ?w f = (SQLITE_OK, w', f')"
    using r unfolding walRewriteChecksums_def Let_def m by (auto split: if_splits simp del: upt_Suc)
  from rewriteLoop_ok [of ?w c f L N m, OF _ _ _ _ this] ok ck
  have *: "log_state c w' f' L N \<and> (\<exists>c'. w' = set_cksum c' ?w) \<and> (\<forall>j < walFrameOffset (Suc m) (szPage w). f' j = f j) \<and>
   (\<forall>i > 0. frame_data f' (szPage w) i = frame_data f (szPage w) i)" by simp
  then obtain c' where "w' = set_cksum c' ?w" by blast
  then have "w' = set_cksum c' (w\<lparr>wi := (wi w)\<lparr>iReCksum := 0\<rparr>\<rparr>)" by (simp add: set_cksum_def)
  with * show ?thesis unfolding m by blast
qed

subsection \<open>The database in a log\<close>

text \<open>The pages that a log of frames for \<open>L\<close> holds, each with the image in its latest frame.\<close>

definition wal_db :: "mem \<Rightarrow> nat \<Rightarrow> u32 list \<Rightarrow> u32 \<Rightarrow> u8 list option" where
  "wal_db f sz L p =
     (let i = latest_frame L 1 p (length L) in if i = 0 then None else Some (frame_data f sz i))"

lemma latest_frame_le: "latest_frame L lo p n \<le> n"
  by (induction n) auto

lemma latest_frame_lo: "latest_frame L lo p n \<noteq> 0 \<Longrightarrow> latest_frame L 1 p n = latest_frame L lo p n"
  by (induction n) (auto split: if_splits)

lemma latest_frame_page: "latest_frame L lo p n \<noteq> 0 \<Longrightarrow> L ! (latest_frame L lo p n - 1) = p"
  by (induction n) (auto split: if_splits)

lemma latest_frame_snoc:
  "latest_frame (L @ [p]) 1 q (length (L @ [p])) = (if q = p then Suc (length L) else latest_frame L 1 q (length L))"
  using latest_frame_cong [of "length L" "L @ [p]" L 1 q] by (auto simp: nth_append)

lemma wal_db_overwrite:
  assumes i: "i = latest_frame L 1 p (length L)" "i \<noteq> 0" and d: "length d = sz"
  shows "wal_db (memcpy f (walFrameOffset i sz + WAL_FRAME_HDRSIZE) d) sz L = (wal_db f sz L)(p \<mapsto> d)"
proof (rule ext)
  fix q
  let ?g = "memcpy f (walFrameOffset i sz + WAL_FRAME_HDRSIZE) d" and ?k = "latest_frame L 1 q (length L)"
  have own: "frame_data ?g sz i = d"
    using d by (intro nth_equalityI) (simp_all add: frame_data_def ptr_apply memcpy_def)
  have other: "frame_data ?g sz k = frame_data f sz k" if "k \<noteq> i" "0 < k" for k
  proof (rule frame_data_cong)
    fix j assume "j < sz"
    then show "?g (walFrameOffset k sz + WAL_FRAME_HDRSIZE + j) = f (walFrameOffset k sz + WAL_FRAME_HDRSIZE + j)"
      using that i(2) d walFrameOffset_mono [of i k sz] walFrameOffset_mono [of k i sz]
      by (intro memcpy_outside) (cases i k rule: linorder_cases; simp)
  qed
  have "?k \<noteq> i" if "q \<noteq> p"
    using that latest_frame_page [of L 1 p "length L"] latest_frame_page [of L 1 q "length L"] i by metis
  then show "wal_db ?g sz L q = ((wal_db f sz L)(p \<mapsto> d)) q"
    using own other [of ?k] i by (auto simp: wal_db_def Let_def)
qed

lemma wal_db_append:
  assumes own: "frame_data g sz (Suc (length L)) = d" and low: "\<And>j. j < walFrameOffset (Suc (length L)) sz \<Longrightarrow> g j = f j"
  shows "wal_db g sz (L @ [p]) = (wal_db f sz L)(p \<mapsto> d)"
proof (rule ext)
  fix q
  have "frame_data g sz i = frame_data f sz i" if "0 < i" "i \<le> length L" for i
    using low walFrameOffset_mono [of i "Suc (length L)" sz] that by (intro frame_data_cong) simp
  from this [of "latest_frame L 1 q (length L)"] own latest_frame_le [of L 1 q "length L"]
  show "wal_db g sz (L @ [p]) q = ((wal_db f sz L)(p \<mapsto> d)) q"
    unfolding wal_db_def Let_def latest_frame_snoc by auto
qed

lemma map_add_Cons: "p \<notin> dom (map_of ps) \<Longrightarrow> m(p \<mapsto> d) ++ map_of ps = m ++ map_of ((p, d) # ps)"
  by (auto simp: map_add_def fun_eq_iff dom_def split: option.splits)

text \<open>The loop over the dirty pages updates the database in the log by these pages.\<close>

lemma framesLoop_db:
  "length (aSalt w) = 8 \<Longrightarrow> list_all (\<lambda>(p, d). p \<noteq> 0 \<and> length d = szPage w) ps \<Longrightarrow> distinct (map fst ps) \<Longrightarrow>
   \<forall>p \<in> fst ` set ps. snd (walFindFrame (wi w) p) \<noteq> 0 \<longrightarrow> snd (walFindFrame (wi w) p) = latest_frame L 1 p (length L) \<Longrightarrow>
   framesLoop be writeRc syncRc isCommit nTruncate iFirst ps (length L) w f = (SQLITE_OK, w', f', n, qs) \<Longrightarrow>
   wal_db f' (szPage w) (L @ qs) = wal_db f (szPage w) L ++ map_of ps"
proof (induction ps arbitrary: w f L w' f' n qs)
  case (Cons x ps)
  obtain p d where x: "x = (p, d)" by fastforce
  let ?i = "snd (walFindFrame (wi w) p)"
  have px: "p \<noteq> 0" "length d = szPage w" "p \<notin> dom (map_of ps)" "distinct (map fst ps)"
    and pps: "list_all (\<lambda>(p, d). p \<noteq> 0 \<and> length d = szPage w) ps"
    using Cons.prems(2,3) by (auto simp: x dom_map_of_conv_image_fst)
  show ?case
  proof (cases "iFirst \<noteq> 0 \<and> (ps \<noteq> [] \<or> \<not> isCommit) \<and> ?i \<ge> iFirst")
    case True
    let ?w = "if iReCksum (wi w) = 0 \<or> ?i < iReCksum (wi w) then w\<lparr>wi := (wi w)\<lparr>iReCksum := ?i\<rparr>\<rparr> else w"
    let ?f = "memcpy f (walFrameOffset ?i (szPage w) + WAL_FRAME_HDRSIZE) d"
    have rest: "framesLoop be writeRc syncRc isCommit nTruncate iFirst ps (length L) ?w ?f = (SQLITE_OK, w', f', n, qs)"
      using Cons.prems(5) True unfolding x framesLoop.simps Let_def
      by (auto simp: osWrite_def split: if_splits)
    have w: "aSalt ?w = aSalt w" "szPage ?w = szPage w" "walFindFrame (wi ?w) = walFindFrame (wi w)" by (simp_all add: walFindFrame_cksum)
    have "?i = latest_frame L 1 p (length L)" "?i \<noteq> 0" using Cons.prems(4) True by (auto simp: x)
    note db = wal_db_overwrite [OF this px(2), of f]
    have "wal_db f' (szPage w) (L @ qs) = (wal_db f (szPage w) L)(p \<mapsto> d) ++ map_of ps"
      unfolding db [symmetric] by (rule Cons.IH [of ?w, unfolded w, OF Cons.prems(1) pps px(4) _ rest]) (use Cons.prems(4) in simp)
    with map_add_Cons [OF px(3)] show ?thesis by (simp only: x)
  next
    case False
    let ?k = "if isCommit \<and> ps = [] then nTruncate else 0"
    obtain w1 f1 qs1 where wr: "walWriteOneFrame be writeRc syncRc 0 p d ?k (walFrameOffset (Suc (length L)) (szPage w)) w f = (SQLITE_OK, w1, f1)"
      and rest: "framesLoop be writeRc syncRc isCommit nTruncate iFirst ps (length (L @ [p])) w1 f1 = (SQLITE_OK, w', f', n, qs1)"
      and qs: "qs = p # qs1"
      using Cons.prems(5) False unfolding x framesLoop.simps Let_def by (auto split: if_splits prod.splits)
    note W = WriteOneFrame_ok [OF wr px(2) Cons.prems(1) px(1)]
    have "\<exists>c'. w1 = set_cksum c' w" using W(4,5) set_cksum_same [of w] by metis
    then have w: "aSalt w1 = aSalt w" "szPage w1 = szPage w" "walFindFrame (wi w1) = walFindFrame (wi w)"
      by (auto simp: set_cksum_def walFindFrame_cksum)
    have "frame_data f1 (szPage w) (Suc (length L)) = d"
      using W(6) px(2) by (intro nth_equalityI) (simp_all add: frame_data_def)
    then have db: "wal_db f1 (szPage w) (L @ [p]) = (wal_db f (szPage w) L)(p \<mapsto> d)"
      by (rule wal_db_append) (use W(1) in simp)
    have "latest_frame (L @ [p]) 1 q (length (L @ [p])) = latest_frame L 1 q (length L)" if "q \<in> fst ` set ps" for q
      using that px(3) unfolding latest_frame_snoc dom_map_of_conv_image_fst by auto
    then have F: "\<forall>q \<in> fst ` set ps. snd (walFindFrame (wi w) q) \<noteq> 0 \<longrightarrow> snd (walFindFrame (wi w) q) = latest_frame (L @ [p]) 1 q (length (L @ [p]))"
      using Cons.prems(4) by (simp add: x del: latest_frame.simps length_append)
    have "wal_db f' (szPage w) ((L @ [p]) @ qs1) = (wal_db f (szPage w) L)(p \<mapsto> d) ++ map_of ps"
      unfolding db [symmetric] by (rule Cons.IH [of w1, unfolded w, OF Cons.prems(1) pps px(4) F rest])
    with map_add_Cons [OF px(3)] show ?thesis by (simp only: x qs append.assoc append_Cons append_Nil)
  qed
qed simp

subsection \<open>A writer and its log\<close>

text \<open>
  A connection that holds the write lock, and the file: the frames up to \<open>mxFrame\<close> are those of \<open>L\<close>,
  with the commit sizes \<open>N\<close>, the index finds them, and their checksums are right up to the first
  overwritten frame.
\<close>

definition log_fields :: "wal \<Rightarrow> mem \<Rightarrow> bool" where
  "log_fields w f \<longleftrightarrow> header_ok f \<and> log_big f = bigEndCksum w \<and> log_sz f = szPage w \<and> log_salt f = aSalt w"

definition log_ready :: "wal \<Rightarrow> mem \<Rightarrow> u32 list \<Rightarrow> u32 list \<Rightarrow> bool" where
  "log_ready w f L N \<longleftrightarrow>
     mxFrame (wi w) = length L \<and> (\<exists>M. index_ok (wi w) (L @ M)) \<and> (\<forall>h. shmRc (wi w) h = SQLITE_OK) \<and> length (aSalt w) = 8 \<and>
     (if L = [] then iReCksum (wi w) = 0 \<and> N = [] else log_fields w f \<and> log_state (log_start f) w f L N)"

definition wal_ready :: "wal \<Rightarrow> mem \<Rightarrow> u32 list \<Rightarrow> u32 list \<Rightarrow> bool" where
  "wal_ready w f L N \<longleftrightarrow> log_ready w f L N \<and> readLock (wi w) \<noteq> 0 \<and> minFrame (wi w) < 2 ^ 32 - 33"

lemma log_fields_local: "(\<And>j. j < 32 \<Longrightarrow> g j = f j) \<Longrightarrow> log_fields w g = log_fields w f"
proof -
  assume eq: "\<And>j. j < 32 \<Longrightarrow> g j = f j"
  have "sqlite3Get4byte (ptr g k) = sqlite3Get4byte (ptr f k)" if "k \<le> 28" for k
    by (rule Get4byte_local) (use that eq in \<open>simp add: ptr_apply\<close>)
  note E = this [of 0, unfolded ptr_0] this [of 4] this [of 8] this [of 24] this [of 28] cksum_local [of 24 g f, OF eq]
  have "log_salt g = log_salt f" by (rule map_cong [OF refl]) (use eq in \<open>simp del: upt_rec_numeral\<close>)
  with E show "log_fields w g = log_fields w f" by (simp add: log_fields_def header_ok_def del: upt_rec_numeral map_eq_conv)
qed

lemma log_start_local: "(\<And>j. j < 32 \<Longrightarrow> g j = f j) \<Longrightarrow> log_start g = log_start f"
  by (auto intro!: Get4byte_local simp: ptr_apply)

text \<open>After the header is written, when the log is new, the writer is at the end of its log.\<close>

lemma walFramesHeader_ok:
  assumes "wal_ready w f L N" "sz AND (sz - 1) = 0" "512 \<le> sz" "sz \<le> 65536" "length rnd = 8"
    and "walFramesHeader be writeRc hdrSync rnd sz w f = (SQLITE_OK, w', f')"
  shows "log_fields w' f'" "log_state (log_start f') w' f' L N" "wal_db f' (szPage w') L = wal_db f (szPage w') L"
    "\<exists>c. wi w' = (wi w)\<lparr>aFrameCksum := c\<rparr>" "length (aSalt w') = 8"
proof -
  have "log_fields w' f' \<and> log_state (log_start f') w' f' L N \<and> wal_db f' (szPage w') L = wal_db f (szPage w') L \<and>
    (\<exists>c. wi w' = (wi w)\<lparr>aFrameCksum := c\<rparr>) \<and> length (aSalt w') = 8"
  proof (cases "L = []")
    case True
    obtain h where h: "walHeader be sz rnd w = (w', h)" and f': "f' = memcpy f 0 (map h [0..<WAL_HDRSIZE])"
      using assms(1,6) True by (auto simp: walFramesHeader_def wal_ready_def log_ready_def osWrite_def split: prod.splits if_splits simp del: upt_rec_numeral)
    have low: "f' j = h j" if "j < 32" for j using that by (simp add: f' memcpy_def del: upt_rec_numeral)
    have s8: "length (aSalt w) = 8" and r0: "iReCksum (wi w) = 0" "N = []" using assms(1) True by (auto simp: wal_ready_def log_ready_def)
    note H = walHeader_ok [OF h assms(2,3,4,5) s8, of f', OF low]
    have "log_fields w' f'" using H by (simp add: log_fields_def)
    moreover have "log_state (log_start f') w' f' [] []"
      using H(5,8,9) r0 by (auto simp: log_state_def log_ok_def log_end_def)
    ultimately show ?thesis using H(8,9) r0 True by (simp add: wal_db_def fun_eq_iff)
  next
    case False
    then have "w' = w" "f' = f" using assms(1,6) by (auto simp: walFramesHeader_def wal_ready_def log_ready_def)
    moreover have "\<exists>c. wi w = (wi w)\<lparr>aFrameCksum := c\<rparr>" by (rule exI [of _ "aFrameCksum (wi w)"]) simp
    ultimately show ?thesis using False assms(1) by (simp add: wal_ready_def log_ready_def)
  qed
  then show "log_fields w' f'" "log_state (log_start f') w' f' L N" "wal_db f' (szPage w') L = wal_db f (szPage w') L"
    "\<exists>c. wi w' = (wi w)\<lparr>aFrameCksum := c\<rparr>" "length (aSalt w') = 8" by blast+
qed

lemma walFramesIndex_ok:
  assumes "index_ok s (L @ M)" "mxFrame s = length L" "length L + length qs < 2 ^ 32 - 34" "0 \<notin> set qs" "\<forall>h. shmRc s h = SQLITE_OK"
    and "walFramesIndex s qs isCommit = (rc, s')"
  shows "rc = SQLITE_OK" "mxFrame s' = length (L @ qs)" "\<exists>M'. index_ok s' ((L @ qs) @ M')"
    "shmRc s' = shmRc s" "readLock s' = readLock s" "minFrame s' = minFrame s" "aFrameCksum s' = aFrameCksum s" "iReCksum s' = iReCksum s"
proof -
  obtain t where t: "appendLoop s (length L) qs = (SQLITE_OK, s\<lparr>apWiData := t\<rparr>, length L + length qs)"
    "qs \<noteq> [] \<longrightarrow> index_ok (s\<lparr>apWiData := t\<rparr>) (L @ qs)" "qs = [] \<longrightarrow> t = apWiData s"
    using appendLoop_ok [OF assms(1), of "length L" qs] assms(2-5) by auto
  have "\<exists>M'. index_ok (s\<lparr>apWiData := t\<rparr>) ((L @ qs) @ M')"
  proof (cases "qs = []")
    case True
    with t(3) assms(1) show ?thesis by auto
  next
    case False
    with t(2) show ?thesis by (intro exI [of _ "[]"]) simp
  qed
  then show "\<exists>M'. index_ok s' ((L @ qs) @ M')"
    using assms(2,6) t(1) by (auto simp: walFramesIndex_def index_ok_def split: if_splits)
  show "rc = SQLITE_OK" "mxFrame s' = length (L @ qs)" "shmRc s' = shmRc s" "readLock s' = readLock s" "minFrame s' = minFrame s"
    "aFrameCksum s' = aFrameCksum s" "iReCksum s' = iReCksum s"
    using assms(2,6) t(1) by (auto simp: walFramesIndex_def split: if_splits)
qed

lemma walFramesIndex_published:
  "walFramesIndex s qs isCommit = (SQLITE_OK, s') \<Longrightarrow> isCommit \<Longrightarrow> s'\<lparr>hdrFrame := mxFrame s', hdrCksum := aFrameCksum s'\<rparr> = s'"
  by (auto simp: walFramesIndex_def split: prod.splits if_splits)

lemma wal_ready_find:
  assumes "wal_ready w f L N"
  shows "walFindFrame (wi w) p = (SQLITE_OK, latest_frame L (minFrame (wi w)) p (length L))"
proof -
  obtain M where "index_ok (wi w) (L @ M)" using assms by (auto simp: wal_ready_def log_ready_def)
  then have "walFindFrame (wi w) p = (SQLITE_OK, latest_frame (L @ M) (minFrame (wi w)) p (length L))"
    using walFindFrame_latest [of "wi w" "L @ M" p] assms by (simp add: wal_ready_def log_ready_def)
  also have "latest_frame (L @ M) (minFrame (wi w)) p (length L) = latest_frame L (minFrame (wi w)) p (length L)"
    by (rule latest_frame_cong) (simp add: nth_append)
  finally show ?thesis .
qed

lemma wal_db_data: "\<forall>i > 0. frame_data g sz i = frame_data f sz i \<Longrightarrow> wal_db g sz L = wal_db f sz L"
  by (auto simp: wal_db_def fun_eq_iff Let_def)

lemma walFramesCksum_ok:
  assumes st: "log_state c w f L N" and c: "c = log_start f"
    and r: "walFramesCksum be readRc writeRc ms isCommit (length L) w f = (SQLITE_OK, w', f')"
  shows "log_state c w' f' L N" "same_writer w w'" "isCommit \<Longrightarrow> iReCksum (wi w') = 0" "\<And>j. j < 32 \<Longrightarrow> f' j = f j"
    "wal_db f' (szPage w) M = wal_db f (szPage w) M"
proof -
  have "log_state c w' f' L N \<and> same_writer w w' \<and> (isCommit \<longrightarrow> iReCksum (wi w') = 0) \<and> (\<forall>j < 32. f' j = f j) \<and> wal_db f' (szPage w) M = wal_db f (szPage w) M"
  proof (cases "isCommit \<and> iReCksum (wi w) \<noteq> 0")
    case True
    then have "walRewriteChecksums be readRc writeRc ms (length L) w f = (SQLITE_OK, w', f')" using r by (simp add: walFramesCksum_def)
    from walRewriteChecksums_ok [OF st _ c this] True obtain c'
      where "log_state c w' f' L N" "w' = set_cksum c' (w\<lparr>wi := (wi w)\<lparr>iReCksum := 0\<rparr>\<rparr>)"
        "\<forall>j < walFrameOffset (iReCksum (wi w)) (szPage w). f' j = f j" "\<forall>i > 0. frame_data f' (szPage w) i = frame_data f (szPage w) i" by blast
    then show ?thesis
      using frame_pos [of "iReCksum (wi w)" "szPage w"] wal_db_data [of f' "szPage w" f] same_writer_trans [OF same_writer_cksum(2) same_writer_cksum(1)]
      by (auto simp: set_cksum_def)
  next
    case False
    with r st show ?thesis by (auto simp: walFramesCksum_def same_writer_refl)
  qed
  then show "log_state c w' f' L N" "same_writer w w'" "isCommit \<Longrightarrow> iReCksum (wi w') = 0" "\<And>j. j < 32 \<Longrightarrow> f' j = f j"
    "wal_db f' (szPage w) M = wal_db f (szPage w) M" by blast+
qed

lemma framesLoop_overwrite:
  assumes "iFirst \<noteq> 0 \<and> (ps \<noteq> [] \<or> \<not> isCommit) \<and> snd (walFindFrame (wi w) p) \<ge> iFirst"
  defines "i \<equiv> snd (walFindFrame (wi w) p)"
  defines "w1 \<equiv> if iReCksum (wi w) = 0 \<or> i < iReCksum (wi w) then w\<lparr>wi := (wi w)\<lparr>iReCksum := i\<rparr>\<rparr> else w"
  shows "framesLoop be writeRc syncRc isCommit nTruncate iFirst ((p, d) # ps) iFrame w f =
    (case osWrite writeRc d (walFrameOffset i (szPage w) + WAL_FRAME_HDRSIZE) f of (rc, f1) \<Rightarrow>
       if rc \<noteq> SQLITE_OK then (rc, w1, f1, iFrame, [])
       else framesLoop be writeRc syncRc isCommit nTruncate iFirst ps iFrame w1 f1)"
  using assms(1) unfolding i_def w1_def by (simp add: Let_def)

lemma framesLoop_append:
  assumes "\<not> (iFirst \<noteq> 0 \<and> (ps \<noteq> [] \<or> \<not> isCommit) \<and> snd (walFindFrame (wi w) p) \<ge> iFirst)"
  shows "framesLoop be writeRc syncRc isCommit nTruncate iFirst ((p, d) # ps) iFrame w f =
    (case walWriteOneFrame be writeRc syncRc 0 p d (if isCommit \<and> ps = [] then nTruncate else 0) (walFrameOffset (iFrame + 1) (szPage w)) w f of (rc, w1, f1) \<Rightarrow>
       if rc \<noteq> SQLITE_OK then (rc, w1, f1, iFrame + 1, [])
       else case framesLoop be writeRc syncRc isCommit nTruncate iFirst ps (iFrame + 1) w1 f1 of (rc, w, file, n, qs) \<Rightarrow> (rc, w, file, n, p # qs))"
proof -
  have "\<not> (iFirst \<noteq> 0 \<and> (ps \<noteq> [] \<or> \<not> isCommit) \<and> iFirst \<le> (if iFirst \<noteq> 0 \<and> (ps \<noteq> [] \<or> \<not> isCommit) then snd (walFindFrame (wi w) p) else 0))"
    using assms by auto
  then show ?thesis unfolding framesLoop.simps Let_def by (rule if_not_P)
qed

lemma framesLoop_len:
  "framesLoop be writeRc syncRc isCommit nTruncate iFirst ps iFrame w f = (rc, w', f', n, qs) \<Longrightarrow> length qs \<le> length ps"
proof (induction ps arbitrary: iFrame w f qs isCommit iFirst)
  case (Cons x ps)
  show ?case using Cons.prems by (cases x) (auto simp: Let_def le_SucI dest: Cons.IH split: if_splits prod.splits)
qed simp

text \<open>The frames that pad a commit repeat its last page.\<close>

lemma padLoop_ok:
  "log_state c w f L N \<Longrightarrow> length d = szPage w \<Longrightarrow> p \<noteq> 0 \<Longrightarrow> wal_db f (szPage w) L p = Some d \<Longrightarrow>
   padLoop be writeRc syncRc sp p d nT (walFrameOffset (Suc (length L)) (szPage w)) w f = (SQLITE_OK, w', f', n) \<Longrightarrow>
   log_state c w' f' (L @ replicate n p) (N @ replicate n nT) \<and> (\<exists>c'. w' = set_cksum c' w) \<and> (\<forall>j < 32. f' j = f j) \<and>
   wal_db f' (szPage w) (L @ replicate n p) = wal_db f (szPage w) L"
proof (induction n arbitrary: w f L N)
  case 0
  then have "w' = w" "f' = f" by (simp_all add: padLoop.simps split: if_splits prod.splits)
  with 0(1) show ?case using set_cksum_ex [of w] by simp
next
  case (Suc n)
  let ?o = "walFrameOffset (Suc (length L)) (szPage w)"
  obtain w1 f1 where wr: "walWriteOneFrame be writeRc syncRc sp p d nT ?o w f = (SQLITE_OK, w1, f1)"
    and rest: "padLoop be writeRc syncRc sp p d nT (?o + WAL_FRAME_HDRSIZE + szPage w) w1 f1 = (SQLITE_OK, w', f', n)"
    using Suc.prems(5) by (subst (asm) padLoop.simps) (auto split: if_splits prod.splits)
  note st = log_state_append [OF Suc.prems(1) wr Suc.prems(2,3)]
  have s8: "length (aSalt w) = 8" using Suc.prems(1) by (simp add: log_state_def)
  note W = WriteOneFrame_ok [OF wr Suc.prems(2) s8 Suc.prems(3)]
  have sz: "szPage w1 = szPage w" using st(3) by (auto simp: set_cksum_def)
  have "frame_data f1 (szPage w) (Suc (length L)) = d"
    using W(6) Suc.prems(2) by (intro nth_equalityI) (simp_all add: frame_data_def)
  then have "wal_db f1 (szPage w) (L @ [p]) = (wal_db f (szPage w) L)(p \<mapsto> d)"
    by (rule wal_db_append) (use W(1) in simp)
  then have db: "wal_db f1 (szPage w) (L @ [p]) = wal_db f (szPage w) L" using Suc.prems(4) by (simp add: fun_upd_idem)
  have ih: "log_state c w' f' ((L @ [p]) @ replicate n p) ((N @ [nT]) @ replicate n nT) \<and> (\<exists>c'. w' = set_cksum c' w1) \<and> (\<forall>j < 32. f' j = f1 j) \<and>
    wal_db f' (szPage w1) ((L @ [p]) @ replicate n p) = wal_db f1 (szPage w1) (L @ [p])"
    by (rule Suc.IH [OF st(1)]) (use Suc.prems rest db sz in \<open>simp_all add: frame_span\<close>)
  have "\<exists>c'. w' = set_cksum c' w" using ih st(3) set_cksum_twice by metis
  with ih show ?case using st(2) db sz by simp
qed

lemma padLoop_len: "padLoop be writeRc syncRc sp p d nT k w f = (rc, w', f', n) \<Longrightarrow> n \<le> sp - k"
proof (induction n arbitrary: k w f)
  case (Suc n)
  then obtain w1 f1 where "padLoop be writeRc syncRc sp p d nT (k + WAL_FRAME_HDRSIZE + szPage w) w1 f1 = (rc, w', f', n)" and "k < sp"
    by (subst (asm) (2) padLoop.simps) (auto split: if_splits prod.splits)
  with Suc.IH [OF this(1)] show ?case by linarith
qed simp

abbreviation sector_bytes :: "nat option \<Rightarrow> nat" where
  "sector_bytes sector \<equiv> (case sector of None \<Rightarrow> 0 | Some s \<Rightarrow> s)"

lemma walFramesPad_ok:
  assumes st: "log_state c w f L N" "length d = szPage w" "p \<noteq> 0" "wal_db f (szPage w) L p = Some d"
    and r: "walFramesPad be writeRc syncRc doSync sector p d nT (walFrameOffset (length L + 1) (szPage w)) w f = (SQLITE_OK, w', f', n, b)"
  shows "log_state c w' f' (L @ replicate n p) (N @ replicate n nT)" "\<exists>c'. w' = set_cksum c' w" "\<And>j. j < 32 \<Longrightarrow> f' j = f j"
    "wal_db f' (szPage w) (L @ replicate n p) = wal_db f (szPage w) L" "n \<le> sector_bytes sector" "doSync \<or> n = 0"
proof -
  let ?o = "walFrameOffset (Suc (length L)) (szPage w)"
  have "log_state c w' f' (L @ replicate n p) (N @ replicate n nT) \<and> (\<exists>c'. w' = set_cksum c' w) \<and> (\<forall>j < 32. f' j = f j) \<and>
   wal_db f' (szPage w) (L @ replicate n p) = wal_db f (szPage w) L \<and> n \<le> sector_bytes sector \<and> (doSync \<or> n = 0)"
  proof (cases "doSync \<and> sector \<noteq> None")
    case True
    then obtain s where s: "sector = Some s" by blast
    let ?sp = "(?o + s - 1) div s * s"
    have "padLoop be writeRc syncRc ?sp p d nT ?o w f = (SQLITE_OK, w', f', n)"
      using r True by (auto simp: walFramesPad_def s Let_def split: prod.splits)
    moreover have "?sp - ?o \<le> s" using div_times_less_eq_dividend [of "?o + s - 1" s] by linarith
    ultimately show ?thesis using padLoop_ok [OF st] padLoop_len True by (fastforce simp: s)
  next
    case False
    then have "w' = w" "f' = f" "n = 0" using r by (auto simp: walFramesPad_def split: if_splits option.splits)
    then show ?thesis using st(1) set_cksum_ex [of w] by simp
  qed
  then show "log_state c w' f' (L @ replicate n p) (N @ replicate n nT)" "\<exists>c'. w' = set_cksum c' w" "\<And>j. j < 32 \<Longrightarrow> f' j = f j"
    "wal_db f' (szPage w) (L @ replicate n p) = wal_db f (szPage w) L" "n \<le> sector_bytes sector" "doSync \<or> n = 0" by blast+
qed

text \<open>The file and the connection before the frames are indexed.\<close>

lemma frames_written:
  assumes ready: "wal_ready w f L N" and sz: "sz AND (sz - 1) = 0" "512 \<le> sz" "sz \<le> 65536" "length rnd = 8"
    and ps: "list_all (\<lambda>(p, d). p \<noteq> 0 \<and> length d = sz) ps" "distinct (map fst ps)" and len: "length L + length ps < 2 ^ 32 - 34"
    and hd: "walFramesHeader be writeRc hdrSync rnd sz w f = (SQLITE_OK, w1, f1)" and szw: "szPage w1 = sz"
    and lp: "framesLoop be writeRc syncRc isCommit nTruncate iFirst ps (mxFrame (wi w1)) w1 f1 = (SQLITE_OK, w2, f2, n, qs)"
    and ck: "walFramesCksum be readRc writeRc ms isCommit n w2 f2 = (SQLITE_OK, w3, f3)"
  shows "log_state (log_start f3) w3 f3 (L @ qs) (N @ commit_sizes isCommit nTruncate (length qs))" "log_fields w3 f3"
    and "wal_db f3 sz (L @ qs) = wal_db f sz L ++ map_of ps" "\<exists>c i. wi w3 = (wi w)\<lparr>aFrameCksum := c, iReCksum := i\<rparr>"
    and "length (aSalt w3) = 8" "szPage w3 = sz" "isCommit \<Longrightarrow> ps \<noteq> [] \<Longrightarrow> qs \<noteq> []" "isCommit \<Longrightarrow> iReCksum (wi w3) = 0"
    and "length L + length qs < 2 ^ 32 - 34" "0 \<notin> set qs" "n = length (L @ qs)"
proof -
  note H = walFramesHeader_ok [OF ready sz hd]
  obtain c0 where c0: "wi w1 = (wi w)\<lparr>aFrameCksum := c0\<rparr>" using H(4) by blast
  have mx: "mxFrame (wi w1) = length L" using ready by (simp add: c0 wal_ready_def log_ready_def)
  have F: "walFindFrame (wi w1) p = (SQLITE_OK, latest_frame L (minFrame (wi w)) p (length L))" for p
    unfolding c0 walFindFrame_cksum by (rule wal_ready_find [OF ready])
  have ps1: "list_all (\<lambda>(p, d). p \<noteq> 0 \<and> length d = szPage w1) ps" using ps(1) szw by simp
  have Lp: "log_state (log_start f1) w2 f2 (L @ qs) (N @ commit_sizes isCommit nTruncate (length qs)) \<and> n = length (L @ qs) \<and> same_writer w1 w2 \<and>
   (\<forall>j < 32. f2 j = f1 j) \<and> (isCommit \<and> ps \<noteq> [] \<longrightarrow> qs \<noteq> [])"
    by (rule framesLoop_ok [OF H(2) ps1 _ lp [unfolded mx]]) (simp add: F latest_frame_le)
  have "\<forall>p \<in> fst ` set ps. snd (walFindFrame (wi w1) p) \<noteq> 0 \<longrightarrow> snd (walFindFrame (wi w1) p) = latest_frame L 1 p (length L)"
    using latest_frame_lo by (simp add: F)
  from framesLoop_db [OF H(5) ps1 ps(2) this lp [unfolded mx]] H(3)
  have db2: "wal_db f2 sz (L @ qs) = wal_db f sz L ++ map_of ps" by (simp add: szw)
  have st2: "log_state (log_start f1) w2 f2 (L @ qs) (N @ commit_sizes isCommit nTruncate (length qs))" and start: "log_start f1 = log_start f2"
    using Lp log_start_local [of f2 f1] by auto
  show n: "n = length (L @ qs)" using Lp by blast
  note C = walFramesCksum_ok [OF st2 start ck [unfolded n]]
  have sw: "same_writer w1 w2" "same_writer w1 w3" using Lp same_writer_trans [OF _ C(2)] by blast+
  show "\<exists>c i. wi w3 = (wi w)\<lparr>aFrameCksum := c, iReCksum := i\<rparr>" using sw(2) c0 by (auto simp: same_writer_def)
  show "length L + length qs < 2 ^ 32 - 34" "0 \<notin> set qs"
    using framesLoop_len [OF lp] len st2 by (simp_all add: log_state_def log_ok_def)
  show "log_fields w3 f3" using H(1) sw(2) log_fields_local [of f3 f1 w1] C(4) Lp by (simp add: log_fields_def same_writer_def)
  show "log_state (log_start f3) w3 f3 (L @ qs) (N @ commit_sizes isCommit nTruncate (length qs))"
    using C(1) log_start_local [of f3 f2] C(4) start by simp
  show "wal_db f3 sz (L @ qs) = wal_db f sz L ++ map_of ps" using C(5) [of "L @ qs"] db2 sw(1) szw by (simp add: same_writer_def)
  show "length (aSalt w3) = 8" "szPage w3 = sz" using H(5) sw(2) szw by (simp_all add: same_writer_def)
  show "qs \<noteq> []" if "isCommit" "ps \<noteq> []" using that Lp by blast
  show "iReCksum (wi w3) = 0" if "isCommit" using that by (rule C(3))
qed

text \<open>The same after the padding.\<close>

lemma frames_padded:
  assumes ready: "wal_ready w f L N" and sz: "sz AND (sz - 1) = 0" "512 \<le> sz" "sz \<le> 65536" "length rnd = 8"
    and ps: "ps \<noteq> []" "list_all (\<lambda>(p, d). p \<noteq> 0 \<and> length d = sz) ps" "distinct (map fst ps)"
    and len: "length L + length ps + sector_bytes sector < 2 ^ 32 - 34"
    and hd: "walFramesHeader be writeRc hdrSync rnd sz w f = (SQLITE_OK, w1, f1)" and szw: "szPage w1 = sz"
    and lp: "framesLoop be writeRc syncRc isCommit nTruncate iFirst ps (mxFrame (wi w1)) w1 f1 = (SQLITE_OK, w2, f2, n, qs)"
    and ck: "walFramesCksum be readRc writeRc ms isCommit n w2 f2 = (SQLITE_OK, w3, f3)"
    and pd: "walFramesPad be writeRc syncRc (isCommit \<and> doSync) sector (fst (last ps)) (snd (last ps)) nTruncate (walFrameOffset (n + 1) sz) w3 f3 = (SQLITE_OK, w4, f4, k, b)"
  defines "M \<equiv> qs @ replicate k (fst (last ps))" and "S \<equiv> commit_sizes isCommit nTruncate (length qs) @ replicate k nTruncate"
  shows "log_state (log_start f4) w4 f4 (L @ M) (N @ S)" "log_fields w4 f4"
    and "wal_db f4 sz (L @ M) = wal_db f sz L ++ map_of ps" "\<exists>c i. wi w4 = (wi w)\<lparr>aFrameCksum := c, iReCksum := i\<rparr>"
    and "length (aSalt w4) = 8" "szPage w4 = sz" "length M \<le> length ps + sector_bytes sector" "length L + length M < 2 ^ 32 - 34" "0 \<notin> set M"
    and "isCommit \<Longrightarrow> M \<noteq> [] \<and> iReCksum (wi w4) = 0 \<and> last (N @ S) = nTruncate"
proof -
  have len0: "length L + length ps < 2 ^ 32 - 34" using len by linarith
  note W = frames_written [OF ready sz ps(2,3) len0 hd szw lp ck]
  obtain p d where pl: "last ps = (p, d)" by fastforce
  then have pin: "(p, d) \<in> set ps" using ps(1) by (metis last_in_set)
  then have p: "p \<noteq> 0" "length d = szPage w3" using ps(2) W(6) by (auto simp: list_all_iff)
  have "wal_db f3 sz (L @ qs) p = Some d" using W(3) map_of_is_SomeI [OF ps(3) pin] by (simp add: map_add_def)
  then have dbp: "wal_db f3 (szPage w3) (L @ qs) p = Some d" by (simp add: W(6))
  note P = walFramesPad_ok [OF W(1) p(2,1) dbp, of be writeRc syncRc "isCommit \<and> doSync" sector nTruncate w4 f4 k b]
  have pd': "walFramesPad be writeRc syncRc (isCommit \<and> doSync) sector p d nTruncate (walFrameOffset (length (L @ qs) + 1) (szPage w3)) w3 f3 = (SQLITE_OK, w4, f4, k, b)"
    using pd by (simp add: pl W(6,11))
  note P = P [OF pd']
  obtain c4 where c4: "w4 = set_cksum c4 w3" using P(2) by blast
  show "log_state (log_start f4) w4 f4 (L @ M) (N @ S)" using P(1) log_start_local [of f4 f3] P(3) by (simp add: M_def S_def pl)
  show "log_fields w4 f4" using W(2) log_fields_local [of f4 f3 w3] P(3) by (simp add: log_fields_def c4 set_cksum_def)
  show "wal_db f4 sz (L @ M) = wal_db f sz L ++ map_of ps" using P(4) W(3,6) by (simp add: M_def pl)
  obtain c3 i3 where "wi w3 = (wi w)\<lparr>aFrameCksum := c3, iReCksum := i3\<rparr>" using W(4) by blast
  then have "wi w4 = (wi w)\<lparr>aFrameCksum := c4, iReCksum := i3\<rparr>" by (simp add: c4 set_cksum_def)
  then show "\<exists>c i. wi w4 = (wi w)\<lparr>aFrameCksum := c, iReCksum := i\<rparr>" by blast
  show "length (aSalt w4) = 8" "szPage w4 = sz" using W(5,6) by (simp_all add: c4 set_cksum_def)
  show le: "length M \<le> length ps + sector_bytes sector" using P(5) framesLoop_len [OF lp] by (simp add: M_def)
  then show "length L + length M < 2 ^ 32 - 34" using len by linarith
  show "0 \<notin> set M" using W(10) p(1) by (auto simp: M_def pl)
  show "M \<noteq> [] \<and> iReCksum (wi w4) = 0 \<and> last (N @ S) = nTruncate" if "isCommit"
    using W(7,8) that ps(1) by (auto simp: M_def S_def commit_sizes_def c4 set_cksum_def)
qed

lemma index_pre:
  assumes "wal_ready w f L N" "\<exists>c i. wi w3 = (wi w)\<lparr>aFrameCksum := c, iReCksum := i\<rparr>"
  obtains M where "index_ok (wi w3) (L @ M)" "mxFrame (wi w3) = length L" "\<forall>h. shmRc (wi w3) h = SQLITE_OK"
    "readLock (wi w3) = readLock (wi w)" "minFrame (wi w3) = minFrame (wi w)"
proof -
  obtain M c i where "index_ok (wi w) (L @ M)" "wi w3 = (wi w)\<lparr>aFrameCksum := c, iReCksum := i\<rparr>" using assms unfolding wal_ready_def log_ready_def by blast
  with assms(1) show thesis by (intro that [of M]) (simp_all add: index_ok_def wal_ready_def log_ready_def)
qed

text \<open>The whole routine: the writer stays ready, and the log holds the pages written.\<close>

lemma walFramesWrite_ready:
  assumes ready: "wal_ready w f L N" and sz: "sz AND (sz - 1) = 0" "512 \<le> sz" "sz \<le> 65536" "length rnd = 8"
    and ps: "ps \<noteq> []" "list_all (\<lambda>(p, d). p \<noteq> 0 \<and> length d = sz) ps" "distinct (map fst ps)"
    and len: "length L + length ps + sector_bytes sector < 2 ^ 32 - 34"
    and call: "walFramesWrite be readRc writeRc hdrSync syncRc ms rnd sz ps nTruncate isCommit doSync sector iFirst w f = (SQLITE_OK, w', f')"
  shows "\<exists>M S. wal_ready w' f' (L @ M) (N @ S) \<and> wal_db f' sz (L @ M) = wal_db f sz L ++ map_of ps \<and>
    szPage w' = sz \<and> length M \<le> length ps + sector_bytes sector \<and>
    (isCommit \<longrightarrow> M \<noteq> [] \<and> iReCksum (wi w') = 0 \<and> last (N @ S) = nTruncate \<and> nPage w' = nTruncate)"
proof -
  obtain w1 f1 w2 f2 n qs w3 f3 w4 k b w5 s where hd: "walFramesHeader be writeRc hdrSync rnd sz w f = (SQLITE_OK, w1, f1)" and szw: "szPage w1 = sz"
    and lp: "framesLoop be writeRc syncRc isCommit nTruncate iFirst ps (mxFrame (wi w1)) w1 f1 = (SQLITE_OK, w2, f2, n, qs)"
    and ck: "walFramesCksum be readRc writeRc ms isCommit n w2 f2 = (SQLITE_OK, w3, f3)"
    and pd: "walFramesPad be writeRc syncRc (isCommit \<and> doSync) sector (fst (last ps)) (snd (last ps)) nTruncate (walFrameOffset (n + 1) sz) w3 f3 = (SQLITE_OK, w4, f', k, b)"
    and w5: "w5 = (if isCommit \<and> truncateOnCommit w4 \<and> mxWalSize w4 \<ge> 0 then w4\<lparr>truncateOnCommit := False\<rparr> else w4)"
    and ix: "walFramesIndex (wi w5) (qs @ replicate k (fst (last ps))) isCommit = (SQLITE_OK, s)"
    and w': "w' = (if isCommit then (walIndexWriteHdr (w5\<lparr>wi := s, hdrSzPage := szPageCode sz, nPage := nTruncate, iChange := iChange w5 + 1\<rparr>))\<lparr>iCallback := mxFrame s\<rparr>
      else w5\<lparr>wi := s, hdrSzPage := szPageCode sz\<rparr>)"
    using call unfolding walFramesWrite_def Let_def by (auto split: prod.splits if_splits)
  define M where "M = qs @ replicate k (fst (last ps))"
  define S where "S = commit_sizes isCommit nTruncate (length qs) @ replicate k nTruncate"
  note W = frames_padded [OF ready sz ps len hd szw lp ck pd, folded M_def S_def]
  have w5': "wi w5 = wi w4" "aSalt w5 = aSalt w4" "szPage w5 = szPage w4" "bigEndCksum w5 = bigEndCksum w4" by (simp_all add: w5)
  have fl: "wi w' = s" "aSalt w' = aSalt w4" "szPage w' = szPage w4" "bigEndCksum w' = bigEndCksum w4"
    using walFramesIndex_published [OF ix] by (simp_all add: w' w5' walIndexWriteHdr_def)
  obtain K where pre: "index_ok (wi w4) (L @ K)" "mxFrame (wi w4) = length L" "\<forall>h. shmRc (wi w4) h = SQLITE_OK"
    "readLock (wi w4) = readLock (wi w)" "minFrame (wi w4) = minFrame (wi w)" by (rule index_pre [OF ready W(4)])
  note I = walFramesIndex_ok [OF pre(1,2) W(8,9) pre(3) ix [folded M_def, unfolded w5']]
  have "L @ M \<noteq> []"
  proof
    assume "L @ M = []"
    then have "map_of ps = Map.empty" using W(3) by (auto simp: wal_db_def fun_eq_iff map_add_def split: option.splits)
    with ps(1) show False by (metis map_of_eq_empty_iff)
  qed
  moreover have "log_fields w' f'" using W(2) by (simp add: log_fields_def fl)
  moreover have "log_state (log_start f') w' f' (L @ M) (N @ S)"
    using W(1) I(7,8) by (cases "iReCksum (wi w4) = 0") (simp_all add: log_state_def fl)
  ultimately have "wal_ready w' f' (L @ M) (N @ S)"
    using I ready W(5) pre by (auto simp: wal_ready_def log_ready_def fl)
  moreover have "isCommit \<longrightarrow> M \<noteq> [] \<and> iReCksum (wi w') = 0 \<and> last (N @ S) = nTruncate \<and> nPage w' = nTruncate"
    using W(10) I(8) fl(1) by (simp add: w' walIndexWriteHdr_def)
  ultimately show ?thesis using W(3,6,7) fl(3) by blast
qed

text \<open>It succeeds when no call to the operating system fails.\<close>

lemma WriteOneFrame_returns:
  assumes "\<forall>k. writeRc k = SQLITE_OK" "syncRc = SQLITE_OK"
  shows "\<exists>w' f'. walWriteOneFrame be writeRc syncRc sp p d nT k w f = (SQLITE_OK, w', f')"
proof -
  have ok: "\<exists>g'. walWriteToLog writeRc syncRc sp bs k g = (SQLITE_OK, g')" for bs k g
    using assms by (simp add: walWriteToLog_def osWrite_def Let_def)
  obtain v a where e: "walEncodeFrame be w p nT (\<lambda>i. d ! i) (\<lambda>_. 0) = (v, a)" by fastforce
  obtain f1 where h: "walWriteToLog writeRc syncRc sp (map a [0..<WAL_FRAME_HDRSIZE]) k f = (SQLITE_OK, f1)" using ok by blast
  obtain f2 where b: "walWriteToLog writeRc syncRc sp d (k + WAL_FRAME_HDRSIZE) f1 = (SQLITE_OK, f2)" using ok by blast
  show ?thesis unfolding walWriteOneFrame_def e prod.case h b by simp
qed

lemma framesLoop_returns:
  assumes ok: "\<forall>k. writeRc k = SQLITE_OK" "syncRc = SQLITE_OK"
  shows "\<exists>w' f' n qs. framesLoop be writeRc syncRc isCommit nTruncate iFirst ps iFrame w f = (SQLITE_OK, w', f', n, qs)"
proof (induction ps arbitrary: iFrame w f)
  case (Cons x ps)
  obtain p d where x: "x = (p, d)" by fastforce
  show ?case
  proof (cases "iFirst \<noteq> 0 \<and> (ps \<noteq> [] \<or> \<not> isCommit) \<and> iFirst \<le> snd (walFindFrame (wi w) p)")
    case True
    have "osWrite writeRc bs k g = (SQLITE_OK, memcpy g k bs)" for bs k g using ok(1) by (simp add: osWrite_def)
    with Cons.IH show ?thesis unfolding x framesLoop_overwrite [OF True] by simp
  next
    case False
    obtain w1 f1 where wr: "walWriteOneFrame be writeRc syncRc 0 p d (if isCommit \<and> ps = [] then nTruncate else 0) (walFrameOffset (iFrame + 1) (szPage w)) w f = (SQLITE_OK, w1, f1)"
      using WriteOneFrame_returns [OF ok] by blast
    obtain w' f' n qs where "framesLoop be writeRc syncRc isCommit nTruncate iFirst ps (iFrame + 1) w1 f1 = (SQLITE_OK, w', f', n, qs)"
      using Cons.IH by blast
    with wr show ?thesis unfolding x framesLoop_append [OF False] by simp
  qed
qed simp

lemma rewriteLoop_returns:
  "\<forall>k. readRc k = SQLITE_OK \<Longrightarrow> \<forall>k. writeRc k = SQLITE_OK \<Longrightarrow> \<exists>w' f'. rewriteLoop be readRc writeRc is w f = (SQLITE_OK, w', f')"
  by (induction "is" arbitrary: w f) (auto simp: Let_def osWrite_def split: prod.splits simp del: upt_rec_numeral)

lemma padLoop_returns:
  assumes ok: "\<forall>k. writeRc k = SQLITE_OK" "syncRc = SQLITE_OK"
  shows "\<exists>w' f' n. padLoop be writeRc syncRc sp p d nT k w f = (SQLITE_OK, w', f', n)"
proof (induction "sp - k" arbitrary: k w f rule: less_induct)
  case less
  obtain w1 f1 where wr: "walWriteOneFrame be writeRc syncRc sp p d nT k w f = (SQLITE_OK, w1, f1)" using WriteOneFrame_returns [OF ok] by blast
  show ?case
  proof (cases "k < sp")
    case True
    then have "sp - (k + WAL_FRAME_HDRSIZE + szPage w) < sp - k" by linarith
    from less [OF this, of w1 f1] obtain w' f' n
      where "padLoop be writeRc syncRc sp p d nT (k + WAL_FRAME_HDRSIZE + szPage w) w1 f1 = (SQLITE_OK, w', f', n)" by blast
    with True wr show ?thesis by (simp add: padLoop.simps [of be writeRc syncRc sp p d nT k])
  qed (simp add: padLoop.simps)
qed

lemma walFramesWrite_returns:
  assumes "wal_ready w f L N" and "sz AND (sz - 1) = 0" and "512 \<le> sz" and "sz \<le> 65536" and "length rnd = 8" and "L \<noteq> [] \<longrightarrow> szPage w = sz"
    and "ps \<noteq> []" and "list_all (\<lambda>(p, d). p \<noteq> 0 \<and> length d = sz) ps" and "distinct (map fst ps)" and "length L + length ps + sector_bytes sector < 2 ^ 32 - 34"
    and "\<forall>k. readRc k = SQLITE_OK" and "\<forall>k. writeRc k = SQLITE_OK" and "malloc_ok ms"
  shows "\<exists>w' f'. walFramesWrite be readRc writeRc SQLITE_OK SQLITE_OK ms rnd sz ps nTruncate isCommit doSync sector iFirst w f = (SQLITE_OK, w', f')"
proof -
  obtain w1 f1 where hd: "walFramesHeader be writeRc SQLITE_OK rnd sz w f = (SQLITE_OK, w1, f1)" and sz1: "szPage w1 = sz"
    using assms(1,6,12) by (cases "L = []") (auto simp: walFramesHeader_def wal_ready_def log_ready_def osWrite_def walHeader_def Let_def set_cksum_def simp del: upt_rec_numeral)
  obtain w2 f2 n qs where lp: "framesLoop be writeRc SQLITE_OK isCommit nTruncate iFirst ps (mxFrame (wi w1)) w1 f1 = (SQLITE_OK, w2, f2, n, qs)"
    using framesLoop_returns [OF assms(12) refl] by blast
  have "\<exists>w3 f3. walFramesCksum be readRc writeRc ms isCommit n w2 f2 = (SQLITE_OK, w3, f3)"
  proof (cases "isCommit \<and> iReCksum (wi w2) \<noteq> 0")
    case True
    have r: "readRc k = SQLITE_OK" for k using assms(11) by simp
    show ?thesis using True assms(13) unfolding walFramesCksum_def walRewriteChecksums_def Let_def r
      by (simp only: simp_thms if_True if_False) (rule rewriteLoop_returns; simp add: assms(12))
  qed (auto simp: walFramesCksum_def)
  then obtain w3 f3 where ck: "walFramesCksum be readRc writeRc ms isCommit n w2 f2 = (SQLITE_OK, w3, f3)" by blast
  have "\<exists>w4 f4 k b. walFramesPad be writeRc SQLITE_OK (isCommit \<and> doSync) sector (fst (last ps)) (snd (last ps)) nTruncate (walFrameOffset (n + 1) sz) w3 f3 = (SQLITE_OK, w4, f4, k, b)"
  proof (cases sector)
    case (Some s)
    obtain w4 f4 k where "padLoop be writeRc SQLITE_OK ((walFrameOffset (n + 1) sz + s - 1) div s * s) (fst (last ps)) (snd (last ps)) nTruncate (walFrameOffset (n + 1) sz) w3 f3 = (SQLITE_OK, w4, f4, k)"
      using padLoop_returns [OF assms(12) refl] by blast
    then show ?thesis by (cases "isCommit \<and> doSync") (auto simp: walFramesPad_def Some Let_def)
  qed (auto simp: walFramesPad_def)
  then obtain w4 f4 k b where pd: "walFramesPad be writeRc SQLITE_OK (isCommit \<and> doSync) sector (fst (last ps)) (snd (last ps)) nTruncate (walFrameOffset (n + 1) sz) w3 f3 = (SQLITE_OK, w4, f4, k, b)" by blast
  note W = frames_padded [OF assms(1-5,7-10) hd sz1 lp ck pd]
  obtain K where pre: "index_ok (wi w4) (L @ K)" "mxFrame (wi w4) = length L" "\<forall>h. shmRc (wi w4) h = SQLITE_OK" by (rule index_pre [OF assms(1) W(4)])
  obtain rc s where ix: "walFramesIndex (wi w4) (qs @ replicate k (fst (last ps))) isCommit = (rc, s)" by fastforce
  from walFramesIndex_ok(1) [OF pre(1,2) W(8,9) pre(3) ix] hd sz1 lp ck pd ix show ?thesis by (auto simp: walFramesWrite_def Let_def)
qed

text \<open>
  A connection at any point of a write transaction, \<open>info\<close> being the shared checkpoint information.  With the read
  lock 0 it has written nothing yet, and all frames of the log are in the database.
\<close>

definition wal_writer :: "wal \<Rightarrow> wal_ckpt_info \<Rightarrow> mem \<Rightarrow> u32 list \<Rightarrow> u32 list \<Rightarrow> bool" where
  "wal_writer w info f L N \<longleftrightarrow> log_ready w f L N \<and>
     (if readLock (wi w) = 0 then iReCksum (wi w) = 0 \<and> nBackfill info = mxFrame (wi w) else minFrame (wi w) < 2 ^ 32 - 33)"

definition restarts :: "rc \<Rightarrow> wal \<Rightarrow> wal_ckpt_info \<Rightarrow> bool" where
  "restarts lockRc w info \<longleftrightarrow> readLock (wi w) = 0 \<and> 0 < nBackfill info \<and> lockRc = SQLITE_OK"

lemma markClaim_failed: "markClaim lockRc mx marks best rc is = (rc', marks', best', True) \<Longrightarrow> rc' \<noteq> SQLITE_OK"
  by (induction lockRc mx marks best rc "is" rule: markClaim.induct) (auto split: if_splits)

lemma TryBeginRead_frame:
  assumes "walTryBeginRead a w info = (r, w', info')"
  shows "\<exists>k m. w' = w\<lparr>wi := (wi w)\<lparr>readLock := k, minFrame := m\<rparr>\<rparr> \<and> nBackfill info' = nBackfill info \<and>
    (k = readLock (wi w) \<or> 0 < k) \<and> (r = Some SQLITE_OK \<longrightarrow> 0 < k \<and> m = nBackfill info + 1)"
proof -
  obtain mark mxI where sc: "markScan (mxFrame (wi w)) (aReadMark info) = (mark, mxI)" by fastforce
  obtain rc marks mark' mxI' failed where cl: "(if mark < mxFrame (wi w) \<or> mxI = 0
      then markClaim (exclRc a) (mxFrame (wi w)) (aReadMark info) (mark, mxI) SQLITE_OK [1..<5]
      else (SQLITE_OK, aReadMark info, (mark, mxI), False)) = (rc, marks, (mark', mxI'), failed)" by (metis prod_cases4 surj_pair)
  note step = assms [unfolded walTryBeginRead_def Let_def sc prod.case cl]
  show ?thesis
  proof (cases "failed \<or> mxI' = 0 \<or> sharedRc a \<noteq> SQLITE_OK")
    case True
    have "rc \<noteq> SQLITE_OK" if "failed" using that cl markClaim_failed by (auto split: if_splits)
    with True step have "w' = w" "nBackfill info' = nBackfill info" "r \<noteq> Some SQLITE_OK" by (auto split: if_splits)
    then show ?thesis by (intro exI [of _ "readLock (wi w)"] exI [of _ "minFrame (wi w)"]) simp
  next
    case False
    let ?w = "w\<lparr>wi := (wi w)\<lparr>minFrame := nBackfill info + 1\<rparr>\<rparr>"
    have "(w' = ?w \<and> r = None \<or> w' = ?w\<lparr>wi := (wi ?w)\<lparr>readLock := int mxI'\<rparr>\<rparr>) \<and> nBackfill info' = nBackfill info"
      using step False by (auto split: option.splits if_splits)
    then show ?thesis
    proof (elim conjE disjE)
      assume "w' = ?w" "r = None" "nBackfill info' = nBackfill info"
      then show ?thesis by (intro exI [of _ "readLock (wi w)"] exI [of _ "nBackfill info + 1"]) simp
    next
      assume "w' = ?w\<lparr>wi := (wi ?w)\<lparr>readLock := int mxI'\<rparr>\<rparr>" "nBackfill info' = nBackfill info"
      with False show ?thesis by (intro exI [of _ "int mxI'"] exI [of _ "nBackfill info + 1"]) simp
    qed
  qed
qed

lemma beginReadLoop_frame:
  "beginReadLoop env cnt w info = (rc, w', info') \<Longrightarrow>
   \<exists>k m. w' = w\<lparr>wi := (wi w)\<lparr>readLock := k, minFrame := m\<rparr>\<rparr> \<and> (k = readLock (wi w) \<or> 0 < k) \<and>
     (rc = SQLITE_OK \<longrightarrow> 0 < k \<and> m = nBackfill info + 1)"
proof (induction "100 - cnt" arbitrary: cnt w info rule: less_induct)
  case less
  obtain r w1 info1 where t: "walTryBeginRead (env (cnt + 1)) w info = (r, w1, info1)" by (metis prod_cases3)
  obtain k m where w1: "w1 = w\<lparr>wi := (wi w)\<lparr>readLock := k, minFrame := m\<rparr>\<rparr>" "nBackfill info1 = nBackfill info"
    "k = readLock (wi w) \<or> 0 < k" "r = Some SQLITE_OK \<longrightarrow> 0 < k \<and> m = nBackfill info + 1"
    using TryBeginRead_frame [OF t] by blast
  note step = less.prems [unfolded beginReadLoop.simps [of env cnt] t prod.case]
  consider (limit) "cnt + 1 > 100" | (retry) "cnt + 1 \<le> 100" "r = None" | (ret) rc' where "cnt + 1 \<le> 100" "r = Some rc'" by fastforce
  then show ?case
  proof cases
    case limit
    then have "w' = w" "rc = SQLITE_PROTOCOL" using step by simp_all
    then show ?thesis by (intro exI [of _ "readLock (wi w)"] exI [of _ "minFrame (wi w)"]) simp
  next
    case retry
    then have "beginReadLoop env (cnt + 1) w1 info1 = (rc, w', info')" "100 - (cnt + 1) < 100 - cnt" using step by simp_all
    from less.hyps [OF this(2,1)] obtain k' m' where "w' = w1\<lparr>wi := (wi w1)\<lparr>readLock := k', minFrame := m'\<rparr>\<rparr>"
      "k' = readLock (wi w1) \<or> 0 < k'" "rc = SQLITE_OK \<longrightarrow> 0 < k' \<and> m' = nBackfill info1 + 1" by blast
    with w1 show ?thesis by (intro exI [of _ k'] exI [of _ m']) auto
  next
    case ret
    with step w1 show ?thesis by (intro exI [of _ k] exI [of _ m]) auto
  qed
qed

lemma walRestartHdr_frame:
  "walRestartHdr salt1 w info = (w', info') \<Longrightarrow>
   wi w' = (wi w)\<lparr>nCkpt := nCkpt (wi w) + 1, mxFrame := 0, hdrFrame := 0, hdrCksum := aFrameCksum (wi w)\<rparr> \<and>
   length (aSalt w') = 8 \<and> szPage w' = szPage w \<and> nBackfill info' = 0"
  by (auto simp: walRestartHdr_def walIndexWriteHdr_def Let_def simp del: upt_rec_numeral)

lemma walRestartLog_ready:
  assumes "wal_writer w info f L N" "length L < 2 ^ 32 - 34" "walRestartLog lockRc salt1 env w info = (SQLITE_OK, w', info')"
  shows "wal_ready w' f (if restarts lockRc w info then [] else L) (if restarts lockRc w info then [] else N)"
proof (cases "readLock (wi w) = 0")
  case False
  with assms show ?thesis by (auto simp: walRestartLog_def wal_writer_def wal_ready_def restarts_def)
next
  case True
  obtain M where lr: "mxFrame (wi w) = length L" "index_ok (wi w) (L @ M)" "\<forall>h. shmRc (wi w) h = SQLITE_OK" "length (aSalt w) = 8"
    "if L = [] then N = [] else log_fields w f \<and> log_state (log_start f) w f L N" "iReCksum (wi w) = 0" "nBackfill info = length L"
    using assms(1) True by (auto simp: wal_writer_def log_ready_def split: if_splits)
  define w1 info1 where "w1 = fst (if restarts lockRc w info then walRestartHdr salt1 w info else (w, info))"
    and "info1 = snd (if restarts lockRc w info then walRestartHdr salt1 w info else (w, info))"
  have "beginReadLoop env 0 (w1\<lparr>wi := (wi w1)\<lparr>readLock := - 1\<rparr>\<rparr>) info1 = (SQLITE_OK, w', info')"
    using assms(3) True by (auto simp: walRestartLog_def restarts_def w1_def info1_def split: if_splits prod.splits)
  from beginReadLoop_frame [OF this] obtain k m where w': "w' = w1\<lparr>wi := (wi w1)\<lparr>readLock := k, minFrame := m\<rparr>\<rparr>" "0 < k" "m = nBackfill info1 + 1" by auto
  show ?thesis
  proof (cases "restarts lockRc w info")
    case rs: True
    then have H: "wi w1 = (wi w)\<lparr>nCkpt := nCkpt (wi w) + 1, mxFrame := 0, hdrFrame := 0, hdrCksum := aFrameCksum (wi w)\<rparr>" "length (aSalt w1) = 8" "nBackfill info1 = 0"
      using walRestartHdr_frame [of salt1 w info w1 info1] by (simp_all add: w1_def info1_def)
    have "index_ok (wi w1) ([] @ L @ M)" using lr(2) by (simp add: H(1) index_ok_def)
    then have "\<exists>M. index_ok (wi w') ([] @ M)" by (intro exI [of _ "L @ M"]) (simp add: w'(1) index_ok_def)
    then show ?thesis using rs lr H w'(2,3) by (simp add: wal_ready_def log_ready_def w'(1))
  next
    case rs: False
    then have "w1 = w" "info1 = info" by (simp_all add: w1_def info1_def)
    moreover have "index_ok (wi w') (L @ M)" using lr(2) by (simp add: w'(1) calculation index_ok_def)
    moreover have "log_state (log_start f) w' f L N = log_state (log_start f) w f L N" "log_fields w' f = log_fields w f"
      by (simp_all add: w'(1) calculation log_state_def log_fields_def)
    ultimately show ?thesis using rs lr w'(2,3) assms(2) by (auto simp: wal_ready_def log_ready_def w'(1))
  qed
qed

text \<open>The whole routine, from any point of a write transaction.\<close>

lemma walFrames_ready:
  assumes w: "wal_writer w info f L N" and sz: "sz AND (sz - 1) = 0" "512 \<le> sz" "sz \<le> 65536" "length rnd = 8"
    and ps: "ps \<noteq> []" "list_all (\<lambda>(p, d). p \<noteq> 0 \<and> length d = sz) ps" "distinct (map fst ps)"
    and len: "length L + length ps + sector_bytes sector < 2 ^ 32 - 34"
    and call: "walFrames be lockRc salt1 env readRc writeRc hdrSync syncRc ms rnd sz ps nTruncate isCommit doSync sector w info f = (SQLITE_OK, w', info', f')"
  defines "L0 \<equiv> if restarts lockRc w info then [] else L" and "N0 \<equiv> if restarts lockRc w info then [] else N"
  shows "\<exists>M S. wal_ready w' f' (L0 @ M) (N0 @ S) \<and> wal_db f' sz (L0 @ M) = wal_db f sz L0 ++ map_of ps \<and>
    szPage w' = sz \<and> length M \<le> length ps + sector_bytes sector \<and>
    (isCommit \<longrightarrow> M \<noteq> [] \<and> iReCksum (wi w') = 0 \<and> last (N0 @ S) = nTruncate \<and> nPage w' = nTruncate)"
proof -
  obtain w1 iFirst where r: "walRestartLog lockRc salt1 env w info = (SQLITE_OK, w1, info')"
    and wr: "walFramesWrite be readRc writeRc hdrSync syncRc ms rnd sz ps nTruncate isCommit doSync sector iFirst w1 f = (SQLITE_OK, w', f')"
    using call by (auto simp: walFrames_def Let_def split: prod.splits if_splits)
  have "length L < 2 ^ 32 - 34" using len by linarith
  from walRestartLog_ready [OF w this r] have ready: "wal_ready w1 f L0 N0" by (simp add: L0_def N0_def)
  have "length L0 + length ps + sector_bytes sector < 2 ^ 32 - 34" using len by (simp add: L0_def)
  from walFramesWrite_ready [OF ready sz ps this wr] show ?thesis .
qed

text \<open>A connection whose log is empty.\<close>

definition fresh_wal :: wal where
  "fresh_wal = \<lparr>wi = fresh_index\<lparr>readLock := 1\<rparr>, aSalt = replicate 8 0, bigEndCksum = False, szPage = 0, nPage = 0, hdrSzPage = 0, iChange = 0, iCallback = 0,
     truncateOnCommit = False, mxWalSize = - 1, liveHdr = (replicate 8 0, False, 0, 0, 0)\<rparr>"

lemma fresh_wal_ready: "wal_ready fresh_wal f [] []"
  by (auto simp: wal_ready_def log_ready_def fresh_wal_def fresh_index_def index_ok_def intro: exI [of _ "[]"])

lemma size_512: "512 AND (512 - 1) = (0 :: nat)"
  by simp

subsection \<open>Commits and recovery\<close>

lemma valid_log_ends:
  assumes "length (valid_log big salt sz f c i m) = m" "m \<le> n" "length (valid_log big salt sz f c i n) \<le> m"
  shows "valid_log big salt sz f c i n = valid_log big salt sz f c i m"
proof -
  let ?V = "valid_log big salt sz f c i m"
  obtain k where k: "n = m + k" using assms(2) le_Suc_ex by blast
  have "valid_log big salt sz f c i n = ?V @ valid_log big salt sz f (log_end c ?V) (i + m) k"
    unfolding k valid_log_add Let_def assms(1) by (simp only: simp_thms if_True)
  with assms(1,3) show ?thesis by simp
qed

lemma last_commit_snoc: "n \<noteq> 0 \<Longrightarrow> last_commit i r (V @ [(p, n, c)]) = (i + length V, n, c)"
  by (simp add: last_commit_append)

text \<open>Recovery of the file finds the frames up to a commit that the writer has just made.\<close>

lemma commit_found:
  assumes "wal_ready w f L N" "iReCksum (wi w) = 0" "L \<noteq> []" "last N \<noteq> 0"
  shows "pages_of (log_frames f (length L)) = L" "last_commit 1 r (log_frames f (length L)) = (length L, last N, aFrameCksum (wi w))"
proof -
  let ?V = "log_frames f (length L)"
  have w: "log_fields w f" "log_state (log_start f) w f L N" using assms(1,3) by (simp_all add: wal_ready_def log_ready_def)
  have V: "valid_log (bigEndCksum w) (aSalt w) (szPage w) f (log_start f) 1 (length L) = ?V"
    using w(1) unfolding log_frames_def log_fields_def by (simp del: upt_rec_numeral)
  have ok: "log_ok (bigEndCksum w) (aSalt w) (szPage w) (log_start f) f L N (length L)" and e: "aFrameCksum (wi w) = log_end (log_start f) ?V"
    using w(2) assms(2) V by (simp_all add: log_state_def)
  note P = log_ok_pages [OF ok, unfolded V]
  have NL: "length N = length L" using ok by (simp add: log_ok_def)
  then show p: "pages_of ?V = L" using P(1) by simp
  have "?V \<noteq> []" using assms(3) p by auto
  then obtain U fr where U: "?V = U @ [fr]" by (metis append_butlast_last_id)
  obtain q n c where fr: "fr = (q, n, c)" by (cases fr) auto
  have "last N = last (map (fst \<circ> snd) ?V)" using P(2) NL by simp
  then have n: "n = last N" by (simp add: U fr)
  have "length L = length ?V" using arg_cong [OF p, of length] by simp
  then have "length L = Suc (length U)" by (simp add: U)
  moreover have "c = aFrameCksum (wi w)" by (simp add: e U fr log_end_def)
  ultimately show "last_commit 1 r ?V = (length L, last N, aFrameCksum (wi w))"
    using last_commit_snoc [of n 1 r U q c] assms(4) unfolding U fr n by simp
qed

text \<open>The 16-bit page size is exact for the page sizes that a log can have.\<close>

lemma pow2_trick: "2 ^ k < sz \<Longrightarrow> sz < 2 ^ Suc k \<Longrightarrow> sz AND (sz - 1) \<noteq> (0 :: nat)"
proof
  assume k: "2 ^ k < sz" "sz < 2 ^ Suc k" and z: "sz AND (sz - 1) = 0"
  have "sz div 2 ^ k = 1" "(sz - 1) div 2 ^ k = 1" using k by (simp_all add: div_nat_eqI)
  then have "bit sz k" "bit (sz - 1) k" by (simp_all add: bit_iff_odd)
  then have "bit (sz AND (sz - 1)) k" by (simp only: bit_and_iff simp_thms)
  with z show False by simp
qed

lemma szPage_roundtrip:
  assumes "sz AND (sz - 1) = 0" "512 \<le> sz" "sz \<le> 65536"
  shows "szPageDecode (szPageCode sz) = sz"
proof -
  have r: "sz = 2 ^ k" if "2 ^ k \<le> sz" "sz < 2 ^ Suc k" for k using pow2_trick [of k sz] assms(1) that by (cases "sz = 2 ^ k") simp_all
  consider "sz < 2 ^ Suc 9" | "2 ^ 10 \<le> sz" "sz < 2 ^ Suc 10" | "2 ^ 11 \<le> sz" "sz < 2 ^ Suc 11" | "2 ^ 12 \<le> sz" "sz < 2 ^ Suc 12"
    | "2 ^ 13 \<le> sz" "sz < 2 ^ Suc 13" | "2 ^ 14 \<le> sz" "sz < 2 ^ Suc 14" | "2 ^ 15 \<le> sz" "sz < 2 ^ Suc 15" | "sz = 65536"
    using assms(3) by fastforce
  then have "sz \<in> {512, 1024, 2048, 4096, 8192, 16384, 32768, 65536}"
    using r [of 9] r [of 10] r [of 11] r [of 12] r [of 13] r [of 14] r [of 15] assms(2) by cases auto
  then show ?thesis by (auto simp: szPageDecode_def szPageCode_def)
qed

text \<open>What a connection reads of page \<open>p\<close> from the log, if the log holds it.\<close>

definition wal_read :: "(nat \<Rightarrow> rc) \<Rightarrow> wal \<Rightarrow> mem \<Rightarrow> nat \<Rightarrow> u32 \<Rightarrow> u8 list option" where
  "wal_read readRc w f nOut p =
     (case walFindFrame (wal_reader 1 (mxFrame (wi w)) (wi w)) p of (rc, i) \<Rightarrow>
        if i = 0 then None else Some (snd (sqlite3WalReadFrame readRc w i nOut f)))"

lemma ReadFrame_data:
  assumes "hdrSzPage w = szPageCode sz" "sz AND (sz - 1) = 0" "512 \<le> sz" "sz \<le> 65536" "\<forall>k. readRc k = SQLITE_OK"
  shows "sqlite3WalReadFrame readRc w i sz f = (SQLITE_OK, frame_data f sz i)"
  using assms by (simp add: sqlite3WalReadFrame_def szPage_roundtrip frame_data_def)

lemma wal_ready_writer: "wal_ready w f L N \<Longrightarrow> wal_writer w info f L N"
  by (simp add: wal_ready_def wal_writer_def)

lemma wal_db_Nil: "wal_db f sz [] = Map.empty"
  by (simp add: wal_db_def fun_eq_iff)

text \<open>Calls in which every lock, read, write, sync and allocation succeeds, with pages of 512 bytes.\<close>

definition fresh_ckpt_info :: wal_ckpt_info where
  "fresh_ckpt_info = \<lparr>nBackfill = 6, nBackfillAttempted = 6, aReadMark = [0, 0, 0, 0, 0]\<rparr>"

definition sample_frames :: "(u32 \<times> u8 list) list \<Rightarrow> u32 \<Rightarrow> bool \<Rightarrow> wal \<Rightarrow> wal_ckpt_info \<Rightarrow> mem \<Rightarrow> rc \<times> wal \<times> wal_ckpt_info \<times> mem" where
  "sample_frames ps nTruncate isCommit w info f =
     walFrames False SQLITE_OK [9, 9, 9, 9] (\<lambda>_. \<lparr>exclRc = (\<lambda>_. SQLITE_OK), sharedRc = SQLITE_OK, stored = None\<rparr>) (\<lambda>_. SQLITE_OK) (\<lambda>_. SQLITE_OK)
       SQLITE_OK SQLITE_OK [True] [1, 2, 3, 4, 5, 6, 7, 8] 512 ps nTruncate isCommit True None w info f"

lemma sample_frames_ok:
  assumes r: "wal_ready w f L N" and ps: "ps \<noteq> []" "list_all (\<lambda>(p, d). p \<noteq> 0 \<and> length d = 512) ps" "distinct (map fst ps)"
    and len: "length L + length ps < 100" "L \<noteq> [] \<longrightarrow> szPage w = 512"
  obtains w' f' M S where "sample_frames ps nTruncate isCommit w info f = (SQLITE_OK, w', info, f')"
    and "wal_ready w' f' (L @ M) (N @ S)" "wal_db f' 512 (L @ M) = wal_db f 512 L ++ map_of ps" "szPage w' = 512" "length M \<le> length ps"
    and "isCommit \<Longrightarrow> M \<noteq> [] \<and> iReCksum (wi w') = 0 \<and> last (N @ S) = nTruncate"
proof -
  have b: "(512 :: nat) \<le> 512" "(512 :: nat) \<le> 65536" "length [1, 2, 3, 4, 5, 6, 7, 8 :: u8] = 8" by simp_all
  have len': "length L + length ps + sector_bytes None < 2 ^ 32 - 34" using len(1) by simp
  let ?i = "if hdrChanged w then hdrFrame (wi w) + 1 else 0"
  have "\<exists>w' f'. walFramesWrite False (\<lambda>_. SQLITE_OK) (\<lambda>_. SQLITE_OK) SQLITE_OK SQLITE_OK [True] [1, 2, 3, 4, 5, 6, 7, 8] 512 ps nTruncate isCommit True None ?i w f = (SQLITE_OK, w', f')"
    by (rule walFramesWrite_returns [OF r size_512 b len(2) ps len']) (simp_all add: malloc_ok_def)
  then obtain w' f' where call: "walFramesWrite False (\<lambda>_. SQLITE_OK) (\<lambda>_. SQLITE_OK) SQLITE_OK SQLITE_OK [True] [1, 2, 3, 4, 5, 6, 7, 8] 512 ps nTruncate isCommit True None ?i w f = (SQLITE_OK, w', f')"
    by blast
  have "readLock (wi w) \<noteq> 0" using r by (simp add: wal_ready_def)
  then have "sample_frames ps nTruncate isCommit w info f = (SQLITE_OK, w', info, f')"
    unfolding sample_frames_def walFrames_def walRestartLog_def Let_def by (simp only: if_False prod.case call simp_thms)
  with walFramesWrite_ready [OF r size_512 b ps len' call] show thesis by (auto intro: that)
qed

text \<open>One commit of one page to a new log.\<close>

lemma sample_commit:
  obtains f' ck where "header_ok f'" "log_sz f' = 512" "pages_of (log_frames f' 1) = [3]"
    and "last_commit 1 (0, 0, 0, 0) (log_frames f' 1) = (1, 3, ck)"
proof -
  let ?ps = "[(3, replicate 512 9)] :: (u32 \<times> u8 list) list"
  obtain w' f' qs S where qs: "wal_ready w' f' qs S" "qs \<noteq> []" "iReCksum (wi w') = 0" "length qs \<le> 1" "szPage w' = 512" "last S = 3"
    and db: "wal_db f' 512 qs = map_of ?ps"
    by (rule sample_frames_ok [OF fresh_wal_ready [of "\<lambda>_. 0"], of ?ps 3 True fresh_ckpt_info]) (auto simp: wal_db_Nil)
  obtain p where p: "qs = [p]" using qs(2,4) by (cases qs) auto
  have "wal_db f' 512 qs p \<noteq> None" by (simp add: p wal_db_def)
  then have q: "qs = [3]" unfolding db by (auto simp: p split: if_splits)
  with commit_found [OF qs(1,3,2)] qs(6) have V: "pages_of (log_frames f' 1) = [3]"
    "last_commit 1 (0, 0, 0, 0) (log_frames f' 1) = (1, 3, aFrameCksum (wi w'))" by simp_all
  have h: "header_ok f'" "log_sz f' = 512" using qs(1,5) by (simp_all add: q wal_ready_def log_ready_def log_fields_def)
  show thesis by (rule that [OF h V])
qed

text \<open>
  C2: recovery finds the last commit.  From a file with an acceptable header, whatever the tables
  of the index held before, \<^verbatim>\<open>walIndexRecover\<close> sets the end of the log, the size of the database and
  the running checksum to those of the last commit frame among the leading valid frames, resets
  the marks of the readers, and leaves an index in which every lookup up to that commit gives the latest
  frame of the page.
\<close>

theorem wal_recovery:
  assumes "header_ok f" and "\<forall>k. readRc k = SQLITE_OK" and "malloc_ok ms" and "\<forall>h. shmRc (wi w) h = SQLITE_OK"
    and "\<forall>i. markRc i = SQLITE_OK" and "length (aReadMark info) = 5"
    and "WAL_HDRSIZE < nSize" and "n = (nSize - WAL_HDRSIZE) div (log_sz f + WAL_FRAME_HDRSIZE)" and "n < 2 ^ 32 - 34"
    and "last_commit 1 (0, 0, 0, 0) (log_frames f n) = (mx, np, ck)"
  shows "\<exists>w' info'. walIndexRecover be SQLITE_OK markRc SQLITE_OK readRc priv ms f nSize w info = (SQLITE_OK, w', info') \<and>
    mxFrame (wi w') = mx \<and> hdrFrame (wi w') = mx \<and> nPage w' = np \<and> aFrameCksum (wi w') = ck \<and>
    nBackfill info' = 0 \<and> nBackfillAttempted info' = mx \<and> aReadMark info' = [0, if mx \<noteq> 0 then mx else READMARK_NOT_USED, READMARK_NOT_USED, READMARK_NOT_USED, READMARK_NOT_USED] \<and>
    (\<forall>lo pgno. lo < 2 ^ 32 - 33 \<longrightarrow>
       walFindFrame (wal_reader lo mx (wi w')) pgno = (SQLITE_OK, latest_frame (pages_of (log_frames f n)) lo pgno mx))"
  by (rule walIndexRecover_ok [OF assms, of be priv]) (auto simp: recovered_find)

theorem wal_recovery_witness:
  "\<exists>f w' info'. walIndexRecover True SQLITE_OK (\<lambda>_. SQLITE_OK) SQLITE_OK (\<lambda>_. SQLITE_OK) (\<lambda>_. \<lparr>aPgno = (\<lambda>_. 4), aHash = (\<lambda>_. 5)\<rparr>) [True] f 1000 fresh_wal
      \<lparr>nBackfill = 6, nBackfillAttempted = 6, aReadMark = [0, 0, 0, 0, 0]\<rparr> = (SQLITE_OK, w', info') \<and>
    mxFrame (wi w') = 1 \<and> nPage w' = 3 \<and> walFindFrame (wal_reader 1 1 (wi w')) 3 = (SQLITE_OK, 1)"
proof (rule sample_commit)
  fix f ck
  assume h: "header_ok f" "log_sz f = 512" and p: "pages_of (log_frames f 1) = [3]"
    and lc: "last_commit 1 (0, 0, 0, 0) (log_frames f 1) = (1, 3, ck)"
  have n: "1 = (1000 - WAL_HDRSIZE) div (log_sz f + WAL_FRAME_HDRSIZE)" by (simp add: h)
  have "\<exists>w' info'. walIndexRecover True SQLITE_OK (\<lambda>_. SQLITE_OK) SQLITE_OK (\<lambda>_. SQLITE_OK) (\<lambda>_. \<lparr>aPgno = (\<lambda>_. 4), aHash = (\<lambda>_. 5)\<rparr>) [True] f 1000 fresh_wal
      \<lparr>nBackfill = 6, nBackfillAttempted = 6, aReadMark = [0, 0, 0, 0, 0]\<rparr> = (SQLITE_OK, w', info') \<and> mxFrame (wi w') = 1 \<and> nPage w' = 3 \<and>
     (\<forall>lo pgno. lo < 2 ^ 32 - 33 \<longrightarrow> walFindFrame (wal_reader lo 1 (wi w')) pgno = (SQLITE_OK, latest_frame (pages_of (log_frames f 1)) lo pgno 1))"
    using wal_recovery [OF h(1) _ _ _ _ _ _ n _ lc, of "\<lambda>_. SQLITE_OK" "[True]" fresh_wal "\<lambda>_. SQLITE_OK"
      "\<lparr>nBackfill = 6, nBackfillAttempted = 6, aReadMark = [0, 0, 0, 0, 0]\<rparr>" True "\<lambda>_. \<lparr>aPgno = (\<lambda>_. 4), aHash = (\<lambda>_. 5)\<rparr>"]
    by (fastforce simp: malloc_ok_def fresh_wal_def fresh_index_def)
  moreover have "latest_frame (pages_of (log_frames f 1)) 1 3 1 = 1" unfolding p by simp
  ultimately show ?thesis by fastforce
qed

text \<open>
  C1: a commit is durable.  When \<^verbatim>\<open>walFrames\<close> returns SQLITE_OK for a commit, also after frames of the same
  transaction were overwritten or the log was restarted, the file is recovered to this commit: for every size
  that covers the frames written and after which no further valid frame follows, recovery on a machine of either
  byte order and from any state of the index finds the commit, the size of the database is that of the
  commit, and every page reads as the transaction wrote it, or as the log had it before when the
  transaction did not write it (a log that restarts had nothing).
\<close>

theorem wal_commit_durable:
  assumes "wal_writer w info f L N" and "sz AND (sz - 1) = 0" and "512 \<le> sz" and "sz \<le> 65536" and "length rnd = 8"
    and "ps \<noteq> []" and "list_all (\<lambda>(p, d). p \<noteq> 0 \<and> length d = sz) ps" and "distinct (map fst ps)"
    and "length L + length ps + sector_bytes sector < 2 ^ 32 - 34" and "nTruncate \<noteq> 0"
    and "walFrames be lockRc salt1 env readRc writeRc hdrSync syncRc ms rnd sz ps nTruncate True doSync sector w info f = (SQLITE_OK, w', info1, f')"
    and "n = (nSize - WAL_HDRSIZE) div (sz + WAL_FRAME_HDRSIZE)" and "n < 2 ^ 32 - 34" and "WAL_HDRSIZE < nSize"
    and "mxFrame (wi w') \<le> n" and "length (log_frames f' n) \<le> mxFrame (wi w')"
    and "\<forall>k. readRc' k = SQLITE_OK" and "malloc_ok ms'" and "\<forall>h. shmRc (wi w0) h = SQLITE_OK"
    and "\<forall>i. markRc i = SQLITE_OK" and "length (aReadMark info0) = 5"
  shows "\<exists>w2 info2. walIndexRecover be' SQLITE_OK markRc SQLITE_OK readRc' priv ms' f' nSize w0 info0 = (SQLITE_OK, w2, info2) \<and>
    mxFrame (wi w2) = mxFrame (wi w') \<and> aFrameCksum (wi w2) = aFrameCksum (wi w') \<and> nPage w2 = nTruncate \<and>
    wal_read readRc' w2 f' sz = (if restarts lockRc w info then Map.empty else wal_db f sz L) ++ map_of ps"
proof -
  define L0 N0 where "L0 = (if restarts lockRc w info then [] else L)" and "N0 = (if restarts lockRc w info then [] else N)"
  obtain M S where M: "wal_ready w' f' (L0 @ M) (N0 @ S)" "M \<noteq> []" "iReCksum (wi w') = 0" and last: "last (N0 @ S) = nTruncate"
    and szw: "szPage w' = sz" and db: "wal_db f' sz (L0 @ M) = wal_db f sz L0 ++ map_of ps"
    using walFrames_ready [OF assms(1-9,11), folded L0_def N0_def] by blast
  let ?L = "L0 @ M"
  have ne: "?L \<noteq> []" "last (N0 @ S) \<noteq> 0" using M(2) last assms(10) by simp_all
  note F = commit_found [OF M(1,3) ne, unfolded last]
  have mx: "mxFrame (wi w') = length ?L" using M(1) by (simp add: wal_ready_def log_ready_def)
  have hf: "header_ok f'" "log_sz f' = sz" using M(1,2) szw by (simp_all add: wal_ready_def log_ready_def log_fields_def)
  have "length (log_frames f' (length ?L)) = length ?L" using arg_cong [OF F(1), of length] by simp
  then have fr: "log_frames f' n = log_frames f' (length ?L)"
    using assms(15,16) unfolding mx log_frames_def by (rule valid_log_ends)
  have lc: "last_commit 1 (0, 0, 0, 0) (log_frames f' n) = (length ?L, nTruncate, aFrameCksum (wi w'))" using F(2) by (simp only: fr)
  have n: "n = (nSize - WAL_HDRSIZE) div (log_sz f' + WAL_FRAME_HDRSIZE)" using assms(12) hf by simp
  show ?thesis
  proof (rule walIndexRecover_ok [OF hf(1) assms(17,18,19,20,21,14) n assms(13) lc, of be' priv])
    fix w2 assume r: "walIndexRecover be' SQLITE_OK markRc SQLITE_OK readRc' priv ms' f' nSize w0 info0 = (SQLITE_OK, w2, \<lparr>nBackfill = 0, nBackfillAttempted = length ?L,
        aReadMark = [0, if length ?L \<noteq> 0 then length ?L else READMARK_NOT_USED, READMARK_NOT_USED, READMARK_NOT_USED, READMARK_NOT_USED]\<rparr>)"
      and w2: "mxFrame (wi w2) = length ?L" "nPage w2 = nTruncate" "aFrameCksum (wi w2) = aFrameCksum (wi w')"
      and ix: "index_ok (wi w2) (pages_of (log_frames f' n))" "\<forall>h. shmRc (wi w2) h = SQLITE_OK"
      and h: "length ?L \<noteq> 0 \<Longrightarrow> hdrSzPage w2 = szPageCode (log_sz f')"
    have rd: "sqlite3WalReadFrame readRc' w2 i sz f' = (SQLITE_OK, frame_data f' sz i)" for i
      by (rule ReadFrame_data) (use h M(2) hf(2) assms(2,3,4,17) in simp_all)
    have "wal_read readRc' w2 f' sz = wal_db f' sz ?L"
      using recovered_find [OF ix(1)[unfolded fr F(1)] ix(2) order_refl] by (auto simp: wal_read_def wal_db_def fun_eq_iff w2(1) Let_def rd)
    moreover have "wal_db f sz L0 = (if restarts lockRc w info then Map.empty else wal_db f sz L)"
      by (auto simp: L0_def wal_db_def fun_eq_iff)
    ultimately show ?thesis using r w2 mx db by auto
  qed
qed

text \<open>A transaction that spills two pages and then commits, writing one of them again.\<close>

theorem wal_commit_durable_witness:
  "\<exists>w1 info1 f1 w' info' f' w2 info2.
    sample_frames [(3, replicate 512 9), (4, replicate 512 8)] 0 False fresh_wal fresh_ckpt_info (\<lambda>_. 0) = (SQLITE_OK, w1, info1, f1) \<and>
    sample_frames [(3, replicate 512 7), (5, replicate 512 6)] 5 True w1 info1 f1 = (SQLITE_OK, w', info', f') \<and>
    walIndexRecover True SQLITE_OK (\<lambda>_. SQLITE_OK) SQLITE_OK (\<lambda>_. SQLITE_OK) (\<lambda>_. \<lparr>aPgno = (\<lambda>_. 4), aHash = (\<lambda>_. 5)\<rparr>) [True] f'
      (32 + mxFrame (wi w') * 536) fresh_wal fresh_ckpt_info = (SQLITE_OK, w2, info2) \<and>
    nPage w2 = 5 \<and> map (wal_read (\<lambda>_. SQLITE_OK) w2 f' 512) [3, 4, 5, 6] = [Some (replicate 512 7), Some (replicate 512 8), Some (replicate 512 6), None]"
proof -
  obtain w1 f1 L N where c1: "sample_frames [(3, replicate 512 9), (4, replicate 512 8)] 0 False fresh_wal fresh_ckpt_info (\<lambda>_. 0) = (SQLITE_OK, w1, fresh_ckpt_info, f1)"
    and r1: "wal_ready w1 f1 L N" and db1: "wal_db f1 512 L = map_of [(3, replicate 512 9), (4, replicate 512 8)]" and len: "length L \<le> 2" and szw: "szPage w1 = 512"
    by (rule sample_frames_ok [OF fresh_wal_ready [of "\<lambda>_. 0"], of "[(3, replicate 512 9), (4, replicate 512 8)]" 0 False fresh_ckpt_info]) (auto simp: wal_db_Nil)
  obtain w' f' L' N' where c2: "sample_frames [(3, replicate 512 7), (5, replicate 512 6)] 5 True w1 fresh_ckpt_info f1 = (SQLITE_OK, w', fresh_ckpt_info, f')"
    and r2: "wal_ready w' f' (L @ L') (N @ N')" "L' \<noteq> []" "length L' \<le> 2"
    by (rule sample_frames_ok [OF r1, of "[(3, replicate 512 7), (5, replicate 512 6)]" 5 True fresh_ckpt_info]) (use szw len in auto)
  have mx: "0 < mxFrame (wi w')" "mxFrame (wi w') \<le> 4" using r2 len by (auto simp: wal_ready_def log_ready_def)
  have nr: "\<not> restarts SQLITE_OK w1 fresh_ckpt_info" using r1 by (simp add: restarts_def wal_ready_def)
  have "\<exists>w2 info2. walIndexRecover True SQLITE_OK (\<lambda>_. SQLITE_OK) SQLITE_OK (\<lambda>_. SQLITE_OK) (\<lambda>_. \<lparr>aPgno = (\<lambda>_. 4), aHash = (\<lambda>_. 5)\<rparr>) [True] f'
      (32 + mxFrame (wi w') * 536) fresh_wal fresh_ckpt_info = (SQLITE_OK, w2, info2) \<and>
    mxFrame (wi w2) = mxFrame (wi w') \<and> aFrameCksum (wi w2) = aFrameCksum (wi w') \<and> nPage w2 = 5 \<and>
    wal_read (\<lambda>_. SQLITE_OK) w2 f' 512 = (if restarts SQLITE_OK w1 fresh_ckpt_info then Map.empty else wal_db f1 512 L) ++ map_of [(3, replicate 512 7), (5, replicate 512 6)]"
    by (intro wal_commit_durable [OF wal_ready_writer [OF r1] size_512 _ _ _ _ _ _ _ _ c2 [unfolded sample_frames_def], of "mxFrame (wi w')"])
      (use len mx in \<open>simp_all add: malloc_ok_def fresh_wal_def fresh_index_def fresh_ckpt_info_def log_frames_def valid_log_length\<close>)
  then show ?thesis using c1 c2 nr db1 by (fastforce simp: map_add_def)
qed

end
