(* ===== verification/Wal_Txn.thy ===== *)
theory Wal_Txn
  imports Wal_Commit
begin

text \<open>
  A write transaction on the log as a step relation: calls of \<^verbatim>\<open>walFrames\<close> with any outcome, rollbacks, savepoints
  and their rollbacks, and the checkpoints and readers of other connections (wal.c).  No step changes a frame
  that was committed before.
\<close>

subsection \<open>Committed frames stay\<close>

lemma walFrameOffset_le: "i \<le> j \<Longrightarrow> walFrameOffset i sz \<le> walFrameOffset j sz"
  by (simp add: walFrameOffset_def)

lemma osWrite_low: "osWrite writeRc bs k f = (rc, f') \<Longrightarrow> j < k \<Longrightarrow> f' j = f j"
  by (auto simp: osWrite_def memcpy_outside split: if_splits)

lemma walWriteToLog_low: "walWriteToLog writeRc syncRc sp bs k f = (rc, f') \<Longrightarrow> j < k \<Longrightarrow> f' j = f j"
  by (auto simp: walWriteToLog_def osWrite_def Let_def memcpy_outside split: if_splits)

lemma WriteOneFrame_low:
  assumes "walWriteOneFrame be writeRc syncRc sp pgno d nT k w f = (rc, w', f')"
  shows "j < k \<Longrightarrow> f' j = f j" "\<exists>c. w' = set_cksum c w"
proof -
  obtain v g where e: "walEncodeFrame be w pgno nT (\<lambda>i. d ! i) (\<lambda>_. 0) = (v, g)" by fastforce
  obtain rc1 f1 where h: "walWriteToLog writeRc syncRc sp (map g [0..<WAL_FRAME_HDRSIZE]) k f = (rc1, f1)" by fastforce
  obtain rc2 f2 where b: "walWriteToLog writeRc syncRc sp d (k + WAL_FRAME_HDRSIZE) f1 = (rc2, f2)" by fastforce
  have r: "w' = v" "f' = f1 \<or> f' = f2" using assms unfolding walWriteOneFrame_def e prod.case h b by (auto split: if_splits)
  show "f' j = f j" if "j < k" using r(2) walWriteToLog_low [OF h, of j] walWriteToLog_low [OF b, of j] that by auto
  have "\<exists>c. v = set_cksum c w"
    using e set_cksum_same [of w] unfolding walEncodeFrame_def Let_def by (metis Pair_inject)
  with r(1) show "\<exists>c. w' = set_cksum c w" by simp
qed

lemma framesLoop_low:
  "framesLoop be writeRc syncRc isCommit nTruncate iFirst ps iFrame w f = (rc, w', f', n, qs) \<Longrightarrow> c \<le> iFrame \<Longrightarrow> iFirst = 0 \<or> c < iFirst \<Longrightarrow>
   iReCksum (wi w) = 0 \<or> c < iReCksum (wi w) \<Longrightarrow>
   (\<forall>j < walFrameOffset (Suc c) (szPage w). f' j = f j) \<and> (iReCksum (wi w') = 0 \<or> c < iReCksum (wi w')) \<and> szPage w' = szPage w \<and> iFrame \<le> n"
proof (induction ps arbitrary: iFrame w f qs)
  case (Cons x ps)
  obtain p d where x: "x = (p, d)" by fastforce
  let ?i = "snd (walFindFrame (wi w) p)"
  show ?case
  proof (cases "iFirst \<noteq> 0 \<and> (ps \<noteq> [] \<or> \<not> isCommit) \<and> ?i \<ge> iFirst")
    case True
    let ?w = "if iReCksum (wi w) = 0 \<or> ?i < iReCksum (wi w) then w\<lparr>wi := (wi w)\<lparr>iReCksum := ?i\<rparr>\<rparr> else w"
    obtain rc1 f1 where o: "osWrite writeRc d (walFrameOffset ?i (szPage w) + WAL_FRAME_HDRSIZE) f = (rc1, f1)" by fastforce
    note step = Cons.prems(1) [unfolded x framesLoop_overwrite [OF True] o prod.case]
    have i: "c < ?i" "iReCksum (wi ?w) = 0 \<or> c < iReCksum (wi ?w)" "szPage ?w = szPage w" using True Cons.prems(3,4) by auto
    have f1: "f1 j = f j" if "j < walFrameOffset (Suc c) (szPage w)" for j
      using osWrite_low [OF o] that walFrameOffset_le [of "Suc c" ?i "szPage w"] i(1,3) by simp
    show ?thesis
    proof (cases "rc1 = SQLITE_OK")
      case ok: True
      have "framesLoop be writeRc syncRc isCommit nTruncate iFirst ps iFrame ?w f1 = (rc, w', f', n, qs)"
        using step unfolding ok by (simp only: simp_thms if_False)
      from Cons.IH [OF this Cons.prems(2,3) i(2)] f1 i(3) show ?thesis by (simp split del: if_split)
    next
      case False
      then have "w' = ?w" "f' = f1" "n = iFrame" using step by (simp_all split del: if_split)
      with i f1 show ?thesis by (simp split del: if_split)
    qed
  next
    case False
    let ?k = "if isCommit \<and> ps = [] then nTruncate else 0"
    obtain rc1 w1 f1 where wr: "walWriteOneFrame be writeRc syncRc 0 p d ?k (walFrameOffset (iFrame + 1) (szPage w)) w f = (rc1, w1, f1)" by (metis prod_cases3)
    have f1: "f1 j = f j" if "j < walFrameOffset (Suc c) (szPage w)" for j
      using WriteOneFrame_low(1) [OF wr] that walFrameOffset_le [of "Suc c" "iFrame + 1" "szPage w"] Cons.prems(2) by simp
    have w1: "iReCksum (wi w1) = iReCksum (wi w)" "szPage w1 = szPage w" using WriteOneFrame_low(2) [OF wr] by (auto simp: set_cksum_def)
    show ?thesis
    proof (cases "rc1 = SQLITE_OK")
      case ok: True
      obtain qs1 where "framesLoop be writeRc syncRc isCommit nTruncate iFirst ps (iFrame + 1) w1 f1 = (rc, w', f', n, qs1)"
        using Cons.prems(1) [unfolded x framesLoop_append [OF False] wr prod.case] ok by (auto split: prod.splits)
      from Cons.IH [OF this _ Cons.prems(3)] Cons.prems(2,4) f1 w1 show ?thesis by simp
    next
      case bad: False
      then have "w' = w1" "f' = f1" "n = iFrame + 1" using Cons.prems(1) [unfolded x framesLoop_append [OF False] wr prod.case] by simp_all
      with w1 f1 Cons.prems(4) show ?thesis by simp
    qed
  qed
qed simp

lemma rewriteLoop_low:
  "rewriteLoop be readRc writeRc is w f = (rc, w', f') \<Longrightarrow> \<forall>i \<in> set is. c < i \<Longrightarrow> j < walFrameOffset (Suc c) (szPage w) \<Longrightarrow> f' j = f j"
proof (induction "is" arbitrary: w f)
  case (Cons i "is")
  let ?o = "walFrameOffset i (szPage w)"
  have le: "walFrameOffset (Suc c) (szPage w) \<le> ?o" using Cons.prems(2) by (intro walFrameOffset_le) auto
  obtain w1 g where e: "walEncodeFrame be w (sqlite3Get4byte (ptr f ?o)) (sqlite3Get4byte (ptr (ptr f ?o) 4)) (ptr (ptr f ?o) WAL_FRAME_HDRSIZE) (\<lambda>_. 0) = (w1, g)" by fastforce
  obtain rc1 f1 where o: "osWrite writeRc (map g [0..<WAL_FRAME_HDRSIZE]) ?o f = (rc1, f1)" by fastforce
  have sz: "szPage w1 = szPage w" using e by (auto simp: walEncodeFrame_def Let_def set_cksum_def split: if_splits)
  have f1: "f1 j = f j" using osWrite_low [OF o] Cons.prems(3) le by simp
  have "f' = f \<or> f' = f1 \<or> rewriteLoop be readRc writeRc is w1 f1 = (rc, w', f')"
    using Cons.prems(1) unfolding rewriteLoop.simps Let_def e prod.case o by (auto split: if_splits)
  with Cons.IH [of w1 f1] Cons.prems(2,3) sz f1 show ?case by auto
qed simp

lemma padLoop_low:
  "padLoop be writeRc syncRc sp p d nT k w f = (rc, w', f', n) \<Longrightarrow> j < k \<Longrightarrow> f' j = f j"
proof (induction "sp - k" arbitrary: k w f n rule: less_induct)
  case less
  obtain rc1 w1 f1 where wr: "walWriteOneFrame be writeRc syncRc sp p d nT k w f = (rc1, w1, f1)" by (metis prod_cases3)
  let ?k = "k + WAL_FRAME_HDRSIZE + szPage w"
  have f1: "f1 j = f j" using WriteOneFrame_low(1) [OF wr less.prems(2)] .
  have "f' = f \<or> f' = f1 \<or> k < sp \<and> (\<exists>m. padLoop be writeRc syncRc sp p d nT ?k w1 f1 = (rc, w', f', m))"
    using less.prems(1) by (subst (asm) padLoop.simps) (auto simp: wr split: if_splits prod.splits)
  moreover have "f' j = f1 j" if "k < sp" "padLoop be writeRc syncRc sp p d nT ?k w1 f1 = (rc, w', f', m)" for m
    using less.hyps [OF _ that(2)] that(1) less.prems(2) by linarith
  ultimately show ?case using f1 by auto
qed

lemma walFramesPad_low:
  "walFramesPad be writeRc syncRc doSync sector p d nT k w f = (rc, w', f', n, b) \<Longrightarrow> j < k \<Longrightarrow> f' j = f j"
  by (auto simp: walFramesPad_def Let_def dest: padLoop_low split: if_splits option.splits prod.splits)

lemma walFramesWrite_low:
  assumes "walFramesWrite be readRc writeRc hdrSync syncRc ms rnd sz ps nTruncate isCommit doSync sector iFirst w f = (rc, w', f')"
    and "mxFrame (wi w) \<noteq> 0" and "c \<le> mxFrame (wi w)" and "iFirst = 0 \<or> c < iFirst" and "iReCksum (wi w) = 0 \<or> c < iReCksum (wi w)"
    and "j < walFrameOffset (Suc c) (szPage w)"
  shows "f' j = f j"
proof (cases "szPage w = sz")
  case False
  with assms(1,2) show ?thesis by (simp add: walFramesWrite_def walFramesHeader_def)
next
  case True
  obtain rc2 w2 f2 n qs where lp: "framesLoop be writeRc syncRc isCommit nTruncate iFirst ps (mxFrame (wi w)) w f = (rc2, w2, f2, n, qs)"
    by (metis prod_cases5)
  obtain rc3 w3 f3 where ck: "walFramesCksum be readRc writeRc ms isCommit n w2 f2 = (rc3, w3, f3)" by (metis prod_cases3)
  obtain rc4 w4 f4 k b where pd: "walFramesPad be writeRc syncRc (isCommit \<and> doSync) sector (fst (last ps)) (snd (last ps)) nTruncate (walFrameOffset (n + 1) sz) w3 f3 = (rc4, w4, f4, k, b)"
    by (metis prod_cases5)
  have hd: "walFramesHeader be writeRc hdrSync rnd sz w f = (SQLITE_OK, w, f)" using assms(2) by (simp add: walFramesHeader_def)
  have f': "f' = f2 \<or> (f' = f3 \<or> f' = f4) \<and> rc2 = SQLITE_OK"
    using assms(1) True unfolding walFramesWrite_def hd prod.case lp ck pd Let_def by (auto split: if_splits prod.splits)
  note W = framesLoop_low [OF lp assms(3,4,5)]
  have "f3 j = f2 j"
  proof (cases "f3 = f2")
    case False
    then obtain v m where "rewriteLoop be readRc writeRc [iReCksum (wi w2)..<m] v f2 = (rc3, w3, f3)" "szPage v = szPage w2" "iReCksum (wi w2) \<noteq> 0"
      using ck by (auto simp: walFramesCksum_def walRewriteChecksums_def Let_def split: if_splits simp del: upt_Suc)
    then show ?thesis using rewriteLoop_low [of be readRc writeRc _ v f2 rc3 w3 f3 c j] W assms(6) by auto
  qed simp
  moreover have "f4 j = f3 j"
    using walFramesPad_low [OF pd, of j] W assms(3,6) walFrameOffset_le [of "Suc c" "n + 1" sz] True by simp
  ultimately show ?thesis using f' W assms(6) by auto
qed


subsection \<open>What a call leaves alone\<close>

lemma framesLoop_writer:
  "framesLoop be writeRc syncRc isCommit nTruncate iFirst ps iFrame w f = (rc, w', f', n, qs) \<Longrightarrow> same_writer w w'"
proof (induction ps arbitrary: iFrame w f qs)
  case (Cons x ps)
  obtain p d where x: "x = (p, d)" by fastforce
  let ?i = "snd (walFindFrame (wi w) p)"
  show ?case
  proof (cases "iFirst \<noteq> 0 \<and> (ps \<noteq> [] \<or> \<not> isCommit) \<and> ?i \<ge> iFirst")
    case True
    let ?w = "if iReCksum (wi w) = 0 \<or> ?i < iReCksum (wi w) then w\<lparr>wi := (wi w)\<lparr>iReCksum := ?i\<rparr>\<rparr> else w"
    have sw: "same_writer w ?w" using same_writer_refl same_writer_cksum(2) by simp
    obtain rc1 f1 where o: "osWrite writeRc d (walFrameOffset ?i (szPage w) + WAL_FRAME_HDRSIZE) f = (rc1, f1)" by fastforce
    from Cons.prems [unfolded x framesLoop_overwrite [OF True] o prod.case]
    have "w' = ?w \<or> framesLoop be writeRc syncRc isCommit nTruncate iFirst ps iFrame ?w f1 = (rc, w', f', n, qs)"
      by (cases "rc1 = SQLITE_OK") (simp_all split del: if_split)
    then show ?thesis using sw Cons.IH same_writer_trans by blast
  next
    case False
    obtain rc1 w1 f1 where wr: "walWriteOneFrame be writeRc syncRc 0 p d (if isCommit \<and> ps = [] then nTruncate else 0) (walFrameOffset (iFrame + 1) (szPage w)) w f = (rc1, w1, f1)"
      by (metis prod_cases3)
    then have sw: "same_writer w w1" using WriteOneFrame_low(2) same_writer_cksum(1) by metis
    from Cons.prems [unfolded x framesLoop_append [OF False] wr prod.case]
    have "w' = w1 \<or> (\<exists>qs1. framesLoop be writeRc syncRc isCommit nTruncate iFirst ps (iFrame + 1) w1 f1 = (rc, w', f', n, qs1))"
      by (cases "rc1 = SQLITE_OK") (auto split: prod.splits)
    then show ?thesis using sw Cons.IH same_writer_trans by blast
  qed
qed (simp add: same_writer_refl)

lemma encode_writer: "walEncodeFrame be w p n d a = (w', a') \<Longrightarrow> \<exists>c. w' = set_cksum c w"
  using set_cksum_same [of w] unfolding walEncodeFrame_def Let_def by (metis Pair_inject)

lemma rewriteLoop_writer: "rewriteLoop be readRc writeRc is w f = (rc, w', f') \<Longrightarrow> \<exists>c. w' = set_cksum c w"
proof (induction "is" arbitrary: w f)
  case (Cons i "is")
  let ?o = "walFrameOffset i (szPage w)"
  obtain w1 g where e: "walEncodeFrame be w (sqlite3Get4byte (ptr f ?o)) (sqlite3Get4byte (ptr (ptr f ?o) 4)) (ptr (ptr f ?o) WAL_FRAME_HDRSIZE) (\<lambda>_. 0) = (w1, g)" by fastforce
  obtain rc1 f1 where o: "osWrite writeRc (map g [0..<WAL_FRAME_HDRSIZE]) ?o f = (rc1, f1)" by fastforce
  have "w' = w \<or> w' = w1 \<or> rewriteLoop be readRc writeRc is w1 f1 = (rc, w', f')"
    using Cons.prems unfolding rewriteLoop.simps Let_def e prod.case o by (auto split: if_splits)
  then show ?case using Cons.IH [of w1 f1] encode_writer [OF e] set_cksum_ex [of w] set_cksum_twice by metis
qed (use set_cksum_ex in simp)

lemma walFramesCksum_writer:
  assumes "walFramesCksum be readRc writeRc ms isCommit n w f = (rc, w', f')"
  shows "same_writer w w'" "iReCksum (wi w') = 0 \<or> iReCksum (wi w') = iReCksum (wi w)" "isCommit \<Longrightarrow> rc = SQLITE_OK \<Longrightarrow> iReCksum (wi w') = 0"
proof -
  let ?v = "\<lambda>c. w\<lparr>wi := (wi w)\<lparr>aFrameCksum := c, iReCksum := 0\<rparr>\<rparr>"
  have "w' = w \<and> (isCommit \<and> rc = SQLITE_OK \<longrightarrow> iReCksum (wi w) = 0) \<or> (\<exists>c. w' = ?v c)"
  proof (cases "isCommit \<and> iReCksum (wi w) \<noteq> 0 \<and> malloc_ok ms")
    case True
    then obtain v l where "v = w' \<or> rewriteLoop be readRc writeRc l v f = (rc, w', f')" and v: "\<exists>c. v = ?v c"
      using assms by (auto simp: walFramesCksum_def walRewriteChecksums_def Let_def split: if_splits simp del: upt_Suc)
    then obtain c where c: "w' = set_cksum c v" using rewriteLoop_writer set_cksum_ex by blast
    from v obtain c0 where "v = ?v c0" by blast
    with c have "w' = ?v c" by (simp add: set_cksum_def)
    then show ?thesis by blast
  next
    case False
    with assms show ?thesis by (auto simp: walFramesCksum_def walRewriteChecksums_def split: if_splits)
  qed
  then show "same_writer w w'" "iReCksum (wi w') = 0 \<or> iReCksum (wi w') = iReCksum (wi w)" "isCommit \<Longrightarrow> rc = SQLITE_OK \<Longrightarrow> iReCksum (wi w') = 0"
    using same_writer_refl same_writerI by auto
qed

lemma padLoop_writer: "padLoop be writeRc syncRc sp p d nT k w f = (rc, w', f', n) \<Longrightarrow> \<exists>c. w' = set_cksum c w"
proof (induction "sp - k" arbitrary: k w f n rule: less_induct)
  case less
  obtain rc1 w1 f1 where wr: "walWriteOneFrame be writeRc syncRc sp p d nT k w f = (rc1, w1, f1)" by (metis prod_cases3)
  let ?k = "k + WAL_FRAME_HDRSIZE + szPage w"
  have "w' = w \<or> w' = w1 \<or> k < sp \<and> (\<exists>m. padLoop be writeRc syncRc sp p d nT ?k w1 f1 = (rc, w', f', m))"
    using less.prems by (subst (asm) padLoop.simps) (auto simp: wr split: if_splits prod.splits)
  moreover have "\<exists>c. w' = set_cksum c w1" if "k < sp" "padLoop be writeRc syncRc sp p d nT ?k w1 f1 = (rc, w', f', m)" for m
    by (rule less.hyps [OF _ that(2)]) (use that(1) in linarith)
  ultimately show ?case using WriteOneFrame_low(2) [OF wr] set_cksum_ex [of w] set_cksum_twice by metis
qed

lemma walFramesPad_writer:
  assumes "walFramesPad be writeRc syncRc doSync sector p d nT k w f = (rc, w', f', n, b)"
  shows "same_writer w w'" "iReCksum (wi w') = iReCksum (wi w)"
proof -
  have "\<exists>c. w' = set_cksum c w"
  proof (cases "w' = w")
    case False
    then obtain sp m where "padLoop be writeRc syncRc sp p d nT k w f = (rc, w', f', m)"
      using assms by (auto simp: walFramesPad_def Let_def split: if_splits option.splits prod.splits)
    then show ?thesis by (rule padLoop_writer)
  qed (use set_cksum_ex in simp)
  then obtain c where c: "w' = set_cksum c w" by blast
  show "same_writer w w'" unfolding c by (rule same_writer_cksum(1))
  show "iReCksum (wi w') = iReCksum (wi w)" by (simp add: c set_cksum_def)
qed

lemma cleanup_tables: "\<exists>t. walCleanupHash s = s\<lparr>apWiData := t\<rparr>"
  by (cases "mxFrame s = 0"; cases "walHashGet s (walFramePage (mxFrame s))")
    (auto simp: walCleanupHash_def set_table_def Let_def intro: exI [of _ "apWiData s"])

lemma walIndexAppend_tables:
  assumes "walIndexAppend s i p = (rc, s')"
  shows "\<exists>t. s' = s\<lparr>apWiData := t\<rparr>"
proof (cases "walHashGet s (walFramePage i)")
  case (Inl r)
  with assms show ?thesis by (intro exI [of _ "apWiData s"]) (auto simp: walIndexAppend_def Let_def)
next
  case (Inr a)
  obtain t z where a: "a = (t, z)" by fastforce
  define s1 where "s1 = (if i - z = 1 then set_table s (walFramePage i) (zero_table (walFramePage i) t) else s)"
  define s2 where "s2 = (if aPgno (apWiData s1 (walFramePage i)) (i - z - 1) \<noteq> 0 then walCleanupHash s1 else s1)"
  note step = assms [unfolded walIndexAppend_def Let_def Inr a sum.case prod.case, folded s1_def, folded s2_def]
  have tab: "\<exists>u. set_table v h t = v\<lparr>apWiData := u\<rparr>" for v h t by (auto simp: set_table_def)
  have "\<exists>u. s1 = s\<lparr>apWiData := u\<rparr>" using tab [of s] by (cases "i - z = 1") (auto simp: s1_def intro: exI [of _ "apWiData s"])
  then obtain u where u: "s1 = s\<lparr>apWiData := u\<rparr>" by blast
  have "\<exists>v. s2 = s1\<lparr>apWiData := v\<rparr>" using cleanup_tables [of s1] by (auto simp: s2_def intro: exI [of _ "apWiData s1"])
  then have s2: "\<exists>t. s2 = s\<lparr>apWiData := t\<rparr>" by (auto simp: u)
  have "s' = s2 \<or> (\<exists>h t. s' = set_table s2 h t)"
    using step by (cases "walAppendProbe (i - z) (aHash (apWiData s2 (walFramePage i))) (walHash p)") (simp_all, blast)
  then show ?thesis using tab [of s2] s2 by auto
qed

lemma appendLoop_tables: "appendLoop s n ps = (rc, s', m) \<Longrightarrow> (\<exists>t. s' = s\<lparr>apWiData := t\<rparr>) \<and> n \<le> m"
proof (induction ps arbitrary: s n)
  case Nil
  then show ?case by (auto intro: exI [of _ "apWiData s"])
next
  case (Cons p ps)
  obtain rc1 s1 where a: "walIndexAppend s (n + 1) p = (rc1, s1)" by fastforce
  from walIndexAppend_tables [OF a] obtain t where t: "s1 = s\<lparr>apWiData := t\<rparr>" by blast
  show ?case
  proof (cases "rc1 = SQLITE_OK")
    case True
    with Cons.prems a have "appendLoop s1 (n + 1) ps = (rc, s', m)" by simp
    from Cons.IH [OF this] show ?thesis by (auto simp: t)
  next
    case False
    with Cons.prems a show ?thesis by (auto simp: t)
  qed
qed

text \<open>The fields that matter to the committed frames: the end of the log and of its committed part, and the frames to be checksummed again.\<close>

lemma walFramesIndex_frame:
  assumes "walFramesIndex s qs isCommit = (rc, s')"
  shows "mxFrame s \<le> mxFrame s'" "hdrFrame s' = (if isCommit \<and> rc = SQLITE_OK then mxFrame s' else hdrFrame s)"
    "iReCksum s' = iReCksum s" "nCkpt s' = nCkpt s" "readLock s' = readLock s"
proof -
  obtain rc1 s1 m where a: "appendLoop s (mxFrame s) qs = (rc1, s1, m)" by (metis prod_cases3)
  from appendLoop_tables [OF this] obtain t where "s1 = s\<lparr>apWiData := t\<rparr>" "mxFrame s \<le> m" by blast
  with assms a show "mxFrame s \<le> mxFrame s'" "hdrFrame s' = (if isCommit \<and> rc = SQLITE_OK then mxFrame s' else hdrFrame s)"
    "iReCksum s' = iReCksum s" "nCkpt s' = nCkpt s" "readLock s' = readLock s"
    by (auto simp: walFramesIndex_def split: if_splits)
qed

definition kept :: "nat \<Rightarrow> wal \<Rightarrow> wal \<Rightarrow> bool" where
  "kept c w v \<longleftrightarrow> mxFrame (wi v) = mxFrame (wi w) \<and> hdrFrame (wi v) = hdrFrame (wi w) \<and> nCkpt (wi v) = nCkpt (wi w) \<and>
     readLock (wi v) = readLock (wi w) \<and> (iReCksum (wi v) = 0 \<or> c < iReCksum (wi v)) \<and> (mxFrame (wi w) \<noteq> 0 \<longrightarrow> szPage v = szPage w)"

lemma kept_writer: "kept c w v \<Longrightarrow> same_writer v v' \<Longrightarrow> iReCksum (wi v') = 0 \<or> c < iReCksum (wi v') \<Longrightarrow> kept c w v'"
  by (elim disjE) (clarsimp simp: kept_def same_writer_def)+

lemma kept_header:
  assumes "walFramesHeader be writeRc hdrSync rnd sz w f = (rc, w', f')" "iReCksum (wi w) = 0 \<or> c < iReCksum (wi w)"
  shows "kept c w w'"
proof (cases "mxFrame (wi w) = 0")
  case True
  obtain v h where v: "walHeader be sz rnd w = (v, h)" by fastforce
  have "w' = v" using assms(1) True by (auto simp: walFramesHeader_def v split: prod.splits if_splits)
  then have "wi w' = (wi w)\<lparr>aFrameCksum := aFrameCksum (wi w')\<rparr>"
    using v unfolding walHeader_def Let_def by (auto simp: set_cksum_def)
  then obtain d where "wi w' = (wi w)\<lparr>aFrameCksum := d\<rparr>" by blast
  then show ?thesis using assms(2) True by (simp add: kept_def)
next
  case False
  with assms show ?thesis by (simp add: walFramesHeader_def kept_def)
qed

text \<open>\<open>txn_kept c\<close> relates the connection before and after a call that commits or not, \<open>c\<close> being the end of the committed frames.\<close>

definition txn_kept :: "nat \<Rightarrow> bool \<Rightarrow> wal \<Rightarrow> wal \<Rightarrow> bool" where
  "txn_kept c committed w w' \<longleftrightarrow> readLock (wi w') = readLock (wi w) \<and> nCkpt (wi w') = nCkpt (wi w) \<and> mxFrame (wi w) \<le> mxFrame (wi w') \<and>
     hdrFrame (wi w') = (if committed then mxFrame (wi w') else hdrFrame (wi w)) \<and> (iReCksum (wi w') = 0 \<or> \<not> committed \<and> c < iReCksum (wi w')) \<and>
     (mxFrame (wi w) \<noteq> 0 \<longrightarrow> szPage w' = szPage w)"

lemma kept_txn: "kept c w v \<Longrightarrow> txn_kept c False w v"
  by (auto simp: txn_kept_def kept_def)

lemma walFramesWrite_frame:
  assumes call: "walFramesWrite be readRc writeRc hdrSync syncRc ms rnd sz ps nTruncate isCommit doSync sector iFirst w f = (rc, w', f')"
    and c: "c \<le> mxFrame (wi w)" "iFirst = 0 \<or> c < iFirst" "iReCksum (wi w) = 0 \<or> c < iReCksum (wi w)"
  shows "txn_kept c (isCommit \<and> rc = SQLITE_OK) w w'"
proof -
  obtain rc1 w1 f1 where hd: "walFramesHeader be writeRc hdrSync rnd sz w f = (rc1, w1, f1)" by (metis prod_cases3)
  note k1 = kept_header [OF hd c(3)]
  obtain rc2 w2 f2 n qs where lp: "framesLoop be writeRc syncRc isCommit nTruncate iFirst ps (mxFrame (wi w1)) w1 f1 = (rc2, w2, f2, n, qs)" by (metis prod_cases5)
  have "iReCksum (wi w1) = 0 \<or> c < iReCksum (wi w1)" "c \<le> mxFrame (wi w1)" using k1 c(1) by (auto simp: kept_def)
  then have k2: "kept c w w2" using framesLoop_low [OF lp _ c(2)] framesLoop_writer [OF lp] kept_writer [OF k1] by blast
  obtain rc3 w3 f3 where ck: "walFramesCksum be readRc writeRc ms isCommit n w2 f2 = (rc3, w3, f3)" by (metis prod_cases3)
  note C = walFramesCksum_writer [OF ck]
  have k3: "kept c w w3" using kept_writer [OF k2 C(1)] C(2) k2 by (auto simp: kept_def)
  obtain rc4 w4 f4 k b where pd: "walFramesPad be writeRc syncRc (isCommit \<and> doSync) sector (fst (last ps)) (snd (last ps)) nTruncate (walFrameOffset (n + 1) sz) w3 f3 = (rc4, w4, f4, k, b)"
    by (metis prod_cases5)
  note P = walFramesPad_writer [OF pd]
  have k4: "kept c w w4" using kept_writer [OF k3 P(1)] P(2) k3 by (auto simp: kept_def)
  define w5 where "w5 = (if isCommit \<and> truncateOnCommit w4 \<and> mxWalSize w4 \<ge> 0 then w4\<lparr>truncateOnCommit := False\<rparr> else w4)"
  have w5: "wi w5 = wi w4" "szPage w5 = szPage w4" by (simp_all add: w5_def)
  then have k5: "kept c w w5" using k4 by (simp add: kept_def)
  obtain rc6 s where ix: "walFramesIndex (wi w5) (qs @ replicate k (fst (last ps))) isCommit = (rc6, s)" by fastforce
  note I = walFramesIndex_frame [OF ix] walFramesIndex_published [of "wi w5" "qs @ replicate k (fst (last ps))" isCommit s]
  note step = call [unfolded walFramesWrite_def hd prod.case lp ck pd Let_def, folded w5_def, unfolded ix prod.case]
  have "rc \<noteq> SQLITE_OK \<and> w' \<in> {w1, w2, w3, w4, w5} \<or> rc = rc6 \<and> wi w' = s \<and> szPage w' = szPage w5 \<and> rc3 = SQLITE_OK"
    using step I(6) ix by (auto simp: walIndexWriteHdr_def split: if_splits)
  then show ?thesis
  proof (elim disjE conjE)
    assume "rc \<noteq> SQLITE_OK" "w' \<in> {w1, w2, w3, w4, w5}"
    then show ?thesis using kept_txn [OF k1] kept_txn [OF k2] kept_txn [OF k3] kept_txn [OF k4] kept_txn [OF k5] by auto
  next
    assume "rc = rc6" "wi w' = s" "szPage w' = szPage w5" "rc3 = SQLITE_OK"
    then show ?thesis using I(1-5) k5 C(3) P(2) w5 by (auto simp: txn_kept_def kept_def)
  qed
qed

lemma walRestartLog_frame:
  assumes "walRestartLog lockRc salt1 env w info = (rc, w', info')"
  shows "readLock (wi w) \<noteq> 0 \<Longrightarrow> w' = w" and "iReCksum (wi w') = iReCksum (wi w)"
    and "mxFrame (wi w') = mxFrame (wi w) \<and> hdrFrame (wi w') = hdrFrame (wi w) \<and> nCkpt (wi w') = nCkpt (wi w) \<or>
      mxFrame (wi w') = 0 \<and> hdrFrame (wi w') = 0"
proof -
  define w1 info1 where "w1 = fst (if restarts lockRc w info then walRestartHdr salt1 w info else (w, info))"
    and "info1 = snd (if restarts lockRc w info then walRestartHdr salt1 w info else (w, info))"
  have w1: "iReCksum (wi w1) = iReCksum (wi w)" "mxFrame (wi w1) = mxFrame (wi w) \<and> hdrFrame (wi w1) = hdrFrame (wi w) \<and> nCkpt (wi w1) = nCkpt (wi w) \<or>
      mxFrame (wi w1) = 0 \<and> hdrFrame (wi w1) = 0"
    using walRestartHdr_frame [of salt1 w info w1 info1] by (auto simp: w1_def info1_def)
  have "w' = w \<or> readLock (wi w) = 0 \<and> beginReadLoop env 0 (w1\<lparr>wi := (wi w1)\<lparr>readLock := - 1\<rparr>\<rparr>) info1 = (rc, w', info')"
    using assms by (auto simp: walRestartLog_def restarts_def w1_def info1_def split: if_splits prod.splits)
  then have "w' = w \<or> readLock (wi w) = 0 \<and> (\<exists>k m. w' = w1\<lparr>wi := (wi w1)\<lparr>readLock := k, minFrame := m\<rparr>\<rparr>)"
    using beginReadLoop_frame [of env 0 "w1\<lparr>wi := (wi w1)\<lparr>readLock := - 1\<rparr>\<rparr>" info1 rc w' info'] by fastforce
  then show "readLock (wi w) \<noteq> 0 \<Longrightarrow> w' = w" "iReCksum (wi w') = iReCksum (wi w)"
    "mxFrame (wi w') = mxFrame (wi w) \<and> hdrFrame (wi w') = hdrFrame (wi w) \<and> nCkpt (wi w') = nCkpt (wi w) \<or> mxFrame (wi w') = 0 \<and> hdrFrame (wi w') = 0"
    using w1 by auto
qed

subsection \<open>Transactions\<close>

text \<open>
  The connection, the checkpoint information, the file and the savepoints of the transaction.  Other
  connections may change the checkpoint information at any time; a commit or a rollback releases the
  savepoints.
\<close>

record txn_state =
  conn :: wal
  ckpt :: wal_ckpt_info
  log_file :: mem
  saves :: "wal_savepoint list"

inductive wal_txn :: "txn_state \<Rightarrow> txn_state \<Rightarrow> bool" where
  frames: "walFrames be lockRc salt1 env readRc writeRc hdrSync syncRc ms rnd sz ps nTruncate isCommit doSync sector (conn s) (ckpt s) (log_file s) = (rc, w, info, f) \<Longrightarrow>
    wal_txn s \<lparr>conn = w, ckpt = info, log_file = f, saves = (if isCommit \<and> rc = SQLITE_OK then [] else saves s)\<rparr>"
| undo: "walUndo xUndo (conn s) () = (rc, w, ()) \<Longrightarrow> wal_txn s (s\<lparr>conn := w, saves := []\<rparr>)"
| savepoint: "wal_txn s (s\<lparr>saves := sqlite3WalSavepoint (wi (conn s)) # saves s\<rparr>)"
| savepoint_undo: "sp \<in> set (saves s) \<Longrightarrow> sqlite3WalSavepointUndo (wi (conn s)) sp = (i, sp') \<Longrightarrow>
    wal_txn s (s\<lparr>conn := (conn s)\<lparr>wi := i\<rparr>, saves := sp' # saves s\<rparr>)"
| others: "wal_txn s (s\<lparr>ckpt := info\<rparr>)"

inductive_cases wal_txnE: "wal_txn s s'"

definition txn_inv :: "wal \<Rightarrow> wal_savepoint list \<Rightarrow> bool" where
  "txn_inv w S \<longleftrightarrow> hdrFrame (wi w) \<le> mxFrame (wi w) \<and> (iReCksum (wi w) = 0 \<or> hdrFrame (wi w) < iReCksum (wi w)) \<and>
     (\<forall>(m, d, n) \<in> set S. if n = nCkpt (wi w) then hdrFrame (wi w) \<le> m else hdrFrame (wi w) = 0)"

lemma txn_inv_kept: "txn_inv w S \<Longrightarrow> txn_kept (hdrFrame (wi w)) b w w' \<Longrightarrow> txn_inv w' (if b then [] else S)"
  by (cases b) (auto simp: txn_inv_def txn_kept_def)

text \<open>One call: the invariant, and the bytes of the committed frames unless the log restarts.\<close>

lemma walFrames_step:
  assumes call: "walFrames be lockRc salt1 env readRc writeRc hdrSync syncRc ms rnd sz ps nTruncate isCommit doSync sector w info f = (rc, w', info', f')"
    and inv: "txn_inv w S"
  shows "txn_inv w' (if isCommit \<and> rc = SQLITE_OK then [] else S)"
    and "readLock (wi w) \<noteq> 0 \<Longrightarrow> txn_kept (hdrFrame (wi w)) (isCommit \<and> rc = SQLITE_OK) w w'"
    and "readLock (wi w) \<noteq> 0 \<Longrightarrow> hdrFrame (wi w) \<noteq> 0 \<Longrightarrow> j < walFrameOffset (Suc (hdrFrame (wi w))) (szPage w) \<Longrightarrow> f' j = f j"
proof -
  let ?i = "if hdrChanged w then hdrFrame (wi w) + 1 else 0"
  obtain rc1 w1 info1 where r: "walRestartLog lockRc salt1 env w info = (rc1, w1, info1)" by (metis prod_cases3)
  note R = walRestartLog_frame [OF r]
  have inv1: "txn_inv w1 S" using inv R(2,3) by (fastforce simp: txn_inv_def)
  have c: "hdrFrame (wi w1) \<le> mxFrame (wi w1)" "?i = 0 \<or> hdrFrame (wi w1) < ?i" "iReCksum (wi w1) = 0 \<or> hdrFrame (wi w1) < iReCksum (wi w1)"
    using inv1 R(3) by (auto simp: txn_inv_def)
  have k: "w' = w1 \<and> f' = f \<and> rc \<noteq> SQLITE_OK \<or>
    walFramesWrite be readRc writeRc hdrSync syncRc ms rnd sz ps nTruncate isCommit doSync sector ?i w1 f = (rc, w', f')"
    using call unfolding walFrames_def Let_def r by (auto split: if_splits prod.splits)
  have same: "txn_kept (hdrFrame (wi w1)) (isCommit \<and> rc = SQLITE_OK) w1 w1" if "rc \<noteq> SQLITE_OK" using c(3) that by (simp add: txn_kept_def)
  have "txn_kept (hdrFrame (wi w1)) (isCommit \<and> rc = SQLITE_OK) w1 w'"
    using k walFramesWrite_frame [OF _ c] same by blast
  with txn_inv_kept [OF inv1] R(1) show "txn_inv w' (if isCommit \<and> rc = SQLITE_OK then [] else S)"
    "readLock (wi w) \<noteq> 0 \<Longrightarrow> txn_kept (hdrFrame (wi w)) (isCommit \<and> rc = SQLITE_OK) w w'" by auto
  show "f' j = f j" if "readLock (wi w) \<noteq> 0" "hdrFrame (wi w) \<noteq> 0" "j < walFrameOffset (Suc (hdrFrame (wi w))) (szPage w)"
  proof -
    have w1: "w1 = w" using R(1) that(1) .
    have "mxFrame (wi w1) \<noteq> 0" using c(1) that(2) by (simp add: w1)
    then show ?thesis using k walFramesWrite_low [OF _ _ c] that(3) unfolding w1 by blast
  qed
qed

lemma cleanup_keeps: "mxFrame (walCleanupHash s) = mxFrame s" "hdrFrame (walCleanupHash s) = hdrFrame s" "nCkpt (walCleanupHash s) = nCkpt s"
  "iReCksum (walCleanupHash s) = iReCksum s" "readLock (walCleanupHash s) = readLock s"
  using cleanup_tables [of s] by auto

lemma wal_txn_inv: "wal_txn s s' \<Longrightarrow> txn_inv (conn s) (saves s) \<Longrightarrow> txn_inv (conn s') (saves s')"
proof (induction rule: wal_txn.induct)
  case (frames be lockRc salt1 env readRc writeRc hdrSync syncRc ms rnd sz ps nTruncate isCommit doSync sector s rc w info f)
  then show ?case using walFrames_step(1) by simp
next
  case (undo xUndo s rc w)
  then show ?case
    by (auto simp: walUndo_def sqlite3WalUndo_def Let_def txn_inv_def cleanup_keeps split: prod.splits if_splits)
next
  case (savepoint s)
  then show ?case by (auto simp: sqlite3WalSavepoint_def txn_inv_def)
next
  case (savepoint_undo sp s i sp')
  obtain m d n where sp: "sp = (m, d, n)" by (cases sp) auto
  let ?m = "if n \<noteq> nCkpt (wi (conn s)) then 0 else m"
  have m: "hdrFrame (wi (conn s)) \<le> ?m" using savepoint_undo(1,3) by (auto simp: txn_inv_def sp split: if_splits)
  have sp': "sp' = (?m, d, nCkpt (wi (conn s)))" using savepoint_undo(2) by (auto simp: sqlite3WalSavepointUndo_def sp Let_def)
  have "i = wi (conn s) \<or> ?m < mxFrame (wi (conn s)) \<and> mxFrame i = ?m"
    "hdrFrame i = hdrFrame (wi (conn s))" "nCkpt i = nCkpt (wi (conn s))" "iReCksum i = 0 \<or> iReCksum i = iReCksum (wi (conn s))"
    using savepoint_undo(2) cleanup_keeps by (auto simp: sqlite3WalSavepointUndo_def sp Let_def split: if_splits)
  then show ?case using savepoint_undo(3) m by (auto simp: txn_inv_def sp')
qed simp

lemma wal_txn_low:
  assumes "wal_txn s s'" "txn_inv (conn s) (saves s)" "readLock (wi (conn s)) \<noteq> 0" "hdrFrame (wi (conn s)) \<noteq> 0"
  shows "readLock (wi (conn s')) \<noteq> 0 \<and> szPage (conn s') = szPage (conn s) \<and> hdrFrame (wi (conn s)) \<le> hdrFrame (wi (conn s')) \<and>
    (\<forall>j < walFrameOffset (Suc (hdrFrame (wi (conn s)))) (szPage (conn s)). log_file s' j = log_file s j)"
  using assms
proof (induction rule: wal_txn.induct)
  case (frames be lockRc salt1 env readRc writeRc hdrSync syncRc ms rnd sz ps nTruncate isCommit doSync sector s rc w info f)
  have k: "txn_kept (hdrFrame (wi (conn s))) (isCommit \<and> rc = SQLITE_OK) (conn s) w" using walFrames_step(2) [OF frames(1,2,3)] .
  have "mxFrame (wi (conn s)) \<noteq> 0" "hdrFrame (wi (conn s)) \<le> mxFrame (wi (conn s))" using frames(2,4) by (auto simp: txn_inv_def)
  with k have "readLock (wi w) \<noteq> 0 \<and> szPage w = szPage (conn s) \<and> hdrFrame (wi (conn s)) \<le> hdrFrame (wi w)"
    using frames(3) by (auto simp: txn_kept_def split: if_splits)
  moreover have "\<forall>j < walFrameOffset (Suc (hdrFrame (wi (conn s)))) (szPage (conn s)). f j = log_file s j"
    using walFrames_step(3) [OF frames(1,2,3,4)] by blast
  ultimately show ?case by simp
next
  case (undo xUndo s rc w)
  then show ?case by (auto simp: walUndo_def sqlite3WalUndo_def Let_def cleanup_keeps split: prod.splits if_splits)
next
  case (savepoint_undo sp s i sp')
  then show ?case by (auto simp: sqlite3WalSavepointUndo_def Let_def cleanup_keeps split: prod.splits if_splits)
qed simp_all

lemma wal_txns_inv: "rtranclp wal_txn s s' \<Longrightarrow> txn_inv (conn s) (saves s) \<Longrightarrow> txn_inv (conn s') (saves s')"
  by (induction rule: rtranclp_induct) (auto dest: wal_txn_inv)

lemma wal_txns_low:
  assumes "rtranclp wal_txn s s'" "txn_inv (conn s) (saves s)" "readLock (wi (conn s)) \<noteq> 0" "hdrFrame (wi (conn s)) \<noteq> 0"
  shows "readLock (wi (conn s')) \<noteq> 0 \<and> szPage (conn s') = szPage (conn s) \<and> hdrFrame (wi (conn s)) \<le> hdrFrame (wi (conn s')) \<and>
    (\<forall>j < walFrameOffset (Suc (hdrFrame (wi (conn s)))) (szPage (conn s)). log_file s' j = log_file s j)"
  using assms(1)
proof (induction rule: rtranclp_induct)
  case base
  show ?case using assms(3) by simp
next
  case (step s1 s2)
  have "hdrFrame (wi (conn s1)) \<noteq> 0" using step.IH assms(4) by auto
  from wal_txn_low [OF step.hyps(2) wal_txns_inv [OF step.hyps(1) assms(2)] conjunct1 [OF step.IH] this]
  have *: "readLock (wi (conn s2)) \<noteq> 0 \<and> szPage (conn s2) = szPage (conn s1) \<and> hdrFrame (wi (conn s1)) \<le> hdrFrame (wi (conn s2)) \<and>
    (\<forall>j < walFrameOffset (Suc (hdrFrame (wi (conn s1)))) (szPage (conn s1)). log_file s2 j = log_file s1 j)" .
  have "walFrameOffset (Suc (hdrFrame (wi (conn s)))) (szPage (conn s)) \<le> walFrameOffset (Suc (hdrFrame (wi (conn s1)))) (szPage (conn s))"
    using step.IH by (intro walFrameOffset_le) simp
  with * step.IH show ?case by auto
qed

text \<open>
  C5: committed frames are never overwritten.  Let a connection begin a write transaction and call
  \<^verbatim>\<open>walFrames\<close>, with any pages and any outcome of its reads, writes, syncs, locks and allocations, roll back,
  take savepoints and return to them, in any order, while others change the checkpoint information.  From
  any point at which the connection holds a read mark other than 0 and the log has committed frames, the
  bytes of the log up to the end of these frames are never changed, and the committed part only grows.
  (With the read mark 0 the log may be restarted, since all its frames are then in the database.)
\<close>

theorem wal_txn_keep:
  assumes "mxFrame (wi (conn s0)) = hdrFrame (wi (conn s0))" and "iReCksum (wi (conn s0)) = 0" and "saves s0 = []"
    and "rtranclp wal_txn s0 s" and "rtranclp wal_txn s s'"
    and "readLock (wi (conn s)) \<noteq> 0" and "hdrFrame (wi (conn s)) \<noteq> 0"
  shows "hdrFrame (wi (conn s)) \<le> hdrFrame (wi (conn s')) \<and>
    (\<forall>j < walFrameOffset (Suc (hdrFrame (wi (conn s)))) (szPage (conn s)). log_file s' j = log_file s j)"
proof -
  have "txn_inv (conn s0) (saves s0)" using assms(1-3) by (simp add: txn_inv_def)
  from wal_txns_low [OF assms(5) wal_txns_inv [OF assms(4) this] assms(6,7)] show ?thesis by simp
qed

text \<open>A commit of one page, then a spill of the same page in the next transaction.\<close>

lemma sample_txn:
  "sample_frames ps nTruncate isCommit (conn s) (ckpt s) (log_file s) = (rc, w, info, f) \<Longrightarrow>
   wal_txn s \<lparr>conn = w, ckpt = info, log_file = f, saves = (if isCommit \<and> rc = SQLITE_OK then [] else saves s)\<rparr>"
  unfolding sample_frames_def by (rule frames)

theorem wal_txn_keep_witness:
  "\<exists>w f w' f'. sample_frames [(3, replicate 512 9)] 3 True fresh_wal fresh_ckpt_info (\<lambda>_. 0) = (SQLITE_OK, w, fresh_ckpt_info, f) \<and>
    sample_frames [(3, replicate 512 7), (4, replicate 512 6)] 0 False w fresh_ckpt_info f = (SQLITE_OK, w', fresh_ckpt_info, f') \<and> map f' [0..<568] = map f [0..<568]"
proof -
  obtain w f L N where c1: "sample_frames [(3, replicate 512 9)] 3 True fresh_wal fresh_ckpt_info (\<lambda>_. 0) = (SQLITE_OK, w, fresh_ckpt_info, f)"
    and r: "wal_ready w f L N" "L \<noteq> []" "length L \<le> 1" "szPage w = 512"
    by (rule sample_frames_ok [OF fresh_wal_ready [of "\<lambda>_. 0"], of "[(3, replicate 512 9)]" 3 True fresh_ckpt_info]) auto
  obtain w' f' where c2: "sample_frames [(3, replicate 512 7), (4, replicate 512 6)] 0 False w fresh_ckpt_info f = (SQLITE_OK, w', fresh_ckpt_info, f')"
    by (rule sample_frames_ok [OF r(1), of "[(3, replicate 512 7), (4, replicate 512 6)]" 0 False fresh_ckpt_info]) (use r in auto)
  let ?init = "\<lparr>conn = fresh_wal, ckpt = fresh_ckpt_info, log_file = (\<lambda>_. 0), saves = []\<rparr>"
  let ?s = "\<lparr>conn = w, ckpt = fresh_ckpt_info, log_file = f, saves = []\<rparr>" and ?s' = "\<lparr>conn = w', ckpt = fresh_ckpt_info, log_file = f', saves = []\<rparr>"
  have s1: "wal_txn ?init ?s" using sample_txn [of "[(3, replicate 512 9)]" 3 True ?init SQLITE_OK w fresh_ckpt_info f] c1 by simp
  have s2: "wal_txn ?s ?s'" using sample_txn [of "[(3, replicate 512 7), (4, replicate 512 6)]" 0 False ?s SQLITE_OK w' fresh_ckpt_info f'] c2 by simp
  have rl: "readLock (wi w) \<noteq> 0" using r(1) by (simp add: wal_ready_def)
  have "txn_kept 0 True fresh_wal w"
    using walFrames_step(2) [OF c1 [unfolded sample_frames_def], of "[]"] by (simp add: txn_inv_def fresh_wal_def fresh_index_def)
  moreover have "mxFrame (wi w) = 1" using r by (cases L) (auto simp: wal_ready_def log_ready_def)
  ultimately have h: "hdrFrame (wi w) = 1" by (simp add: txn_kept_def)
  have "\<forall>j < walFrameOffset (Suc (hdrFrame (wi w))) (szPage w). f' j = f j"
    using wal_txn_keep [of ?init ?s ?s', OF _ _ _ r_into_rtranclp r_into_rtranclp] s1 s2 rl h
    by (simp add: fresh_wal_def fresh_index_def)
  then have "map f' [0..<568] = map f [0..<568]" by (simp add: h r(4) walFrameOffset_def)
  with c1 c2 show ?thesis by blast
qed

end
