(* ===== verification/Spec2Isabelle.thy ===== *)
theory Spec2Isabelle
  imports Varint Bitvec RowSet Text_Util Hash_Table Int_Arith Int_Text Tokenizer MemJournal Mem5
    CJson_String Complete Utf Like Record_Format Wal_Txn
begin

text \<open>
  \<^bold>\<open>What this development verifies.\<close>  The repository builds four fuzzing targets: the SQLite
  library (test_targets/sqlite3_full), its amalgamation, the JSON library cJSON and re2, the
  first and the third with a few planted memory errors.  The theories below model the
  foundations that the rest of SQLite is built on, and the string half of cJSON, each from
  its C source, and prove what the components promise.

  \<^bold>\<open>Conventions\<close> (theory Sqlite_Prelude).  Machine integers are words of their width, or \<open>nat\<close>
  and \<open>int\<close> with the wrap-around written out.  A pointer into bytes is the memory seen from it,
  a function from offsets to bytes; a zero-terminated string is the list of its bytes.  An
  error or an undefined access is a value (\<open>option\<close>, \<open>rc\<close>), and each allocation of a call is
  one entry of an explicit list of outcomes.  Loops are recursive functions with termination
  proofs.  Three functions recurse on a bound, which the properties prove to be enough: the recursion of
  \<open>bitvecSet\<close> into sub-bitmaps, the draining of a rowid set, and the list of tokens of a text.  Where a
  loop could run out of an array (the 40 buckets of the rowid sort, the probe sequence of a hash table)
  the model returns \<open>None\<close>, and the properties prove that it does not.

  \<^bold>\<open>Components.\<close>
  \<^item> Wal_Index: the hash tables of the wal-index (wal.c).  After any history of frames, commits,
    rollbacks, savepoints and lost writers a lookup gives the latest frame of the page, and a
    reader keeps the snapshot it started with.
  \<^item> Wal_Frame: checksums, frames and recovery (\<^verbatim>\<open>walIndexRecover\<close>).  The checksum does not depend
    on the byte order of the machine, and recovery finds the last commit among the valid frames.
  \<^item> Wal_Commit: \<^verbatim>\<open>walFrames\<close>, with the restart of a log whose frames are all in the database
    (\<^verbatim>\<open>walRestartLog\<close>) and the read mark that the writer takes then (\<^verbatim>\<open>walTryBeginRead\<close>).  The pages that a
    log holds are a map; a commit updates this map by the pages of the transaction, also through
    overwritten frames and rewritten checksums, and recovery reads the updated map from the file.
  \<^item> Wal_Txn: write transactions as a step relation over \<^verbatim>\<open>walFrames\<close>, rollbacks and savepoints.  In every
    reachable state the committed frames are as they were, whatever fails on the way.
  \<^item> Record_Format: the records of tables and indexes (vdbe.c, vdbeaux.c).  Unpacking inverts
    OP_MakeRecord, which stays within the length it has counted.
  \<^item> Byte_Codec, Varint: the variable-length and fixed-width integers of the file format
    (util.c, btreeInt.h).  The locale of Byte_Codec states what a codec promises; the 9-byte
    unrolled reader equals a byte-at-a-time reference and inverts the writer on every 64-bit
    value.
  \<^item> Linear_Probe, Bitvec: the set of page numbers of bitvec.c in its three representations
    (bitmap, open-addressed hash, sub-bitmaps).  Linear_Probe is the interface of a probe
    table, interpreted on the hash form.  Set, clear and test implement a finite set and keep
    the invariant through every change of representation; an allocation failure is reported.
  \<^item> RowSet: rowset.c.  Batched tests against a forest of balanced trees refine an abstract set
    with batches; extraction yields the sorted distinct values; the merge sort is correct and
    never exhausts its buckets.
  \<^item> Text_Util: character classes, case folding, dequoting, hexadecimal (global.c, util.c).
  \<^item> Hash_Table: hash.c, an element list threaded through buckets.  Any history of insertions,
    replacements and deletions, with re-hashing and failing allocations, is a history of
    updates of a map on case-folded names, in which only a new name whose element cannot be
    allocated is not stored.
  \<^item> Int_Arith, Int_Text: overflow-checked arithmetic, 128- and 160-bit products, logarithmic
    estimates, and the conversions between integers and text (util.c), with the result code
    of every outcome.  Both versions of the checked arithmetic are modelled, with the built-in functions of
    the compiler and without.
  \<^item> Tokenizer: tokenize.c.  Every call makes progress, so the loop that feeds the parser ends;
    the keyword table and the parser are generated and are parameters.  The two unchecked
    copies into small buffers are values without a result, and the properties say exactly
    when they happen.
  \<^item> Complete: the state machine of complete.c against a grammar of statements.
  \<^item> Utf, Like: utf.c and the matcher of func.c.  Encodings round-trip, a translation fits the
    block allocated for it, and the LIKE/GLOB matcher with its early exits decides the
    declarative meaning of patterns, for invalid UTF-8 too.
  \<^item> MemJournal: memjournal.c, a chunked file that spills to disk, refines a list of bytes for
    the calls that a journal gets.
  \<^item> Linked_List, Mem5: the buddy allocator of mem5.c, with free lists threaded through the
    pool.  Blocks never overlap, an allocation fails only when it must, and freeing merges.
  \<^item> CJson_String: parsing and printing of JSON strings (cJSON.c) in bytes and buffers, with
    the two size computations that are off by one.

  \<^bold>\<open>How the components meet.\<close>  Hash_Table, Tokenizer, Complete and CJson_String use the
  character classes and comparisons of Text_Util; Like reads characters through Utf; UTF-8 has
  one reference definition that both cJSON and SQLite are shown to implement.  Byte_Codec is a
  locale that the varints and the big-endian integers interpret; records and log frames are
  written and read through its laws.  Linear_Probe is the locale of a probe table; the hash
  form of Bitvec interprets it, and the wal-index uses its distances.  The locale of
  simulations in Sqlite_Prelude carries an operation-by-operation refinement over
  histories; the wal-index interprets it.  Wal_Commit composes the log theories below it: what
  \<^verbatim>\<open>walFrames\<close> leaves in the file is what \<^verbatim>\<open>walIndexRecover\<close> reads and \<^verbatim>\<open>walFindFrame\<close> finds.

  \<^bold>\<open>Bounds.\<close>  The log theorems assume fewer than \<open>2^32 - 34\<close> frames, below the range where the
  32-bit arithmetic of \<^verbatim>\<open>walFramePage\<close> wraps, and the rowid set fewer than \<open>2^40\<close> operations, for its 40 buckets.
  A failed write is taken to leave the file as it was (a partial write is not modelled), and the number of
  elements of a hash table does not wrap; the results of reads, writes, syncs, locks and allocations
  are arguments.

  \<^bold>\<open>Not modelled.\<close>  The SQL compiler and the bytecode interpreter (they need a semantics of SQL
  and of the bytecode), the B-tree and the pager, the locks and checkpoints of
  the log and the readers that begin a transaction, the operating-system layer, the extensions, the shell, the
  amalgamation (generated from the files modelled here), the tree part and the numbers of
  cJSON, and re2, which is C++.
\<close>

end
